(* ===== verification/Prelude.thy ===== *)
theory Prelude
  imports "HOL-Library.Word" "HOL-Library.Monad_Syntax" "HOL-Library.Signed_Division"
begin

text \<open>
  Shared vocabulary of the development: the C integer types as words, bounds-checked array
  access (\<open>None\<close> is an access outside the array, which C leaves undefined), NUL-terminated
  strings, the \<open>fscanf("%s")\<close> tokeniser, decimal printing and parsing, and the clock type of
  \<open>gettimeofday\<close>.  The generic lemmas here are declared \<open>simp\<close> or collected in
  \<open>arr_simps\<close> and \<open>str_simps\<close>, so that the component theories can stay short.
\<close>

named_theorems arr_simps \<open>bounds-checked array access and first-index search\<close>
named_theorems str_simps \<open>C strings, tokens and decimal numerals\<close>

section \<open>Machine integers\<close>

text \<open>
  A C \<open>int\<close> and a \<open>uint32_t\<close> are both 32-bit words; C's implicit conversions between
  them are the identity on the bits.  Signed readings are written \<open>sint\<close>, unsigned ones
  \<open>uint\<close> or \<open>unat\<close>, at each comparison, as the operand types of the source demand.
\<close>

type_synonym u8 = "8 word"
type_synonym u16 = "16 word"
type_synonym u32 = "32 word"
type_synonym cint = "32 word"

definition cint_div :: "cint \<Rightarrow> cint \<Rightarrow> cint" where
  "cint_div a b = word_of_int (sint a sdiv sint b)"

definition cint_mod :: "cint \<Rightarrow> cint \<Rightarrow> cint" where
  "cint_mod a b = word_of_int (sint a smod sint b)"

definition smax :: "cint \<Rightarrow> cint \<Rightarrow> cint" where
  "smax a b = (if sint a > sint b then a else b)"

definition smin :: "cint \<Rightarrow> cint \<Rightarrow> cint" where
  "smin a b = (if sint a < sint b then a else b)"

lemma sint_range32:
  fixes w :: cint
  shows "- (2 ^ 31) \<le> sint w" and "sint w < 2 ^ 31"
  using sint_ge [of w] sint_lt [of w] by simp_all

lemma nat_sint_lt: "nat (sint (w :: cint)) < 2 ^ 31"
proof -
  have "sint w < int (2 ^ 31)"
    using sint_range32(2) [of w] by simp
  then show ?thesis
    by (cases "0 \<le> sint w") (simp_all add: nat_less_iff)
qed

lemma sint_small:
  fixes w :: cint
  assumes "unat w < 2 ^ 31"
  shows "sint w = int (unat w)"
proof -
  have "int (unat w) < int (2 ^ 31)"
    using assms by (simp only: of_nat_less_iff)
  then have u: "uint w < 2 ^ 31"
    by simp
  have "sint w = signed_take_bit 31 (uint w)"
    using sint_uint [of w] by simp
  also have "\<dots> = uint w"
    by (rule signed_take_bit_int_eq_self) (use u in \<open>auto intro: order_trans [of _ 0]\<close>)
  finally show ?thesis
    by simp
qed

lemma unat_lt32: "unat w < 2 ^ 32" for w :: u32
  using unsigned_less [of w, where ?'a = nat] by simp

lemma unat_lt8: "unat w < 256" for w :: u8
  using unsigned_less [of w, where ?'a = nat] by simp

lemma uint_less_unat: "uint w < int n \<longleftrightarrow> unat w < n" for w :: "'a::len word"
  by (simp only: uint_nat of_nat_less_iff)

lemma less_uint_unat: "int n < uint w \<longleftrightarrow> n < unat w" for w :: "'a::len word"
  by (simp only: uint_nat of_nat_less_iff)

lemma unat_Suc32:
  fixes w :: u32
  assumes "unat w < 2 ^ 32 - 1"
  shows "unat (w + 1) = Suc (unat w)"
proof -
  have "unat (w + 1) = (unat w + 1) mod 2 ^ 32"
    by (simp add: unat_word_ariths)
  also have "\<dots> = unat w + 1"
    using assms by (intro mod_less) linarith
  finally show ?thesis
    by simp
qed

lemma unat_of_nat32 [simp]: "n < 2 ^ 32 \<Longrightarrow> unat (word_of_nat n :: u32) = n"
  by (simp add: unat_of_nat take_bit_nat_eq_self)

text \<open>The remainder of two \<open>int\<close>s that are not negative.\<close>

lemma sint_cint_mod:
  assumes "unat a < 2 ^ 31" and "0 < sint b"
  shows "sint (cint_mod a b) = int (unat a mod nat (sint b))"
proof -
  let ?r = "unat a mod nat (sint b)"
  have "sint a smod sint b = int (unat a) mod int (nat (sint b))"
    using assms(2) by (simp only: sint_small [OF assms(1)] smod_mod_positive of_nat_0_le_iff
        less_imp_le nat_0_le)
  then have "cint_mod a b = word_of_nat ?r"
    by (simp only: cint_mod_def zmod_int [symmetric] of_int_of_nat_eq)
  moreover have r: "?r < 2 ^ 31"
    using assms(1) by (rule le_less_trans [OF mod_less_eq_dividend])
  moreover have "unat (word_of_nat ?r :: cint) = ?r"
    by (rule unat_of_nat32) (use r in simp)
  ultimately show ?thesis
    by (metis sint_small)
qed

section \<open>Arrays\<close>

definition aget :: "'a list \<Rightarrow> int \<Rightarrow> 'a option" where
  "aget xs i = (if 0 \<le> i \<and> i < int (length xs) then Some (xs ! nat i) else None)"

definition aset :: "'a list \<Rightarrow> int \<Rightarrow> 'a \<Rightarrow> 'a list option" where
  "aset xs i v = (if 0 \<le> i \<and> i < int (length xs) then Some (xs[nat i := v]) else None)"

text \<open>
  \<open>first_idx P xs\<close> is the index at which the loop
  \<open>for (i = 0; i < n; i++) if (P (xs[i])) break;\<close> stops: the length if no element fits.
\<close>

fun first_idx :: "('a \<Rightarrow> bool) \<Rightarrow> 'a list \<Rightarrow> nat" where
  "first_idx P [] = 0"
| "first_idx P (x # xs) = (if P x then 0 else Suc (first_idx P xs))"

lemma aget_nat [arr_simps]: "aget xs (int i) = (if i < length xs then Some (xs ! i) else None)"
  by (simp add: aget_def)

lemma aset_nat [arr_simps]: "aset xs (int i) v = (if i < length xs then Some (xs[i := v]) else None)"
  by (simp add: aset_def)

lemma aget_SomeD: "aget xs i = Some x \<Longrightarrow> 0 \<le> i \<and> nat i < length xs \<and> x = xs ! nat i"
  by (auto simp: aget_def split: if_splits)

lemma aset_SomeD: "aset xs i v = Some ys \<Longrightarrow> 0 \<le> i \<and> nat i < length xs \<and> ys = xs[nat i := v]"
  by (auto simp: aset_def split: if_splits)

lemma aset_length: "aset xs i v = Some ys \<Longrightarrow> length ys = length xs"
  by (auto dest: aset_SomeD)

lemma first_idx_le [simp]: "first_idx P xs \<le> length xs"
  by (induction xs) auto

lemma first_idx_hit: "first_idx P xs < length xs \<Longrightarrow> P (xs ! first_idx P xs)"
  by (induction xs) auto

lemma first_idx_before: "i < first_idx P xs \<Longrightarrow> \<not> P (xs ! i)"
proof (induction xs arbitrary: i)
  case Nil
  then show ?case by simp
next
  case (Cons x xs)
  then show ?case by (cases i) (auto split: if_splits)
qed

lemma first_idx_less_iff [arr_simps]: "first_idx P xs < length xs \<longleftrightarrow> (\<exists>x \<in> set xs. P x)"
  by (induction xs) auto

lemma first_idx_full_iff [arr_simps]: "first_idx P xs = length xs \<longleftrightarrow> (\<forall>x \<in> set xs. \<not> P x)"
  by (induction xs) auto

lemma first_idx_eqI:
  "i < length xs \<Longrightarrow> P (xs ! i) \<Longrightarrow> (\<And>j. j < i \<Longrightarrow> \<not> P (xs ! j)) \<Longrightarrow> first_idx P xs = i"
proof (induction xs arbitrary: i)
  case Nil
  then show ?case by simp
next
  case (Cons x xs)
  show ?case
  proof (cases i)
    case 0
    with Cons.prems show ?thesis by simp
  next
    case (Suc k)
    have nx: "\<not> P x"
      using Cons.prems(3) [of 0] Suc by simp
    have "first_idx P xs = k"
    proof (rule Cons.IH)
      show "k < length xs" and "P (xs ! k)"
        using Cons.prems(1,2) Suc by simp_all
      show "\<not> P (xs ! j)" if "j < k" for j
        using Cons.prems(3) [of "Suc j"] Suc that by simp
    qed
    with nx Suc show ?thesis by simp
  qed
qed

lemma filter_prefix:
  "(\<And>j. j < length xs \<Longrightarrow> P (xs ! j) \<longleftrightarrow> j < k) \<Longrightarrow> filter P xs = take k xs"
proof (induction xs arbitrary: k)
  case Nil
  show ?case by simp
next
  case (Cons x xs)
  have x: "P x \<longleftrightarrow> 0 < k"
    using Cons.prems [of 0] by simp
  have "filter P xs = take (k - 1) xs"
  proof (rule Cons.IH)
    show "P (xs ! j) \<longleftrightarrow> j < k - 1" if "j < length xs" for j
      using Cons.prems [of "Suc j"] that by auto
  qed
  then show ?case
    using x by (cases k) auto
qed

section \<open>C strings and tokens\<close>

abbreviation NUL :: char where
  "NUL \<equiv> CHR 0x00"

definition cstr :: "string \<Rightarrow> string" where
  "cstr s = takeWhile (\<lambda>c. c \<noteq> NUL) s"

lemma cstr_id [str_simps]: "NUL \<notin> set s \<Longrightarrow> cstr s = s"
  unfolding cstr_def takeWhile_eq_all_conv by auto

lemma cstr_no_nul [simp]: "NUL \<notin> set (cstr s)"
  unfolding cstr_def by (auto dest: set_takeWhileD)

lemma cstr_append_nul [str_simps]: "NUL \<notin> set s \<Longrightarrow> cstr (s @ NUL # t) = s"
  unfolding cstr_def by (subst takeWhile_append2) auto

text \<open>An array of \<open>n\<close> characters that was cleared before a string was copied to it.\<close>

definition fixed :: "nat \<Rightarrow> string \<Rightarrow> string" where
  "fixed n s = s @ replicate (n - length s) NUL"

lemma fixed_length: "length s \<le> n \<Longrightarrow> length (fixed n s) = n"
  by (simp add: fixed_def)

lemma cstr_replicate_nul [simp]: "cstr (replicate n NUL) = []"
  by (cases n) (simp_all add: cstr_def)

lemma cstr_fixed [str_simps]: "NUL \<notin> set s \<Longrightarrow> cstr (fixed n s) = s"
  unfolding fixed_def cstr_def by (subst takeWhile_append2) (auto simp: cstr_def [symmetric])

lemma nul_fixed: "length s < n \<Longrightarrow> NUL \<in> set (fixed n s)"
  by (simp add: fixed_def)

lemma cstr_length: "NUL \<in> set s \<Longrightarrow> length (cstr s) < length s"
  unfolding cstr_def by (induction s) auto

lemma cstr_cstr [simp]: "cstr (cstr s) = cstr s"
  by (simp add: cstr_id)

text \<open>\<open>strcpy\<close> to a cleared array of \<open>n\<close> characters.\<close>

definition strcpy :: "nat \<Rightarrow> string \<Rightarrow> string option" where
  "strcpy n s = (if length s < n then Some (fixed n s) else None)"

text \<open>A string read from an array: \<open>None\<close> when the array holds no terminator.\<close>

definition c_string :: "string \<Rightarrow> string option" where
  "c_string arr = (if NUL \<in> set arr then Some (cstr arr) else None)"

lemma cstr_write: "cstr (w @ NUL # t) = cstr w"
  unfolding cstr_def by (induction w) simp_all

definition is_space :: "char \<Rightarrow> bool" where
  "is_space c \<longleftrightarrow> c \<in> {CHR 0x20, CHR 0x09, CHR 0x0A, CHR 0x0B, CHR 0x0C, CHR 0x0D}"

text \<open>
  \<open>fscanf_s\<close> is one call of \<open>fscanf(fp, "%s", buf)\<close> on the unread rest of a file: skip white
  space, then read up to the next white space.  \<open>None\<close> is the return value \<open>EOF\<close>, on which
  the buffer keeps its old contents.
\<close>

definition fscanf_s :: "string \<Rightarrow> string option \<times> string" where
  "fscanf_s s = (let r = dropWhile is_space s in
     if r = [] then (None, [])
     else (Some (takeWhile (\<lambda>c. \<not> is_space c) r), dropWhile (\<lambda>c. \<not> is_space c) r))"

lemma fscanf_s_shorter: "fscanf_s s = (Some w, r) \<Longrightarrow> length r < length s"
proof -
  assume a: "fscanf_s s = (Some w, r)"
  then have ne: "dropWhile is_space s \<noteq> []"
    by (auto simp only: fscanf_s_def Let_def split: if_splits)
  then obtain c cs where d: "dropWhile is_space s = c # cs"
    by (cases "dropWhile is_space s") auto
  have r: "r = dropWhile (\<lambda>c. \<not> is_space c) (c # cs)"
    using a ne d by (simp only: fscanf_s_def Let_def if_False prod.inject)
  have "\<not> is_space c"
    using d by (metis dropWhile_eq_Cons_conv)
  then have "length r \<le> length cs"
    using r by (simp add: length_dropWhile_le)
  moreover have "length (c # cs) \<le> length s"
    using d length_dropWhile_le [of is_space s] by simp
  ultimately show ?thesis
    by simp
qed

function tokens :: "string \<Rightarrow> string list" where
  "tokens s = (case fscanf_s s of (None, r) \<Rightarrow> [] | (Some w, r) \<Rightarrow> w # tokens r)"
  by pat_completeness auto
termination
  by (relation "measure length") (auto dest: fscanf_s_shorter [OF sym])

declare tokens.simps [simp del]

lemma tokens_Nil [simp]: "tokens [] = []"
  by (simp add: tokens.simps [of "[]"] fscanf_s_def)

lemma fscanf_s_tokens:
  "fscanf_s s = (case tokens s of [] \<Rightarrow> (None, []) | w # ws \<Rightarrow> (Some w, snd (fscanf_s s)))"
  by (subst tokens.simps) (auto simp: fscanf_s_def Let_def)

lemma tokens_rest: "tokens (snd (fscanf_s s)) = tl (tokens s)"
proof (cases "fscanf_s s")
  case (Pair o' r)
  show ?thesis
  proof (cases o')
    case None
    with Pair have "r = []"
      by (auto simp: fscanf_s_def Let_def split: if_splits)
    with None Pair show ?thesis
      by (simp add: tokens.simps [of s] tokens.simps [of "[]"] fscanf_s_def)
  next
    case (Some w)
    with Pair show ?thesis
      by (simp add: tokens.simps [of s])
  qed
qed

lemma fscanf_s_None_iff: "fst (fscanf_s s) = None \<longleftrightarrow> tokens s = []"
  by (subst tokens.simps) (auto split: prod.splits option.splits)

lemma fscanf_s_Some_hd: "tokens s \<noteq> [] \<Longrightarrow> fst (fscanf_s s) = Some (hd (tokens s))"
  by (subst fscanf_s_tokens) (auto split: list.splits)

section \<open>Decimal numerals\<close>

definition digit_char :: "nat \<Rightarrow> char" where
  "digit_char d = char_of (48 + d)"

definition is_digit :: "char \<Rightarrow> bool" where
  "is_digit c \<longleftrightarrow> 48 \<le> (of_char c :: nat) \<and> (of_char c :: nat) \<le> 57"

definition digit_val :: "char \<Rightarrow> nat" where
  "digit_val c = of_char c - 48"

text \<open>\<open>dec_nat\<close> is what \<open>%d\<close> prints for a value that is not negative.\<close>

fun dec_nat :: "nat \<Rightarrow> string" where
  "dec_nat n = (if n < 10 then [digit_char n] else dec_nat (n div 10) @ [digit_char (n mod 10)])"

declare dec_nat.simps [simp del]

definition dec_int :: "int \<Rightarrow> string" where
  "dec_int i = (if i < 0 then CHR ''-'' # dec_nat (nat (- i)) else dec_nat (nat i))"

fun digits_val :: "nat \<Rightarrow> string \<Rightarrow> nat" where
  "digits_val acc [] = acc"
| "digits_val acc (c # cs) = (if is_digit c then digits_val (10 * acc + digit_val c) cs else acc)"

text \<open>
  \<open>atoi\<close> (and \<open>strtol\<close> in base 10): leading white space, an optional sign, then digits up
  to the first character that is not one; 0 when there is none.
\<close>

definition atoi :: "string \<Rightarrow> int" where
  "atoi s = (case dropWhile is_space s of
       [] \<Rightarrow> 0
     | c # cs \<Rightarrow>
         if c = CHR ''-'' then - int (digits_val 0 cs)
         else if c = CHR ''+'' then int (digits_val 0 cs)
         else int (digits_val 0 (c # cs)))"

lemma digit_char_val [simp]: "d < 10 \<Longrightarrow> digit_val (digit_char d) = d"
  by (simp add: digit_val_def digit_char_def)

lemma digit_char_digit [simp]: "d < 10 \<Longrightarrow> is_digit (digit_char d)"
  by (simp add: is_digit_def digit_char_def)

lemma digits_val_append_digit:
  "\<forall>c \<in> set cs. is_digit c \<Longrightarrow> is_digit d \<Longrightarrow>
   digits_val acc (cs @ [d]) = 10 * digits_val acc cs + digit_val d"
  by (induction cs arbitrary: acc) auto

lemma dec_nat_digits: "\<forall>c \<in> set (dec_nat n). is_digit c"
proof (induction n rule: dec_nat.induct)
  case (1 n)
  show ?case
  proof (cases "n < 10")
    case True
    then show ?thesis by (subst dec_nat.simps) simp
  next
    case False
    with "1.IH" show ?thesis by (subst dec_nat.simps) auto
  qed
qed

lemma digits_val_dec_nat [str_simps]: "digits_val 0 (dec_nat n) = n"
proof (induction n rule: dec_nat.induct)
  case (1 n)
  show ?case
  proof (cases "n < 10")
    case True
    then show ?thesis by (subst dec_nat.simps) simp
  next
    case False
    with "1.IH" show ?thesis
      by (subst dec_nat.simps) (simp add: digits_val_append_digit dec_nat_digits)
  qed
qed

lemma dec_nat_nonempty [simp]: "dec_nat n \<noteq> []"
  by (subst dec_nat.simps) simp

lemma is_digit_not:
  assumes "is_digit c"
  shows "\<not> is_space c" and "c \<noteq> CHR ''-''" and "c \<noteq> CHR ''+''" and "c \<noteq> CHR ''#''" and "c \<noteq> NUL"
  using assms by (auto simp: is_digit_def is_space_def)

lemma atoi_dec_nat [str_simps]: "atoi (dec_nat n) = int n"
proof -
  obtain c cs where d: "dec_nat n = c # cs"
    by (cases "dec_nat n") auto
  have "is_digit c"
    using dec_nat_digits [of n] d by simp
  then show ?thesis
    using d digits_val_dec_nat [of n] by (simp add: atoi_def is_digit_not)
qed

text \<open>
  \<open>fscanf_d\<close> is one call of \<open>fscanf(fp, "%d", &n)\<close> on the unread rest of a file: white space,
  an optional sign, digits.  Without a digit nothing is stored (\<open>None\<close>) and the characters that
  cannot belong to a number stay unread.
\<close>

fun opt_sign :: "string \<Rightarrow> bool \<times> string" where
  "opt_sign [] = (False, [])"
| "opt_sign (c # cs) =
     (if c = CHR ''-'' then (True, cs) else if c = CHR ''+'' then (False, cs) else (False, c # cs))"

definition fscanf_d :: "string \<Rightarrow> int option \<times> string" where
  "fscanf_d s =
     (let (neg, r) = opt_sign (dropWhile is_space s);
          ds = takeWhile is_digit r;
          n = int (digits_val 0 ds)
      in if ds = [] then (None, r) else (Some (if neg then - n else n), dropWhile is_digit r))"

section \<open>Rows searched by key\<close>

text \<open>
  An array of rows, some of them live, read as a table: the first live row with a key.
\<close>

definition row_of :: "('r \<Rightarrow> bool) \<Rightarrow> ('r \<Rightarrow> 'k) \<Rightarrow> 'r list \<Rightarrow> 'k \<Rightarrow> 'r option" where
  "row_of live key rows k = List.find (\<lambda>r. live r \<and> key r = k) rows"

lemma row_of_None_iff: "row_of live key rows k = None \<longleftrightarrow> (\<forall>r \<in> set rows. \<not> (live r \<and> key r = k))"
  by (auto simp: row_of_def find_None_iff)

lemma row_of_SomeD: "row_of live key rows k = Some r \<Longrightarrow> r \<in> set rows \<and> live r \<and> key r = k"
  by (auto simp: row_of_def find_Some_iff)

lemma row_of_nth:
  assumes "i < length rows" and "live (rows ! i)" and "key (rows ! i) = k"
    and "\<And>j. j < i \<Longrightarrow> \<not> (live (rows ! j) \<and> key (rows ! j) = k)"
  shows "row_of live key rows k = Some (rows ! i)"
  unfolding row_of_def find_Some_iff using assms by blast

text \<open>Writing a row over a dead one, or over the only row of its key, is an update of the table.\<close>

lemma row_of_update:
  assumes "i < length rows" and "live r" and "key r = k"
    and "\<And>j. j < length rows \<Longrightarrow> j \<noteq> i \<Longrightarrow> \<not> (live (rows ! j) \<and> key (rows ! j) = k)"
    and "live (rows ! i) \<Longrightarrow> key (rows ! i) = k"
  shows "row_of live key (rows[i := r]) = (row_of live key rows)(k \<mapsto> r)"
  using assms
proof (induction rows arbitrary: i)
  case Nil
  then show ?case by simp
next
  case (Cons x xs)
  show ?case
  proof (cases i)
    case 0
    have "row_of live key xs k' = row_of live key (x # xs) k'" if "k' \<noteq> k" for k'
      using Cons.prems(5) 0 that by (auto simp: row_of_def)
    then show ?thesis
      using 0 Cons.prems(2,3) by (auto simp: row_of_def fun_eq_iff)
  next
    case (Suc n)
    have x: "\<not> (live x \<and> key x = k)"
      using Cons.prems(4) [of 0] Suc by simp
    have "row_of live key (xs[n := r]) = (row_of live key xs)(k \<mapsto> r)"
    proof (rule Cons.IH)
      show "n < length xs" and "live r" and "key r = k" and "live (xs ! n) \<Longrightarrow> key (xs ! n) = k"
        using Cons.prems Suc by simp_all
      show "\<not> (live (xs ! j) \<and> key (xs ! j) = k)" if "j < length xs" and "j \<noteq> n" for j
        using Cons.prems(4) [of "Suc j"] Suc that by simp
    qed
    then show ?thesis
      using Suc x by (auto simp: row_of_def fun_eq_iff)
  qed
qed

lemma row_of_dead:
  "\<not> live r \<Longrightarrow> \<not> live (rows ! i) \<Longrightarrow> row_of live key (rows[i := r]) = row_of live key rows"
proof (induction rows arbitrary: i)
  case Nil
  then show ?case by simp
next
  case (Cons x xs)
  then show ?case
    by (cases i) (auto simp: row_of_def fun_eq_iff)
qed

section \<open>Time\<close>

record timeval =
  tv_sec :: int
  tv_usec :: int

section \<open>Sums and counts over an updated list\<close>

lemma sum_list_update_comm:
  fixes f :: "'a \<Rightarrow> 'b::cancel_comm_monoid_add"
  assumes "i < length xs"
  shows "sum_list (map f (xs[i := c])) + f (xs ! i) = sum_list (map f xs) + f c"
  using assms
proof (induction xs arbitrary: i)
  case (Cons x xs)
  then show ?case
    by (cases i) (auto simp: ac_simps)
qed simp

lemma filter_length_update:
  "i < length xs \<Longrightarrow> length (filter P (xs[i := x])) + (if P (xs ! i) then 1 else 0) = length (filter P xs) + (if P x then 1 else 0)"
proof (induction xs arbitrary: i)
  case (Cons y ys)
  then show ?case by (cases i) auto
qed simp

end
