(* ===== verification/Machine.thy ===== *)
theory Machine
  imports Prelude
begin

text \<open>
  The interfaces every stateful component of the development offers.  \<open>op_machine\<close> is a
  component whose operations keep an invariant; \<open>guarded_machine\<close> is one whose operations can
  also fail (\<open>None\<close>: the process terminated or left the bounds of an array) and may be asked
  only on acceptable inputs; \<open>safe_machine\<close> is one that does not fail on them;
  \<open>merge_table\<close> is a table into which the operations merge data under a key;
  \<open>ranked_machine\<close> adds a rank that an operation which reports a change lowers, which bounds
  how often a change can be reported.  Each is interpreted on the definitions of the
  components that follow.
\<close>

locale op_machine =
  fixes step :: "'op \<Rightarrow> 's \<Rightarrow> 's"
    and inv :: "'s \<Rightarrow> bool"
  assumes step_inv: "inv s \<Longrightarrow> inv (step a s)"
begin

lemma run_inv: "inv s \<Longrightarrow> inv (fold step as s)"
  by (induction as arbitrary: s) (auto simp: step_inv)

lemma run_prefix_inv: "inv s \<Longrightarrow> inv (fold step (take n as) s)"
  by (rule run_inv)

end

fun orun :: "('op \<Rightarrow> 's \<Rightarrow> 's option) \<Rightarrow> 'op list \<Rightarrow> 's \<Rightarrow> 's option" where
  "orun f [] s = Some s"
| "orun f (a # as) s = Option.bind (f a s) (orun f as)"

lemma orun_append: "orun f (as @ bs) s = Option.bind (orun f as s) (orun f bs)"
proof (induction as arbitrary: s)
  case Nil
  show ?case by simp
next
  case (Cons a as)
  show ?case by (cases "f a s") (simp_all add: Cons.IH)
qed

lemma orun_snoc_SomeE:
  assumes "orun f (as @ [a]) s = Some t"
  obtains u where "orun f as s = Some u" and "f a u = Some t"
  using assms by (auto simp: orun_append bind_eq_Some_conv)

lemma orun_keeps:
  assumes "\<And>a u v. a \<in> set as \<Longrightarrow> P u \<Longrightarrow> f a u = Some v \<Longrightarrow> P v" and "P s" and "orun f as s = Some t"
  shows "P t"
  using assms
proof (induction as arbitrary: s)
  case Nil
  then show ?case by simp
next
  case (Cons a as)
  obtain u where u: "f a s = Some u" and t: "orun f as u = Some t"
    using Cons.prems(3) by (auto simp: bind_eq_Some_conv)
  have "P u"
    by (rule Cons.prems(1) [OF _ Cons.prems(2) u]) simp
  show ?case
    by (rule Cons.IH [OF Cons.prems(1) \<open>P u\<close> t]) auto
qed

locale guarded_machine =
  fixes step :: "'op \<Rightarrow> 's \<Rightarrow> 's option"
    and ok :: "'op \<Rightarrow> bool"
    and inv :: "'s \<Rightarrow> bool"
  assumes step_inv: "inv s \<Longrightarrow> ok a \<Longrightarrow> step a s = Some t \<Longrightarrow> inv t"
begin

lemma run_inv:
  "inv s \<Longrightarrow> \<forall>a \<in> set as. ok a \<Longrightarrow> orun step as s = Some t \<Longrightarrow> inv t"
  by (rule orun_keeps [where P = inv and as = as and f = step]) (blast intro: step_inv)+

end

locale safe_machine = guarded_machine +
  assumes step_defined: "inv s \<Longrightarrow> ok a \<Longrightarrow> \<exists>t. step a s = Some t"
begin

lemma run_defined: "inv s \<Longrightarrow> \<forall>a \<in> set as. ok a \<Longrightarrow> \<exists>t. orun step as s = Some t \<and> inv t"
proof (induction as arbitrary: s)
  case Nil
  then show ?case by simp
next
  case (Cons a as)
  obtain u where u: "step a s = Some u"
    using step_defined Cons.prems by (metis list.set_intros(1))
  then have "inv u"
    using step_inv Cons.prems by (metis list.set_intros(1))
  then show ?case
    using Cons u by simp
qed

end

text \<open>
  A table into which operations merge data under a key: \<open>lookup\<close> is how it is read, \<open>comb\<close>
  what a key holds after an operation, from what it held before.
\<close>

locale merge_table =
  fixes lookup :: "'t \<Rightarrow> 'k \<Rightarrow> 'v option"
    and merge :: "'d \<Rightarrow> 't \<Rightarrow> 't option"
    and key :: "'d \<Rightarrow> 'k"
    and comb :: "'d \<Rightarrow> 'v option \<Rightarrow> 'v"
    and ok :: "'d \<Rightarrow> bool"
    and inv :: "'t \<Rightarrow> bool"
  assumes merge_inv: "inv t \<Longrightarrow> ok d \<Longrightarrow> merge d t = Some u \<Longrightarrow> inv u"
    and merge_lookup: "inv t \<Longrightarrow> ok d \<Longrightarrow> merge d t = Some u \<Longrightarrow>
      lookup u = (lookup t)(key d \<mapsto> comb d (lookup t (key d)))"

sublocale merge_table \<subseteq> guarded_machine merge ok inv
  by unfold_locales (rule merge_inv)

context merge_table
begin

text \<open>What a key holds after a run is decided by the operations on that key alone.\<close>

lemma run_lookup:
  "inv t \<Longrightarrow> \<forall>d \<in> set ds. ok d \<Longrightarrow> orun merge ds t = Some u \<Longrightarrow>
   lookup u k = fold (\<lambda>d v. Some (comb d v)) (filter (\<lambda>d. key d = k) ds) (lookup t k)"
proof (induction ds arbitrary: t)
  case Nil
  then show ?case by simp
next
  case (Cons d ds)
  then obtain s where s: "merge d t = Some s" and "orun merge ds s = Some u"
    by (auto simp: bind_eq_Some_conv)
  moreover have "inv s"
    using merge_inv [OF Cons.prems(1) _ s] Cons.prems(2) by simp
  ultimately have "lookup u k = fold (\<lambda>d v. Some (comb d v)) (filter (\<lambda>d. key d = k) ds) (lookup s k)"
    using Cons by simp
  then show ?case
    using merge_lookup [OF Cons.prems(1) _ s] Cons.prems(2) by auto
qed

end

text \<open>
  \<open>step\<close> returns the new state and whether the operation reported a change.
\<close>

fun count_changes :: "('op \<Rightarrow> 's \<Rightarrow> 's \<times> bool) \<Rightarrow> 'op list \<Rightarrow> 's \<Rightarrow> nat" where
  "count_changes f [] s = 0"
| "count_changes f (a # as) s =
     (case f a s of (t, c) \<Rightarrow> (if c then 1 else 0) + count_changes f as t)"

locale ranked_machine =
  fixes step :: "'op \<Rightarrow> 's \<Rightarrow> 's \<times> bool"
    and ok :: "'op \<Rightarrow> bool"
    and inv :: "'s \<Rightarrow> bool"
    and rank :: "'s \<Rightarrow> nat"
  assumes step_keeps: "inv s \<Longrightarrow> ok a \<Longrightarrow> inv (fst (step a s))"
    and step_same: "inv s \<Longrightarrow> ok a \<Longrightarrow> \<not> snd (step a s) \<Longrightarrow> rank (fst (step a s)) \<le> rank s"
    and step_lower: "inv s \<Longrightarrow> ok a \<Longrightarrow> snd (step a s) \<Longrightarrow> rank (fst (step a s)) < rank s"
begin

lemma changes_bounded:
  "inv s \<Longrightarrow> \<forall>a \<in> set as. ok a \<Longrightarrow> count_changes step as s \<le> rank s"
proof (induction as arbitrary: s)
  case Nil
  then show ?case by simp
next
  case (Cons a as)
  obtain t c where tc: "step a s = (t, c)"
    by (cases "step a s")
  have "inv t"
    using step_keeps [of s a] Cons.prems tc by simp
  then have "count_changes step as t \<le> rank t"
    using Cons by simp
  moreover have "c \<Longrightarrow> rank t < rank s" and "\<not> c \<Longrightarrow> rank t \<le> rank s"
    using step_lower [of s a] step_same [of s a] Cons.prems tc by simp_all
  ultimately show ?case
    using tc by (cases c) auto
qed

end

end
