(* ===== verification/Udp.thy ===== *)
theory Udp
  imports Machine
begin

text \<open>
  The datagram layer of the file transfer, \<open>src/hw2/common.c\<close> and \<open>src/hw2/common.h\<close>: the
  \<open>query_obj\<close> that carries a packet, its gather and scatter through \<open>sendmsg\<close> and
  \<open>recvmsg\<close> at the level of bytes, and the test whether a peer is on a local network.  Dotted
  addresses are parsed and printed as \<open>inet_pton\<close> and \<open>inet_ntop\<close> do.  The parameter
  \<open>be\<close> says whether the host stores integers big-endian: the source compares addresses
  in network order as if they were host integers, and sends its integers unconverted.
\<close>

section \<open>IPv4 addresses\<close>

type_synonym ipv4 = "u8 \<times> u8 \<times> u8 \<times> u8"

record sockaddr_in =
  sin_family :: nat
  sin_port :: u16
  sin_addr :: ipv4

abbreviation AF_INET :: nat where
  "AF_INET \<equiv> 2"

fun split_on :: "char \<Rightarrow> string \<Rightarrow> string list" where
  "split_on d [] = [[]]"
| "split_on d (c # cs) =
     (if c = d then [] # split_on d cs
      else case split_on d cs of [] \<Rightarrow> [[c]] | w # ws \<Rightarrow> (c # w) # ws)"

definition octet :: "string \<Rightarrow> u8 option" where
  "octet s =
     (if s \<noteq> [] \<and> length s \<le> 3 \<and> list_all is_digit s \<and> (length s = 1 \<or> hd s \<noteq> CHR ''0'')
         \<and> digits_val 0 s \<le> 255
      then Some (word_of_nat (digits_val 0 s)) else None)"

fun octets :: "string list \<Rightarrow> ipv4 option" where
  "octets [a, b, c, d] = do { w \<leftarrow> octet a; x \<leftarrow> octet b; y \<leftarrow> octet c; z \<leftarrow> octet d; Some (w, x, y, z) }"
| "octets _ = None"

definition inet_pton :: "string \<Rightarrow> ipv4 option" where
  "inet_pton s = octets (split_on (CHR ''.'') s)"

fun inet_ntop :: "ipv4 \<Rightarrow> string" where
  "inet_ntop (a, b, c, d) =
     dec_nat (unat a) @ ''.'' @ dec_nat (unat b) @ ''.'' @ dec_nat (unat c) @ ''.'' @ dec_nat (unat d)"

text \<open>The four bytes of an address read as a host integer.\<close>

definition nat_of_bytes :: "u8 list \<Rightarrow> nat" where
  "nat_of_bytes bs = foldr (\<lambda>b n. unat b + 256 * n) bs 0"

definition word_of_bytes :: "bool \<Rightarrow> u8 list \<Rightarrow> u32" where
  "word_of_bytes be bs = word_of_nat (nat_of_bytes (if be then rev bs else bs))"

definition bytes_of_word :: "bool \<Rightarrow> u32 \<Rightarrow> u8 list" where
  "bytes_of_word be w =
     (let n = unat w; le = [word_of_nat (n mod 256), word_of_nat (n div 256 mod 256),
                            word_of_nat (n div 65536 mod 256), word_of_nat (n div 16777216 mod 256)]
      in if be then rev le else le)"

fun s_addr :: "bool \<Rightarrow> ipv4 \<Rightarrow> u32" where
  "s_addr be (a, b, c, d) = word_of_bytes be [a, b, c, d]"

section \<open>Packets\<close>

datatype data_type = ack | ping | data | eof

fun type_code :: "data_type \<Rightarrow> u32" where
  "type_code ack = 0"
| "type_code ping = 1"
| "type_code data = 2"
| "type_code eof = 3"

record udp_data =
  u_seq :: u32
  u_ts :: u32
  u_rwnd :: u32
  u_type :: u32

record iAddr =
  ip_addr :: string
  mask :: string

abbreviation MAXLINE :: nat where
  "MAXLINE \<equiv> 4096"

datatype iov_base = IovBuf | IovConfig

text \<open>
  \<open>msg_name\<close> is the address the caller passed or, for a null pointer, the packet's own
  \<open>sock_addr\<close> field.
\<close>

datatype msg_name = NameOwn | NameGiven

record msghdr =
  msg_name :: msg_name
  msg_namelen :: nat
  msg_iov :: "(iov_base \<times> nat) list"

record query_obj =
  q_msgdata :: msghdr
  q_config :: udp_data
  q_buf :: string
  q_sock_addr :: sockaddr_in

abbreviation SIZE_UDP_DATA :: nat where
  "SIZE_UDP_DATA \<equiv> 16"

abbreviation SIZE_SOCKADDR_IN :: nat where
  "SIZE_SOCKADDR_IN \<equiv> 16"

definition zero_sockaddr :: sockaddr_in where
  "zero_sockaddr = \<lparr>sin_family = 0, sin_port = 0, sin_addr = (0, 0, 0, 0)\<rparr>"

definition zero_query :: query_obj where
  "zero_query = \<lparr>q_msgdata = \<lparr>msg_name = NameOwn, msg_namelen = 0, msg_iov = []\<rparr>,
     q_config = \<lparr>u_seq = 0, u_ts = 0, u_rwnd = 0, u_type = 0\<rparr>,
     q_buf = replicate MAXLINE NUL, q_sock_addr = zero_sockaddr\<rparr>"

definition init_query_obj :: "sockaddr_in option \<Rightarrow> nat \<Rightarrow> query_obj \<Rightarrow> query_obj" where
  "init_query_obj servaddr servlen obj =
     obj\<lparr>q_msgdata := \<lparr>
       msg_name = (case servaddr of None \<Rightarrow> NameOwn | Some _ \<Rightarrow> NameGiven),
       msg_namelen = (if servlen = 0 then SIZE_SOCKADDR_IN else servlen),
       msg_iov = [(IovBuf, MAXLINE), (IovConfig, SIZE_UDP_DATA)]\<rparr>\<rparr>"

definition byte_of_char :: "char \<Rightarrow> u8" where
  "byte_of_char c = word_of_nat (of_char c)"

definition char_of_byte :: "u8 \<Rightarrow> char" where
  "char_of_byte b = char_of (unat b)"

definition config_bytes :: "bool \<Rightarrow> udp_data \<Rightarrow> u8 list" where
  "config_bytes be c = bytes_of_word be (u_seq c) @ bytes_of_word be (u_ts c) @
     bytes_of_word be (u_rwnd c) @ bytes_of_word be (u_type c)"

definition config_of_bytes :: "bool \<Rightarrow> u8 list \<Rightarrow> udp_data" where
  "config_of_bytes be bs = \<lparr>u_seq = word_of_bytes be (take 4 bs),
     u_ts = word_of_bytes be (take 4 (drop 4 bs)),
     u_rwnd = word_of_bytes be (take 4 (drop 8 bs)),
     u_type = word_of_bytes be (take 4 (drop 12 bs))\<rparr>"

definition iov_bytes :: "bool \<Rightarrow> query_obj \<Rightarrow> iov_base \<Rightarrow> u8 list" where
  "iov_bytes be q b = (case b of IovBuf \<Rightarrow> map byte_of_char (q_buf q) | IovConfig \<Rightarrow> config_bytes be (q_config q))"

definition iov_write :: "bool \<Rightarrow> iov_base \<Rightarrow> u8 list \<Rightarrow> query_obj \<Rightarrow> query_obj" where
  "iov_write be b bs q =
     (let mem = bs @ drop (length bs) (iov_bytes be q b)
      in case b of IovBuf \<Rightarrow> q\<lparr>q_buf := map char_of_byte mem\<rparr>
                 | IovConfig \<Rightarrow> q\<lparr>q_config := config_of_bytes be mem\<rparr>)"

text \<open>\<open>sendmsg\<close> gathers the segments; \<open>recvmsg\<close> scatters a datagram over them.\<close>

definition sendmsg :: "bool \<Rightarrow> query_obj \<Rightarrow> u8 list" where
  "sendmsg be q = concat (map (\<lambda>(b, n). take n (iov_bytes be q b)) (msg_iov (q_msgdata q)))"

fun scatter :: "bool \<Rightarrow> (iov_base \<times> nat) list \<Rightarrow> u8 list \<Rightarrow> query_obj \<Rightarrow> nat \<times> query_obj" where
  "scatter be [] bs q = (0, q)"
| "scatter be ((b, n) # iov) bs q =
     (let part = take n bs; (m, q') = scatter be iov (drop n bs) (iov_write be b part q)
      in (length part + m, q'))"

definition recvmsg :: "bool \<Rightarrow> sockaddr_in \<Rightarrow> u8 list \<Rightarrow> query_obj \<Rightarrow> nat \<times> query_obj" where
  "recvmsg be src bs q =
     (let (n, q1) = scatter be (msg_iov (q_msgdata q)) bs q
      in (n, if msg_name (q_msgdata q) = NameOwn then q1\<lparr>q_sock_addr := src\<rparr> else q1))"

definition send_udp_data :: "bool \<Rightarrow> sockaddr_in option \<Rightarrow> nat \<Rightarrow> query_obj \<Rightarrow> u8 list \<times> query_obj" where
  "send_udp_data be servaddr servlen obj =
     (let obj' = init_query_obj servaddr servlen obj in (sendmsg be obj', obj'))"

definition recv_udp_data ::
  "bool \<Rightarrow> sockaddr_in option \<Rightarrow> nat \<Rightarrow> sockaddr_in \<Rightarrow> u8 list \<Rightarrow> query_obj \<Rightarrow> nat \<times> query_obj" where
  "recv_udp_data be servaddr servlen src dgram obj =
     recvmsg be src dgram (init_query_obj servaddr servlen obj)"

section \<open>Is the peer local?\<close>

text \<open>
  The loop of \<open>check_addr_local\<close>: \<open>local\<close> and \<open>maxMask\<close> are its variables, \<open>i\<close> its
  counter.  \<open>None\<close> is the exit of \<open>Inet_pton\<close> on a string that is no address.
\<close>

fun check_loop :: "bool \<Rightarrow> u32 \<Rightarrow> iAddr list \<Rightarrow> nat \<Rightarrow> nat \<times> u32 \<Rightarrow> (nat \<times> u32) option" where
  "check_loop be sock1 [] i (local, maxMask) = Some (local, maxMask)"
| "check_loop be sock1 (a # as) i (local, maxMask) = do {
     s2 \<leftarrow> inet_pton (ip_addr a);
     s3 \<leftarrow> inet_pton (mask a);
     let sock2 = s_addr be s2;
     let sock3 = s_addr be s3;
     check_loop be sock1 as (Suc i)
       (if and sock1 sock3 = and sock2 sock3
        then (let local1 = (if local = 0 then i else local)
              in if sock3 > maxMask then (i, sock3) else (local1, maxMask))
        else (local, maxMask))
   }"

definition check_addr_local :: "bool \<Rightarrow> string \<Rightarrow> iAddr list \<Rightarrow> nat option" where
  "check_addr_local be address addr =
     (if address = ''127.0.0.1'' then Some 1
      else do {
        a1 \<leftarrow> inet_pton address;
        r \<leftarrow> check_loop be (s_addr be a1) addr 0 (0, 0);
        Some (fst r)
      })"

definition disp_addr_contents :: "iAddr list \<Rightarrow> string list" where
  "disp_addr_contents addr =
     map (\<lambda>a. ''IP address = '' @ ip_addr a @ '' and Mask = '' @ mask a) addr"

definition log_line_seperator :: string where
  "log_line_seperator = ''********************************xxxxxxx********************************''"

text \<open>
  The reference reading of the test: which interface rows match an address, and the mask of a
  row as the integer the code compares.
\<close>

definition row_mask :: "bool \<Rightarrow> iAddr \<Rightarrow> u32" where
  "row_mask be a = (case inet_pton (mask a) of None \<Rightarrow> 0 | Some m \<Rightarrow> s_addr be m)"

definition row_matches :: "bool \<Rightarrow> u32 \<Rightarrow> iAddr \<Rightarrow> bool" where
  "row_matches be w a =
     (case inet_pton (ip_addr a) of None \<Rightarrow> False
      | Some s \<Rightarrow> and w (row_mask be a) = and (s_addr be s) (row_mask be a))"

section \<open>Lemmas: bytes\<close>

lemma bytes_of_word_length [simp]: "length (bytes_of_word be w) = 4"
  by (simp add: bytes_of_word_def Let_def)

lemma nat_split_bytes:
  fixes n :: nat
  assumes "n < 2 ^ 32"
  shows "n mod 256 + 256 * (n div 256 mod 256 + 256 * (n div 65536 mod 256 +
           256 * (n div 16777216 mod 256))) = n"
proof -
  define a where "a = n div 256"
  define b where "b = a div 256"
  define c where "c = b div 256"
  have d: "n div 65536 = b" "n div 16777216 = c"
    by (simp_all add: a_def b_def c_def div_mult2_eq [symmetric])
  have "c < 256"
    using assms by (simp add: d(2) [symmetric] less_mult_imp_div_less)
  then have "c mod 256 = c"
    by simp
  moreover have "b mod 256 + 256 * c = b" "a mod 256 + 256 * b = a" "n mod 256 + 256 * a = n"
    by (simp_all add: a_def b_def c_def)
  ultimately show ?thesis
    using d by (simp add: a_def [symmetric])
qed

lemma unat_byte [simp]: "unat (word_of_nat (n mod 256) :: u8) = n mod 256"
  by (simp add: unat_of_nat take_bit_eq_mod)

lemma nat_bytes_roundtrip: "nat_of_bytes (bytes_of_word False w) = unat w"
  unfolding bytes_of_word_def Let_def nat_of_bytes_def if_False foldr.simps comp_def id_def unat_byte
  using nat_split_bytes [OF unat_lt32 [of w]] by (simp only: mult_0_right add_0_right)

lemma word_bytes_roundtrip [simp]: "word_of_bytes be (bytes_of_word be w) = w"
proof -
  have "rev (bytes_of_word True w) = bytes_of_word False w"
    by (simp add: bytes_of_word_def Let_def)
  then show ?thesis
    by (cases be) (simp_all add: word_of_bytes_def nat_bytes_roundtrip)
qed

lemma char_byte_roundtrip [simp]: "char_of_byte (byte_of_char c) = c"
proof -
  have "unat (word_of_nat (of_char c) :: u8) = of_char c"
    by (simp add: unat_of_nat take_bit_nat_eq_self)
  then show ?thesis
    by (simp add: char_of_byte_def byte_of_char_def)
qed

lemma map_char_byte [simp]: "map (char_of_byte \<circ> byte_of_char) s = s"
  by (simp add: comp_def)

lemma config_bytes_length [simp]: "length (config_bytes be c) = 16"
  by (simp add: config_bytes_def)

lemma config_roundtrip [simp]: "config_of_bytes be (config_bytes be c) = c"
  by (simp add: config_of_bytes_def config_bytes_def)

lemma sendmsg_init:
  "sendmsg be (init_query_obj sa sl q) = map byte_of_char (take MAXLINE (q_buf q)) @ config_bytes be (q_config q)"
  by (simp add: sendmsg_def init_query_obj_def iov_bytes_def take_map)

lemma recv_send:
  assumes "length (q_buf q) = MAXLINE" and "length (q_buf r) = MAXLINE"
  shows "recv_udp_data be None 0 src (fst (send_udp_data be sa sl q)) r =
         (MAXLINE + SIZE_UDP_DATA,
          (init_query_obj None 0 r)\<lparr>q_buf := q_buf q, q_config := q_config q, q_sock_addr := src\<rparr>)"
proof -
  define d where "d = map byte_of_char (q_buf q) @ config_bytes be (q_config q)"
  have d: "fst (send_udp_data be sa sl q) = d"
    using assms(1) by (simp only: send_udp_data_def Let_def fst_conv sendmsg_init d_def take_all)
  have t: "take MAXLINE d = map byte_of_char (q_buf q)" "drop MAXLINE d = config_bytes be (q_config q)"
    using assms(1) by (simp_all add: d_def)
  have "map (char_of_byte \<circ> byte_of_char) (q_buf q) = q_buf q"
    by (simp add: comp_def)
  then show ?thesis
    unfolding d using assms
    by (simp add: recv_udp_data_def recvmsg_def Let_def init_query_obj_def iov_write_def
        iov_bytes_def t)
qed

text \<open>The packet a datagram becomes in an object that was cleared.\<close>

definition received :: "bool \<Rightarrow> sockaddr_in \<Rightarrow> u8 list \<Rightarrow> query_obj" where
  "received be src dgram = snd (recv_udp_data be None 0 src dgram zero_query)"

lemma received_from [simp]: "q_sock_addr (received be src dgram) = src"
  by (simp add: received_def recv_udp_data_def recvmsg_def init_query_obj_def Let_def split: prod.splits)

lemma received_given:
  "q_config (snd (recv_udp_data be (Some a) sl src dgram zero_query)) = q_config (received be src dgram)"
  "q_buf (snd (recv_udp_data be (Some a) sl src dgram zero_query)) = q_buf (received be src dgram)"
  by (simp_all add: received_def recv_udp_data_def recvmsg_def init_query_obj_def Let_def iov_write_def
      iov_bytes_def split: prod.splits)

text \<open>Packets for the concrete runs of the components above.\<close>

definition padded :: "string \<Rightarrow> string" where
  "padded text = text @ replicate (MAXLINE - length text) NUL"

definition packet :: "u32 \<Rightarrow> u32 \<Rightarrow> data_type \<Rightarrow> string \<Rightarrow> query_obj" where
  "packet n w ty text = zero_query\<lparr>q_config := \<lparr>u_seq = n, u_ts = 0, u_rwnd = w, u_type = type_code ty\<rparr>,
     q_buf := padded text\<rparr>"

definition dgram_of :: "bool \<Rightarrow> query_obj \<Rightarrow> u8 list" where
  "dgram_of be q = fst (send_udp_data be None 0 q)"

lemma padded_length: "length text < MAXLINE \<Longrightarrow> length (padded text) = MAXLINE"
  by (simp add: padded_def)

lemma padded_split: "length text < MAXLINE \<Longrightarrow> padded text = text @ NUL # replicate (MAXLINE - length text - 1) NUL"
  unfolding padded_def by (metis Suc_diff_1 replicate_Suc zero_less_diff)

lemma cstr_padded: "length text < MAXLINE \<Longrightarrow> NUL \<notin> set text \<Longrightarrow> cstr (padded text) = text"
  by (simp only: padded_split cstr_append_nul not_False_eq_True)

lemma nul_padded: "length text < MAXLINE \<Longrightarrow> NUL \<in> set (padded text)"
  by (simp only: padded_split set_append list.set) blast

lemma received_dgram_of:
  assumes "length (q_buf q) = MAXLINE"
  shows "q_config (received be src (dgram_of be q)) = q_config q" and "q_buf (received be src (dgram_of be q)) = q_buf q"
proof -
  have z: "length (q_buf zero_query) = MAXLINE"
    by (simp add: zero_query_def)
  show "q_config (received be src (dgram_of be q)) = q_config q" and "q_buf (received be src (dgram_of be q)) = q_buf q"
    unfolding received_def dgram_of_def recv_send [OF assms z] by simp_all
qed

lemma packet_length: "length text < MAXLINE \<Longrightarrow> length (q_buf (packet n w ty text)) = MAXLINE"
  by (simp add: packet_def padded_length)

lemma received_packet:
  assumes "length text < MAXLINE"
  shows "q_config (received be src (dgram_of be (packet n w ty text))) =
           \<lparr>u_seq = n, u_ts = 0, u_rwnd = w, u_type = type_code ty\<rparr>"
    and "q_buf (received be src (dgram_of be (packet n w ty text))) = padded text"
  unfolding received_dgram_of [OF packet_length [OF assms]] by (simp_all add: packet_def)

lemma recv_length:
  assumes "length (q_buf q) = MAXLINE"
  shows "fst (recv_udp_data be a sl src (dgram_of be q) r) = MAXLINE + SIZE_UDP_DATA"
proof -
  have "length (dgram_of be q) = MAXLINE + SIZE_UDP_DATA"
    unfolding dgram_of_def send_udp_data_def Let_def fst_conv sendmsg_init
    using assms by (simp add: config_bytes_def bytes_of_word_def Let_def)
  then show ?thesis
    by (simp add: recv_udp_data_def recvmsg_def init_query_obj_def Let_def split: prod.splits)
qed

text \<open>
  A packet with a full buffer that one side gathers and the other scatters into its own
  object arrives with the same buffer and the same header, in all 4112 bytes.
\<close>

theorem udp_data_roundtrip:
  assumes "length (q_buf q) = MAXLINE" and "length (q_buf r) = MAXLINE"
  shows "let (n, r') = recv_udp_data be None 0 src (fst (send_udp_data be sa sl q)) r
         in n = MAXLINE + SIZE_UDP_DATA \<and> q_buf r' = q_buf q \<and> q_config r' = q_config q \<and>
            q_sock_addr r' = src"
  unfolding recv_send [OF assms] by simp

theorem udp_data_roundtrip_witness:
  "let (n, r') = recv_udp_data False None 0 zero_sockaddr
                   (fst (send_udp_data False None 0 (zero_query\<lparr>q_config :=
                      \<lparr>u_seq = 7, u_ts = 1, u_rwnd = 10, u_type = type_code data\<rparr>\<rparr>))) zero_query
   in n = MAXLINE + SIZE_UDP_DATA \<and> u_seq (q_config r') = 7"
proof -
  have "length (q_buf (zero_query\<lparr>q_config :=
          \<lparr>u_seq = 7, u_ts = 1, u_rwnd = 10, u_type = type_code data\<rparr>\<rparr>)) = MAXLINE"
    and "length (q_buf zero_query) = MAXLINE"
    by (simp_all add: zero_query_def)
  from udp_data_roundtrip [OF this, of False zero_sockaddr None 0] show ?thesis
    by (auto simp: Let_def split: prod.splits)
qed

section \<open>Lemmas: addresses\<close>

lemma split_on_none: "d \<notin> set w \<Longrightarrow> split_on d w = [w]"
  by (induction w) auto

lemma split_on_sep: "d \<notin> set w \<Longrightarrow> split_on d (w @ d # rest) = w # split_on d rest"
  by (induction w) auto

lemma dec_nat_no_dot: "CHR ''.'' \<notin> set (dec_nat n)"
  using dec_nat_digits [of n] by (auto simp: is_digit_def)

lemma dec_nat_short: "n < 256 \<Longrightarrow> length (dec_nat n) \<le> 3"
  by (subst dec_nat.simps, simp, subst dec_nat.simps, simp, subst dec_nat.simps, simp)

lemma dec_nat_hd: "0 < n \<Longrightarrow> hd (dec_nat n) \<noteq> CHR ''0''"
proof (induction n rule: dec_nat.induct)
  case (1 n)
  show ?case
  proof (cases "n < 10")
    case True
    then have "digit_char n \<noteq> CHR ''0''"
      using "1.prems" digit_char_val [OF True] by (auto simp: digit_val_def)
    then show ?thesis
      using True by (subst dec_nat.simps) simp
  next
    case False
    with "1.IH" show ?thesis
      by (subst dec_nat.simps) simp
  qed
qed

lemma octet_dec: "octet (dec_nat (unat a)) = Some a"
proof -
  have n: "unat a < 256"
    by (rule unat_lt8)
  have "length (dec_nat (unat a)) = 1 \<or> hd (dec_nat (unat a)) \<noteq> CHR ''0''"
  proof (cases "unat a = 0")
    case True
    then show ?thesis by (subst dec_nat.simps) simp
  next
    case False
    then show ?thesis using dec_nat_hd [of "unat a"] by simp
  qed
  moreover have "list_all is_digit (dec_nat (unat a))"
    using dec_nat_digits by (simp add: list_all_iff)
  ultimately show ?thesis
    using n dec_nat_short [OF n] by (simp add: octet_def str_simps)
qed

text \<open>An address printed by \<open>inet_ntop\<close> parses back to itself.\<close>

theorem inet_roundtrip: "inet_pton (inet_ntop a) = Some a"
proof (cases a)
  case (fields w x y z)
  then show ?thesis
    by (simp add: inet_pton_def split_on_sep split_on_none dec_nat_no_dot octet_dec)
qed

section \<open>Lemmas: the local test picks the longest matching mask\<close>

lemma check_loop_spec:
  assumes "check_loop be w as i (l, m) = Some (l', m')" and "0 < i"
  shows "(\<forall>a \<in> set as. row_matches be w a \<longrightarrow> row_mask be a \<le> m') \<and> m \<le> m' \<and>
         (if m' = m then l \<noteq> 0 \<longrightarrow> l' = l
          else \<exists>j < length as. l' = i + j \<and> row_matches be w (as ! j) \<and> m' = row_mask be (as ! j))"
  using assms
proof (induction as arbitrary: i l m)
  case Nil
  then show ?case by simp
next
  case (Cons a as)
  obtain s2 s3 where s: "inet_pton (ip_addr a) = Some s2" "inet_pton (mask a) = Some s3"
    using Cons.prems by (auto simp: bind_eq_Some_conv)
  have rm: "row_mask be a = s_addr be s3"
    using s by (simp add: row_mask_def)
  have mt: "row_matches be w a \<longleftrightarrow> and w (s_addr be s3) = and (s_addr be s2) (s_addr be s3)"
    using s by (simp add: row_matches_def rm)
  define m1 where "m1 = (if row_matches be w a \<and> m < row_mask be a then row_mask be a else m)"
  obtain l1 where rec: "check_loop be w as (Suc i) (l1, m1) = Some (l', m')"
    and new: "row_matches be w a \<and> m < row_mask be a \<longrightarrow> l1 = i"
    and old: "\<not> (row_matches be w a \<and> m < row_mask be a) \<and> l \<noteq> 0 \<longrightarrow> l1 = l"
    using Cons.prems s unfolding mt rm m1_def by (fastforce simp: Let_def split: if_splits)
  note IH = Cons.IH [OF rec, simplified]
  have le: "row_matches be w a \<longrightarrow> row_mask be a \<le> m1" "m \<le> m1"
    by (auto simp: m1_def)
  have tail: "l' = i + j' \<and> row_matches be w ((a # as) ! j') \<and> m' = row_mask be ((a # as) ! j')"
    if "l' = Suc (i + j) \<and> row_matches be w (as ! j) \<and> m' = row_mask be (as ! j)" "j' = Suc j" for j j'
    using that by simp
  show ?case
  proof (cases "m' = m1")
    case True
    then show ?thesis
      using IH le new old Cons.prems(2) by (auto simp: m1_def split: if_splits)
  next
    case False
    then obtain j where j: "j < length as" "l' = Suc (i + j) \<and> row_matches be w (as ! j) \<and> m' = row_mask be (as ! j)"
      using IH by auto
    have "m' \<noteq> m"
      using IH False le(2) by auto
    then show ?thesis
      using IH le tail [OF j(2) refl] j(1) by (auto intro!: exI [of _ "Suc j"])
  qed
qed

text \<open>
  When the first row (the loopback interface) does not match a peer, but some row with a
  mask does, the index returned is a matching row and no matching row has a longer mask.
\<close>

theorem check_addr_local_longest:
  assumes "check_addr_local be address (a0 # addr) = Some k" and "address \<noteq> ''127.0.0.1''"
    and "inet_pton address = Some p" and "\<not> row_matches be (s_addr be p) a0"
    and "\<exists>a \<in> set addr. row_matches be (s_addr be p) a \<and> row_mask be a \<noteq> 0"
  shows "0 < k \<and> k < length (a0 # addr) \<and> row_matches be (s_addr be p) ((a0 # addr) ! k) \<and>
         (\<forall>a \<in> set (a0 # addr). row_matches be (s_addr be p) a \<longrightarrow>
            row_mask be a \<le> row_mask be ((a0 # addr) ! k))"
proof -
  let ?w = "s_addr be p"
  obtain m' s2 s3 where "check_loop be ?w (a0 # addr) 0 (0, 0) = Some (k, m')"
    and s: "inet_pton (ip_addr a0) = Some s2" "inet_pton (mask a0) = Some s3"
    using assms(1-3) by (auto simp: check_addr_local_def bind_eq_Some_conv)
  moreover have "and ?w (s_addr be s3) \<noteq> and (s_addr be s2) (s_addr be s3)"
    using assms(4) s by (simp add: row_matches_def row_mask_def)
  ultimately have "check_loop be ?w addr (Suc 0) (0, 0) = Some (k, m')"
    by simp
  from check_loop_spec [OF this] assms(4,5) show ?thesis
    by (fastforce split: if_splits)
qed

definition two_rows :: "iAddr list" where
  "two_rows = [\<lparr>ip_addr = ''127.0.0.1'', mask = ''255.0.0.0''\<rparr>,
               \<lparr>ip_addr = ''130.245.1.44'', mask = ''255.255.255.0''\<rparr>]"

lemma pton_values:
  "inet_pton ''130.245.1.99'' = Some (130, 245, 1, 99)" "inet_pton ''130.245.1.44'' = Some (130, 245, 1, 44)"
  "inet_pton ''127.0.0.1'' = Some (127, 0, 0, 1)" "inet_pton ''255.0.0.0'' = Some (255, 0, 0, 0)"
  "inet_pton ''255.255.255.0'' = Some (255, 255, 255, 0)"
  by (simp_all add: inet_pton_def octet_def is_digit_def digit_val_def)

theorem check_addr_local_longest_witness:
  "check_addr_local False ''130.245.1.99'' two_rows = Some 1 \<and>
   row_matches False (s_addr False (130, 245, 1, 99)) (two_rows ! 1)"
proof -
  have c: "check_addr_local False ''130.245.1.99'' two_rows = Some 1"
    by (simp add: check_addr_local_def two_rows_def pton_values word_of_bytes_def nat_of_bytes_def)
  have "row_matches False (s_addr False (130, 245, 1, 99)) (two_rows ! 1)"
    using check_addr_local_longest [of False "''130.245.1.99''" "two_rows ! 0" "[two_rows ! 1]" 1 "(130, 245, 1, 99)"] c
    by (simp add: two_rows_def pton_values row_matches_def row_mask_def word_of_bytes_def nat_of_bytes_def)
  with c show ?thesis by simp
qed

text \<open>
  The index 0 doubles as the mark for \<open>not found\<close>, so a best match in row 0 is lost to a
  later row with a shorter mask.
\<close>

theorem check_addr_local_row0_lost:
  "check_addr_local False ''130.245.1.99''
     [\<lparr>ip_addr = ''130.245.1.44'', mask = ''255.255.255.0''\<rparr>, \<lparr>ip_addr = ''130.245.1.44'', mask = ''255.0.0.0''\<rparr>]
   = Some 1"
  by (simp add: check_addr_local_def pton_values word_of_bytes_def nat_of_bytes_def)

end
