(* ===== verification/Ifi.thy ===== *)
theory Ifi
  imports Udp
begin

text \<open>
  The interface list of \<open>src/hw2/get_ifi_info_plus.c\<close> and \<open>src/hw2/unpifiplus.h\<close>, the
  programs that print it (\<open>src/hw2/prifinfo_plus.c\<close>) and the address table the file
  transfer builds from it (\<open>src/hw2/common.c\<close>).  The answers of the \<open>ioctl\<close> calls are a
  record argument.  The build is the one for Solaris and Linux: socket addresses without a
  length field, no \<open>sockaddr_dl\<close>, no MTU request.
\<close>

section \<open>The kernel's answers\<close>

datatype sa = SaIn sockaddr_in | SaIn6 "u8 list" | SaOther nat

abbreviation AF_INET6 :: nat where
  "AF_INET6 \<equiv> 26"

fun sa_family :: "sa \<Rightarrow> nat" where
  "sa_family (SaIn s) = AF_INET"
| "sa_family (SaIn6 b) = AF_INET6"
| "sa_family (SaOther n) = n"

record ifreq =
  ifr_name :: string
  ifr_addr :: sa

datatype errno = EINVAL | EOTHER

text \<open>
  \<open>k_ifconf len\<close> is \<open>SIOCGIFCONF\<close> with a buffer of \<open>len\<close> bytes: an error, or the number
  of bytes filled and the entries in them.
\<close>

record kernel =
  k_ifconf :: "nat \<Rightarrow> errno + nat \<times> ifreq list"
  k_flags :: "string \<Rightarrow> u16"
  k_brdaddr :: "string \<Rightarrow> sa"
  k_dstaddr :: "string \<Rightarrow> sa"
  k_netmask :: "string \<Rightarrow> sa"

abbreviation SIZE_IFREQ :: nat where
  "SIZE_IFREQ \<equiv> 32"

abbreviation IFF_UP :: u16 where "IFF_UP \<equiv> 0x1"
abbreviation IFF_BROADCAST :: u16 where "IFF_BROADCAST \<equiv> 0x2"
abbreviation IFF_LOOPBACK :: u16 where "IFF_LOOPBACK \<equiv> 0x8"
abbreviation IFF_POINTOPOINT :: u16 where "IFF_POINTOPOINT \<equiv> 0x10"
abbreviation IFF_MULTICAST :: u16 where "IFF_MULTICAST \<equiv> 0x800"

abbreviation IFI_ALIAS :: u16 where "IFI_ALIAS \<equiv> 1"
abbreviation IFI_NAME :: nat where "IFI_NAME \<equiv> 16"
abbreviation IFNAMSIZ :: nat where "IFNAMSIZ \<equiv> 16"

definition flag_set :: "u16 \<Rightarrow> u16 \<Rightarrow> bool" where
  "flag_set flags f \<longleftrightarrow> and flags f \<noteq> 0"

section \<open>The interface list\<close>

record ifi_info =
  ifi_name :: string
  ifi_index :: u16
  ifi_mtu :: u16
  ifi_haddr :: "u8 list"
  ifi_hlen :: u16
  ifi_flags :: u16
  ifi_myflags :: u16
  ifi_addr :: "sa option"
  ifi_brdaddr :: "sa option"
  ifi_dstaddr :: "sa option"
  ifi_ntmaddr :: "sa option"

text \<open>
  The loop that sizes the request: ask with a growing buffer until the answer has the same
  length twice.  \<open>None\<close> means that the fuel ran out; \<open>Some (Inl e)\<close> that the process exited.
\<close>

fun ifconf_loop ::
  "nat \<Rightarrow> (nat \<Rightarrow> errno + nat \<times> ifreq list) \<Rightarrow> nat \<Rightarrow> nat \<Rightarrow> (errno + ifreq list) option" where
  "ifconf_loop 0 conf len lastlen = None"
| "ifconf_loop (Suc fuel) conf len lastlen =
     (case conf len of
        Inl e \<Rightarrow>
          if e \<noteq> EINVAL \<or> lastlen \<noteq> 0 then Some (Inl e)
          else ifconf_loop fuel conf (len + 10 * SIZE_IFREQ) lastlen
      | Inr (n, entries) \<Rightarrow>
          if n = lastlen then Some (Inr entries)
          else ifconf_loop fuel conf (len + 10 * SIZE_IFREQ) n)"

definition ifi_new :: "kernel \<Rightarrow> ifreq \<Rightarrow> u16 \<Rightarrow> u16 \<Rightarrow> ifi_info" where
  "ifi_new k ifr flags myflags =
     (let name = ifr_name ifr;
          ifi = \<lparr>ifi_name = take (IFI_NAME - 1) name, ifi_index = 0, ifi_mtu = 0, ifi_haddr = [],
                 ifi_hlen = 0, ifi_flags = flags, ifi_myflags = myflags, ifi_addr = None,
                 ifi_brdaddr = None, ifi_dstaddr = None, ifi_ntmaddr = None\<rparr>
      in if sa_family (ifr_addr ifr) = AF_INET then
           ifi\<lparr>ifi_addr := Some (ifr_addr ifr),
               ifi_brdaddr := (if flag_set flags IFF_BROADCAST then Some (k_brdaddr k name) else None),
               ifi_dstaddr := (if flag_set flags IFF_POINTOPOINT then Some (k_dstaddr k name) else None),
               ifi_ntmaddr := Some (k_netmask k name)\<rparr>
         else if sa_family (ifr_addr ifr) = AF_INET6 then
           ifi\<lparr>ifi_addr := Some (ifr_addr ifr),
               ifi_dstaddr := (if flag_set flags IFF_POINTOPOINT then Some (k_dstaddr k name) else None)\<rparr>
         else ifi)"

fun ifi_walk :: "kernel \<Rightarrow> nat \<Rightarrow> bool \<Rightarrow> string \<Rightarrow> ifreq list \<Rightarrow> ifi_info list" where
  "ifi_walk k family doaliases lastname [] = []"
| "ifi_walk k family doaliases lastname (ifr # rest) =
     (if sa_family (ifr_addr ifr) \<noteq> family then ifi_walk k family doaliases lastname rest
      else
        (let same = (take IFNAMSIZ lastname = take IFNAMSIZ (ifr_name ifr)) in
         if same \<and> \<not> doaliases then ifi_walk k family doaliases lastname rest
         else
           (let myflags = (if same then IFI_ALIAS else 0);
                lastname' = ifr_name ifr;
                flags = k_flags k (ifr_name ifr)
            in if \<not> flag_set flags IFF_UP then ifi_walk k family doaliases lastname' rest
               else ifi_new k ifr flags myflags # ifi_walk k family doaliases lastname' rest)))"

definition get_ifi_info_plus :: "nat \<Rightarrow> kernel \<Rightarrow> nat \<Rightarrow> bool \<Rightarrow> (errno + ifi_info list) option" where
  "get_ifi_info_plus fuel k family doaliases =
     (case ifconf_loop fuel (k_ifconf k) (100 * SIZE_IFREQ) 0 of
        None \<Rightarrow> None
      | Some (Inl e) \<Rightarrow> Some (Inl e)
      | Some (Inr entries) \<Rightarrow> Some (Inr (ifi_walk k family doaliases [] entries)))"

text \<open>\<open>Get_ifi_info_plus\<close> leaves the process when the list is empty.\<close>

definition Get_ifi_info_plus :: "nat \<Rightarrow> kernel \<Rightarrow> nat \<Rightarrow> bool \<Rightarrow> (errno + ifi_info list) option" where
  "Get_ifi_info_plus fuel k family doaliases =
     (case get_ifi_info_plus fuel k family doaliases of
        Some (Inr []) \<Rightarrow> Some (Inl EOTHER)
      | r \<Rightarrow> r)"

text \<open>
  \<open>free_ifi_info_plus\<close> as the sequence of blocks it hands to \<open>free\<close>: node \<open>i\<close> of the list
  and its address blocks.
\<close>

datatype block = Addr nat | Brdaddr nat | Dstaddr nat | Ntmaddr nat | Node nat

fun free_ifi_info_plus :: "nat \<Rightarrow> ifi_info list \<Rightarrow> block list" where
  "free_ifi_info_plus i [] = []"
| "free_ifi_info_plus i (ifi # rest) =
     (if ifi_addr ifi \<noteq> None then [Addr i] else []) @
     (if ifi_brdaddr ifi \<noteq> None then [Brdaddr i] else []) @
     (if ifi_dstaddr ifi \<noteq> None then [Dstaddr i] else []) @
     (if ifi_ntmaddr ifi \<noteq> None then [Ntmaddr i] else []) @
     Node i # free_ifi_info_plus (Suc i) rest"

section \<open>Printing and the address table\<close>

text \<open>
  \<open>Sock_ntop_host\<close> of \<open>src/unpv13e/lib/sock_ntop_host.c\<close> on the families in use; the
  text of an IPv6 address is left to the library.
\<close>

fun sock_ntop_host :: "(u8 list \<Rightarrow> string) \<Rightarrow> sa \<Rightarrow> nat \<Rightarrow> string" where
  "sock_ntop_host ntop6 (SaIn s) salen = inet_ntop (sin_addr s)"
| "sock_ntop_host ntop6 (SaIn6 b) salen = ntop6 b"
| "sock_ntop_host ntop6 (SaOther n) salen =
     ''sock_ntop_host: unknown AF_xxx: '' @ dec_nat n @ '', len '' @ dec_nat salen"

definition opt_line :: "string \<Rightarrow> (u8 list \<Rightarrow> string) \<Rightarrow> sa option \<Rightarrow> string list" where
  "opt_line label ntop6 a = (case a of None \<Rightarrow> [] | Some s \<Rightarrow> [label @ sock_ntop_host ntop6 s 16])"

definition print_ifi :: "(u8 list \<Rightarrow> string) \<Rightarrow> ifi_info \<Rightarrow> string list" where
  "print_ifi ntop6 ifi =
     [ifi_name ifi @ '': '' @
      (if ifi_index ifi \<noteq> 0 then ''('' @ dec_nat (unat (ifi_index ifi)) @ '') '' else []) @ ''<'' @
      (if flag_set (ifi_flags ifi) IFF_UP then ''UP '' else []) @
      (if flag_set (ifi_flags ifi) IFF_BROADCAST then ''BCAST '' else []) @
      (if flag_set (ifi_flags ifi) IFF_MULTICAST then ''MCAST '' else []) @
      (if flag_set (ifi_flags ifi) IFF_LOOPBACK then ''LOOP '' else []) @
      (if flag_set (ifi_flags ifi) IFF_POINTOPOINT then ''P2P '' else []) @ ''>''] @
     (if ifi_mtu ifi \<noteq> 0 then [''  MTU: '' @ dec_nat (unat (ifi_mtu ifi))] else []) @
     opt_line ''  IP addr: '' ntop6 (ifi_addr ifi) @
     opt_line ''  network mask: '' ntop6 (ifi_ntmaddr ifi) @
     opt_line ''  broadcast addr: '' ntop6 (ifi_brdaddr ifi) @
     opt_line ''  destination addr: '' ntop6 (ifi_dstaddr ifi)"

datatype pr_result = Usage | BadFamily | NoList | Printed "string list"

text \<open>\<open>config.h\<close> defines \<open>IPv6\<close>, so the second name is accepted too.\<close>

definition family_of :: "string \<Rightarrow> nat option" where
  "family_of arg = (if arg = ''inet4'' then Some AF_INET else if arg = ''inet6'' then Some AF_INET6 else None)"

definition prifinfo_plus_main ::
  "nat \<Rightarrow> kernel \<Rightarrow> (u8 list \<Rightarrow> string) \<Rightarrow> string list \<Rightarrow> pr_result" where
  "prifinfo_plus_main fuel k ntop6 argv =
     (if length argv \<noteq> 3 then Usage
      else case family_of (argv ! 1) of
        None \<Rightarrow> BadFamily
      | Some family \<Rightarrow>
          (case Get_ifi_info_plus fuel k family (atoi (argv ! 2) \<noteq> 0) of
             Some (Inr ifis) \<Rightarrow> Printed (concat (map (print_ifi ntop6) ifis))
           | _ \<Rightarrow> NoList))"

definition get_addr_count :: "nat \<Rightarrow> kernel \<Rightarrow> nat option" where
  "get_addr_count fuel k =
     (case Get_ifi_info_plus fuel k AF_INET False of
        Some (Inr ifis) \<Rightarrow> Some (length ifis)
      | _ \<Rightarrow> None)"

definition fill_row :: "(u8 list \<Rightarrow> string) \<Rightarrow> ifi_info \<Rightarrow> iAddr \<Rightarrow> iAddr" where
  "fill_row ntop6 ifi row =
     (let row1 = (case ifi_addr ifi of None \<Rightarrow> row | Some s \<Rightarrow> row\<lparr>ip_addr := sock_ntop_host ntop6 s 16\<rparr>)
      in case ifi_ntmaddr ifi of None \<Rightarrow> row1 | Some s \<Rightarrow> row1\<lparr>mask := sock_ntop_host ntop6 s 16\<rparr>)"

fun fill_loop :: "(u8 list \<Rightarrow> string) \<Rightarrow> ifi_info list \<Rightarrow> nat \<Rightarrow> iAddr list \<Rightarrow> iAddr list option" where
  "fill_loop ntop6 [] count addr = Some addr"
| "fill_loop ntop6 (ifi # rest) count addr = do {
     row \<leftarrow> aget addr (int count);
     addr' \<leftarrow> aset addr (int count) (fill_row ntop6 ifi row);
     fill_loop ntop6 rest (Suc count) addr'
   }"

definition fill_addr_contents ::
  "nat \<Rightarrow> kernel \<Rightarrow> (u8 list \<Rightarrow> string) \<Rightarrow> iAddr list \<Rightarrow> iAddr list option" where
  "fill_addr_contents fuel k ntop6 addr =
     (case Get_ifi_info_plus fuel k AF_INET False of
        Some (Inr ifis) \<Rightarrow> fill_loop ntop6 ifis 0 addr
      | _ \<Rightarrow> None)"

text \<open>
  What \<open>SIOCGIFCONF\<close> does on the systems the code was written for: it fills the buffer with
  as many whole entries as fit and reports their size.
\<close>

definition truncating :: "(nat \<Rightarrow> errno + nat \<times> ifreq list) \<Rightarrow> ifreq list \<Rightarrow> bool" where
  "truncating conf entries \<longleftrightarrow>
     (\<forall>len. conf len = Inr (SIZE_IFREQ * min (length entries) (len div SIZE_IFREQ),
                            take (len div SIZE_IFREQ) entries))"

section \<open>Lemmas: the sizing loop\<close>

lemma ifconf_loop_truncating:
  assumes "truncating conf es" and "length es - c + 2 \<le> fuel"
    and "ll < 32 * min (length es) c \<or> ll = 32 * length es \<and> length es \<le> c"
  shows "ifconf_loop fuel conf (32 * c) ll = Some (Inr es)"
  using assms(2,3)
proof (induction fuel arbitrary: c ll)
  case 0
  then show ?case by simp
next
  case (Suc fuel)
  have conf: "conf (32 * c') = Inr (32 * min (length es) c', take c' es)" for c'
    using assms(1) by (simp add: truncating_def)
  have step: "32 * c + 10 * SIZE_IFREQ = 32 * (c + 10)"
    by simp
  consider (stop) "ll = 32 * length es" "length es \<le> c"
    | (one) "ll < 32 * min (length es) c" "length es \<le> c"
    | (more) "ll < 32 * min (length es) c" "c < length es"
    using Suc.prems(2) by linarith
  then show ?case
  proof cases
    case stop
    then show ?thesis using conf [of c] by simp
  next
    case one
    obtain f where f: "fuel = Suc f"
      using Suc.prems(1) by (cases fuel) auto
    have "ifconf_loop fuel conf (32 * (c + 10)) (32 * length es) = Some (Inr es)"
      using conf [of "c + 10"] one(2) f by simp
    then show ?thesis
      using conf [of c] one by (simp only: ifconf_loop.simps step) simp
  next
    case more
    have "ifconf_loop fuel conf (32 * (c + 10)) (32 * c) = Some (Inr es)"
      by (rule Suc.IH) (use Suc.prems(1) more in auto)
    then show ?thesis
      using conf [of c] more by (simp only: ifconf_loop.simps step) simp
  qed
qed

lemma get_ifi_complete:
  assumes "truncating (k_ifconf k) entries" and "length entries + 2 \<le> fuel"
  shows "get_ifi_info_plus fuel k family doaliases = Some (Inr (ifi_walk k family doaliases [] entries))"
proof -
  have "ifconf_loop fuel (k_ifconf k) (32 * 100) 0 = Some (Inr entries)"
    by (rule ifconf_loop_truncating [OF assms(1)]) (use assms(2) in auto)
  then show ?thesis
    by (simp add: get_ifi_info_plus_def)
qed

text \<open>
  C37: on a kernel that truncates the answer to the buffer, the sizing loop ends and the list
  is built from every entry of the kernel.
\<close>

theorem get_ifi_info_plus_complete:
  assumes "truncating (k_ifconf k) entries" and "length entries + 2 \<le> fuel"
  shows "get_ifi_info_plus fuel k family doaliases = Some (Inr (ifi_walk k family doaliases [] entries))"
  by (rule get_ifi_complete [OF assms])

definition demo_entries :: "ifreq list" where
  "demo_entries =
     [\<lparr>ifr_name = ''lo0'', ifr_addr = SaIn \<lparr>sin_family = 2, sin_port = 0, sin_addr = (127, 0, 0, 1)\<rparr>\<rparr>,
      \<lparr>ifr_name = ''bge0'', ifr_addr = SaIn \<lparr>sin_family = 2, sin_port = 0, sin_addr = (130, 245, 1, 44)\<rparr>\<rparr>]"

definition demo_kernel :: kernel where
  "demo_kernel = \<lparr>k_ifconf = (\<lambda>len. Inr (32 * min (length demo_entries) (len div 32), take (len div 32) demo_entries)),
     k_flags = (\<lambda>_. IFF_UP), k_brdaddr = (\<lambda>_. SaOther 0), k_dstaddr = (\<lambda>_. SaOther 0),
     k_netmask = (\<lambda>_. SaIn \<lparr>sin_family = 2, sin_port = 0, sin_addr = (255, 255, 255, 0)\<rparr>)\<rparr>"

lemma demo_truncating: "truncating (k_ifconf demo_kernel) demo_entries"
  by (simp add: truncating_def demo_kernel_def)

lemma demo_list:
  "\<exists>a b. Get_ifi_info_plus 4 demo_kernel AF_INET False = Some (Inr [a, b])"
proof -
  have "\<exists>a b. ifi_walk demo_kernel AF_INET False [] demo_entries = [a, b]"
    by (simp add: demo_kernel_def demo_entries_def flag_set_def Let_def)
  then show ?thesis
    using get_ifi_complete [OF demo_truncating, of 4 AF_INET False]
    by (auto simp: Get_ifi_info_plus_def demo_entries_def)
qed

theorem get_ifi_info_plus_complete_witness:
  "get_ifi_info_plus 4 demo_kernel AF_INET False = Some (Inr (ifi_walk demo_kernel AF_INET False [] demo_entries))"
  using get_ifi_info_plus_complete [OF demo_truncating, of 4 AF_INET False] by (simp add: demo_entries_def)

section \<open>Lemmas: the list\<close>

lemma ifi_walk_member:
  "ifi \<in> set (ifi_walk k family al ln es) \<Longrightarrow>
   \<exists>r \<in> set es. sa_family (ifr_addr r) = family \<and> flag_set (k_flags k (ifr_name r)) IFF_UP \<and>
     (\<exists>m. ifi = ifi_new k r (k_flags k (ifr_name r)) m)"
  by (induction es arbitrary: ln) (auto simp: Let_def split: if_splits)

lemma ifi_new_inet:
  "sa_family (ifr_addr r) = AF_INET \<Longrightarrow>
   ifi_addr (ifi_new k r f m) = Some (ifr_addr r) \<and> ifi_ntmaddr (ifi_new k r f m) = Some (k_netmask k (ifr_name r))"
  by (simp add: ifi_new_def Let_def)

lemma sa_family_inet: "sa_family a = AF_INET \<Longrightarrow> (\<exists>s. a = SaIn s) \<or> a = SaOther AF_INET"
  by (cases a) auto

lemma Get_SomeD:
  assumes "Get_ifi_info_plus fuel k family al = Some (Inr ifis)"
  shows "ifis \<noteq> [] \<and> (\<exists>es. ifis = ifi_walk k family al [] es)"
  using assms by (auto simp: Get_ifi_info_plus_def get_ifi_info_plus_def split: option.splits sum.splits list.splits)

text \<open>
  Every interface in the list is up, has an address of the requested family and, for IPv4,
  a network mask, which is what the address table needs.
\<close>

theorem Get_ifi_info_plus_inet:
  assumes "Get_ifi_info_plus fuel k AF_INET al = Some (Inr ifis)" and "ifi \<in> set ifis"
  shows "flag_set (ifi_flags ifi) IFF_UP \<and> ifi_ntmaddr ifi \<noteq> None \<and>
         (\<exists>a. ifi_addr ifi = Some a \<and> sa_family a = AF_INET)"
proof -
  obtain es where "ifis = ifi_walk k AF_INET al [] es"
    using Get_SomeD [OF assms(1)] by blast
  with assms(2) obtain r m where r: "sa_family (ifr_addr r) = AF_INET"
      "flag_set (k_flags k (ifr_name r)) IFF_UP" and ifi: "ifi = ifi_new k r (k_flags k (ifr_name r)) m"
    using ifi_walk_member by blast
  have "ifi_flags ifi = k_flags k (ifr_name r)"
    by (simp add: ifi ifi_new_def Let_def)
  then show ?thesis
    using r ifi ifi_new_inet [OF r(1)] by simp
qed

theorem Get_ifi_info_plus_inet_witness:
  "\<exists>ifis. Get_ifi_info_plus 4 demo_kernel AF_INET False = Some (Inr ifis) \<and>
     flag_set (ifi_flags (hd ifis)) IFF_UP \<and> ifi_ntmaddr (hd ifis) \<noteq> None"
proof -
  obtain a b where i: "Get_ifi_info_plus 4 demo_kernel AF_INET False = Some (Inr [a, b])"
    using demo_list by blast
  from Get_ifi_info_plus_inet [OF i, of a] i show ?thesis
    by auto
qed

lemma fill_loop_spec:
  "count + length ifis \<le> length addr \<Longrightarrow>
   \<exists>addr'. fill_loop ntop6 ifis count addr = Some addr' \<and> length addr' = length addr \<and>
     (\<forall>i < length addr. addr' ! i =
        (if count \<le> i \<and> i < count + length ifis then fill_row ntop6 (ifis ! (i - count)) (addr ! i) else addr ! i))"
proof (induction ifis arbitrary: count addr)
  case Nil
  then show ?case by auto
next
  case (Cons ifi ifis)
  let ?addr = "addr[count := fill_row ntop6 ifi (addr ! count)]"
  have c: "count < length addr"
    using Cons.prems by simp
  have "Suc count + length ifis \<le> length ?addr"
    using Cons.prems by simp
  from Cons.IH [OF this] obtain addr' where a: "fill_loop ntop6 ifis (Suc count) ?addr = Some addr'"
      "length addr' = length ?addr"
      "\<forall>i < length ?addr. addr' ! i = (if Suc count \<le> i \<and> i < Suc count + length ifis
          then fill_row ntop6 (ifis ! (i - Suc count)) (?addr ! i) else ?addr ! i)"
    by blast
  have "addr' ! i = (if count \<le> i \<and> i < count + length (ifi # ifis)
          then fill_row ntop6 ((ifi # ifis) ! (i - count)) (addr ! i) else addr ! i)" if "i < length addr" for i
    using a(3) that c by (cases "i = count") (auto simp: nth_Cons' Suc_diff_le)
  then show ?case
    using a c by (simp add: arr_simps)
qed

text \<open>
  \<open>get_addr_count\<close> and \<open>fill_addr_contents\<close> agree: a table of the counted size is
  filled without leaving it, row \<open>i\<close> from interface \<open>i\<close>.
\<close>

theorem addr_table_filled:
  assumes "get_addr_count fuel k = Some n" and "length addr = n"
  shows "\<exists>ifis addr'. Get_ifi_info_plus fuel k AF_INET False = Some (Inr ifis) \<and>
           fill_addr_contents fuel k ntop6 addr = Some addr' \<and> length ifis = n \<and> length addr' = n \<and>
           (\<forall>i < n. addr' ! i = fill_row ntop6 (ifis ! i) (addr ! i))"
proof -
  obtain ifis where g: "Get_ifi_info_plus fuel k AF_INET False = Some (Inr ifis)" and n: "n = length ifis"
    using assms(1) by (auto simp: get_addr_count_def split: option.splits sum.splits)
  have "0 + length ifis \<le> length addr"
    using assms(2) n by simp
  from fill_loop_spec [OF this, of ntop6] g n assms(2) show ?thesis
    by (auto simp: fill_addr_contents_def)
qed

theorem addr_table_filled_witness:
  "get_addr_count 4 demo_kernel = Some 2 \<and>
   (\<exists>addr'. fill_addr_contents 4 demo_kernel (\<lambda>_. []) (replicate 2 \<lparr>ip_addr = [], mask = []\<rparr>) = Some addr' \<and> length addr' = 2)"
proof -
  have c: "get_addr_count 4 demo_kernel = Some 2"
    using demo_list by (auto simp: get_addr_count_def)
  from addr_table_filled [OF c, of "replicate 2 \<lparr>ip_addr = [], mask = []\<rparr>" "\<lambda>_. []"] c show ?thesis
    by auto
qed

section \<open>Lemmas: freeing\<close>

fun block_node :: "block \<Rightarrow> nat" where
  "block_node (Addr i) = i"
| "block_node (Brdaddr i) = i"
| "block_node (Dstaddr i) = i"
| "block_node (Ntmaddr i) = i"
| "block_node (Node i) = i"

text \<open>The blocks the list owns: one per node and one per address it holds.\<close>

definition owned :: "nat \<Rightarrow> ifi_info list \<Rightarrow> block set" where
  "owned i ifis = {b. i \<le> block_node b \<and> block_node b < i + length ifis \<and>
     (case b of Addr j \<Rightarrow> ifi_addr (ifis ! (j - i)) \<noteq> None
        | Brdaddr j \<Rightarrow> ifi_brdaddr (ifis ! (j - i)) \<noteq> None
        | Dstaddr j \<Rightarrow> ifi_dstaddr (ifis ! (j - i)) \<noteq> None
        | Ntmaddr j \<Rightarrow> ifi_ntmaddr (ifis ! (j - i)) \<noteq> None
        | Node j \<Rightarrow> True)}"

lemma free_block_range: "b \<in> set (free_ifi_info_plus i ifis) \<Longrightarrow> i \<le> block_node b \<and> block_node b < i + length ifis"
  by (induction ifis arbitrary: i) (fastforce split: if_splits)+

lemma free_distinct: "distinct (free_ifi_info_plus i ifis)"
proof (induction ifis arbitrary: i)
  case Nil
  show ?case by simp
next
  case (Cons ifi ifis)
  have "b \<in> set (free_ifi_info_plus (Suc i) ifis) \<Longrightarrow> block_node b \<noteq> i" for b
    using free_block_range by fastforce
  then show ?case
    using Cons.IH [of "Suc i"] by fastforce
qed

lemma owned_Cons:
  "owned i (ifi # ifis) = owned (Suc i) ifis \<union> {Node i} \<union>
     {b. (b = Addr i \<and> ifi_addr ifi \<noteq> None) \<or> (b = Brdaddr i \<and> ifi_brdaddr ifi \<noteq> None) \<or>
         (b = Dstaddr i \<and> ifi_dstaddr ifi \<noteq> None) \<or> (b = Ntmaddr i \<and> ifi_ntmaddr ifi \<noteq> None)}"
  (is "?L = ?R")
proof (rule set_eqI)
  fix b
  have e: "j - i = Suc (j - Suc i)" if "Suc i \<le> j" for j
    using that by simp
  show "b \<in> ?L \<longleftrightarrow> b \<in> ?R"
  proof (cases "block_node b = i")
    case True
    then show ?thesis by (cases b) (auto simp: owned_def)
  next
    case False
    then have "i \<le> block_node b \<longleftrightarrow> Suc i \<le> block_node b"
      by auto
    with False show ?thesis
      by (cases b) (auto simp: owned_def e)
  qed
qed

lemma free_set: "set (free_ifi_info_plus i ifis) = owned i ifis"
proof (induction ifis arbitrary: i)
  case Nil
  show ?case by (auto simp: owned_def)
next
  case (Cons ifi ifis)
  show ?case
    unfolding owned_Cons Cons.IH [symmetric] by auto
qed

text \<open>Freeing the list releases every block it owns, and none of them twice.\<close>

theorem free_exactly_once:
  "set (free_ifi_info_plus 0 ifis) = owned 0 ifis \<and> distinct (free_ifi_info_plus 0 ifis)"
  by (simp add: free_set free_distinct)

end
