(* ===== verification/Cfloat.thy ===== *)
theory Cfloat
  imports Prelude "HOL-Library.Log_Nat"
begin

text \<open>
  C floating point as rationals with explicit rounding: \<open>f32\<close> and \<open>f64\<close> round to the
  nearest IEEE single or double, ties to even, subnormals included; the values of the programs
  stay far below the overflow threshold, so infinities do not occur.  \<open>f2i\<close> and \<open>i2f\<close>
  are the conversions to and from \<open>int\<close>.
\<close>

section \<open>IEEE rounding\<close>

definition pow2 :: "int \<Rightarrow> rat" where
  "pow2 k = (if 0 \<le> k then 2 ^ nat k else 1 / 2 ^ nat (- k))"

definition ilog2 :: "rat \<Rightarrow> int" where
  "ilog2 x = (let (a, b) = quotient_of x; e = bitlen a - bitlen b
              in if pow2 e \<le> x then e else e - 1)"

definition round_even :: "rat \<Rightarrow> int" where
  "round_even x = (let f = \<lfloor>x\<rfloor>; d = x - of_int f
     in if d < 1 / 2 then f else if d > 1 / 2 then f + 1 else if even f then f else f + 1)"

definition fround :: "int \<Rightarrow> int \<Rightarrow> rat \<Rightarrow> rat" where
  "fround p emin x =
     (if x = 0 then 0
      else let q = max (ilog2 \<bar>x\<bar> - (p - 1)) emin
           in of_int (round_even (x / pow2 q)) * pow2 q)"

definition f32 :: "rat \<Rightarrow> rat" where
  "f32 = fround 24 (- 149)"

definition f64 :: "rat \<Rightarrow> rat" where
  "f64 = fround 53 (- 1074)"

text \<open>
  Conversion to \<open>int\<close> truncates towards zero; a value that does not fit yields the
  \<open>integer indefinite\<close> \<open>0x80000000\<close> of the hardware.
\<close>

definition f2i :: "rat \<Rightarrow> cint" where
  "f2i x = (let t = (if x < 0 then - \<lfloor>- x\<rfloor> else \<lfloor>x\<rfloor>)
            in if - (2 ^ 31) \<le> t \<and> t < 2 ^ 31 then word_of_int t else 0x80000000)"

definition i2f :: "cint \<Rightarrow> rat" where
  "i2f i = f32 (of_int (sint i))"

section \<open>Rounding is exact on representable values\<close>

lemma pow2_pos [simp]: "0 < pow2 k"
  by (simp add: pow2_def)

lemma pow2_nonzero [simp]: "pow2 k \<noteq> 0"
  by (simp add: pow2_def)

lemma pow2_abs [simp]: "\<bar>pow2 k\<bar> = pow2 k"
  by (simp add: pow2_def)

lemma pow2_of_nat [simp]: "pow2 (int n) = 2 ^ n"
  by (simp add: pow2_def)

lemma pow2_Suc: "pow2 (k + 1) = 2 * pow2 k"
proof (cases "0 \<le> k")
  case True
  then have "nat (k + 1) = Suc (nat k)"
    by simp
  with True show ?thesis
    by (simp add: pow2_def)
next
  case False
  then have "nat (- k) = Suc (nat (- (k + 1)))"
    by simp
  with False show ?thesis
    by (simp add: pow2_def)
qed

lemma pow2_add_nat: "pow2 (k + int n) = 2 ^ n * pow2 k"
proof (induction n)
  case 0
  show ?case by simp
next
  case (Suc n)
  have "pow2 (k + int (Suc n)) = pow2 ((k + int n) + 1)"
    by (simp add: algebra_simps)
  then show ?case
    by (simp add: pow2_Suc Suc.IH)
qed

lemma pow2_mono: "j \<le> k \<Longrightarrow> pow2 j \<le> pow2 k"
proof -
  assume "j \<le> k"
  then obtain n where "k = j + int n"
    using zle_iff_zadd by blast
  then show ?thesis
    by (simp add: pow2_add_nat)
qed

lemma pow2_less_iff: "pow2 j < pow2 k \<Longrightarrow> j < k"
  using pow2_mono [of k j] by (meson linorder_not_less)

lemma pow2_diff: "pow2 (j - k) * pow2 k = pow2 j"
proof (cases "k \<le> j")
  case True
  then obtain n where "j = k + int n"
    using zle_iff_zadd by blast
  then show ?thesis
    by (simp add: pow2_add_nat)
next
  case False
  then obtain n where n: "k = j + int n"
    by (metis linorder_linear zle_iff_zadd)
  have "pow2 ((j - k) + int n) = 2 ^ n * pow2 (j - k)"
    by (rule pow2_add_nat)
  then have one: "2 ^ n * pow2 (j - k) = 1"
    using n by (simp add: pow2_def)
  have "pow2 (j - k) * pow2 k = (2 ^ n * pow2 (j - k)) * pow2 j"
    unfolding n pow2_add_nat by (simp only: ac_simps)
  then show ?thesis
    by (simp only: one mult_1)
qed

lemma ilog2_le:
  assumes "0 < x"
  shows "pow2 (ilog2 x) \<le> x"
proof -
  obtain a b where q: "quotient_of x = (a, b)"
    by (cases "quotient_of x")
  have b: "0 < b" and x: "x = of_int a / of_int b"
    using q by (auto simp: quotient_of_denom_pos quotient_of_div)
  have a: "0 < a"
    using assms b x by (simp add: zero_less_divide_iff)
  define m n where "m = nat (bitlen a - 1)" and "n = nat (bitlen b)"
  have "1 \<le> bitlen a"
    using bitlen_nonneg [of a] bitlen_eq_zero_iff [of a] a by linarith
  then have e: "bitlen a - bitlen b - 1 = int m - int n"
    using bitlen_nonneg [of b] by (simp add: m_def n_def)
  have am: "2 ^ m \<le> a" and bn: "b < 2 ^ n"
    using bitlen_bounds [OF a] bitlen_bounds [OF b] by (auto simp: m_def n_def)
  have "(2::rat) ^ m = of_int (2 ^ m)" and "(2::rat) ^ n = of_int (2 ^ n)"
    by simp_all
  then have am': "(2::rat) ^ m \<le> of_int a" and bn': "of_int b \<le> (2::rat) ^ n"
    using am bn by (simp_all only: of_int_le_iff)
  have "pow2 (int m - int n) * 2 ^ n = 2 ^ m"
    using pow2_diff [of "int m" "int n"] by simp
  then have "pow2 (int m - int n) * of_int b \<le> of_int a"
    using am' bn' by (metis less_imp_le mult_left_mono order_trans pow2_pos)
  then have "pow2 (bitlen a - bitlen b - 1) \<le> x"
    using b e x by (simp add: pos_le_divide_eq)
  then show ?thesis
    using q by (simp add: ilog2_def Let_def)
qed

lemma round_even_int [simp]: "round_even (of_int i) = i"
  by (simp add: round_even_def)

lemma fround_exact:
  assumes m: "\<bar>m\<bar> < 2 ^ nat p" and p: "0 < p" and k: "emin \<le> k"
  shows "fround p emin (of_int m * pow2 k) = of_int m * pow2 k"
proof (cases "m = 0")
  case True
  then show ?thesis by (simp add: fround_def)
next
  case False
  let ?x = "of_int m * pow2 k"
  define q where "q = max (ilog2 \<bar>?x\<bar> - (p - 1)) emin"
  have "(of_int \<bar>m\<bar> :: rat) < of_int (2 ^ nat p)"
    using m by (simp only: of_int_less_iff)
  then have m': "of_int \<bar>m\<bar> < (2::rat) ^ nat p"
    by simp
  have "pow2 (ilog2 \<bar>?x\<bar>) \<le> \<bar>?x\<bar>"
    using False by (intro ilog2_le) (simp add: abs_mult zero_less_mult_iff)
  also have "\<bar>?x\<bar> = of_int \<bar>m\<bar> * pow2 k"
    by (simp add: abs_mult)
  also have "\<dots> < 2 ^ nat p * pow2 k"
    using m' by (intro mult_strict_right_mono) simp_all
  also have "\<dots> = pow2 (k + p)"
    using p pow2_add_nat [of k "nat p"] by simp
  finally have "ilog2 \<bar>?x\<bar> < k + p"
    by (rule pow2_less_iff)
  then have "q \<le> k"
    using k by (simp add: q_def)
  then obtain n where n: "k = q + int n"
    using zle_iff_zadd by blast
  have "?x / pow2 q = of_int (m * 2 ^ n)"
    using n by (simp add: pow2_add_nat)
  then have "of_int (round_even (?x / pow2 q)) * pow2 q = ?x"
    using n by (simp only: round_even_int) (simp add: pow2_add_nat)
  then show ?thesis
    using False by (simp add: fround_def q_def Let_def)
qed

lemma fround_0 [simp]: "fround p emin 0 = 0"
  by (simp add: fround_def)

lemma f64_0 [simp]: "f64 0 = 0"
  by (simp add: f64_def)

end
