(* ===== verification/Rdt_Client.thy ===== *)
theory Rdt_Client
  imports Ifi Cfloat
begin

text \<open>
  The receiver of the file transfer, \<open>src/hw2/client.c\<close>.  The window is the array
  \<open>text_buffer\<close> of \<open>rwnd\<close> slots; the thread that receives datagrams fills it and the reader
  thread empties it, each under the mutex, so a run is a sequence of whole steps of either
  thread.  What the reader prints as file data is the list \<open>file_out\<close>; the datagrams sent
  are the list \<open>sent\<close>.  The random numbers, the host data base, the network and the contents
  of memory that the program does not initialise are parameters.  The other messages the
  program prints for the operator are left out.
\<close>

section \<open>Configuration\<close>

record buffer =
  b_data :: string
  is_filled :: u32
  b_seq :: u32

record client_config =
  server_ip :: string
  server_port :: cint
  cli_file_name :: string
  cli_rwnd :: cint
  seed :: cint
  probability :: rat
  buffer_read_time :: cint

text \<open>
  One call of \<open>fscanf(fp, "%f", &x)\<close>: a decimal number with an optional fraction and exponent,
  rounded to a \<open>float\<close>.
\<close>

definition fscanf_f :: "string \<Rightarrow> rat option \<times> string" where
  "fscanf_f s =
     (let (neg, r1) = opt_sign (dropWhile is_space s);
          ip = takeWhile is_digit r1;
          r2 = dropWhile is_digit r1;
          (fp, r3) = (case r2 of
             [] \<Rightarrow> ([], [])
           | c # cs \<Rightarrow> if c = CHR ''.'' then (takeWhile is_digit cs, dropWhile is_digit cs) else ([], r2));
          m = of_nat (digits_val 0 (ip @ fp)) / 10 ^ length fp;
          v = (if neg then - m else m)
      in if ip @ fp = [] then (None, r3)
         else (case r3 of
             [] \<Rightarrow> (Some (f32 v), [])
           | c # cs \<Rightarrow>
               if c = CHR ''e'' \<or> c = CHR ''E'' then
                 (let (eneg, t) = opt_sign cs; ds = takeWhile is_digit t; e = digits_val 0 ds
                  in if ds = [] then (None, t)
                     else (Some (f32 (if eneg then v / 10 ^ e else v * 10 ^ e)), dropWhile is_digit t))
               else (Some (f32 v), r3)))"

text \<open>
  The variables read are global, so a failed conversion leaves them zero.  A word that does not
  fit its array is \<open>None\<close>.
\<close>

definition got_s :: "string option \<Rightarrow> string option" where
  "got_s w = (case w of None \<Rightarrow> Some [] | Some t \<Rightarrow> if length t < MAXLINE then Some t else None)"

definition got_d :: "int option \<Rightarrow> cint" where
  "got_d n = (case n of None \<Rightarrow> 0 | Some i \<Rightarrow> word_of_int i)"

definition read_client_in :: "string \<Rightarrow> client_config option" where
  "read_client_in fp =
     (let (w1, fp1) = fscanf_s fp;
          (n2, fp2) = fscanf_d fp1;
          (w3, fp3) = fscanf_s fp2;
          (n4, fp4) = fscanf_d fp3;
          (n5, fp5) = fscanf_d fp4;
          (x6, fp6) = fscanf_f fp5;
          (n7, fp7) = fscanf_d fp6
      in do {
        ip \<leftarrow> got_s w1;
        name \<leftarrow> got_s w3;
        Some \<lparr>server_ip = ip, server_port = got_d n2, cli_file_name = name, cli_rwnd = got_d n4,
              seed = got_d n5, probability = (case x6 of None \<Rightarrow> 0 | Some x \<Rightarrow> x),
              buffer_read_time = got_d n7\<rparr>
      })"

text \<open>
  \<open>get_host\<close> copies into arrays of 100 and 40 characters and follows the pointer that
  \<open>gethostbyaddr\<close> returned without a test.
\<close>

definition get_host :: "(ipv4 \<Rightarrow> string option) \<Rightarrow> string \<Rightarrow> string option" where
  "get_host gethostbyaddr ip = do {
     a \<leftarrow> (if length ip < 100 then inet_pton ip else None);
     name \<leftarrow> gethostbyaddr a;
     if length name < 40 then Some name else None
   }"

text \<open>\<open>same_host_name\<close> looks both names up and drops the result.\<close>

definition same_host_name :: "(ipv4 \<Rightarrow> string option) \<Rightarrow> string \<Rightarrow> string \<Rightarrow> cint option" where
  "same_host_name gethostbyaddr serv cli = do {
     cli_addr_val \<leftarrow> inet_pton cli;
     serv_addr_val \<leftarrow> inet_pton serv;
     let cli_val = gethostbyaddr cli_addr_val;
     let serv_val = gethostbyaddr serv_addr_val;
     Some 0
   }"

section \<open>The window\<close>

record client_state =
  text_buffer :: "buffer list"
  is_EOF :: cint
  expected_seq_num :: cint
  rand_pos :: nat
  locked :: bool
  finished :: bool
  file_out :: "(string \<times> u32) list"
  sent :: "(sockaddr_in \<times> u8 list) list"

definition ispresent :: "buffer list \<Rightarrow> cint \<Rightarrow> bool" where
  "ispresent buf seq_num = list_ex (\<lambda>b. is_filled b \<noteq> -1 \<and> b_seq b = seq_num) buf"

text \<open>
  The loop of \<open>min_seq_num\<close>.  The macro \<open>min\<close> compares an \<open>int\<close> with a \<open>uint32_t\<close>, so
  unsigned; the test that follows compares two \<open>int\<close>s.
\<close>

fun min_loop :: "buffer list \<Rightarrow> nat \<Rightarrow> cint \<Rightarrow> nat \<Rightarrow> nat" where
  "min_loop [] i min_val min_index = min_index"
| "min_loop (b # bs) i min_val min_index =
     (if is_filled b \<noteq> -1 then
        (let val = (if min_val < b_seq b then min_val else b_seq b)
         in if sint min_val > sint val then min_loop bs (Suc i) val i
            else min_loop bs (Suc i) min_val min_index)
      else min_loop bs (Suc i) min_val min_index)"

abbreviation INT_MAX :: cint where
  "INT_MAX \<equiv> 0x7FFFFFFF"

definition min_seq_num :: "buffer list \<Rightarrow> nat" where
  "min_seq_num buf = min_loop buf 0 INT_MAX 0"

text \<open>\<open>None\<close> only when the fuel runs out; \<open>update_expected_total\<close> shows how much is enough.\<close>

fun update_expected_seq_num :: "nat \<Rightarrow> buffer list \<Rightarrow> cint \<Rightarrow> cint option" where
  "update_expected_seq_num 0 buf e = None"
| "update_expected_seq_num (Suc fuel) buf e =
     (if ispresent buf e then update_expected_seq_num fuel buf (e + 1) else Some e)"

text \<open>Both calls of \<open>rand\<close> advance the generator; a seed of 0 divides by zero.\<close>

definition drop_packet :: "(nat \<Rightarrow> cint) \<Rightarrow> nat \<Rightarrow> rat \<Rightarrow> cint \<Rightarrow> (bool \<times> nat) option" where
  "drop_packet rand pos prob max_seed =
     (if max_seed = 0 then None
      else
        (let randval = rand pos;
             r = f64 (of_int (sint (cint_mod (rand (pos + 1)) max_seed)) / of_int (sint max_seed))
         in Some (prob > r, pos + 2)))"

definition push_data_to_buffer :: "cint \<Rightarrow> string \<Rightarrow> cint \<Rightarrow> cint \<Rightarrow> buffer list \<Rightarrow> buffer list option" where
  "push_data_to_buffer rwnd send_buf seq_num e buf =
     (if rwnd = 0 then None
      else
        (let i = sint (cint_mod seq_num rwnd) in do {
          b \<leftarrow> aget buf i;
          if is_filled b = -1 then
            (if seq_num \<noteq> e then Some buf
             else if NUL \<in> set send_buf
             then aset buf i (b\<lparr>b_data := cstr send_buf, is_filled := 1, b_seq := seq_num\<rparr>)
             else None)
          else Some buf
        }))"

definition get_window_size :: "buffer list \<Rightarrow> cint" where
  "get_window_size buf = word_of_nat (length (filter (\<lambda>b. is_filled b = -1) buf))"

text \<open>
  The loop that the reader thread and the end of \<open>main\<close> share: print and free every filled
  slot from index \<open>min_seq_num()\<close> up.
\<close>

fun drain :: "buffer list \<Rightarrow> buffer list \<times> (string \<times> u32) list" where
  "drain [] = ([], [])"
| "drain (b # bs) =
     (let (bs', out) = drain bs
      in if is_filled b = 1
         then (b\<lparr>b_data := [], is_filled := -1\<rparr> # bs', (b_data b, b_seq b) # out)
         else (b # bs', out))"

definition print_filled :: "client_state \<Rightarrow> client_state" where
  "print_filled s =
     (let i = min_seq_num (text_buffer s);
          (bs, out) = drain (drop i (text_buffer s))
      in s\<lparr>text_buffer := take i (text_buffer s) @ bs, file_out := file_out s @ out\<rparr>)"

text \<open>
  One turn of the reader's loop: it waits while the other thread holds the mutex, and keeps
  the mutex when it leaves the loop.
\<close>

definition buffer_reader_thread :: "client_state \<Rightarrow> client_state" where
  "buffer_reader_thread s =
     (if locked s then s
      else (let s' = print_filled s in if is_EOF s' = 1 then s'\<lparr>locked := True\<rparr> else s'))"

section \<open>Receiving\<close>

text \<open>
  The acknowledgement is built in an object that is not initialised, \<open>junk\<close>: \<open>type == ack\<close>
  is a comparison, so its type and its text stay what the stack held.
\<close>

definition send_ack_to_server ::
  "bool \<Rightarrow> query_obj \<Rightarrow> sockaddr_in \<Rightarrow> nat \<Rightarrow> u32 \<Rightarrow> u32 \<Rightarrow> cint \<Rightarrow> client_state \<Rightarrow> client_state" where
  "send_ack_to_server be junk cliaddr clilen seq ts e s =
     (let q_obj = junk\<lparr>q_config := (q_config junk)\<lparr>u_seq := e,
                        u_rwnd := get_window_size (text_buffer s), u_ts := ts\<rparr>\<rparr>;
          (dgram, q_obj') = send_udp_data be (Some cliaddr) clilen q_obj
      in s\<lparr>sent := sent s @ [(cliaddr, dgram)]\<rparr>)"

definition END_OF_FILE :: string where
  "END_OF_FILE = ''End of File!''"

definition eof_buf :: string where
  "eof_buf = END_OF_FILE @ replicate (MAXLINE - length END_OF_FILE) NUL"

text \<open>
  The loop of \<open>create_new_connection\<close> from the received packet on, for a packet that is not
  dropped.
\<close>

definition handle_packet :: "bool \<Rightarrow> client_config \<Rightarrow> query_obj \<Rightarrow> query_obj \<Rightarrow> client_state \<Rightarrow> client_state option" where
  "handle_packet be cfg junk q_obj s =
     (let c = q_config q_obj; e = expected_seq_num s in do {
        buf \<leftarrow> (if u_type c = type_code data
               then push_data_to_buffer (cli_rwnd cfg) (q_buf q_obj) (u_seq c) e (text_buffer s)
               else if u_type c = type_code eof
               then push_data_to_buffer (cli_rwnd cfg) eof_buf (u_seq c) e (text_buffer s)
               else Some (text_buffer s));
        e' \<leftarrow> update_expected_seq_num (Suc (length buf)) buf e;
        let s1 = send_ack_to_server be junk (q_sock_addr q_obj) SIZE_SOCKADDR_IN (u_seq c) (u_ts c) e'
                   (s\<lparr>text_buffer := buf, expected_seq_num := e', locked := True\<rparr>);
        if u_type c = type_code eof \<and> u_seq c + 1 = e' then Some (s1\<lparr>finished := True\<rparr>)
        else Some (s1\<lparr>locked := False\<rparr>)
      })"

datatype client_event = Recv sockaddr_in "u8 list" query_obj | ReaderPass

fun client_step :: "bool \<Rightarrow> (nat \<Rightarrow> cint) \<Rightarrow> client_config \<Rightarrow> client_event \<Rightarrow> client_state \<Rightarrow> client_state option" where
  "client_step be rand cfg (Recv src dgram junk) s =
     (if finished s \<or> locked s then Some s
      else do {
        let q_obj = snd (recv_udp_data be None 0 src dgram zero_query);
        (dropped, pos) \<leftarrow> drop_packet rand (rand_pos s) (probability cfg) (seed cfg);
        if dropped then Some (s\<lparr>rand_pos := pos\<rparr>)
        else handle_packet be cfg junk q_obj (s\<lparr>rand_pos := pos\<rparr>)
      })"
| "client_step be rand cfg ReaderPass s = Some (buffer_reader_thread s)"

definition create_new_connection ::
  "bool \<Rightarrow> (nat \<Rightarrow> cint) \<Rightarrow> client_config \<Rightarrow> cint \<Rightarrow> string \<Rightarrow> client_event list \<Rightarrow> client_state \<Rightarrow> client_state option" where
  "create_new_connection be rand cfg port_num ip evs s = do {
     a \<leftarrow> inet_pton ip;
     let servaddr = \<lparr>sin_family = AF_INET, sin_port = ucast port_num, sin_addr = a\<rparr>;
     let (dgram, q_obj) = send_udp_data be (Some servaddr) SIZE_SOCKADDR_IN zero_query;
     orun (client_step be rand cfg) evs
       (s\<lparr>expected_seq_num := 0, rand_pos := 0, sent := sent s @ [(servaddr, dgram)]\<rparr>)
   }"

section \<open>The program\<close>

text \<open>\<open>mem\<close> is the memory \<open>malloc\<close> returned, one element for each of the \<open>rwnd\<close> slots.\<close>

definition client_init :: "buffer list \<Rightarrow> client_state" where
  "client_init mem = \<lparr>text_buffer = map (\<lambda>b. b\<lparr>is_filled := -1\<rparr>) mem, is_EOF = 0, expected_seq_num = 0,
     rand_pos = 0, locked = False, finished = False, file_out = [], sent = []\<rparr>"

text \<open>A \<open>do\<close>/\<open>while\<close> loop of \<open>main\<close>: receive until a packet of the wanted type arrives.\<close>

fun await :: "bool \<Rightarrow> data_type \<Rightarrow> (sockaddr_in \<times> u8 list) list \<Rightarrow> (query_obj \<times> (sockaddr_in \<times> u8 list) list) option" where
  "await be t [] = None"
| "await be t ((src, dgram) # ds) =
     (let q_obj = snd (recv_udp_data be None 0 src dgram zero_query)
      in if u_type (q_config q_obj) = type_code t then Some (q_obj, ds) else await be t ds)"

text \<open>
  Lines 85 to 124 of \<open>main\<close>: the address the client will use for the server.  \<open>stack\<close> is the
  table on the stack before it is filled.
\<close>

definition choose_server ::
  "bool \<Rightarrow> nat \<Rightarrow> kernel \<Rightarrow> (u8 list \<Rightarrow> string) \<Rightarrow> (ipv4 \<Rightarrow> string option) \<Rightarrow> (nat \<Rightarrow> iAddr list) \<Rightarrow>
   client_config \<Rightarrow> (string \<times> nat \<times> sockaddr_in) option" where
  "choose_server be fuel k ntop6 gethostbyaddr stack cfg = do {
     ip_addr_count \<leftarrow> get_addr_count fuel k;
     addr \<leftarrow> fill_addr_contents fuel k ntop6 (stack ip_addr_count);
     servhost \<leftarrow> get_host gethostbyaddr (server_ip cfg);
     row1 \<leftarrow> aget addr 1;
     clihost \<leftarrow> get_host gethostbyaddr (ip_addr row1);
     let ip = (if clihost = servhost then ''127.0.0.1'' else server_ip cfg);
     index \<leftarrow> check_addr_local be ip addr;
     a \<leftarrow> inet_pton ip;
     Some (ip, index, \<lparr>sin_family = AF_INET, sin_port = ucast (server_port cfg), sin_addr = a\<rparr>)
   }"

datatype client_exit = NoClientIn | Waiting "sockaddr_in \<times> string" | Receiving client_state | Exited client_state

definition client_main ::
  "bool \<Rightarrow> nat \<Rightarrow> kernel \<Rightarrow> (u8 list \<Rightarrow> string) \<Rightarrow> (ipv4 \<Rightarrow> string option) \<Rightarrow> (nat \<Rightarrow> iAddr list) \<Rightarrow>
   (nat \<Rightarrow> cint) \<Rightarrow> (cint \<Rightarrow> buffer list) \<Rightarrow> string option \<Rightarrow> (sockaddr_in \<times> u8 list) list \<Rightarrow>
   client_event list \<Rightarrow> client_exit option" where
  "client_main be fuel k ntop6 gethostbyaddr stack rand malloc client_in dgrams evs =
     (case client_in of
        None \<Rightarrow> Some NoClientIn
      | Some fp \<Rightarrow> do {
          cfg \<leftarrow> read_client_in fp;
          let s0 = client_init (malloc (cli_rwnd cfg));
          (ip, index, servaddr) \<leftarrow> choose_server be fuel k ntop6 gethostbyaddr stack cfg;
          let request = (servaddr, cli_file_name cfg);
          case await be ack dgrams of
            None \<Rightarrow> Some (Waiting request)
          | Some (q1, dgrams1) \<Rightarrow>
              (case await be data dgrams1 of
                 None \<Rightarrow> Some (Waiting request)
               | Some (q2, dgrams2) \<Rightarrow> do {
                   let new_port_number = word_of_int (atoi (cstr (q_buf q2)));
                   s \<leftarrow> create_new_connection be rand cfg new_port_number ip evs s0;
                   if finished s then Some (Exited (print_filled (s\<lparr>is_EOF := 1\<rparr>)))
                   else Some (Receiving s)
                 })
        })"

section \<open>The window invariant\<close>

text \<open>
  \<open>window n lo hi buf\<close>: the \<open>n\<close> slots hold exactly the packets numbered from \<open>lo\<close> to
  \<open>hi - 1\<close>, packet \<open>s\<close> in slot \<open>s mod n\<close>, and the other slots are free.
\<close>

definition window :: "nat \<Rightarrow> nat \<Rightarrow> nat \<Rightarrow> buffer list \<Rightarrow> bool" where
  "window n lo hi buf \<longleftrightarrow> length buf = n \<and> 0 < n \<and> lo \<le> hi \<and> hi \<le> lo + n \<and>
     (\<forall>s. lo \<le> s \<and> s < lo + n \<longrightarrow>
        (if s < hi then is_filled (buf ! (s mod n)) = 1 \<and> b_seq (buf ! (s mod n)) = word_of_nat s
         else is_filled (buf ! (s mod n)) = -1))"

lemma slot_cover:
  fixes n :: nat
  assumes "i < n"
  obtains s where "lo \<le> s" and "s < lo + n" and "s mod n = i"
proof (cases "lo mod n \<le> i")
  case True
  show thesis
  proof
    show "lo \<le> lo + (i - lo mod n)" and "lo + (i - lo mod n) < lo + n"
      using assms by auto
    have "(lo + (i - lo mod n)) mod n = (lo mod n + (i - lo mod n)) mod n"
      by (simp only: mod_add_left_eq)
    then show "(lo + (i - lo mod n)) mod n = i"
      using assms True by simp
  qed
next
  case False
  show thesis
  proof
    have m: "lo mod n < n"
      using assms by simp
    show "lo \<le> lo + (n + i - lo mod n)" and "lo + (n + i - lo mod n) < lo + n"
      using assms False m by auto
    have "(lo + (n + i - lo mod n)) mod n = (lo mod n + (n + i - lo mod n)) mod n"
      by (simp only: mod_add_left_eq)
    also have "lo mod n + (n + i - lo mod n) = n + i"
      using m by simp
    finally show "(lo + (n + i - lo mod n)) mod n = i"
      using assms by simp
  qed
qed

lemma slot_inj:
  fixes n :: nat
  assumes "lo \<le> s" and "s < lo + n" and "lo \<le> t" and "t < lo + n" and "s mod n = t mod n"
  shows "s = t"
proof -
  have *: False if "lo \<le> a" "b < lo + n" "a < b" "a mod n = b mod n" for a b
  proof -
    have "n dvd b - a"
      using that by (metis mod_eq_dvd_iff_nat less_imp_le)
    moreover have "0 < b - a" and "b - a < n"
      using that by auto
    ultimately show False
      using nat_dvd_not_less by blast
  qed
  show ?thesis
    using * [of s t] * [of t s] assms by (cases s t rule: linorder_cases) auto
qed

lemma window_slot:
  assumes "window n lo hi buf" and "i < n"
  obtains s where "lo \<le> s" and "s < lo + n" and "s mod n = i"
    and "s < hi \<Longrightarrow> is_filled (buf ! i) = 1 \<and> b_seq (buf ! i) = word_of_nat s"
    and "hi \<le> s \<Longrightarrow> is_filled (buf ! i) = -1"
proof -
  obtain s where "lo \<le> s" "s < lo + n" "s mod n = i"
    using slot_cover [OF assms(2)] by blast
  then show thesis
    using assms(1) that [of s] by (auto simp: window_def)
qed

lemma window_filled: "window n lo hi buf \<Longrightarrow> lo \<le> s \<Longrightarrow> s < hi \<Longrightarrow>
    is_filled (buf ! (s mod n)) = 1 \<and> b_seq (buf ! (s mod n)) = word_of_nat s"
  by (auto simp: window_def)

lemma window_free: "window n lo hi buf \<Longrightarrow> hi \<le> s \<Longrightarrow> s < lo + n \<Longrightarrow> is_filled (buf ! (s mod n)) = -1"
  by (auto simp: window_def)

lemma window_size:
  assumes "window n lo hi buf"
  shows "length buf = n" and "0 < n" and "lo \<le> hi" and "hi \<le> lo + n"
  using assms by (auto simp: window_def)

lemma not_filled_one [simp]: "(1 :: u32) \<noteq> -1"
  by simp

text \<open>As long as the numbers fit an \<open>int\<close>, \<open>min_loop\<close> finds the least number.\<close>

lemma min_loop_step:
  assumes "unat mv < 2 ^ 31"
  shows "min_loop (b # bs) i mv idx =
         (if is_filled b \<noteq> -1 \<and> b_seq b < mv then min_loop bs (Suc i) (b_seq b) i
          else min_loop bs (Suc i) mv idx)"
proof -
  let ?val = "if mv < b_seq b then mv else b_seq b"
  have le: "unat ?val \<le> unat mv"
    by (simp add: word_less_nat_alt)
  then have "unat ?val < 2 ^ 31"
    using assms by (rule le_less_trans)
  then have "sint ?val = int (unat ?val)" and "sint mv = int (unat mv)"
    using sint_small assms by blast+
  then have "sint mv > sint ?val \<longleftrightarrow> unat ?val < unat mv"
    by (simp only: of_nat_less_iff)
  also have "\<dots> \<longleftrightarrow> b_seq b < mv"
    by (simp only: word_less_nat_alt split: if_split) auto
  finally have "sint mv > sint ?val \<longleftrightarrow> b_seq b < mv" .
  then show ?thesis
    by (auto simp only: min_loop.simps Let_def split: if_splits)
qed

lemma min_loop_none:
  assumes "unat mv < 2 ^ 31" and "\<forall>b \<in> set bs. is_filled b \<noteq> -1 \<longrightarrow> mv \<le> b_seq b"
  shows "min_loop bs i mv idx = idx"
  using assms(2)
proof (induction bs arbitrary: i)
  case Nil
  show ?case by simp
next
  case (Cons b bs)
  then show ?case
    by (simp only: min_loop_step [OF assms(1)]) (auto simp: not_less)
qed

lemma min_loop_least:
  assumes "unat mv < 2 ^ 31" and "k < length bs" and "is_filled (bs ! k) \<noteq> -1" and "b_seq (bs ! k) < mv"
    and "\<And>j. j < length bs \<Longrightarrow> j \<noteq> k \<Longrightarrow> is_filled (bs ! j) \<noteq> -1 \<Longrightarrow> b_seq (bs ! k) < b_seq (bs ! j)"
  shows "min_loop bs i mv idx = i + k"
  using assms
proof (induction bs arbitrary: i mv idx k)
  case Nil
  then show ?case by simp
next
  case (Cons b bs)
  show ?case
  proof (cases k)
    case 0
    have u: "unat (b_seq b) < 2 ^ 31"
      using Cons.prems(1,4) 0 by (simp add: word_less_nat_alt)
    have "\<forall>c \<in> set bs. is_filled c \<noteq> -1 \<longrightarrow> b_seq b \<le> b_seq c"
    proof
      fix c
      assume "c \<in> set bs"
      then obtain j where "j < length bs" "c = bs ! j"
        by (auto simp: in_set_conv_nth)
      then show "is_filled c \<noteq> -1 \<longrightarrow> b_seq b \<le> b_seq c"
        using Cons.prems(5) [of "Suc j"] 0 by auto
    qed
    then show ?thesis
      using Cons.prems(3,4) 0 by (simp only: min_loop_step [OF Cons.prems(1)] min_loop_none [OF u]) simp
  next
    case (Suc k')
    have rest: "b_seq (bs ! k') < b_seq (bs ! j)" if "j < length bs" "j \<noteq> k'" "is_filled (bs ! j) \<noteq> -1" for j
      using Cons.prems(5) [of "Suc j"] Suc that by simp
    have k': "k' < length bs" "is_filled (bs ! k') \<noteq> -1" "b_seq (bs ! k') < mv"
      using Cons.prems(2-4) Suc by simp_all
    show ?thesis
    proof (cases "is_filled b \<noteq> -1 \<and> b_seq b < mv")
      case True
      have "b_seq (bs ! k') < b_seq b"
        using Cons.prems(5) [of 0] True Suc by simp
      moreover have "unat (b_seq b) < 2 ^ 31"
        using True Cons.prems(1) by (simp add: word_less_nat_alt)
      ultimately have "min_loop bs (Suc i) (b_seq b) i = Suc i + k'"
        using Cons.IH [of "b_seq b" k' "Suc i" i] k' rest by blast
      then show ?thesis
        using True Suc by (simp only: min_loop_step [OF Cons.prems(1)]) simp
    next
      case False
      have "min_loop bs (Suc i) mv idx = Suc i + k'"
        using Cons.IH [of mv k' "Suc i" idx] Cons.prems(1) k' rest by blast
      then show ?thesis
        using False Suc by (simp only: min_loop_step [OF Cons.prems(1)] if_False add_Suc_right add_Suc)
    qed
  qed
qed

lemma word_of_nat_less32:
  assumes "a < b" and "b < 2 ^ 32"
  shows "(word_of_nat a :: u32) < word_of_nat b"
proof -
  have "unat (word_of_nat a :: u32) = a" and "unat (word_of_nat b :: u32) = b"
    using assms by (simp_all add: unat_of_nat32)
  then show ?thesis
    using assms(1) by (simp add: word_less_nat_alt)
qed

lemma word_of_nat_eq32:
  assumes "(word_of_nat a :: u32) = word_of_nat b" and "a < 2 ^ 32" and "b < 2 ^ 32"
  shows "a = b"
  using assms by (metis unat_of_nat32)

lemma window_min:
  assumes w: "window n lo hi buf" and h: "hi < 2 ^ 31"
  shows "min_seq_num buf = (if lo < hi then lo mod n else 0)"
proof (cases "lo < hi")
  case True
  note sz = window_size [OF w]
  have f: "is_filled (buf ! (lo mod n)) = 1" and q: "b_seq (buf ! (lo mod n)) = word_of_nat lo"
    using window_filled [OF w le_refl True] by simp_all
  have "min_loop buf 0 INT_MAX 0 = 0 + lo mod n"
  proof (rule min_loop_least)
    show "unat INT_MAX < 2 ^ 31" by simp
    show "lo mod n < length buf" using sz by simp
    show "is_filled (buf ! (lo mod n)) \<noteq> -1" using f by simp
    have "lo < 2147483647"
      using True h by simp
    then have "(word_of_nat lo :: u32) < word_of_nat 2147483647"
      by (rule word_of_nat_less32) simp
    then show "b_seq (buf ! (lo mod n)) < INT_MAX"
      using q by simp
  next
    fix j
    assume j: "j < length buf" "j \<noteq> lo mod n" "is_filled (buf ! j) \<noteq> -1"
    obtain s where s: "lo \<le> s" "s mod n = j" "s < hi" "b_seq (buf ! j) = word_of_nat s"
      using window_slot [OF w, of j] j sz(1) by (metis linorder_not_le)
    have "lo < s"
      using s j(2) by (cases "lo = s") auto
    then show "b_seq (buf ! (lo mod n)) < b_seq (buf ! j)"
      unfolding q s(4) using s(3) h by (intro word_of_nat_less32) auto
  qed
  then show ?thesis
    using True by (simp add: min_seq_num_def)
next
  case False
  have "min_loop buf 0 INT_MAX 0 = 0"
  proof (rule min_loop_none)
    show "unat INT_MAX < 2 ^ 31" by simp
    show "\<forall>b \<in> set buf. is_filled b \<noteq> -1 \<longrightarrow> INT_MAX \<le> b_seq b"
    proof
      fix b
      assume "b \<in> set buf"
      then obtain i where "i < n" "b = buf ! i"
        using window_size(1) [OF w] by (auto simp: in_set_conv_nth)
      then show "is_filled b \<noteq> -1 \<longrightarrow> INT_MAX \<le> b_seq b"
        using window_slot [OF w, of i] False by (metis leI le_trans)
    qed
  qed
  then show ?thesis
    using False by (simp add: min_seq_num_def)
qed

text \<open>What one pass of the reader does to the array and prints.\<close>

definition freed :: "buffer \<Rightarrow> buffer" where
  "freed b = (if is_filled b = 1 then b\<lparr>b_data := [], is_filled := -1\<rparr> else b)"

lemma drain_eq:
  "drain bs = (map freed bs, map (\<lambda>b. (b_data b, b_seq b)) (filter (\<lambda>b. is_filled b = 1) bs))"
  by (induction bs) (auto simp: freed_def)

lemma freed_free [simp]: "is_filled (freed b) = (if is_filled b = 1 then -1 else is_filled b)"
  by (simp add: freed_def)

lemma freed_seq [simp]: "b_seq (freed b) = b_seq b"
  by (simp add: freed_def)

text \<open>A pass prints from \<open>lo\<close> to the end of the array or of the window.\<close>

definition pass_end :: "nat \<Rightarrow> nat \<Rightarrow> nat \<Rightarrow> nat" where
  "pass_end n lo hi = min hi (lo + (n - lo mod n))"

lemma pass_end_bounds:
  assumes "0 < n" and "lo \<le> hi"
  shows "lo \<le> pass_end n lo hi" and "pass_end n lo hi \<le> hi"
    and "pass_end n lo hi = hi \<or> pass_end n lo hi = lo + (n - lo mod n)"
    and "lo < hi \<Longrightarrow> lo < pass_end n lo hi"
proof -
  have "0 < n - lo mod n"
    using assms(1) by simp
  then show "lo \<le> pass_end n lo hi" and "pass_end n lo hi \<le> hi"
    and "pass_end n lo hi = hi \<or> pass_end n lo hi = lo + (n - lo mod n)"
    and "lo < hi \<Longrightarrow> lo < pass_end n lo hi"
    using assms(2) unfolding pass_end_def by (auto simp only: min_def split: if_splits)
qed

lemma slot_before_wrap:
  fixes n :: nat
  assumes "lo \<le> s" and "s < lo + (n - lo mod n)"
  shows "s mod n = lo mod n + (s - lo)"
proof -
  have "s mod n = (lo + (s - lo)) mod n"
    using assms(1) by simp
  also have "\<dots> = (lo mod n + (s - lo)) mod n"
    by (simp only: mod_add_left_eq)
  finally show ?thesis
    using assms by simp
qed

lemma slot_after_wrap:
  fixes n :: nat
  assumes "0 < n" and "lo + (n - lo mod n) \<le> s" and "s < lo + n"
  shows "s mod n < lo mod n"
proof -
  have m: "lo mod n < n"
    using assms(1) by simp
  have "s mod n = (lo mod n + (s - lo)) mod n"
    using assms(2) by (metis add_leD1 le_add_diff_inverse mod_add_left_eq)
  also have "lo mod n + (s - lo) = (s - lo - (n - lo mod n)) + n"
    using assms m by simp
  finally have "s mod n = (s - lo - (n - lo mod n)) mod n"
    by simp
  also have "\<dots> \<le> s - lo - (n - lo mod n)"
    by (rule mod_less_eq_dividend)
  also have "\<dots> < lo mod n"
    using assms m by arith
  finally show ?thesis .
qed

lemma window_pass_out:
  assumes w: "window n lo hi buf" and lt: "lo < hi"
  shows "map b_seq (filter (\<lambda>b. is_filled b = 1) (drop (lo mod n) buf)) = map word_of_nat [lo..<pass_end n lo hi]"
proof -
  note sz = window_size [OF w]
  let ?xs = "drop (lo mod n) buf" and ?k = "pass_end n lo hi - lo"
  have m: "lo mod n < n"
    using sz by simp
  have slot: "?xs ! j = buf ! ((lo + j) mod n)" if "j < n - lo mod n" for j
    using slot_before_wrap [of lo "lo + j" n] that sz by simp
  have "filter (\<lambda>b. is_filled b = 1) ?xs = take ?k ?xs"
  proof (rule filter_prefix)
    fix j
    assume "j < length ?xs"
    then have j: "j < n - lo mod n"
      using sz by simp
    show "is_filled (?xs ! j) = 1 \<longleftrightarrow> j < ?k"
    proof (cases "lo + j < hi")
      case True
      then show ?thesis
        using window_filled [OF w, of "lo + j"] slot [OF j] j by (simp add: pass_end_def)
    next
      case False
      then show ?thesis
        using window_free [OF w, of "lo + j"] slot [OF j] j by (simp add: pass_end_def)
    qed
  qed
  moreover have "map b_seq (take ?k ?xs) = map word_of_nat [lo..<pass_end n lo hi]"
  proof (rule nth_equalityI)
    have "?k \<le> length ?xs"
      using sz by (simp add: pass_end_def)
    then show "length (map b_seq (take ?k ?xs)) = length (map (word_of_nat :: nat \<Rightarrow> u32) [lo..<pass_end n lo hi])"
      by simp
  next
    fix j
    assume "j < length (map b_seq (take ?k ?xs))"
    then have j: "j < ?k" "j < n - lo mod n" "j < length ?xs"
      using sz by simp_all
    then have "lo + j < hi"
      by (simp add: pass_end_def)
    then have "b_seq (?xs ! j) = word_of_nat (lo + j)"
      using window_filled [OF w, of "lo + j"] slot [OF j(2)] by simp
    moreover have "map b_seq (take ?k ?xs) ! j = b_seq (?xs ! j)"
      using j by (simp del: nth_drop)
    ultimately show "map b_seq (take ?k ?xs) ! j = map word_of_nat [lo..<pass_end n lo hi] ! j"
      using j(1) by simp
  qed
  ultimately show ?thesis
    by simp
qed

lemma window_pass_buf:
  assumes w: "window n lo hi buf" and lt: "lo < hi"
  shows "window n (pass_end n lo hi) hi (take (lo mod n) buf @ map freed (drop (lo mod n) buf))"
proof -
  note sz = window_size [OF w]
  let ?m = "lo mod n" and ?lo' = "pass_end n lo hi"
  let ?buf' = "take ?m buf @ map freed (drop ?m buf)"
  have m: "?m < n"
    using sz by simp
  have at: "?buf' ! i = (if i < ?m then buf ! i else freed (buf ! i))" if "i < n" for i
    using that sz m by (simp add: nth_append)
  have lo': "lo \<le> ?lo'" "?lo' \<le> hi" "?lo' = hi \<or> ?lo' = lo + (n - ?m)"
    by (rule pass_end_bounds [OF sz(2,3)])+
  have "if s < hi then is_filled (?buf' ! (s mod n)) = 1 \<and> b_seq (?buf' ! (s mod n)) = word_of_nat s
        else is_filled (?buf' ! (s mod n)) = -1" if s: "?lo' \<le> s" "s < ?lo' + n" for s
  proof -
    have sn: "s mod n < n"
      using sz by simp
    consider (old) "s < hi" | (empty) "hi \<le> s" "s < lo + n" | (new) "lo + n \<le> s"
      by linarith
    then show ?thesis
    proof cases
      case old
      then have "lo + (n - ?m) \<le> s"
        using lo'(3) s by auto
      then have "s mod n < ?m"
        using old sz by (intro slot_after_wrap) auto
      then show ?thesis
        using old at [OF sn] window_filled [OF w, of s] lo'(1) s by simp
    next
      case empty
      then show ?thesis
        using at [OF sn] window_free [OF w, of s] by simp
    next
      case new
      have "s - n < lo + (n - ?m)"
        using s new by (auto simp: pass_end_def)
      then have "?m \<le> (s - n) mod n"
        using slot_before_wrap [of lo "s - n" n] new by simp
      moreover have "(s - n) mod n = s mod n"
        using new by (metis add_leD2 le_mod_geq)
      moreover have "s - n < hi"
        using s lo'(2) new by linarith
      ultimately have "is_filled (buf ! (s mod n)) = 1" and "?m \<le> s mod n"
        using window_filled [OF w, of "s - n"] new by simp_all
      then show ?thesis
        using at [OF sn] new sz by simp
    qed
  qed
  then show ?thesis
    unfolding window_def using sz lo' m by auto
qed

lemma print_window:
  assumes w: "window n lo hi (text_buffer s)" and h: "hi < 2 ^ 31"
  shows "window n (pass_end n lo hi) hi (text_buffer (print_filled s))"
    and "map snd (file_out (print_filled s)) = map snd (file_out s) @ map word_of_nat [lo..<pass_end n lo hi]"
proof -
  note sz = window_size [OF w]
  have "window n (pass_end n lo hi) hi (text_buffer (print_filled s)) \<and>
        map snd (file_out (print_filled s)) = map snd (file_out s) @ map word_of_nat [lo..<pass_end n lo hi]"
  proof (cases "lo < hi")
    case True
    then show ?thesis
      using window_pass_buf [OF w True] window_pass_out [OF w True] window_min [OF w h]
      by (simp add: print_filled_def drain_eq Let_def comp_def)
  next
    case False
    then have pe: "pass_end n lo hi = lo" "hi = lo"
      using sz pass_end_bounds(1,2) [of n lo hi] by auto
    have empty: "is_filled b \<noteq> 1" if b: "b \<in> set (text_buffer s)" for b
    proof -
      obtain i where "i < n" "b = text_buffer s ! i"
        using b sz(1) by (auto simp: in_set_conv_nth)
      then show ?thesis
        using window_slot [OF w, of i] False by (metis leI le_trans not_filled_one)
    qed
    then have "map freed (text_buffer s) = text_buffer s"
      by (simp add: freed_def map_idI)
    then show ?thesis
      using w pe empty window_min [OF w h]
      by (simp add: print_filled_def drain_eq Let_def)
  qed
  then show "window n (pass_end n lo hi) hi (text_buffer (print_filled s))"
    and "map snd (file_out (print_filled s)) = map snd (file_out s) @ map word_of_nat [lo..<pass_end n lo hi]"
    by simp_all
qed

lemma window_free_count:
  assumes w: "window n lo hi buf"
  shows "length (filter (\<lambda>b. is_filled b = -1) buf) = lo + n - hi"
proof -
  note sz = window_size [OF w]
  have "{i. i < n \<and> is_filled (buf ! i) = -1} = (\<lambda>s. s mod n) ` {hi..<lo + n}"
  proof (intro equalityI subsetI)
    fix i
    assume "i \<in> {i. i < n \<and> is_filled (buf ! i) = -1}"
    then obtain s where "s < lo + n" "s mod n = i" "hi \<le> s"
      using window_slot [OF w, of i] by (metis (mono_tags, lifting) mem_Collect_eq not_filled_one linorder_not_le)
    then show "i \<in> (\<lambda>s. s mod n) ` {hi..<lo + n}"
      by auto
  next
    fix i
    assume "i \<in> (\<lambda>s. s mod n) ` {hi..<lo + n}"
    then show "i \<in> {i. i < n \<and> is_filled (buf ! i) = -1}"
      using window_free [OF w] sz by auto
  qed
  moreover have "inj_on (\<lambda>s. s mod n) {hi..<lo + n}"
    using slot_inj [of lo _ n] sz by (intro inj_onI) auto
  ultimately have "card {i. i < n \<and> is_filled (buf ! i) = -1} = lo + n - hi"
    by (simp add: card_image)
  then show ?thesis
    using sz by (simp add: length_filter_conv_card)
qed

lemma window_absent:
  assumes w: "window n lo hi buf" and h: "hi < 2 ^ 32"
  shows "\<not> ispresent buf (word_of_nat hi)"
proof -
  have "is_filled (buf ! i) = -1 \<or> b_seq (buf ! i) \<noteq> word_of_nat hi" if i: "i < n" for i
  proof -
    obtain s where s: "s < hi \<Longrightarrow> b_seq (buf ! i) = word_of_nat s" "hi \<le> s \<Longrightarrow> is_filled (buf ! i) = -1"
      using window_slot [OF w i] by metis
    show ?thesis
    proof (cases "s < hi")
      case True
      then have "(word_of_nat s :: u32) \<noteq> word_of_nat hi"
        using word_of_nat_eq32 [of s hi] h by auto
      then show ?thesis
        using s(1) True by simp
    next
      case False
      then show ?thesis
        using s(2) by simp
    qed
  qed
  then show ?thesis
    unfolding ispresent_def list_ex_iff using window_size(1) [OF w] by (metis in_set_conv_nth)
qed

lemma window_present:
  assumes w: "window n lo hi buf" and "lo \<le> s" and "s < hi"
  shows "ispresent buf (word_of_nat s)"
proof -
  have "s mod n < length buf"
    using window_size [OF w] by simp
  moreover have "is_filled (buf ! (s mod n)) \<noteq> -1" and "b_seq (buf ! (s mod n)) = word_of_nat s"
    using window_filled [OF assms] by simp_all
  ultimately show ?thesis
    unfolding ispresent_def list_ex_iff by (metis nth_mem)
qed

lemma window_push:
  assumes w: "window n lo hi buf" and lt: "hi < lo + n"
    and b: "is_filled b = 1" "b_seq b = word_of_nat hi"
  shows "window n lo (Suc hi) (buf[hi mod n := b])"
proof -
  note sz = window_size [OF w]
  have "if s < Suc hi then is_filled (buf[hi mod n := b] ! (s mod n)) = 1 \<and>
            b_seq (buf[hi mod n := b] ! (s mod n)) = word_of_nat s
          else is_filled (buf[hi mod n := b] ! (s mod n)) = -1" if s: "lo \<le> s" "s < lo + n" for s
  proof (cases "s = hi")
    case True
    then show ?thesis
      using b sz by simp
  next
    case False
    then have "s mod n \<noteq> hi mod n"
      using slot_inj [of lo s n hi] s lt sz by auto
    then have "buf[hi mod n := b] ! (s mod n) = buf ! (s mod n)"
      by simp
    then show ?thesis
      using False window_filled [OF w s(1)] window_free [OF w _ s(2)] by auto
  qed
  then show ?thesis
    unfolding window_def using sz lt by auto
qed

text \<open>
  Whatever number a packet has, it changes the window only when it is the expected one and its
  slot is free.
\<close>

lemma push_cases:
  assumes w: "window n lo hi buf" and n: "n = nat (sint rwnd)" and h: "hi < 2 ^ 31"
    and p: "push_data_to_buffer rwnd text seq (word_of_nat hi) buf = Some buf'"
  obtains (kept) "buf' = buf"
    | (added) "hi < lo + n" and "seq = word_of_nat hi" and "window n lo (Suc hi) buf'"
      and "buf' = buf[hi mod n := (buf ! (hi mod n))\<lparr>b_data := cstr text, is_filled := 1, b_seq := seq\<rparr>]"
proof (cases "buf' = buf")
  case True
  then show thesis by (rule kept)
next
  case False
  note sz = window_size [OF w]
  have pos: "0 < sint rwnd"
    using n sz by simp
  have seq: "seq = word_of_nat hi"
    using p False by (auto simp: push_data_to_buffer_def Let_def bind_eq_Some_conv split: if_splits)
  have "unat seq < 2 ^ 31"
    using seq h by simp
  then have i: "sint (cint_mod seq rwnd) = int (hi mod n)"
    using sint_cint_mod [of seq rwnd] pos n seq h by simp
  let ?b = "buf ! (hi mod n)"
  have free: "is_filled ?b = -1" and buf': "buf' = buf[hi mod n := ?b\<lparr>b_data := cstr text, is_filled := 1, b_seq := seq\<rparr>]"
    using p False pos unfolding push_data_to_buffer_def Let_def i
    by (auto simp: bind_eq_Some_conv arr_simps split: if_splits)
  have lt: "hi < lo + n"
  proof (rule ccontr)
    assume "\<not> hi < lo + n"
    then have "hi mod n = lo mod n" and "lo < hi"
      using sz by (simp_all add: le_antisym)
    then show False
      using free window_filled [OF w le_refl] by simp
  qed
  show thesis
    by (rule added [OF lt seq _ buf']) (use window_push [OF w lt] buf' seq in simp)
qed

section \<open>The loop that advances the expected number ends\<close>

lemma update_present:
  "update_expected_seq_num fuel buf e = None \<Longrightarrow> k < fuel \<Longrightarrow> ispresent buf (e + word_of_nat k)"
proof (induction fuel arbitrary: e k)
  case 0
  then show ?case by simp
next
  case (Suc fuel)
  show ?case
  proof (cases k)
    case 0
    then show ?thesis
      using Suc.prems by (auto split: if_splits)
  next
    case (Suc k')
    have "update_expected_seq_num fuel buf (e + 1) = None"
      using Suc.prems(1) by (auto split: if_splits)
    then have "ispresent buf (e + 1 + word_of_nat k')"
      using Suc.IH Suc.prems(2) \<open>k = Suc k'\<close> by simp
    then show ?thesis
      using \<open>k = Suc k'\<close> by (simp add: add.assoc)
  qed
qed

lemma update_result:
  "update_expected_seq_num fuel buf e = Some e' \<Longrightarrow>
   \<exists>k < fuel. e' = e + word_of_nat k \<and> \<not> ispresent buf e' \<and> (\<forall>j < k. ispresent buf (e + word_of_nat j))"
proof (induction fuel arbitrary: e)
  case 0
  then show ?case by simp
next
  case (Suc fuel)
  show ?case
  proof (cases "ispresent buf e")
    case False
    then show ?thesis
      using Suc.prems by (intro exI [of _ 0]) simp
  next
    case True
    then obtain k where k: "k < fuel" "e' = e + 1 + word_of_nat k" "\<not> ispresent buf e'"
      "\<forall>j < k. ispresent buf (e + 1 + word_of_nat j)"
      using Suc.IH [of "e + 1"] Suc.prems by auto
    have "ispresent buf (e + word_of_nat j)" if j: "j < Suc k" for j
      using True k(4) j by (cases j) (auto simp: add.assoc)
    then show ?thesis
      using k by (intro exI [of _ "Suc k"]) (simp add: add.assoc)
  qed
qed

lemma ispresent_seq: "ispresent buf e \<Longrightarrow> e \<in> b_seq ` set buf"
  by (auto simp: ispresent_def list_ex_iff)

lemma update_defined:
  assumes "length buf < 2 ^ 32"
  shows "\<exists>e'. update_expected_seq_num (Suc (length buf)) buf e = Some e'"
proof (rule ccontr)
  let ?f = "\<lambda>k. e + (word_of_nat k :: u32)"
  assume "\<not> ?thesis"
  then have "update_expected_seq_num (Suc (length buf)) buf e = None"
    by simp
  then have "?f k \<in> b_seq ` set buf" if "k < Suc (length buf)" for k
    by (rule ispresent_seq [OF update_present [OF _ that]])
  then have "?f ` {..<Suc (length buf)} \<subseteq> b_seq ` set buf"
    by blast
  then have "card (?f ` {..<Suc (length buf)}) \<le> card (b_seq ` set buf)"
    by (intro card_mono) simp_all
  also have "\<dots> \<le> length buf"
    using card_image_le [of "set buf" b_seq] card_length [of buf] by simp
  finally have "card (?f ` {..<Suc (length buf)}) \<le> length buf" .
  moreover have "inj_on ?f {..<Suc (length buf)}"
    using assms by (intro inj_onI) (auto dest: word_of_nat_eq32)
  ultimately show False
    by (simp add: card_image)
qed

text \<open>
  C38: whatever the slots contain, the loop that advances the expected sequence number ends,
  after at most one turn per slot, at the first number that no slot holds.
\<close>

theorem update_expected_total:
  assumes "length buf < 2 ^ 32"
  shows "\<exists>k \<le> length buf. update_expected_seq_num (Suc (length buf)) buf e = Some (e + word_of_nat k) \<and>
           \<not> ispresent buf (e + word_of_nat k) \<and> (\<forall>j < k. ispresent buf (e + word_of_nat j))"
proof -
  obtain e' where "update_expected_seq_num (Suc (length buf)) buf e = Some e'"
    using update_defined [OF assms] by blast
  then show ?thesis
    using update_result by (metis less_Suc_eq_le)
qed

theorem update_expected_total_witness:
  "let buf = [\<lparr>b_data = ''a'', is_filled = 1, b_seq = 4\<rparr>, \<lparr>b_data = [], is_filled = -1, b_seq = 5\<rparr>]
   in \<exists>k \<le> length buf. update_expected_seq_num (Suc (length buf)) buf 4 = Some (4 + word_of_nat k) \<and>
        \<not> ispresent buf (4 + word_of_nat k)"
proof -
  have "length [\<lparr>b_data = ''a'', is_filled = 1, b_seq = 4\<rparr>, \<lparr>b_data = [], is_filled = -1, b_seq = 5\<rparr>] < 2 ^ 32"
    by simp
  from update_expected_total [OF this, of 4] show ?thesis
    unfolding Let_def by blast
qed

lemma update_window:
  assumes w: "window n lo hi buf" and h: "hi < 2 ^ 32"
  shows "update_expected_seq_num (Suc fuel) buf (word_of_nat hi) = Some (word_of_nat hi)"
  using window_absent [OF assms] by simp

lemma update_window_Suc:
  assumes w: "window n lo (Suc hi) buf" and "lo \<le> hi" and h: "Suc hi < 2 ^ 32"
  shows "update_expected_seq_num (Suc (length buf)) buf (word_of_nat hi) = Some (word_of_nat (Suc hi))"
proof -
  obtain m where m: "length buf = Suc m"
    using window_size(1,2) [OF w] by (cases n) auto
  have "ispresent buf (word_of_nat hi)" and "\<not> ispresent buf (word_of_nat (Suc hi))"
    using window_present [OF w assms(2)] window_absent [OF w h] by simp_all
  then show ?thesis
    unfolding m by (simp add: add.commute)
qed

section \<open>Every step keeps the window\<close>

definition contents :: "(string \<Rightarrow> u32 \<Rightarrow> bool) \<Rightarrow> client_state \<Rightarrow> bool" where
  "contents Q s \<longleftrightarrow> (\<forall>b \<in> set (text_buffer s). is_filled b \<noteq> -1 \<longrightarrow> Q (b_data b) (b_seq b)) \<and>
     (\<forall>x \<in> set (file_out s). Q (fst x) (snd x))"

text \<open>\<open>carries Q q\<close>: if packet \<open>q\<close> is stored, what is stored satisfies \<open>Q\<close>.\<close>

definition carries :: "(string \<Rightarrow> u32 \<Rightarrow> bool) \<Rightarrow> query_obj \<Rightarrow> bool" where
  "carries Q q \<longleftrightarrow>
     (u_type (q_config q) = type_code data \<longrightarrow> Q (cstr (q_buf q)) (u_seq (q_config q))) \<and>
     (u_type (q_config q) = type_code eof \<longrightarrow> Q END_OF_FILE (u_seq (q_config q)))"

definition client_inv :: "nat \<Rightarrow> (string \<Rightarrow> u32 \<Rightarrow> bool) \<Rightarrow> client_state \<Rightarrow> bool" where
  "client_inv n Q s \<longleftrightarrow> contents Q s \<and>
     (rand_pos s < 2 ^ 31 - 1 \<longrightarrow>
       (\<exists>lo hi. window n lo hi (text_buffer s) \<and> expected_seq_num s = word_of_nat hi \<and>
          hi \<le> rand_pos s \<and> map snd (file_out s) = map word_of_nat [0..<lo]))"

text \<open>The packet as \<open>handle_packet\<close> stores it.\<close>

definition stored :: "client_config \<Rightarrow> query_obj \<Rightarrow> client_state \<Rightarrow> buffer list option" where
  "stored cfg q s =
     (if u_type (q_config q) = type_code data
      then push_data_to_buffer (cli_rwnd cfg) (q_buf q) (u_seq (q_config q)) (expected_seq_num s) (text_buffer s)
      else if u_type (q_config q) = type_code eof
      then push_data_to_buffer (cli_rwnd cfg) eof_buf (u_seq (q_config q)) (expected_seq_num s) (text_buffer s)
      else Some (text_buffer s))"

lemma eof_buf_eq: "eof_buf = END_OF_FILE @ NUL # replicate 4083 NUL"
proof -
  have "MAXLINE - length END_OF_FILE = Suc 4083"
    by (simp add: END_OF_FILE_def)
  then show ?thesis
    unfolding eof_buf_def by (simp only: replicate_Suc)
qed

lemma cstr_eof_buf [simp]: "cstr eof_buf = END_OF_FILE"
  unfolding eof_buf_eq by (rule cstr_append_nul) (simp add: END_OF_FILE_def)

lemma nul_eof_buf [simp]: "NUL \<in> set eof_buf"
  unfolding eof_buf_eq by (simp only: set_append list.set) blast

lemma handle_packetE:
  assumes "handle_packet be cfg junk q s = Some t"
  obtains buf e where "stored cfg q s = Some buf"
    and "update_expected_seq_num (Suc (length buf)) buf (expected_seq_num s) = Some e"
    and "text_buffer t = buf" and "expected_seq_num t = e"
    and "file_out t = file_out s" and "rand_pos t = rand_pos s"
    and "sent t = sent s @ [(q_sock_addr q, fst (send_udp_data be (Some (q_sock_addr q)) SIZE_SOCKADDR_IN
           (junk\<lparr>q_config := (q_config junk)\<lparr>u_seq := e, u_rwnd := get_window_size buf,
              u_ts := u_ts (q_config q)\<rparr>\<rparr>)))]"
    and "finished t = (finished s \<or> u_type (q_config q) = type_code eof \<and> u_seq (q_config q) + 1 = e)"
    and "locked t = (u_type (q_config q) = type_code eof \<and> u_seq (q_config q) + 1 = e)"
    and "is_EOF t = is_EOF s"
proof -
  from assms obtain buf e where b: "stored cfg q s = Some buf"
    and e: "update_expected_seq_num (Suc (length buf)) buf (expected_seq_num s) = Some e"
    unfolding handle_packet_def Let_def stored_def bind_eq_Some_conv by blast
  have t: "t = (let s1 = send_ack_to_server be junk (q_sock_addr q) SIZE_SOCKADDR_IN (u_seq (q_config q))
                   (u_ts (q_config q)) e (s\<lparr>text_buffer := buf, expected_seq_num := e, locked := True\<rparr>)
            in if u_type (q_config q) = type_code eof \<and> u_seq (q_config q) + 1 = e
               then s1\<lparr>finished := True\<rparr> else s1\<lparr>locked := False\<rparr>)"
    using assms b e unfolding handle_packet_def Let_def stored_def [symmetric]
    by (auto simp del: update_expected_seq_num.simps split: if_splits)
  show thesis
    by (rule that [OF b e])
      (auto simp: t Let_def send_ack_to_server_def split: prod.splits)
qed

lemma push_contents:
  assumes "push_data_to_buffer rwnd text seq e buf = Some buf'" and "Q (cstr text) seq"
    and "\<forall>b \<in> set buf. is_filled b \<noteq> -1 \<longrightarrow> Q (b_data b) (b_seq b)"
  shows "\<forall>b \<in> set buf'. is_filled b \<noteq> -1 \<longrightarrow> Q (b_data b) (b_seq b)"
proof -
  consider "buf' = buf" | i b where "i < length buf" "buf' = buf[i := b\<lparr>b_data := cstr text, is_filled := 1, b_seq := seq\<rparr>]"
    using assms(1)
    by (auto simp: push_data_to_buffer_def Let_def bind_eq_Some_conv split: if_splits dest!: aset_SomeD)
  then show ?thesis
  proof cases
    case 1
    then show ?thesis using assms(3) by simp
  next
    case 2
    then show ?thesis
      using assms(2,3) set_update_subset_insert by fastforce
  qed
qed

lemma stored_contents:
  assumes "stored cfg q s = Some buf" and "carries Q q" and "contents Q s"
  shows "\<forall>b \<in> set buf. is_filled b \<noteq> -1 \<longrightarrow> Q (b_data b) (b_seq b)"
proof -
  have old: "\<forall>b \<in> set (text_buffer s). is_filled b \<noteq> -1 \<longrightarrow> Q (b_data b) (b_seq b)"
    using assms(3) by (simp add: contents_def)
  consider (data) "u_type (q_config q) = type_code data" | (eof) "u_type (q_config q) = type_code eof"
    | (other) "u_type (q_config q) \<noteq> type_code data" "u_type (q_config q) \<noteq> type_code eof"
    by blast
  then show ?thesis
  proof cases
    case data
    then show ?thesis
      using assms(1,2) push_contents [OF _ _ old] by (simp add: stored_def carries_def)
  next
    case eof
    then show ?thesis
      using assms(1,2) push_contents [OF _ _ old] by (simp add: stored_def carries_def)
  next
    case other
    then show ?thesis
      using assms(1) old by (simp add: stored_def)
  qed
qed

lemma stored_window:
  assumes w: "window n lo hi (text_buffer s)" and e: "expected_seq_num s = word_of_nat hi"
    and n: "n = nat (sint (cli_rwnd cfg))" and h: "Suc hi < 2 ^ 31" and b: "stored cfg q s = Some buf"
    and u: "update_expected_seq_num (Suc (length buf)) buf (expected_seq_num s) = Some e'"
  obtains hi' where "hi' = hi \<or> hi' = Suc hi" and "window n lo hi' buf" and "e' = word_of_nat hi'"
proof -
  have h': "hi < 2 ^ 31" and h32: "hi < 2 ^ 32" "Suc hi < 2 ^ 32"
    using h by simp_all
  have "buf = text_buffer s \<or> window n lo (Suc hi) buf"
    using b unfolding stored_def e
    by (auto split: if_splits elim: push_cases [OF w n h'])
  then show thesis
  proof
    assume "buf = text_buffer s"
    then show thesis
      using that [of hi] w u update_window [OF w h32(1)] e by simp
  next
    assume w': "window n lo (Suc hi) buf"
    then show thesis
      using that [of "Suc hi"] u update_window_Suc [OF w' window_size(3) [OF w] h32(2)] e by simp
  qed
qed

fun event_carries :: "bool \<Rightarrow> (string \<Rightarrow> u32 \<Rightarrow> bool) \<Rightarrow> client_event \<Rightarrow> bool" where
  "event_carries be Q (Recv src dgram junk) = carries Q (received be src dgram)"
| "event_carries be Q ReaderPass = True"

lemma event_carries_any [simp]: "event_carries be (\<lambda>_ _. True) a"
  by (cases a) (simp_all add: carries_def)

lemma client_step_recvE:
  assumes "client_step be rand cfg (Recv src dgram junk) s = Some t"
  obtains (idle) "t = s"
    | (dropped) "t = s\<lparr>rand_pos := rand_pos s + 2\<rparr>"
    | (handled) "\<not> finished s" and "\<not> locked s"
      and "handle_packet be cfg junk (received be src dgram) (s\<lparr>rand_pos := rand_pos s + 2\<rparr>) = Some t"
proof -
  have "t = s \<or> t = s\<lparr>rand_pos := rand_pos s + 2\<rparr> \<or>
        \<not> finished s \<and> \<not> locked s \<and>
        handle_packet be cfg junk (received be src dgram) (s\<lparr>rand_pos := rand_pos s + 2\<rparr>) = Some t"
    using assms
    by (auto simp: drop_packet_def Let_def received_def bind_eq_Some_conv split: if_splits)
  then show thesis
    using that by blast
qed

lemma print_filled_contents: "contents Q s \<Longrightarrow> contents Q (print_filled s)"
  unfolding contents_def print_filled_def drain_eq Let_def
  by (auto dest!: in_set_takeD in_set_dropD simp: freed_def)

lemma print_filled_same [simp]:
  "expected_seq_num (print_filled s) = expected_seq_num s"
  "rand_pos (print_filled s) = rand_pos s"
  "sent (print_filled s) = sent s"
  "finished (print_filled s) = finished s"
  "locked (print_filled s) = locked s"
  "is_EOF (print_filled s) = is_EOF s"
  by (simp_all add: print_filled_def drain_eq Let_def)

lemma print_filled_inv: "client_inv n Q s \<Longrightarrow> client_inv n Q (print_filled s)"
proof -
  assume inv: "client_inv n Q s"
  have "\<exists>lo hi. window n lo hi (text_buffer (print_filled s)) \<and> expected_seq_num s = word_of_nat hi \<and>
          hi \<le> rand_pos s \<and> map snd (file_out (print_filled s)) = map word_of_nat [0..<lo]"
    if pos: "rand_pos s < 2 ^ 31 - 1"
  proof -
    obtain lo hi where w: "window n lo hi (text_buffer s)" and e: "expected_seq_num s = word_of_nat hi"
      and hi: "hi \<le> rand_pos s" and out: "map snd (file_out s) = map word_of_nat [0..<lo]"
      using inv pos by (auto simp: client_inv_def)
    have h: "hi < 2 ^ 31"
      using hi pos by simp
    have "lo \<le> pass_end n lo hi"
      using window_size [OF w] by (intro pass_end_bounds)
    then have "map word_of_nat [0..<lo] @ map word_of_nat [lo..<pass_end n lo hi] =
               map (word_of_nat :: nat \<Rightarrow> u32) [0..<pass_end n lo hi]"
      by (metis map_append upt_add_eq_append le_add_diff_inverse zero_le)
    then show ?thesis
      using print_window [OF w h] e hi out by (intro exI [of _ "pass_end n lo hi"] exI [of _ hi]) simp
  qed
  then show ?thesis
    using inv print_filled_contents by (auto simp: client_inv_def)
qed

lemma client_inv_cong:
  "text_buffer t = text_buffer s \<Longrightarrow> expected_seq_num t = expected_seq_num s \<Longrightarrow>
   file_out t = file_out s \<Longrightarrow> rand_pos s \<le> rand_pos t \<Longrightarrow> client_inv n Q s \<Longrightarrow> client_inv n Q t"
  unfolding client_inv_def contents_def by (auto intro: le_trans)

lemma handle_packet_inv:
  assumes inv: "client_inv n Q s" and n: "n = nat (sint (cli_rwnd cfg))" and c: "carries Q q"
    and st: "handle_packet be cfg junk q (s\<lparr>rand_pos := rand_pos s + 2\<rparr>) = Some t"
  shows "client_inv n Q t"
  using st
proof (cases rule: handle_packetE)
  case (1 buf e)
  let ?s = "s\<lparr>rand_pos := rand_pos s + 2\<rparr>"
  have "contents Q ?s"
    using inv by (simp add: client_inv_def contents_def)
  then have "contents Q t"
    using stored_contents [OF 1(1) c] 1(3,5) by (simp add: contents_def)
  moreover have "\<exists>lo hi. window n lo hi (text_buffer t) \<and> expected_seq_num t = word_of_nat hi \<and>
          hi \<le> rand_pos t \<and> map snd (file_out t) = map word_of_nat [0..<lo]"
    if pos: "rand_pos t < 2 ^ 31 - 1"
  proof -
    have p: "rand_pos s < 2 ^ 31 - 1"
      using pos 1(6) by simp
    obtain lo hi where w: "window n lo hi (text_buffer ?s)" and eh: "expected_seq_num ?s = word_of_nat hi"
      and hi: "hi \<le> rand_pos s" and out: "map snd (file_out s) = map word_of_nat [0..<lo]"
      using inv p by (auto simp: client_inv_def)
    have h: "Suc hi < 2 ^ 31"
      using hi pos 1(6) by simp
    obtain hi' where "hi' = hi \<or> hi' = Suc hi" "window n lo hi' buf" "e = word_of_nat hi'"
      using stored_window [OF w eh n h 1(1,2)] by blast
    then show ?thesis
      using 1(3-6) hi out by (intro exI [of _ lo] exI [of _ hi']) auto
  qed
  ultimately show ?thesis
    by (simp add: client_inv_def)
qed

interpretation client: guarded_machine "client_step be rand cfg" "event_carries be Q"
  "client_inv (nat (sint (cli_rwnd cfg))) Q"
proof
  fix s t a
  assume inv: "client_inv (nat (sint (cli_rwnd cfg))) Q s" and ok: "event_carries be Q a"
    and st: "client_step be rand cfg a s = Some t"
  show "client_inv (nat (sint (cli_rwnd cfg))) Q t"
  proof (cases a)
    case (Recv src dgram junk)
    show ?thesis
      using st unfolding Recv
    proof (cases rule: client_step_recvE)
      case idle
      then show ?thesis using inv by simp
    next
      case dropped
      show ?thesis
        by (rule client_inv_cong [OF _ _ _ _ inv]) (simp_all add: dropped)
    next
      case handled
      then show ?thesis
        using handle_packet_inv [OF inv refl _ handled(3)] ok Recv by simp
    qed
  next
    case ReaderPass
    then have "t = s \<or> t = print_filled s \<or> t = (print_filled s)\<lparr>locked := True\<rparr>"
      using st by (auto simp: buffer_reader_thread_def Let_def)
    then show ?thesis
      using inv print_filled_inv [OF inv] client_inv_cong [of "(print_filled s)\<lparr>locked := True\<rparr>" "print_filled s"]
      by auto
  qed
qed

lemma client_step_pos: "client_step be rand cfg a s = Some t \<Longrightarrow> rand_pos t \<le> rand_pos s + 2"
proof (cases a)
  case (Recv src dgram junk)
  assume "client_step be rand cfg a s = Some t"
  then show ?thesis
    unfolding Recv by (cases rule: client_step_recvE) (auto elim!: handle_packetE)
next
  case ReaderPass
  assume "client_step be rand cfg a s = Some t"
  then show ?thesis
    by (auto simp: ReaderPass buffer_reader_thread_def Let_def split: if_splits)
qed

lemma client_run_pos:
  "orun (client_step be rand cfg) evs s = Some t \<Longrightarrow> rand_pos t \<le> rand_pos s + 2 * length evs"
proof (induction evs arbitrary: s)
  case Nil
  then show ?case by simp
next
  case (Cons a evs)
  then obtain u where "client_step be rand cfg a s = Some u" and "orun (client_step be rand cfg) evs u = Some t"
    by (auto simp: bind_eq_Some_conv)
  then show ?case
    using Cons.IH client_step_pos by fastforce
qed

lemma client_start_inv:
  assumes "0 < sint rwnd" and "length mem = nat (sint rwnd)"
  shows "client_inv (nat (sint rwnd)) Q ((client_init mem)\<lparr>expected_seq_num := 0, rand_pos := 0, sent := xs\<rparr>)"
proof -
  have "window (nat (sint rwnd)) 0 0 (map (\<lambda>b. b\<lparr>is_filled := -1\<rparr>) mem)"
    using assms by (simp add: window_def)
  then show ?thesis
    by (auto simp: client_inv_def contents_def client_init_def)
qed

text \<open>
  What every state of the connection satisfies: the slots hold exactly the packets from the
  number of items delivered to the expected number.
\<close>

lemma connection_inv:
  assumes c: "create_new_connection be rand cfg port ip evs (client_init mem) = Some s"
    and r: "0 < sint (cli_rwnd cfg)" and m: "length mem = nat (sint (cli_rwnd cfg))"
    and ok: "\<forall>a \<in> set evs. event_carries be Q a"
  shows "client_inv (nat (sint (cli_rwnd cfg))) Q s" and "rand_pos s \<le> 2 * length evs"
proof -
  from c obtain xs where o: "orun (client_step be rand cfg) evs
      ((client_init mem)\<lparr>expected_seq_num := 0, rand_pos := 0, sent := xs\<rparr>) = Some s"
    by (auto simp: create_new_connection_def bind_eq_Some_conv Let_def case_prod_beta)
  show "client_inv (nat (sint (cli_rwnd cfg))) Q s"
    using client.run_inv [OF client_start_inv [OF r m] ok o] .
  show "rand_pos s \<le> 2 * length evs"
    using client_run_pos [OF o] by simp
qed

lemma client_inv_window:
  assumes "client_inv n Q s" and "rand_pos s < 2 ^ 31 - 1"
  shows "window n (length (file_out s)) (unat (expected_seq_num s)) (text_buffer s)"
    and "map snd (file_out s) = map word_of_nat [0..<length (file_out s)]"
    and "unat (expected_seq_num s) < 2 ^ 31 - 1"
proof -
  obtain lo hi where w: "window n lo hi (text_buffer s)" and e: "expected_seq_num s = word_of_nat hi"
    and hi: "hi \<le> rand_pos s" and out: "map snd (file_out s) = map word_of_nat [0..<lo]"
    using assms by (auto simp: client_inv_def)
  have "length (map snd (file_out s)) = lo"
    using out by simp
  then have lo: "length (file_out s) = lo"
    by simp
  have h: "hi < 2 ^ 31 - 1"
    using hi assms(2) by (rule le_less_trans)
  then have u: "unat (expected_seq_num s) = hi"
    using e by simp
  show "window n (length (file_out s)) (unat (expected_seq_num s)) (text_buffer s)"
    using w lo u by simp
  show "map snd (file_out s) = map word_of_nat [0..<length (file_out s)]"
    using out lo by simp
  show "unat (expected_seq_num s) < 2 ^ 31 - 1"
    using u h by simp
qed

lemma window_filled_count:
  assumes w: "window n lo hi buf"
  shows "length (filter (\<lambda>b. is_filled b = 1) buf) = hi - lo"
proof -
  have "is_filled b = 1 \<longleftrightarrow> is_filled b \<noteq> -1" if b: "b \<in> set buf" for b
  proof -
    obtain i where "i < n" "b = buf ! i"
      using b window_size(1) [OF w] by (auto simp: in_set_conv_nth)
    then show ?thesis
      using window_slot [OF w, of i] by (metis not_filled_one linorder_not_le)
  qed
  then have "filter (\<lambda>b. is_filled b = 1) buf = filter (\<lambda>b. is_filled b \<noteq> -1) buf"
    by (auto intro: filter_cong)
  moreover have "length (filter (\<lambda>b. is_filled b = -1) buf) + length (filter (\<lambda>b. is_filled b \<noteq> -1) buf) = length buf"
    by (rule sum_length_filter_compl)
  ultimately show ?thesis
    using window_free_count [OF w] window_size [OF w] by simp
qed

section \<open>A concrete transfer\<close>

definition demo_cfg :: client_config where
  "demo_cfg = \<lparr>server_ip = ''10.0.0.2'', server_port = 5000, cli_file_name = ''f'', cli_rwnd = 3, seed = 1,
     probability = 0, buffer_read_time = 10\<rparr>"

definition demo_arrival :: "u32 \<Rightarrow> data_type \<Rightarrow> string \<Rightarrow> client_event" where
  "demo_arrival n ty text = Recv zero_sockaddr (dgram_of False (packet n 0 ty text)) zero_query"

definition demo_mem :: "buffer list" where
  "demo_mem = replicate 3 \<lparr>b_data = [], is_filled = 7, b_seq = 7\<rparr>"

lemma demo_keeps: "drop_packet (\<lambda>_. 0) pos (probability demo_cfg) (seed demo_cfg) = Some (False, pos + 2)"
  by (simp add: drop_packet_def demo_cfg_def cint_mod_def Let_def)

text \<open>
  \<open>reached evs v\<close>: after the events \<open>evs\<close> the slots, the expected number, the printed items
  and the two flags are \<open>v\<close>.
\<close>

definition demo_step :: "client_event \<Rightarrow> client_state \<Rightarrow> client_state option" where
  "demo_step = client_step False (\<lambda>_. 0) demo_cfg"

definition reached :: "client_state \<Rightarrow> client_event list \<Rightarrow>
    buffer list \<times> cint \<times> (string \<times> u32) list \<times> bool \<Rightarrow> bool" where
  "reached s0 evs v \<longleftrightarrow> (\<exists>s. orun demo_step evs s0 = Some s \<and>
     (text_buffer s, expected_seq_num s, file_out s, finished s) = v \<and> locked s = finished s \<and> is_EOF s = 0)"

lemma reached_arrival:
  assumes r: "reached s0 evs (buf, e, out, False)" and t: "length text < MAXLINE"
    and b: "(if ty = eof then push_data_to_buffer 3 eof_buf n e buf
             else push_data_to_buffer 3 (padded text) n e buf) = Some buf'" and ty: "ty = data \<or> ty = eof"
    and u: "update_expected_seq_num (Suc (length buf')) buf' e = Some e'"
  shows "reached s0 (evs @ [demo_arrival n ty text]) (buf', e', out, ty = eof \<and> n + 1 = e')"
proof -
  obtain s where o: "orun demo_step evs s0 = Some s"
    and s: "text_buffer s = buf" "expected_seq_num s = e" "file_out s = out" "\<not> finished s" "\<not> locked s" "is_EOF s = 0"
    using r by (auto simp: reached_def)
  let ?q = "received False zero_sockaddr (dgram_of False (packet n 0 ty text))"
  have rw: "cli_rwnd demo_cfg = 3"
    by (simp add: demo_cfg_def)
  have st: "stored demo_cfg ?q (s\<lparr>rand_pos := rand_pos s + 2\<rparr>) = Some buf'"
    using b ty s unfolding stored_def received_packet [OF t] rw by auto
  have "\<exists>x. handle_packet False demo_cfg zero_query ?q (s\<lparr>rand_pos := rand_pos s + 2\<rparr>) = Some x"
    using st u s unfolding handle_packet_def Let_def stored_def [symmetric]
    by (simp del: update_expected_seq_num.simps)
  then obtain x where x: "handle_packet False demo_cfg zero_query ?q (s\<lparr>rand_pos := rand_pos s + 2\<rparr>) = Some x" ..
  have "demo_step (demo_arrival n ty text) s = Some x"
    unfolding demo_step_def demo_arrival_def client_step.simps received_def [symmetric] demo_keeps
    using s x by (simp del: update_expected_seq_num.simps)
  moreover have "text_buffer x = buf'" "expected_seq_num x = e'" "file_out x = out" "is_EOF x = 0"
    "finished x = (ty = eof \<and> n + 1 = e')" "locked x = (ty = eof \<and> n + 1 = e')"
    using x st u s received_packet(1) [OF t] ty
    by (auto elim!: handle_packetE simp del: update_expected_seq_num.simps)
  ultimately show ?thesis
    unfolding reached_def using o by (simp add: orun_append)
qed

lemma demo_acked:
  assumes "demo_step (demo_arrival n ty text) s = Some t" and "\<not> finished s" and "\<not> locked s"
  shows "length (sent t) = Suc (length (sent s))"
  using assms unfolding demo_step_def demo_arrival_def client_step.simps received_def [symmetric] demo_keeps
  by (auto elim!: handle_packetE)

lemma reached_pass:
  assumes r: "reached s0 evs (buf, e, out, False)"
    and b: "i = min_seq_num buf" "drain (drop i buf) = (bs, o')"
  shows "reached s0 (evs @ [ReaderPass]) (take i buf @ bs, e, out @ o', False)"
  using assms unfolding reached_def demo_step_def
  by (auto simp: orun_append buffer_reader_thread_def print_filled_def Let_def)

definition demo_evs :: "client_event list" where
  "demo_evs = [demo_arrival 0 data ''a'', demo_arrival 1 data ''b'', ReaderPass, demo_arrival 2 data ''c'',
     demo_arrival 3 data ''d'', demo_arrival 4 eof []]"

definition demo_start :: client_state where
  "demo_start = (let servaddr = \<lparr>sin_family = AF_INET, sin_port = 6000, sin_addr = (10, 0, 0, 2)\<rparr>
     in (client_init demo_mem)\<lparr>sent := [(servaddr, fst (send_udp_data False (Some servaddr) SIZE_SOCKADDR_IN zero_query))]\<rparr>)"

abbreviation slot :: "string \<Rightarrow> u32 \<Rightarrow> buffer" where
  "slot d q \<equiv> \<lparr>b_data = d, is_filled = 1, b_seq = q\<rparr>"

abbreviation free_slot :: "u32 \<Rightarrow> buffer" where
  "free_slot q \<equiv> \<lparr>b_data = [], is_filled = -1, b_seq = q\<rparr>"

lemma demo_connection:
  "create_new_connection False (\<lambda>_. 0) demo_cfg 6000 ''10.0.0.2'' evs (client_init demo_mem) = orun demo_step evs demo_start"
proof -
  have "inet_pton ''10.0.0.2'' = Some (10, 0, 0, 2)"
    by code_simp
  then show ?thesis
    by (simp add: create_new_connection_def demo_start_def demo_step_def Let_def case_prod_beta client_init_def)
qed

lemmas push_eval = push_data_to_buffer_def aget_def aset_def cint_mod_def cstr_padded nul_padded ispresent_def
  list_ex_iff Let_def signed_modulo_int_def

lemma demo_reached0: "reached demo_start [] ([free_slot 7, free_slot 7, free_slot 7], 0, [], False)"
  by (simp add: reached_def demo_start_def client_init_def demo_mem_def numeral_3_eq_3 Let_def)

lemma demo_reached1:
  "reached demo_start ([] @ [demo_arrival 0 data ''a'']) ([slot ''a'' 0, free_slot 7, free_slot 7], 1, [], False)"
  using reached_arrival [OF demo_reached0, of "''a''" data 0 "[slot ''a'' 0, free_slot 7, free_slot 7]" 1]
  by (simp add: push_eval)

lemma demo_reached:
  "reached demo_start demo_evs ([slot ''d'' 3, slot END_OF_FILE 4, slot ''c'' 2], 5, [(''a'', 0), (''b'', 1)], True)"
proof -
  note 1 = demo_reached1
  have 2: "reached demo_start (([] @ [demo_arrival 0 data ''a'']) @ [demo_arrival 1 data ''b''])
      ([slot ''a'' 0, slot ''b'' 1, free_slot 7], 2, [], False)"
    using reached_arrival [OF 1, of "''b''" data 1 "[slot ''a'' 0, slot ''b'' 1, free_slot 7]" 2] by (simp add: push_eval)
  have 3: "reached demo_start ((([] @ [demo_arrival 0 data ''a'']) @ [demo_arrival 1 data ''b'']) @ [ReaderPass])
      ([free_slot 0, free_slot 1, free_slot 7], 2, [(''a'', 0), (''b'', 1)], False)"
    using reached_pass [OF 2 refl] by (simp add: min_seq_num_def Let_def)
  note 4 = reached_arrival [OF 3, of "''c''" data 2 "[free_slot 0, free_slot 1, slot ''c'' 2]" 3]
  have 4: "reached demo_start (((([] @ [demo_arrival 0 data ''a'']) @ [demo_arrival 1 data ''b'']) @ [ReaderPass]) @ [demo_arrival 2 data ''c''])
      ([free_slot 0, free_slot 1, slot ''c'' 2], 3, [(''a'', 0), (''b'', 1)], False)"
    using 4 by (simp add: push_eval)
  note 5 = reached_arrival [OF 4, of "''d''" data 3 "[slot ''d'' 3, free_slot 1, slot ''c'' 2]" 4]
  have 5: "reached demo_start ((((([] @ [demo_arrival 0 data ''a'']) @ [demo_arrival 1 data ''b'']) @ [ReaderPass]) @ [demo_arrival 2 data ''c'']) @ [demo_arrival 3 data ''d''])
      ([slot ''d'' 3, free_slot 1, slot ''c'' 2], 4, [(''a'', 0), (''b'', 1)], False)"
    using 5 by (simp add: push_eval)
  show ?thesis
    using reached_arrival [OF 5, of "[]" eof 4 "[slot ''d'' 3, slot END_OF_FILE 4, slot ''c'' 2]" 5]
    by (simp add: push_eval demo_evs_def)
qed

lemma demo_finished:
  obtains s where "create_new_connection False (\<lambda>_. 0) demo_cfg 6000 ''10.0.0.2'' demo_evs (client_init demo_mem) = Some s"
    and "text_buffer s = [slot ''d'' 3, slot END_OF_FILE 4, slot ''c'' 2]" and "expected_seq_num s = 5"
    and "file_out s = [(''a'', 0), (''b'', 1)]" and "finished s"
  using demo_reached unfolding reached_def demo_connection by auto

section \<open>What the receiver guarantees\<close>

text \<open>
  C3: whatever datagrams arrive, in whatever order, lost or repeated, and however the two threads
  take turns, the items the client has printed carry the sequence numbers 0, 1, 2, ... in order,
  none missing and none twice, and the number it expects next is the number of printed items
  plus the number of items waiting in the window.
\<close>

theorem client_in_order:
  assumes "create_new_connection be rand cfg port ip evs (client_init mem) = Some s"
    and "0 < sint (cli_rwnd cfg)" and "length mem = nat (sint (cli_rwnd cfg))"
    and "length evs < 2 ^ 30 - 1"
  shows "map snd (file_out s) = map word_of_nat [0..<length (file_out s)] \<and>
         unat (expected_seq_num s) = length (file_out s) + length (filter (\<lambda>b. is_filled b = 1) (text_buffer s))"
proof -
  have ok: "\<forall>a \<in> set evs. event_carries be (\<lambda>_ _. True) a"
    by simp
  note i = connection_inv [OF assms(1-3) ok]
  have p: "rand_pos s < 2 ^ 31 - 1"
    using i(2) assms(4) by simp
  note w = client_inv_window [OF i(1) p]
  show ?thesis
    using w(2) window_filled_count [OF w(1)] window_size(3) [OF w(1)] by simp
qed

theorem client_in_order_witness:
  "\<exists>s. create_new_connection False (\<lambda>_. 0) demo_cfg 6000 ''10.0.0.2'' demo_evs (client_init demo_mem) = Some s \<and>
       map snd (file_out s) = map word_of_nat [0..<2] \<and> unat (expected_seq_num s) = 2 + 3"
proof -
  obtain s where s: "create_new_connection False (\<lambda>_. 0) demo_cfg 6000 ''10.0.0.2'' demo_evs (client_init demo_mem) = Some s"
    "text_buffer s = [slot ''d'' 3, slot END_OF_FILE 4, slot ''c'' 2]" "file_out s = [(''a'', 0), (''b'', 1)]"
    using demo_finished by metis
  have "0 < sint (cli_rwnd demo_cfg)" and "length demo_mem = nat (sint (cli_rwnd demo_cfg))"
    and "length demo_evs < 2 ^ 30 - 1"
    by (simp_all add: demo_cfg_def demo_mem_def demo_evs_def)
  from client_in_order [OF s(1) this] show ?thesis
    using s by (simp add: numeral_2_eq_2)
qed

text \<open>
  C28: every acknowledgement goes to the sender of the datagram, carries the expected number, and
  advertises a window whose right end is the number of printed items plus the size of the
  buffer: the space behind it is free, and it never moves back.
\<close>

theorem client_ack_window:
  assumes "create_new_connection be rand cfg port ip evs (client_init mem) = Some s"
    and "0 < sint (cli_rwnd cfg)" and "length mem = nat (sint (cli_rwnd cfg))"
    and "length evs < 2 ^ 30 - 2"
    and "client_step be rand cfg (Recv src dgram junk) s = Some t" and "sent t \<noteq> sent s"
  shows "\<exists>q. sent t = sent s @ [(src, fst (send_udp_data be (Some src) SIZE_SOCKADDR_IN q))] \<and>
           u_seq (q_config q) = expected_seq_num t \<and>
           unat (u_seq (q_config q)) + unat (u_rwnd (q_config q)) = length (file_out t) + nat (sint (cli_rwnd cfg))"
proof -
  let ?n = "nat (sint (cli_rwnd cfg))"
  have ok: "\<forall>a \<in> set evs. event_carries be (\<lambda>_ _. True) a"
    by simp
  note i = connection_inv [OF assms(1-3) ok]
  have inv: "client_inv ?n (\<lambda>_ _. True) t"
    using client.step_inv [OF i(1) _ assms(5)] by simp
  have "rand_pos t < 2 ^ 31 - 1"
    using client_step_pos [OF assms(5)] i(2) assms(4) by simp
  note w = client_inv_window(1) [OF inv this]
  have "?n < 2 ^ 31"
    by (rule nat_sint_lt)
  then have "unat (get_window_size (text_buffer t)) = length (file_out t) + ?n - unat (expected_seq_num t)"
    unfolding get_window_size_def window_free_count [OF w] using window_size(3) [OF w] by simp
  then have size: "unat (expected_seq_num t) + unat (get_window_size (text_buffer t)) = length (file_out t) + ?n"
    using window_size(4) [OF w] by simp
  show ?thesis
    using assms(5)
  proof (cases rule: client_step_recvE)
    case handled
    show ?thesis
      using handled(3)
    proof (cases rule: handle_packetE)
      case (1 buf e)
      then show ?thesis
        using size by (intro exI conjI) (assumption | simp)+
    qed
  qed (use assms(6) in simp_all)
qed

theorem client_ack_window_witness:
  "\<exists>t q. client_step False (\<lambda>_. 0) demo_cfg (demo_arrival 0 data ''a'') demo_start = Some t \<and>
         sent t = sent demo_start @ [(zero_sockaddr, fst (send_udp_data False (Some zero_sockaddr) SIZE_SOCKADDR_IN q))] \<and>
         unat (u_seq (q_config q)) + unat (u_rwnd (q_config q)) = 3"
proof -
  have s: "create_new_connection False (\<lambda>_. 0) demo_cfg 6000 ''10.0.0.2'' [] (client_init demo_mem) = Some demo_start"
    by (simp add: demo_connection)
  have "reached demo_start [demo_arrival 0 data ''a''] ([slot ''a'' 0, free_slot 7, free_slot 7], 1, [], False)"
    using demo_reached1 by simp
  then obtain t where t: "demo_step (demo_arrival 0 data ''a'') demo_start = Some t" "file_out t = []"
    by (auto simp: reached_def bind_eq_Some_conv)
  have "\<not> finished demo_start" and "\<not> locked demo_start"
    by (simp_all add: demo_start_def client_init_def Let_def)
  then have "sent t \<noteq> sent demo_start"
    using demo_acked [OF t(1)] by auto
  moreover have "0 < sint (cli_rwnd demo_cfg)" and "length demo_mem = nat (sint (cli_rwnd demo_cfg))"
    and "length ([] :: client_event list) < 2 ^ 30 - 2"
    by (simp_all add: demo_cfg_def demo_mem_def)
  ultimately show ?thesis
    using client_ack_window [OF s, of zero_sockaddr "dgram_of False (packet 0 0 data ''a'')" zero_query t] t
    by (auto simp: demo_step_def demo_arrival_def demo_cfg_def)
qed

lemma buffer_full: "(b :: buffer)\<lparr>b_data := d, is_filled := f, b_seq := q\<rparr> = \<lparr>b_data = d, is_filled = f, b_seq = q\<rparr>"
  by simp

text \<open>
  When the expected packet arrives, is not dropped and there is a free slot, it is stored in
  the slot of its number and the expected number goes up by one.
\<close>

theorem client_accepts_expected:
  assumes "create_new_connection be rand cfg port ip evs (client_init mem) = Some s"
    and "0 < sint (cli_rwnd cfg)" and "length mem = nat (sint (cli_rwnd cfg))"
    and "length evs < 2 ^ 30 - 2" and "\<not> finished s" and "\<not> locked s"
    and "drop_packet rand (rand_pos s) (probability cfg) (seed cfg) = Some (False, pos)"
    and "u_type (q_config (received be src dgram)) = type_code data"
    and "u_seq (q_config (received be src dgram)) = expected_seq_num s"
    and "NUL \<in> set (q_buf (received be src dgram))"
    and "get_window_size (text_buffer s) \<noteq> 0"
  shows "\<exists>t. client_step be rand cfg (Recv src dgram junk) s = Some t \<and>
           expected_seq_num t = expected_seq_num s + 1 \<and>
           text_buffer t = (text_buffer s)[unat (expected_seq_num s) mod nat (sint (cli_rwnd cfg)) :=
             \<lparr>b_data = cstr (q_buf (received be src dgram)), is_filled = 1, b_seq = expected_seq_num s\<rparr>]"
proof -
  let ?n = "nat (sint (cli_rwnd cfg))" and ?q = "received be src dgram" and ?e = "expected_seq_num s"
  let ?hi = "unat ?e" and ?lo = "length (file_out s)"
  let ?buf' = "(text_buffer s)[?hi mod ?n := \<lparr>b_data = cstr (q_buf ?q), is_filled = 1, b_seq = ?e\<rparr>]"
  have ok: "\<forall>a \<in> set evs. event_carries be (\<lambda>_ _. True) a"
    by simp
  note i = connection_inv [OF assms(1-3) ok]
  have p: "rand_pos s < 2 ^ 31 - 1"
    using i(2) assms(4) by simp
  note w = client_inv_window(1) [OF i(1) p] and h = client_inv_window(3) [OF i(1) p]
  have lt: "?hi < ?lo + ?n"
    using assms(11) window_size(4) [OF w] unfolding get_window_size_def window_free_count [OF w] by (cases "?hi = ?lo + ?n") auto
  have free: "is_filled (text_buffer s ! (?hi mod ?n)) = -1"
    using window_free [OF w le_refl lt] .
  have h31: "?hi < 2 ^ 31"
    using h by simp
  have idx: "sint (cint_mod ?e (cli_rwnd cfg)) = int (?hi mod ?n)"
    by (rule sint_cint_mod [OF h31 assms(2)])
  have push: "push_data_to_buffer (cli_rwnd cfg) (q_buf ?q) ?e ?e (text_buffer s) = Some ?buf'"
  proof -
    have "cli_rwnd cfg \<noteq> 0" and "?hi mod ?n < length (text_buffer s)"
      using assms(2) window_size [OF w] by auto
    then show ?thesis
      unfolding push_data_to_buffer_def Let_def idx using free assms(10) by (simp add: arr_simps buffer_full)
  qed
  have "window ?n ?lo (Suc ?hi) ?buf'"
    by (rule window_push [OF w lt]) simp_all
  then have "update_expected_seq_num (Suc (length ?buf')) ?buf' (word_of_nat ?hi) = Some (word_of_nat (Suc ?hi))"
    by (rule update_window_Suc [OF _ window_size(3) [OF w]]) (use h in simp)
  then have upd: "update_expected_seq_num (Suc (length ?buf')) ?buf' ?e = Some (?e + 1)"
    by (simp add: add.commute del: update_expected_seq_num.simps)
  have pos: "pos = rand_pos s + 2"
    using assms(7) by (auto simp: drop_packet_def Let_def split: if_splits)
  obtain t where t: "handle_packet be cfg junk ?q (s\<lparr>rand_pos := rand_pos s + 2\<rparr>) = Some t"
    using push upd assms(8,9) unfolding handle_packet_def Let_def by (simp del: update_expected_seq_num.simps)
  then have "client_step be rand cfg (Recv src dgram junk) s = Some t"
    using assms(5-7) pos by (simp add: received_def [symmetric])
  moreover have "expected_seq_num t = ?e + 1 \<and> text_buffer t = ?buf'"
    using t
  proof (cases rule: handle_packetE)
    case (1 buf e)
    have "buf = ?buf'"
      using 1(1) push assms(8,9) by (simp add: stored_def)
    then show ?thesis
      using 1(2-4) upd by simp
  qed
  ultimately show ?thesis
    by blast
qed

theorem client_accepts_expected_witness:
  "\<exists>t. client_step False (\<lambda>_. 0) demo_cfg (demo_arrival 0 data ''a'') demo_start = Some t \<and>
       expected_seq_num t = 1 \<and> text_buffer t ! 0 = slot ''a'' 0"
proof -
  have s: "create_new_connection False (\<lambda>_. 0) demo_cfg 6000 ''10.0.0.2'' [] (client_init demo_mem) = Some demo_start"
    by (simp add: demo_connection)
  have st: "\<not> finished demo_start" "\<not> locked demo_start" "expected_seq_num demo_start = 0"
    "text_buffer demo_start = [free_slot 7, free_slot 7, free_slot 7]"
    by (simp_all add: demo_start_def client_init_def demo_mem_def numeral_3_eq_3 Let_def)
  have cfg: "0 < sint (cli_rwnd demo_cfg)" "length demo_mem = nat (sint (cli_rwnd demo_cfg))"
    "length ([] :: client_event list) < 2 ^ 30 - 2"
    by (simp_all add: demo_cfg_def demo_mem_def)
  note q = received_packet [of "''a''" False zero_sockaddr 0 0 data]
  show ?thesis
    using client_accepts_expected [OF s cfg st(1,2) demo_keeps, of zero_sockaddr "dgram_of False (packet 0 0 data ''a'')" zero_query] st(3,4) q
    by (auto simp: nul_padded cstr_padded get_window_size_def demo_arrival_def simp del: client_step.simps)
qed

text \<open>
  The receiver does not fail when the packets have a terminated text and numbers that fit an
  \<open>int\<close>, and the configuration has a window and a seed.
\<close>

definition packet_safe :: "query_obj \<Rightarrow> bool" where
  "packet_safe q \<longleftrightarrow> unat (u_seq (q_config q)) < 2 ^ 31 \<and> (u_type (q_config q) = type_code data \<longrightarrow> NUL \<in> set (q_buf q))"

fun event_safe :: "bool \<Rightarrow> client_event \<Rightarrow> bool" where
  "event_safe be (Recv src dgram junk) = packet_safe (received be src dgram)"
| "event_safe be ReaderPass = True"

definition config_inv :: "client_config \<Rightarrow> client_state \<Rightarrow> bool" where
  "config_inv cfg s \<longleftrightarrow> 0 < sint (cli_rwnd cfg) \<and> seed cfg \<noteq> 0 \<and> length (text_buffer s) = nat (sint (cli_rwnd cfg))"

lemma push_length: "push_data_to_buffer rwnd text n e buf = Some buf' \<Longrightarrow> length buf' = length buf"
  by (auto simp: push_data_to_buffer_def Let_def bind_eq_Some_conv split: if_splits dest!: aset_SomeD)

lemma stored_length: "stored cfg q s = Some buf \<Longrightarrow> length buf = length (text_buffer s)"
  by (auto simp: stored_def push_length split: if_splits)

lemma push_defined:
  assumes "0 < sint rwnd" and "length buf = nat (sint rwnd)" and "unat n < 2 ^ 31" and "NUL \<in> set text"
  shows "\<exists>buf'. push_data_to_buffer rwnd text n e buf = Some buf'"
proof -
  have i: "sint (cint_mod n rwnd) = int (unat n mod nat (sint rwnd))"
    by (rule sint_cint_mod [OF assms(3,1)])
  have "unat n mod nat (sint rwnd) < length buf" and "rwnd \<noteq> 0"
    using assms(1,2) by auto
  then show ?thesis
    unfolding push_data_to_buffer_def Let_def i using assms(4) by (auto simp: arr_simps)
qed

lemma handle_packet_defined:
  assumes "config_inv cfg s" and "packet_safe q"
  shows "\<exists>t. handle_packet be cfg junk q s = Some t"
proof -
  have "\<exists>buf. stored cfg q s = Some buf"
    using assms push_defined unfolding stored_def config_inv_def packet_safe_def by auto
  then obtain buf where b: "stored cfg q s = Some buf" ..
  have "length buf < 2 ^ 32"
    using stored_length [OF b] assms(1) nat_sint_lt [of "cli_rwnd cfg"] by (simp add: config_inv_def)
  then obtain e where "update_expected_seq_num (Suc (length buf)) buf (expected_seq_num s) = Some e"
    using update_defined by blast
  then show ?thesis
    using b unfolding handle_packet_def Let_def stored_def [symmetric]
    by (simp del: update_expected_seq_num.simps)
qed

interpretation client_safe: safe_machine "client_step be rand cfg" "event_safe be" "config_inv cfg"
proof
  fix s t a
  assume inv: "config_inv cfg s" and st: "client_step be rand cfg a s = Some t"
  have "length (text_buffer t) = length (text_buffer s)"
  proof (cases a)
    case (Recv src dgram junk)
    show ?thesis
      using st unfolding Recv by (cases rule: client_step_recvE) (auto elim!: handle_packetE dest: stored_length)
  next
    case ReaderPass
    then show ?thesis
      using st by (auto simp: buffer_reader_thread_def print_filled_def drain_eq Let_def)
  qed
  then show "config_inv cfg t"
    using inv by (simp add: config_inv_def)
next
  fix s a
  assume inv: "config_inv cfg s" and ok: "event_safe be a"
  show "\<exists>t. client_step be rand cfg a s = Some t"
  proof (cases a)
    case (Recv src dgram junk)
    obtain d where d: "drop_packet rand (rand_pos s) (probability cfg) (seed cfg) = Some (d, rand_pos s + 2)"
      using inv by (simp add: drop_packet_def config_inv_def Let_def)
    have "config_inv cfg (s\<lparr>rand_pos := rand_pos s + 2\<rparr>)"
      using inv by (simp add: config_inv_def)
    then have "\<exists>t. handle_packet be cfg junk (received be src dgram) (s\<lparr>rand_pos := rand_pos s + 2\<rparr>) = Some t"
      by (rule handle_packet_defined) (use ok Recv in simp)
    then show ?thesis
      unfolding Recv using d by (auto simp: received_def [symmetric])
  qed simp
qed

text \<open>
  C36: with a window of at least one slot, a seed other than 0 and a numeric server address, the
  receiver handles every sequence of datagrams whose texts end inside the buffer and whose
  numbers fit an \<open>int\<close> without leaving an array, dividing by zero or looping.
\<close>

theorem client_never_fails:
  assumes "0 < sint (cli_rwnd cfg)" and "seed cfg \<noteq> 0" and "length mem = nat (sint (cli_rwnd cfg))"
    and "inet_pton ip = Some a" and "\<forall>e \<in> set evs. event_safe be e"
  shows "\<exists>s. create_new_connection be rand cfg port ip evs (client_init mem) = Some s"
proof -
  have "config_inv cfg ((client_init mem)\<lparr>expected_seq_num := 0, rand_pos := 0, sent := xs\<rparr>)" for xs
    using assms(1-3) by (simp add: config_inv_def client_init_def)
  from client_safe.run_defined [OF this assms(5)]
  have "\<exists>s. orun (client_step be rand cfg) evs
          ((client_init mem)\<lparr>expected_seq_num := 0, rand_pos := 0, sent := xs\<rparr>) = Some s" for xs
    by blast
  then show ?thesis
    using assms(4) by (simp add: create_new_connection_def Let_def case_prod_beta)
qed

theorem client_never_fails_witness:
  "\<exists>s. create_new_connection False (\<lambda>_. 0) demo_cfg 6000 ''10.0.0.2'' demo_evs (client_init demo_mem) = Some s"
proof (rule client_never_fails)
  show "0 < sint (cli_rwnd demo_cfg)" and "seed demo_cfg \<noteq> 0" and "length demo_mem = nat (sint (cli_rwnd demo_cfg))"
    by (simp_all add: demo_cfg_def demo_mem_def)
  show "inet_pton ''10.0.0.2'' = Some (10, 0, 0, 2)"
    by code_simp
  show "\<forall>e \<in> set demo_evs. event_safe False e"
    by (simp add: demo_evs_def demo_arrival_def packet_safe_def received_packet nul_padded)
qed

text \<open>
  What the program prints before it exits.  After the last packet \<open>main\<close> goes over the array
  once, from the oldest item to the last slot: every acknowledged item is printed exactly when the
  window does not wrap around the end of the array.
\<close>

theorem client_final_print:
  assumes "create_new_connection be rand cfg port ip evs (client_init mem) = Some s"
    and "0 < sint (cli_rwnd cfg)" and "length mem = nat (sint (cli_rwnd cfg))"
    and "length evs < 2 ^ 30 - 1"
  shows "let n = nat (sint (cli_rwnd cfg)); done = length (file_out s);
             out = file_out (print_filled (s\<lparr>is_EOF := 1\<rparr>))
         in map snd out = map word_of_nat [0..<min (unat (expected_seq_num s)) (done + (n - done mod n))]"
proof -
  let ?n = "nat (sint (cli_rwnd cfg))" and ?lo = "length (file_out s)" and ?hi = "unat (expected_seq_num s)"
  let ?s = "s\<lparr>is_EOF := 1\<rparr>"
  have ok: "\<forall>a \<in> set evs. event_carries be (\<lambda>_ _. True) a"
    by simp
  note i = connection_inv [OF assms(1-3) ok]
  have p: "rand_pos s < 2 ^ 31 - 1"
    using i(2) assms(4) by simp
  note w = client_inv_window [OF i(1) p]
  have "window ?n ?lo ?hi (text_buffer ?s)" and "?hi < 2 ^ 31"
    using w(1,3) by simp_all
  from print_window(2) [OF this]
  have "map snd (file_out (print_filled ?s)) = map word_of_nat [0..<?lo] @ map word_of_nat [?lo..<pass_end ?n ?lo ?hi]"
    using w(2) by simp
  also have "\<dots> = map word_of_nat [0..<pass_end ?n ?lo ?hi]"
    using pass_end_bounds(1) [OF window_size(2,3) [OF w(1)]] by (metis map_append upt_add_eq_append le_add_diff_inverse zero_le)
  finally show ?thesis
    by (simp add: pass_end_def Let_def)
qed

theorem client_final_print_witness:
  "\<exists>s. create_new_connection False (\<lambda>_. 0) demo_cfg 6000 ''10.0.0.2'' demo_evs (client_init demo_mem) = Some s \<and>
       map snd (file_out (print_filled (s\<lparr>is_EOF := 1\<rparr>))) = map word_of_nat [0..<min 5 (2 + (3 - 2))]"
proof -
  obtain s where s: "create_new_connection False (\<lambda>_. 0) demo_cfg 6000 ''10.0.0.2'' demo_evs (client_init demo_mem) = Some s"
    "expected_seq_num s = 5" "file_out s = [(''a'', 0), (''b'', 1)]"
    using demo_finished by metis
  have c: "0 < sint (cli_rwnd demo_cfg)" "length demo_mem = nat (sint (cli_rwnd demo_cfg))"
    "length demo_evs < 2 ^ 30 - 1" "nat (sint (cli_rwnd demo_cfg)) = 3"
    by (simp_all add: demo_cfg_def demo_mem_def demo_evs_def)
  have "length (file_out s) = 2"
    using s(3) by simp
  then show ?thesis
    using client_final_print [OF s(1) c(1-3)] s(1,2) unfolding c(4) Let_def by simp
qed

text \<open>
  A transfer in which that last pass loses data.  The window has three slots; the words a, b,
  c, d and the end of the file arrive in order, the reader runs once after the second, and every
  packet is acknowledged; the program exits having printed only a, b and c.
\<close>

theorem client_loses_tail:
  "\<exists>s. create_new_connection False (\<lambda>_. 0) demo_cfg 6000 ''10.0.0.2'' demo_evs (client_init demo_mem) = Some s \<and>
       finished s \<and> expected_seq_num s = 5 \<and>
       map fst (file_out (print_filled (s\<lparr>is_EOF := 1\<rparr>))) = [''a'', ''b'', ''c'']"
proof -
  obtain s where s: "create_new_connection False (\<lambda>_. 0) demo_cfg 6000 ''10.0.0.2'' demo_evs (client_init demo_mem) = Some s"
    "text_buffer s = [slot ''d'' 3, slot END_OF_FILE 4, slot ''c'' 2]" "expected_seq_num s = 5"
    "file_out s = [(''a'', 0), (''b'', 1)]" "finished s"
    using demo_finished by metis
  have "map fst (file_out (print_filled (s\<lparr>is_EOF := 1\<rparr>))) = [''a'', ''b'', ''c'']"
    using s(2,4) by (simp add: print_filled_def min_seq_num_def Let_def)
  with s(1,3,5) show ?thesis
    by (intro exI [of _ s] conjI)
qed

end
