(* ===== verification/Rtt.thy ===== *)
theory Rtt
  imports Machine Cfloat
begin

text \<open>
  The retransmission-timeout estimator of \<open>src/hw2/rtt.c\<close> and \<open>src/hw2/unprtt.h\<close>.  The
  estimators are C \<open>float\<close>s: they are kept as the rationals they denote, and every
  arithmetic operation of the source is followed by the rounding of IEEE single (\<open>f32\<close>) or
  double (\<open>f64\<close>) precision that C prescribes there.  \<open>gettimeofday\<close> is an argument.
\<close>

section \<open>The estimator\<close>

record rtt_info =
  rtt_rtt :: cint
  rtt_srtt :: rat
  rtt_rttvar :: rat
  rtt_rto :: cint
  rtt_nrexmt :: cint
  rtt_base :: u32

abbreviation RTT_RXTMIN :: cint where
  "RTT_RXTMIN \<equiv> 1000"

abbreviation RTT_RXTMAX :: cint where
  "RTT_RXTMAX \<equiv> 3000"

abbreviation RTT_MAXNREXMT :: cint where
  "RTT_MAXNREXMT \<equiv> 12"

definition RTT_RTOCALC :: "rtt_info \<Rightarrow> rat" where
  "RTT_RTOCALC ptr = f64 (rtt_srtt ptr + f64 (4 * rtt_rttvar ptr))"

definition rtt_minmax :: "cint \<Rightarrow> cint" where
  "rtt_minmax rto =
     (if sint rto < sint RTT_RXTMIN then RTT_RXTMIN
      else if sint rto > sint RTT_RXTMAX then RTT_RXTMAX
      else rto)"

definition rtt_init :: "timeval \<Rightarrow> rtt_info \<Rightarrow> rtt_info" where
  "rtt_init tv ptr =
     (let p1 = ptr\<lparr>rtt_base := word_of_int (tv_sec tv), rtt_rtt := 0, rtt_srtt := 0,
                   rtt_rttvar := 3 / 4\<rparr>
      in p1\<lparr>rtt_rto := rtt_minmax (f2i (RTT_RTOCALC p1))\<rparr>)"

definition rtt_ts :: "timeval \<Rightarrow> rtt_info \<Rightarrow> u32" where
  "rtt_ts tv ptr =
     word_of_int ((tv_sec tv - uint (rtt_base ptr)) * 1000 + tv_usec tv sdiv 1000)"

definition rtt_newpack :: "rtt_info \<Rightarrow> rtt_info" where
  "rtt_newpack ptr = ptr\<lparr>rtt_nrexmt := 0\<rparr>"

definition rtt_start :: "rtt_info \<Rightarrow> cint" where
  "rtt_start ptr = f2i (f64 (of_int (sint (rtt_rto ptr)) + 1 / 2))"

definition rtt_stop :: "u32 \<Rightarrow> rtt_info \<Rightarrow> rtt_info" where
  "rtt_stop ms ptr =
     (let p1 = ptr\<lparr>rtt_rtt := ms\<rparr>;
          delta = f2i (f32 (i2f (rtt_rtt p1) - rtt_srtt p1));
          p2 = p1\<lparr>rtt_srtt := f32 (rtt_srtt p1 + i2f (cint_div delta 8))\<rparr>;
          delta' = (if sint delta < 0 then - delta else delta);
          p3 = p2\<lparr>rtt_rttvar := f32 (rtt_rttvar p2 + f32 (f32 (i2f delta' - rtt_rttvar p2) / 4))\<rparr>
      in p3\<lparr>rtt_rto := rtt_minmax (f2i (RTT_RTOCALC p3))\<rparr>)"

definition rtt_timeout :: "rtt_info \<Rightarrow> cint \<times> rtt_info" where
  "rtt_timeout ptr =
     (let p1 = ptr\<lparr>rtt_rto := rtt_rto ptr * 2\<rparr>;
          p2 = p1\<lparr>rtt_rto := rtt_minmax (rtt_rto p1)\<rparr>;
          p3 = p2\<lparr>rtt_nrexmt := rtt_nrexmt p2 + 1\<rparr>
      in if sint (rtt_nrexmt p3) > sint RTT_MAXNREXMT then (- 1, p3) else (0, p3))"

text \<open>
  \<open>rtt_debug\<close> prints nothing unless the flag is set; the result is the format and the
  arguments handed to \<open>fprintf\<close>.
\<close>

definition rtt_debug :: "cint \<Rightarrow> rtt_info \<Rightarrow> (string \<times> cint \<times> rat \<times> rat \<times> cint) option" where
  "rtt_debug rtt_d_flag ptr =
     (if rtt_d_flag = 0 then None
      else Some (''rtt = %.3f, srtt = %.3f, rttvar = %.3f, rto = %.3f'',
                 rtt_rtt ptr, rtt_srtt ptr, rtt_rttvar ptr, rtt_rto ptr))"

datatype rtt_op = Init timeval | Newpack | Stop u32 | Timeout

fun rtt_apply :: "rtt_op \<Rightarrow> rtt_info \<Rightarrow> rtt_info" where
  "rtt_apply (Init tv) ptr = rtt_init tv ptr"
| "rtt_apply Newpack ptr = rtt_newpack ptr"
| "rtt_apply (Stop ms) ptr = rtt_stop ms ptr"
| "rtt_apply Timeout ptr = snd (rtt_timeout ptr)"

definition rto_in_bounds :: "rtt_info \<Rightarrow> bool" where
  "rto_in_bounds ptr \<longleftrightarrow> 1000 \<le> sint (rtt_rto ptr) \<and> sint (rtt_rto ptr) \<le> 3000"

section \<open>Bounds\<close>

lemma rtt_minmax_bounds: "1000 \<le> sint (rtt_minmax r) \<and> sint (rtt_minmax r) \<le> 3000"
  by (simp add: rtt_minmax_def)

lemma rtt_init_bounds: "rto_in_bounds (rtt_init tv ptr)"
  by (simp add: rtt_init_def rto_in_bounds_def Let_def rtt_minmax_bounds)

lemma rtt_stop_bounds: "rto_in_bounds (rtt_stop ms ptr)"
  by (simp add: rtt_stop_def rto_in_bounds_def Let_def rtt_minmax_bounds)

lemma rtt_timeout_bounds: "rto_in_bounds (snd (rtt_timeout ptr))"
  by (simp add: rtt_timeout_def rto_in_bounds_def Let_def rtt_minmax_bounds)

lemma rtt_newpack_bounds: "rto_in_bounds ptr \<Longrightarrow> rto_in_bounds (rtt_newpack ptr)"
  by (simp add: rtt_newpack_def rto_in_bounds_def)

lemmas rtt_bounds = rtt_init_bounds rtt_stop_bounds rtt_timeout_bounds rtt_newpack_bounds

interpretation rtt: op_machine rtt_apply rto_in_bounds
proof unfold_locales
  fix s a
  assume "rto_in_bounds s"
  then show "rto_in_bounds (rtt_apply a s)"
    by (cases a) (simp_all add: rtt_bounds)
qed

section \<open>The timer value\<close>

lemma rtt_start_exact:
  assumes "0 \<le> sint (rtt_rto ptr)" and "sint (rtt_rto ptr) \<le> 3000"
  shows "rtt_start ptr = rtt_rto ptr"
proof -
  let ?r = "sint (rtt_rto ptr)"
  have half: "pow2 (- 1) = 1 / 2"
    by (simp add: pow2_def)
  have "fround 53 (- 1074) (of_int (2 * ?r + 1) * pow2 (- 1)) = of_int (2 * ?r + 1) * pow2 (- 1)"
    by (rule fround_exact) (use assms in auto)
  then have f: "f64 (of_int ?r + 1 / 2) = of_int ?r + 1 / 2"
    by (simp add: f64_def half add_divide_distrib)
  have pos: "\<lfloor>of_int ?r + 1 / 2 :: rat\<rfloor> = ?r"
    by (rule floor_unique) simp_all
  have "(0::rat) \<le> of_int ?r"
    using assms(1) by (simp only: of_int_0_le_iff)
  then have nn: "\<not> (of_int ?r + 1 / 2 :: rat) < 0"
    by linarith
  show ?thesis
    unfolding rtt_start_def f f2i_def Let_def pos if_not_P [OF nn]
    using assms sint_range32(1) [of "rtt_rto ptr"] by simp
qed

text \<open>
  C32: whatever sequence of measurements, timeouts and new packets follows \<open>rtt_init\<close>, the
  retransmission timeout stays between \<open>RTT_RXTMIN\<close> and \<open>RTT_RXTMAX\<close>.
\<close>

theorem rto_always_in_bounds:
  "let rto = sint (rtt_rto (fold rtt_apply ops (rtt_init tv ptr)))
   in sint RTT_RXTMIN \<le> rto \<and> rto \<le> sint RTT_RXTMAX"
  using rtt.run_inv [OF rtt_init_bounds, of ops tv ptr] by (simp add: rto_in_bounds_def)

section \<open>Giving up\<close>

lemma rtt_timeout_rto:
  assumes "rto_in_bounds ptr"
  shows "sint (rtt_rto (snd (rtt_timeout ptr))) = min 3000 (2 * sint (rtt_rto ptr))"
proof -
  have "sint (rtt_rto ptr * 2) = 2 * sint (rtt_rto ptr)"
    using assms by (subst sint_word_ariths)
      (simp add: rto_in_bounds_def signed_take_bit_int_eq_self)
  then show ?thesis
    using assms by (simp add: rtt_timeout_def Let_def rtt_minmax_def rto_in_bounds_def)
qed

lemma rtt_timeout_nrexmt: "rtt_nrexmt (snd (rtt_timeout ptr)) = rtt_nrexmt ptr + 1"
  by (simp add: rtt_timeout_def Let_def)

lemma rtt_timeout_result:
  assumes "unat (rtt_nrexmt ptr) < 2 ^ 31 - 1"
  shows "fst (rtt_timeout ptr) = (if unat (rtt_nrexmt ptr) < 12 then 0 else - 1)"
proof -
  have u: "unat (rtt_nrexmt ptr + 1) = Suc (unat (rtt_nrexmt ptr))"
    using assms by (intro unat_Suc32) simp
  then have "sint (rtt_nrexmt ptr + 1) = int (Suc (unat (rtt_nrexmt ptr)))"
    using assms by (subst sint_small) simp_all
  then show ?thesis
    using less_uint_unat [of 11 "rtt_nrexmt ptr"] by (auto simp: rtt_timeout_def Let_def)
qed

lemma timeouts_state:
  assumes "rto_in_bounds ptr" and "k < 2 ^ 31"
  shows "let q = ((snd \<circ> rtt_timeout) ^^ k) (rtt_newpack ptr)
         in unat (rtt_nrexmt q) = k \<and> rto_in_bounds q \<and>
            sint (rtt_rto q) = min 3000 (2 ^ k * sint (rtt_rto ptr))"
  using assms(2)
proof (induction k)
  case 0
  show ?case
    using assms(1) by (simp add: rtt_newpack_def rto_in_bounds_def)
next
  case (Suc k)
  define q where "q = ((snd \<circ> rtt_timeout) ^^ k) (rtt_newpack ptr)"
  have q: "unat (rtt_nrexmt q) = k" "rto_in_bounds q"
      "sint (rtt_rto q) = min 3000 (2 ^ k * sint (rtt_rto ptr))"
    using Suc unfolding q_def Let_def by auto
  have n: "unat (rtt_nrexmt q + 1) = Suc k"
    using q(1) Suc.prems by (subst unat_Suc32) simp_all
  have "(0::int) < 2 ^ k * sint (rtt_rto ptr)"
    using assms(1) by (simp add: rto_in_bounds_def)
  then have "min 3000 (2 * min 3000 (2 ^ k * sint (rtt_rto ptr))) =
      min 3000 (2 * (2 ^ k * sint (rtt_rto ptr)))"
    by linarith
  moreover have "((snd \<circ> rtt_timeout) ^^ Suc k) (rtt_newpack ptr) = snd (rtt_timeout q)"
    by (simp add: q_def)
  ultimately show ?case
    using q n rtt_timeout_rto [OF q(2)]
    by (simp only: Let_def) (simp add: rtt_timeout_nrexmt rtt_bounds mult.assoc)
qed

text \<open>
  After a new packet, the first twelve timeouts in a row double the retransmission
  timeout, capped at three seconds, and return 0; every later one returns \<open>-1\<close>, on which the
  caller gives up.
\<close>

theorem rtt_timeout_backoff:
  assumes "rto_in_bounds ptr" and "k < 2 ^ 31 - 1"
  shows "let q = ((snd \<circ> rtt_timeout) ^^ k) (rtt_newpack ptr)
         in sint (rtt_rto q) = min 3000 (2 ^ k * sint (rtt_rto ptr)) \<and>
            fst (rtt_timeout q) = (if k < 12 then 0 else - 1)"
  using timeouts_state [OF assms(1), of k] assms(2)
  by (simp add: Let_def rtt_timeout_result)

theorem rtt_timeout_backoff_witness:
  "let p = rtt_init \<lparr>tv_sec = 0, tv_usec = 0\<rparr> \<lparr>rtt_rtt = 0, rtt_srtt = 0, rtt_rttvar = 0,
             rtt_rto = 0, rtt_nrexmt = 0, rtt_base = 0\<rparr>;
       q = ((snd \<circ> rtt_timeout) ^^ 12) (rtt_newpack p)
   in sint (rtt_rto q) = min 3000 (2 ^ 12 * sint (rtt_rto p)) \<and> fst (rtt_timeout q) = - 1"
  using rtt_timeout_backoff [OF rtt_init_bounds, of 12] by (simp add: Let_def)

end
