(* ===== verification/Rdt_Server.thy ===== *)
theory Rdt_Server
  imports Ifi Rtt
begin

text \<open>
  The sender of the file transfer, \<open>src/hw2/server.c\<close>.  \<open>send_file_data\<close> sends a window of
  words, then \<open>receive_ack\<close> waits for acknowledgements or for the alarm.  What the process
  meets while it waits is a list of events; the calls of \<open>gettimeofday\<close> read the parameter
  \<open>clock\<close>, and \<open>ticks\<close> counts them.  \<open>receive_ack\<close> clears its copy of the timer and not the timer
  itself when it returns, so an alarm may fire while the next window is sent; the handler then
  jumps into a function that has returned, and what the process does from there on is undefined.
  Messages for the operator are left out.
\<close>

section \<open>Configuration and state\<close>

record server_config =
  port_num :: cint
  srv_rwnd :: cint
  srv_file_name :: string

record th_config =
  cliaddr :: sockaddr_in
  rwnd :: u32
  last_unacked_seq :: cint
  rttinfo :: rtt_info
  rttinit :: cint
  cwnd :: cint
  isEOF :: cint
  last_pack_seq_no :: cint
  ssthresh :: cint

text \<open>
  The variables of \<open>send_file_data\<close>: \<open>fp\<close> is the unread rest of the file, \<open>obj\<close> the packet
  under construction, \<open>sends\<close> the datagrams sent so far with their destinations.
\<close>

record sender =
  th :: th_config
  seq_num :: cint
  fp :: string
  obj :: query_obj
  ticks :: nat
  sends :: "(sockaddr_in \<times> query_obj) list"

text \<open>
  A datagram or an alarm while \<open>receive_ack\<close> waits, or an alarm that fires after a call of it has
  returned and before the next one has set its jump target.
\<close>

datatype net_event = Datagram sockaddr_in "u8 list" | Alarm | LateAlarm

definition late :: "net_event list \<Rightarrow> bool" where
  "late evs \<longleftrightarrow> evs \<noteq> [] \<and> hd evs = LateAlarm"

lemma late_simps [simp]: "\<not> late []" "late (e # evs) \<longleftrightarrow> e = LateAlarm"
  by (simp_all add: late_def)

section \<open>Waiting for acknowledgements\<close>

datatype ack_outcome = Returned th_config nat "net_event list" | GaveUp th_config | Blocked th_config

text \<open>The branch taken after an alarm or a third repetition of an acknowledgement.\<close>

definition on_timeout :: "cint \<Rightarrow> nat \<Rightarrow> net_event list \<Rightarrow> th_config \<Rightarrow> ack_outcome" where
  "on_timeout prev_seq_num t evs config =
     (if sint prev_seq_num > sint (last_pack_seq_no config) \<and> last_pack_seq_no config \<noteq> -1
      then Returned (config\<lparr>isEOF := 1\<rparr>) t evs
      else
        (let (r, rtt) = rtt_timeout (rttinfo config);
             config1 = config\<lparr>rttinfo := rtt\<rparr>
         in if sint r < 0 then GaveUp (config1\<lparr>rttinit := 0\<rparr>)
            else Returned (config1\<lparr>ssthresh := cint_div (cwnd config1) 2, cwnd := 1,
                   last_unacked_seq := (if prev_seq_num \<noteq> -1 then prev_seq_num else last_unacked_seq config1),
                   rttinit := 0\<rparr>) t evs))"

text \<open>
  The loop of \<open>receive_ack\<close>.  \<open>Blocked\<close> is the process that still waits when the events
  are used up.  The address of the peer is overwritten by every datagram.  An alarm that was meant
  to be late and comes while the loop waits is an alarm like the others.
\<close>

fun ack_loop ::
  "bool \<Rightarrow> (nat \<Rightarrow> timeval) \<Rightarrow> cint \<Rightarrow> cint \<Rightarrow> nat \<Rightarrow> nat \<Rightarrow> net_event list \<Rightarrow> th_config \<Rightarrow> ack_outcome" where
  "ack_loop be clock expected_seq_num prev_seq_num fast_retransmit t [] config =
     (if fast_retransmit = 3 then on_timeout prev_seq_num t [] config else Blocked config)"
| "ack_loop be clock expected_seq_num prev_seq_num fast_retransmit t (ev # evs) config =
     (if fast_retransmit = 3 then on_timeout prev_seq_num t (ev # evs) config
      else (case ev of
        Alarm \<Rightarrow> on_timeout prev_seq_num t evs config
      | LateAlarm \<Rightarrow> on_timeout prev_seq_num t evs config
      | Datagram src dgram \<Rightarrow>
          (let (n, q_obj) = recv_udp_data be (Some (cliaddr config)) SIZE_SOCKADDR_IN src dgram zero_query;
               c = q_config q_obj;
               config1 = config\<lparr>cliaddr := src,
                 cwnd := (if ssthresh config \<noteq> -1 \<and> sint (cwnd config) \<ge> sint (ssthresh config)
                          then cwnd config + 1 else cwnd config * 2)\<rparr>;
               stop = (\<lambda>cfg. Returned (cfg\<lparr>rttinfo := rtt_stop (rtt_ts (clock t) (rttinfo cfg) - u_ts c) (rttinfo cfg),
                                  last_unacked_seq := -1\<rparr>) (t + 1) evs)
           in if u_seq c > last_pack_seq_no config1 \<and> last_pack_seq_no config1 \<noteq> -1
              then stop (config1\<lparr>isEOF := 1\<rparr>)
              else
                (let config2 = config1\<lparr>rwnd := u_rwnd c\<rparr>;
                     (prev', fast') = (if prev_seq_num = u_seq c then (prev_seq_num, fast_retransmit + 1)
                                       else (u_seq c, 0))
                 in if n < SIZE_UDP_DATA \<or> u_seq c \<noteq> expected_seq_num
                    then ack_loop be clock expected_seq_num prev' fast' t evs config2
                    else stop config2))))"

text \<open>
  \<open>receive_ack\<close> returns the outcome together with the seconds it set the timer to.
\<close>

definition receive_ack ::
  "bool \<Rightarrow> (nat \<Rightarrow> timeval) \<Rightarrow> cint \<Rightarrow> nat \<Rightarrow> net_event list \<Rightarrow> th_config \<Rightarrow> cint \<times> ack_outcome" where
  "receive_ack be clock seq_no t evs config =
     (let expected_seq_num = seq_no + 1;
          alarm_mili_secs = rtt_start (rttinfo config)
      in (cint_div alarm_mili_secs 1000, ack_loop be clock expected_seq_num (-1) 0 t evs config))"

section \<open>Sending a window\<close>

text \<open>
  \<open>fscanf(fp, "%s", &q_obj.buf)\<close>: the word and a terminator overwrite the start of the buffer;
  the flag is the result \<open>EOF\<close>, on which the buffer is left alone.
\<close>

definition scan_buf :: "string \<Rightarrow> string \<Rightarrow> (bool \<times> string \<times> string) option" where
  "scan_buf rest buf =
     (case fscanf_s rest of
        (None, r) \<Rightarrow> Some (True, buf, r)
      | (Some w, r) \<Rightarrow> if length w < MAXLINE then Some (False, w @ NUL # drop (Suc (length w)) buf, r) else None)"

fun skip_words :: "nat \<Rightarrow> string \<Rightarrow> string \<Rightarrow> (string \<times> string) option" where
  "skip_words 0 rest buf = Some (buf, rest)"
| "skip_words (Suc n) rest buf = do { (e, buf', r) \<leftarrow> scan_buf rest buf; skip_words n r buf' }"

text \<open>
  The first half of the body of the inner loop: the packet to send, its number, the rest of the
  file.  A packet to retransmit is found by reading \<open>file\<close>, the contents of the file, again
  from the start.
\<close>

definition pick_word ::
  "(nat \<Rightarrow> timeval) \<Rightarrow> string \<Rightarrow> sender \<Rightarrow> (query_obj \<times> cint \<times> string \<times> th_config \<times> nat) option" where
  "pick_word clock file s =
     (let config = th s in
      if last_unacked_seq config \<noteq> -1 then do {
        (buf, rest) \<leftarrow> skip_words (unat (last_unacked_seq config)) file (q_buf zero_query);
        (e, buf', rest') \<leftarrow> scan_buf rest buf;
        Some (zero_query\<lparr>q_config := (q_config zero_query)\<lparr>u_seq := last_unacked_seq config\<rparr>, q_buf := buf'\<rparr>,
              last_unacked_seq config, rest', config\<lparr>last_unacked_seq := -1\<rparr>, ticks s)
      }
      else do {
        let seq = seq_num s + 1;
        (e, buf', rest') \<leftarrow> scan_buf (fp s) (q_buf zero_query);
        Some (zero_query\<lparr>q_config := (q_config zero_query)\<lparr>u_seq := seq,
                u_ts := rtt_ts (clock (ticks s)) (rttinfo config)\<rparr>, q_buf := buf'\<rparr>,
              seq, rest',
              (if e \<and> last_pack_seq_no config = -1 then config\<lparr>last_pack_seq_no := seq\<rparr> else config),
              ticks s + 1)
      })"

text \<open>The second half: the type, the timer, and the send.\<close>

definition send_one :: "(nat \<Rightarrow> timeval) \<Rightarrow> string \<Rightarrow> sender \<Rightarrow> sender option" where
  "send_one clock file s = do {
     (q1, seq1, fp1, config1, t1) \<leftarrow> pick_word clock file s;
     let (q2, seq2) =
       (if sint seq1 \<ge> sint (last_pack_seq_no config1) \<and> last_pack_seq_no config1 \<noteq> -1
        then (q1\<lparr>q_config := (q_config q1)\<lparr>u_type := type_code eof, u_seq := last_pack_seq_no config1\<rparr>\<rparr>,
              last_pack_seq_no config1)
        else (q1\<lparr>q_config := (q_config q1)\<lparr>u_type := type_code data\<rparr>\<rparr>, seq1));
     let (config2, t2) =
       (if rttinit config1 = 0
        then (config1\<lparr>rttinfo := rtt_init (clock t1) (rttinfo config1), rttinit := 3\<rparr>, t1 + 1)
        else (config1, t1));
     let config3 = config2\<lparr>rttinfo := rtt_newpack (rttinfo config2)\<rparr>;
     Some \<lparr>th = config3, seq_num = seq2, fp = fp1, obj = q2, ticks = t2,
           sends = sends s @ [(cliaddr config3, q2)]\<rparr>
   }"

fun send_window :: "(nat \<Rightarrow> timeval) \<Rightarrow> string \<Rightarrow> nat \<Rightarrow> sender \<Rightarrow> sender option" where
  "send_window clock file 0 s = Some s"
| "send_window clock file (Suc k) s =
     (if isEOF (th s) = 1 then Some (s\<lparr>obj := zero_query\<rparr>)
      else do { s' \<leftarrow> send_one clock file s; send_window clock file k s' })"

definition send_ping :: "sender \<Rightarrow> sender" where
  "send_ping s =
     (if rwnd (th s) = 0 \<and> isEOF (th s) \<noteq> 1
      then (let q = (obj s)\<lparr>q_config := (q_config (obj s))\<lparr>u_type := type_code ping, u_seq := seq_num s\<rparr>\<rparr>
            in s\<lparr>obj := q, sends := sends s @ [(cliaddr (th s), q)]\<rparr>)
      else s)"

text \<open>One turn of the outer loop up to the call of \<open>receive_ack\<close>.\<close>

definition send_round :: "(nat \<Rightarrow> timeval) \<Rightarrow> string \<Rightarrow> sender \<Rightarrow> sender option" where
  "send_round clock file s =
     map_option send_ping
       (send_window clock file (nat (sint (smin (cwnd (th s)) (rwnd (th s))))) s)"

text \<open>
  How the transfer ends: the end of the file was acknowledged, the sender gave up, it waits, or a
  late alarm has jumped into the frame of a function that has returned.
\<close>

datatype transfer = Finished sender | Abandoned sender | StillWaiting sender | Wild sender

lemma on_timeout_shorter: "on_timeout prev t evs config = Returned c t' evs' \<Longrightarrow> evs' = evs"
  by (auto simp: on_timeout_def Let_def split: if_splits prod.splits)

lemma ack_loop_shorter:
  "ack_loop be clock e prev f t evs config = Returned c t' evs' \<Longrightarrow> f < 3 \<Longrightarrow> length evs' < length evs"
proof (induction evs arbitrary: prev f config)
  case Nil
  then show ?case by simp
next
  case (Cons ev evs)
  have rec: "ack_loop be clock e prev' f' t evs config' = Returned c t' evs' \<Longrightarrow> f' \<le> 3 \<Longrightarrow>
      length evs' < length (ev # evs)" for prev' f' config'
  proof (cases "f' = 3")
    case True
    assume "ack_loop be clock e prev' f' t evs config' = Returned c t' evs'"
    then have "evs' = evs"
      using True on_timeout_shorter by (cases evs) auto
    then show ?thesis by simp
  next
    case False
    assume "ack_loop be clock e prev' f' t evs config' = Returned c t' evs'" and "f' \<le> 3"
    then show ?thesis
      using Cons.IH [of prev' f' config'] False by simp
  qed
  show ?case
  proof (cases ev)
    case Alarm
    then show ?thesis
      using Cons.prems by (auto dest: on_timeout_shorter)
  next
    case LateAlarm
    then show ?thesis
      using Cons.prems by (auto dest: on_timeout_shorter)
  next
    case (Datagram src dgram)
    then show ?thesis
      using Cons.prems by (auto simp: Let_def split: prod.splits if_splits dest: rec)
  qed
qed

text \<open>
  The outer loop.  A late alarm fires while the window is sent, so of the last window of \<open>Wild\<close> any
  number of datagrams may have left.  Every call of \<open>receive_ack\<close> that returns has used up an event, so the loop
  ends on every finite list of events.
\<close>

function send_rounds :: "bool \<Rightarrow> (nat \<Rightarrow> timeval) \<Rightarrow> string \<Rightarrow> net_event list \<Rightarrow> sender \<Rightarrow> transfer option" where
  "send_rounds be clock file evs s =
     (case send_round clock file s of
        None \<Rightarrow> None
      | Some s1 \<Rightarrow>
          if late evs then Some (Wild s1)
          else if isEOF (th s1) = 1 then Some (Finished s1)
          else (case snd (receive_ack be clock (seq_num s1) (ticks s1) evs (th s1)) of
              Blocked c \<Rightarrow> Some (StillWaiting (s1\<lparr>th := c\<rparr>))
            | GaveUp c \<Rightarrow> Some (Abandoned (s1\<lparr>th := c\<rparr>))
            | Returned c t evs' \<Rightarrow> send_rounds be clock file evs' (s1\<lparr>th := c, ticks := t\<rparr>)))"
  by pat_completeness auto
termination
  by (relation "measure (\<lambda>(be, clock, file, evs, s). length evs)")
    (auto simp: receive_ack_def Let_def dest: ack_loop_shorter)

declare send_rounds.simps [simp del]

text \<open>\<open>junk\<close> is the packet object and \<open>config\<close> the structure before they are set.\<close>

definition send_file_data ::
  "bool \<Rightarrow> (nat \<Rightarrow> timeval) \<Rightarrow> server_config \<Rightarrow> (string \<Rightarrow> string option) \<Rightarrow> query_obj \<Rightarrow> net_event list \<Rightarrow>
   th_config \<Rightarrow> transfer option" where
  "send_file_data be clock serv_config files junk evs config =
     (case files (srv_file_name serv_config) of
        None \<Rightarrow> None
      | Some file \<Rightarrow>
          send_rounds be clock file evs
            \<lparr>th = config\<lparr>last_unacked_seq := -1, last_pack_seq_no := -1, ssthresh := -1,
                         rwnd := srv_rwnd serv_config, cwnd := 1\<rparr>,
             seq_num = -1, fp = file, obj = junk, ticks = 0, sends = []\<rparr>)"

section \<open>The server processes\<close>

text \<open>
  The child: it tells the client the number of its new port over the old socket, waits for one
  datagram on the new one, and sends the file to where that came from.  The fields of \<open>junk_th\<close>
  that nothing sets, \<open>isEOF\<close> and \<open>rttinfo\<close> among them, keep what the stack held.
\<close>

definition port_packet :: "nat \<Rightarrow> query_obj" where
  "port_packet port_number =
     (let text = dec_nat port_number
      in zero_query\<lparr>q_config := (q_config zero_query)\<lparr>u_type := type_code data\<rparr>,
                    q_buf := text @ NUL # drop (Suc (length text)) (q_buf zero_query)\<rparr>)"

datatype child = AwaitsClient | Transfer "transfer option"

definition udp_reliable_transfer ::
  "bool \<Rightarrow> (nat \<Rightarrow> timeval) \<Rightarrow> server_config \<Rightarrow> (string \<Rightarrow> string option) \<Rightarrow> query_obj \<Rightarrow> th_config \<Rightarrow>
   u16 \<Rightarrow> net_event list \<Rightarrow> sockaddr_in \<Rightarrow> (sockaddr_in \<times> u8 list) \<times> child" where
  "udp_reliable_transfer be clock serv_config files junk junk_th port_number evs client =
     (let (dgram, q_obj) = send_udp_data be (Some client) SIZE_SOCKADDR_IN (port_packet (unat port_number))
      in ((client, dgram),
          case evs of
            Datagram src hello # evs' \<Rightarrow>
              Transfer (send_file_data be clock serv_config files junk evs'
                (junk_th\<lparr>cliaddr := src, rwnd := -1, rttinit := 0\<rparr>))
          | _ \<Rightarrow> AwaitsClient))"

definition read_server_in :: "string \<Rightarrow> server_config" where
  "read_server_in text =
     (let (n1, r1) = fscanf_d text; (n2, r2) = fscanf_d r1
      in \<lparr>port_num = (case n1 of None \<Rightarrow> 0 | Some i \<Rightarrow> word_of_int i),
          srv_rwnd = (case n2 of None \<Rightarrow> 0 | Some i \<Rightarrow> word_of_int i), srv_file_name = []\<rparr>)"

text \<open>One socket per interface, bound to its address.\<close>

fun bind_sockets :: "cint \<Rightarrow> iAddr list \<Rightarrow> sockaddr_in list option" where
  "bind_sockets port [] = Some []"
| "bind_sockets port (a # as) = do {
     ip \<leftarrow> inet_pton (ip_addr a);
     rest \<leftarrow> bind_sockets port as;
     Some (\<lparr>sin_family = AF_INET, sin_port = ucast port, sin_addr = ip\<rparr> # rest)
   }"

text \<open>
  One request of a client: the name of the file is the text of the packet, the reply is an
  acknowledgement, and a child takes over with its own copy of the configuration.
\<close>

record request =
  req_local :: nat
  req_config :: server_config
  req_reply :: "sockaddr_in \<times> u8 list"

definition serve_request ::
  "bool \<Rightarrow> iAddr list \<Rightarrow> sockaddr_in \<Rightarrow> u8 list \<Rightarrow> server_config \<Rightarrow> (server_config \<times> request) option" where
  "serve_request be addr src dgram serv_config = do {
     let q_obj = snd (recv_udp_data be None 0 src dgram zero_query);
     let client = q_sock_addr q_obj;
     let clientIP = inet_ntop (sin_addr client);
     serv_config1 \<leftarrow> (if NUL \<in> set (q_buf q_obj) then Some (serv_config\<lparr>srv_file_name := cstr (q_buf q_obj)\<rparr>) else None);
     index \<leftarrow> check_addr_local be clientIP addr;
     row \<leftarrow> (if index \<noteq> 0 then map_option Some (aget addr (int index)) else Some None);
     let (reply, q_obj') = send_udp_data be (Some client) SIZE_SOCKADDR_IN
                             (zero_query\<lparr>q_config := (q_config zero_query)\<lparr>u_type := type_code ack\<rparr>\<rparr>);
     Some (serv_config1, \<lparr>req_local = index, req_config = serv_config1, req_reply = (client, reply)\<rparr>)
   }"

fun serve_requests ::
  "bool \<Rightarrow> iAddr list \<Rightarrow> (sockaddr_in \<times> u8 list) list \<Rightarrow> server_config \<Rightarrow> request list option" where
  "serve_requests be addr [] serv_config = Some []"
| "serve_requests be addr ((src, dgram) # rs) serv_config = do {
     (serv_config1, r) \<leftarrow> serve_request be addr src dgram serv_config;
     rest \<leftarrow> serve_requests be addr rs serv_config1;
     Some (r # rest)
   }"

text \<open>The parent: \<open>None\<close> as the first argument is the missing file \<open>server.in\<close>.\<close>

definition server_main ::
  "bool \<Rightarrow> nat \<Rightarrow> kernel \<Rightarrow> (u8 list \<Rightarrow> string) \<Rightarrow> (nat \<Rightarrow> iAddr list) \<Rightarrow> string option \<Rightarrow>
   (sockaddr_in \<times> u8 list) list \<Rightarrow> (sockaddr_in list \<times> request list) option option" where
  "server_main be fuel k ntop6 stack server_in requests =
     (case server_in of
        None \<Rightarrow> Some None
      | Some text \<Rightarrow> do {
          let serv_config = read_server_in text;
          ip_addr_count \<leftarrow> get_addr_count fuel k;
          addr \<leftarrow> fill_addr_contents fuel k ntop6 (stack ip_addr_count);
          socks \<leftarrow> bind_sockets (port_num serv_config) addr;
          rs \<leftarrow> serve_requests be addr requests serv_config;
          Some (Some (socks, rs))
        })"

section \<open>What the sender sends\<close>

definition buf_ok :: "string \<Rightarrow> bool" where
  "buf_ok buf \<longleftrightarrow> length buf = MAXLINE \<and> NUL \<in> set buf"

text \<open>
  \<open>good T B q\<close>: a packet of data whose number belongs to a word of the file carries that word; a
  packet that announces the end has a number past the last word.
\<close>

definition good :: "string list \<Rightarrow> nat \<Rightarrow> query_obj \<Rightarrow> bool" where
  "good T B q \<longleftrightarrow> length (q_buf q) = MAXLINE \<and>
     (u_type (q_config q) = type_code data \<longrightarrow> NUL \<in> set (q_buf q)) \<and>
     (u_type (q_config q) = type_code data \<or> u_type (q_config q) = type_code eof \<longrightarrow> unat (u_seq (q_config q)) \<le> Suc B) \<and>
     (u_type (q_config q) = type_code data \<longrightarrow> unat (u_seq (q_config q)) < length T \<longrightarrow>
        cstr (q_buf q) = cstr (T ! unat (u_seq (q_config q)))) \<and>
     (u_type (q_config q) = type_code eof \<longrightarrow> length T \<le> unat (u_seq (q_config q)))"

lemma buf_ok_zero: "buf_ok (q_buf zero_query)"
  by (simp add: buf_ok_def zero_query_def)

lemma scan_bufE:
  assumes "scan_buf rest buf = Some (e, buf', r)" and "buf_ok buf"
  obtains (at_eof) "tokens rest = []" and "e" and "buf' = buf" and "tokens r = []"
    | (word) w ws where "tokens rest = w # ws" and "\<not> e" and "cstr buf' = cstr w" and "tokens r = ws" and "buf_ok buf'"
proof (cases "tokens rest")
  case Nil
  then have "fscanf_s rest = (None, [])"
    by (subst fscanf_s_tokens) simp
  then show thesis
    using assms(1) Nil at_eof by (auto simp: scan_buf_def)
next
  case (Cons w ws)
  then have f: "fscanf_s rest = (Some w, snd (fscanf_s rest))"
    by (subst fscanf_s_tokens) simp
  have r: "r = snd (fscanf_s rest)" and b: "buf' = w @ NUL # drop (Suc (length w)) buf"
    and ne: "\<not> e" and l: "length w < MAXLINE"
    using assms(1) by (subst (asm) scan_buf_def, subst (asm) f, auto split: if_splits)+
  have "buf_ok buf'"
    using b l assms(2) by (simp add: buf_ok_def)
  then show thesis
    using word Cons ne r b by (auto simp: tokens_rest cstr_write)
qed

lemma skip_words_tokens:
  "skip_words n rest buf = Some (buf', r) \<Longrightarrow> buf_ok buf \<Longrightarrow> tokens r = drop n (tokens rest) \<and> buf_ok buf'"
proof (induction n arbitrary: rest buf)
  case 0
  then show ?case by simp
next
  case (Suc n)
  then obtain e b1 r1 where s: "scan_buf rest buf = Some (e, b1, r1)" and k: "skip_words n r1 b1 = Some (buf', r)"
    by (auto simp: bind_eq_Some_conv)
  show ?case
    using s Suc.prems(2)
  proof (cases rule: scan_bufE)
    case at_eof
    then show ?thesis
      using Suc.IH [OF k] Suc.prems(2) by simp
  next
    case (word w ws)
    then show ?thesis
      using Suc.IH [OF k] by simp
  qed
qed

definition sender_inv :: "string list \<Rightarrow> nat \<Rightarrow> sender \<Rightarrow> bool" where
  "sender_inv T B s \<longleftrightarrow>
     tokens (fp s) = drop (unat (seq_num s + 1)) T \<and>
     (last_pack_seq_no (th s) = -1 \<longrightarrow> seq_num s = -1 \<or> unat (seq_num s) \<le> B) \<and>
     (last_pack_seq_no (th s) \<noteq> -1 \<longrightarrow> length T \<le> unat (last_pack_seq_no (th s)) \<and>
        unat (last_pack_seq_no (th s)) \<le> Suc B \<and>
        (seq_num s = -1 \<or> unat (seq_num s) \<le> unat (last_pack_seq_no (th s)))) \<and>
     (last_unacked_seq (th s) = -1 \<or> unat (last_unacked_seq (th s)) \<le> B) \<and>
     length (q_buf (obj s)) = MAXLINE \<and>
     (\<forall>x \<in> set (sends s). good T B (snd x))"

lemma unat_next: "w \<noteq> -1 \<Longrightarrow> unat (w + 1 :: u32) = Suc (unat w)"
  by (metis add.commute unatSuc add_eq_0_iff2 add_0)

lemma unat_minus_one_small: "unat (n :: u32) \<le> k \<Longrightarrow> k < 2 ^ 31 \<Longrightarrow> n \<noteq> -1"
  by (auto simp: unsigned_minus_1_eq_mask mask_eq_exp_minus_1)

text \<open>What \<open>pick_word\<close> returns.\<close>

definition picked :: "string list \<Rightarrow> nat \<Rightarrow> query_obj \<Rightarrow> cint \<Rightarrow> string \<Rightarrow> th_config \<Rightarrow> bool" where
  "picked T B q n rest config \<longleftrightarrow> buf_ok (q_buf q) \<and> u_seq (q_config q) = n \<and> n \<noteq> -1 \<and> unat n \<le> Suc (Suc B) \<and>
     tokens rest = drop (Suc (unat n)) T \<and>
     (unat n < length T \<longrightarrow> cstr (q_buf q) = cstr (T ! unat n)) \<and>
     last_unacked_seq config = -1 \<and>
     (last_pack_seq_no config = -1 \<longrightarrow> unat n \<le> B) \<and>
     (last_pack_seq_no config \<noteq> -1 \<longrightarrow>
        length T \<le> unat (last_pack_seq_no config) \<and> unat (last_pack_seq_no config) \<le> Suc B)"

lemma retransmitted_picked:
  assumes inv: "sender_inv (tokens file) B s" and B: "Suc (Suc B) < 2 ^ 31"
    and lu: "last_unacked_seq (th s) \<noteq> -1"
    and p: "pick_word clock file s = Some (q, n, rest, config, t)"
  shows "picked (tokens file) B q n rest config"
proof -
  from p lu obtain buf r e buf' where
    k: "skip_words (unat (last_unacked_seq (th s))) file (q_buf zero_query) = Some (buf, r)"
    and sc: "scan_buf r buf = Some (e, buf', rest)"
    and q: "q = zero_query\<lparr>q_config := (q_config zero_query)\<lparr>u_seq := last_unacked_seq (th s)\<rparr>, q_buf := buf'\<rparr>"
    and n: "n = last_unacked_seq (th s)" and c: "config = (th s)\<lparr>last_unacked_seq := -1\<rparr>"
    by (auto simp: pick_word_def Let_def bind_eq_Some_conv)
  have r: "tokens r = drop (unat n) (tokens file)" and ok: "buf_ok buf"
    using skip_words_tokens [OF k buf_ok_zero] n by simp_all
  have un: "unat n \<le> B"
    using inv lu n by (simp add: sender_inv_def)
  have "buf_ok buf' \<and> tokens rest = drop (Suc (unat n)) (tokens file) \<and>
        (unat n < length (tokens file) \<longrightarrow> cstr buf' = cstr (tokens file ! unat n))"
    using sc ok
  proof (cases rule: scan_bufE)
    case at_eof
    then show ?thesis
      using r ok by simp
  next
    case (word w ws)
    then have "drop (unat n) (tokens file) = w # ws"
      using r by simp
    then have "w = tokens file ! unat n" and "ws = drop (Suc (unat n)) (tokens file)"
      by (metis nth_via_drop, metis drop_Suc tl_drop list.sel(3))
    then show ?thesis
      using word by simp
  qed
  then show ?thesis
    using inv un n q c lu by (auto simp: picked_def sender_inv_def)
qed

lemma new_picked:
  assumes inv: "sender_inv (tokens file) B s" and B: "Suc (Suc B) < 2 ^ 31" "length (tokens file) \<le> B"
    and lu: "last_unacked_seq (th s) = -1"
    and p: "pick_word clock file s = Some (q, n, rest, config, t)"
  shows "picked (tokens file) B q n rest config"
proof -
  from p lu obtain e buf' where
    sc: "scan_buf (fp s) (q_buf zero_query) = Some (e, buf', rest)"
    and q: "q_buf q = buf'" "u_seq (q_config q) = n"
    and n: "n = seq_num s + 1"
    and c: "config = (if e \<and> last_pack_seq_no (th s) = -1 then (th s)\<lparr>last_pack_seq_no := n\<rparr> else th s)"
    by (auto simp: pick_word_def Let_def bind_eq_Some_conv)
  have fp: "tokens (fp s) = drop (unat n) (tokens file)"
    using inv n by (simp add: sender_inv_def)
  have un: "seq_num s = -1 \<and> n = 0 \<or> seq_num s \<noteq> -1 \<and> unat n = Suc (unat (seq_num s))"
    using n unat_next by (cases "seq_num s = -1") auto
  have small: "unat n \<le> Suc B" if "last_pack_seq_no (th s) = -1"
    using inv un that unfolding sender_inv_def by (elim conjE disjE) simp_all
  have "unat n \<le> Suc (unat (last_pack_seq_no (th s)))" and "unat (last_pack_seq_no (th s)) \<le> Suc B"
    if "last_pack_seq_no (th s) \<noteq> -1"
    using inv un that unfolding sender_inv_def by auto
  then have small': "unat n \<le> Suc (Suc B)"
    using small by (cases "last_pack_seq_no (th s) = -1") (auto intro: le_trans)
  have neg: "n \<noteq> -1"
    using unat_minus_one_small [OF small'] B(1) by simp
  have "buf_ok buf' \<and> tokens rest = drop (Suc (unat n)) (tokens file) \<and>
        (unat n < length (tokens file) \<longrightarrow> cstr buf' = cstr (tokens file ! unat n)) \<and>
        (e \<longleftrightarrow> length (tokens file) \<le> unat n)"
    using sc buf_ok_zero
  proof (cases rule: scan_bufE)
    case at_eof
    then show ?thesis
      using fp buf_ok_zero by simp
  next
    case (word w ws)
    then have d: "drop (unat n) (tokens file) = w # ws"
      using fp by simp
    then have "unat n < length (tokens file)"
      by (metis drop_eq_Nil linorder_not_le list.distinct(1))
    moreover have "w = tokens file ! unat n" and "ws = drop (Suc (unat n)) (tokens file)"
      using d by (metis nth_via_drop, metis drop_Suc tl_drop list.sel(3))
    ultimately show ?thesis
      using word by simp
  qed
  then show ?thesis
    using inv small small' neg q c lu B(2) by (auto simp: picked_def sender_inv_def)
qed

lemma sint_le_small:
  fixes a b :: cint
  assumes "unat a < 2 ^ 31" and "unat b < 2 ^ 31"
  shows "sint a \<le> sint b \<longleftrightarrow> unat a \<le> unat b"
  by (simp only: sint_small [OF assms(1)] sint_small [OF assms(2)] of_nat_le_iff)

lemma send_one_inv:
  assumes inv: "sender_inv (tokens file) B s" and B: "Suc (Suc B) < 2 ^ 31" "length (tokens file) \<le> B"
    and st: "send_one clock file s = Some s'"
  shows "sender_inv (tokens file) B s'" and "isEOF (th s') = isEOF (th s)"
proof -
  let ?T = "tokens file"
  from st obtain q1 seq1 fp1 c1 t1 where p: "pick_word clock file s = Some (q1, seq1, fp1, c1, t1)"
    by (auto simp: send_one_def bind_eq_Some_conv)
  have pk: "picked ?T B q1 seq1 fp1 c1"
    using new_picked [OF inv B _ p] retransmitted_picked [OF inv B(1) _ p]
    by (cases "last_unacked_seq (th s) = -1") auto
  let ?lp = "last_pack_seq_no c1"
  define is_eof where "is_eof \<longleftrightarrow> sint seq1 \<ge> sint ?lp \<and> ?lp \<noteq> -1"
  have s': "seq_num s' = (if is_eof then ?lp else seq1)" "fp s' = fp1"
    "last_pack_seq_no (th s') = ?lp" "last_unacked_seq (th s') = last_unacked_seq c1"
    "isEOF (th s') = isEOF c1"
    "obj s' = q1\<lparr>q_config := (q_config q1)\<lparr>u_type := (if is_eof then type_code eof else type_code data),
               u_seq := (if is_eof then ?lp else u_seq (q_config q1))\<rparr>\<rparr>"
    "\<exists>a. sends s' = sends s @ [(a, obj s')]"
    using st p by (auto simp: send_one_def is_eof_def Let_def split: if_splits)
  show "isEOF (th s') = isEOF (th s)"
    using p s'(5) by (auto simp: pick_word_def Let_def bind_eq_Some_conv split: if_splits)
  have n31: "unat seq1 < 2 ^ 31"
    using pk B(1) by (simp add: picked_def)
  have eof_iff: "is_eof \<longleftrightarrow> unat ?lp \<le> unat seq1" if "?lp \<noteq> -1"
  proof -
    have "unat ?lp < 2 ^ 31"
      using pk B(1) that by (simp add: picked_def)
    then show ?thesis
      using sint_le_small [of ?lp seq1] n31 that by (simp add: is_eof_def)
  qed
  have no_eof: "\<not> is_eof" if "?lp = -1"
    using that by (simp add: is_eof_def)
  have seq: "tokens (fp s') = drop (unat (seq_num s' + 1)) ?T"
  proof (cases is_eof)
    case True
    then have lp: "?lp \<noteq> -1" "unat ?lp \<le> unat seq1"
      using no_eof eof_iff by auto
    have "length ?T \<le> unat ?lp"
      using pk lp by (simp add: picked_def)
    then show ?thesis
      using pk lp True s'(1,2) unat_next [OF lp(1)] by (simp add: picked_def)
  next
    case False
    then show ?thesis
      using pk s'(1,2) unat_next [of seq1] by (simp add: picked_def)
  qed
  have bounds: "(?lp = -1 \<longrightarrow> seq_num s' = -1 \<or> unat (seq_num s') \<le> B) \<and>
      (?lp \<noteq> -1 \<longrightarrow> length ?T \<le> unat ?lp \<and> unat ?lp \<le> Suc B \<and> (seq_num s' = -1 \<or> unat (seq_num s') \<le> unat ?lp))"
    using pk s'(1) eof_iff no_eof by (auto simp: picked_def)
  have "good ?T B (obj s')"
  proof (cases is_eof)
    case True
    then show ?thesis
      using pk s'(6) no_eof by (auto simp: good_def picked_def buf_ok_def)
  next
    case False
    have "unat seq1 \<le> Suc B"
      using pk False eof_iff by (cases "?lp = -1") (auto simp: picked_def)
    then show ?thesis
      using pk s'(6) False by (auto simp: good_def picked_def buf_ok_def)
  qed
  moreover have "length (q_buf (obj s')) = MAXLINE"
    using pk s'(6) by (simp add: picked_def buf_ok_def)
  moreover have "last_unacked_seq (th s') = -1"
    using pk s'(4) by (simp add: picked_def)
  moreover have "\<forall>x \<in> set (sends s). good ?T B (snd x)"
    using inv by (simp add: sender_inv_def)
  ultimately show "sender_inv ?T B s'"
    using s'(3,7) seq bounds by (auto simp: sender_inv_def)
qed

lemma send_window_inv:
  assumes "sender_inv (tokens file) B s" and "Suc (Suc B) < 2 ^ 31" "length (tokens file) \<le> B"
    and "send_window clock file k s = Some s'"
  shows "sender_inv (tokens file) B s' \<and> isEOF (th s') = isEOF (th s)"
  using assms(1,4)
proof (induction k arbitrary: s)
  case 0
  then show ?case by simp
next
  case (Suc k)
  show ?case
  proof (cases "isEOF (th s) = 1")
    case True
    then show ?thesis
      using Suc.prems by (auto simp: sender_inv_def zero_query_def)
  next
    case False
    then obtain u where "send_one clock file s = Some u" "send_window clock file k u = Some s'"
      using Suc.prems(2) by (auto simp: bind_eq_Some_conv)
    then show ?thesis
      using Suc.IH [of u] send_one_inv [OF Suc.prems(1) assms(2,3)] by simp
  qed
qed

lemma send_round_inv:
  assumes "sender_inv (tokens file) B s" and "Suc (Suc B) < 2 ^ 31" "length (tokens file) \<le> B"
    and "send_round clock file s = Some s'"
  shows "sender_inv (tokens file) B s' \<and> isEOF (th s') = isEOF (th s)"
proof -
  from assms(4) obtain u where u: "s' = send_ping u"
    "send_window clock file (nat (sint (smin (cwnd (th s)) (rwnd (th s))))) s = Some u"
    by (auto simp: send_round_def)
  have "sender_inv (tokens file) B u \<and> isEOF (th u) = isEOF (th s)"
    by (rule send_window_inv [OF assms(1-3) u(2)])
  then show ?thesis
    using u(1) by (auto simp: send_ping_def sender_inv_def good_def Let_def)
qed

section \<open>What an acknowledgement can change\<close>

definition ack_seq :: "bool \<Rightarrow> u8 list \<Rightarrow> u32" where
  "ack_seq be dgram = u_seq (q_config (received be zero_sockaddr dgram))"

lemma received_src: "q_config (received be src dgram) = q_config (received be src' dgram)"
  by (simp add: received_def recv_udp_data_def recvmsg_def Let_def init_query_obj_def split: prod.splits)

lemma recv_ack_seq: "u_seq (q_config (snd (recv_udp_data be (Some a) sl src dgram zero_query))) = ack_seq be dgram"
  unfolding received_given ack_seq_def by (simp only: received_src [of be src dgram zero_sockaddr])

text \<open>
  \<open>acks be H\<close> are the numbers acknowledged by the datagrams in \<open>H\<close>; \<open>ack_change\<close> is what
  waiting for them may change in the configuration.
\<close>

definition acks :: "bool \<Rightarrow> net_event set \<Rightarrow> u32 set" where
  "acks be H = {ack_seq be d |src d. Datagram src d \<in> H}"

definition ack_change :: "u32 set \<Rightarrow> th_config \<Rightarrow> th_config \<Rightarrow> bool" where
  "ack_change A config c \<longleftrightarrow> last_pack_seq_no c = last_pack_seq_no config \<and>
     (last_unacked_seq c = -1 \<or> last_unacked_seq c = last_unacked_seq config \<or> last_unacked_seq c \<in> A) \<and>
     (isEOF c = 1 \<longrightarrow> isEOF config = 1 \<or> last_pack_seq_no config \<noteq> -1 \<and> (\<exists>a \<in> A. last_pack_seq_no config < a))"

lemma on_timeout_change:
  assumes "on_timeout prev t evs config = Returned c t' evs'"
    and "prev = -1 \<or> prev \<in> A" and "\<forall>a \<in> A. unat a < 2 ^ 31"
    and "last_pack_seq_no config = -1 \<or> unat (last_pack_seq_no config) < 2 ^ 31"
  shows "ack_change A config c"
proof (cases "sint prev > sint (last_pack_seq_no config) \<and> last_pack_seq_no config \<noteq> -1")
  case True
  then have lp: "unat (last_pack_seq_no config) < 2 ^ 31"
    using assms(4) by simp
  then have s: "sint (last_pack_seq_no config) = int (unat (last_pack_seq_no config))"
    by (rule sint_small)
  have "0 \<le> sint (last_pack_seq_no config)"
    unfolding s by simp
  then have "prev \<noteq> -1"
    using True by auto
  then have p: "prev \<in> A" "unat prev < 2 ^ 31"
    using assms(2,3) by auto
  have "unat (last_pack_seq_no config) < unat prev"
    using True unfolding s sint_small [OF p(2)] by (simp only: of_nat_less_iff)
  then have "last_pack_seq_no config < prev"
    by (simp add: word_less_nat_alt)
  then show ?thesis
    using assms(1) True p(1) by (auto simp: on_timeout_def ack_change_def)
next
  case False
  then show ?thesis
    using assms(1,2) by (auto simp: on_timeout_def ack_change_def Let_def split: if_splits prod.splits)
qed

lemma ack_loop_change:
  assumes "\<forall>a \<in> acks be H. unat a < 2 ^ 31"
    and "ack_loop be clock e prev f t evs config = Returned c t' evs'"
    and "set evs \<subseteq> H" and "prev = -1 \<or> prev \<in> acks be H"
    and "last_pack_seq_no config = -1 \<or> unat (last_pack_seq_no config) < 2 ^ 31"
  shows "ack_change (acks be H) config c \<and> set evs' \<subseteq> H"
  using assms(2-5)
proof (induction evs arbitrary: prev f config)
  case Nil
  then have "on_timeout prev t [] config = Returned c t' evs'"
    by (simp split: if_splits)
  then show ?case
    using on_timeout_change [OF _ Nil.prems(3) assms(1) Nil.prems(4)] on_timeout_shorter by fastforce
next
  case (Cons ev evs)
  show ?case
  proof (cases "f = 3 \<or> ev = Alarm \<or> ev = LateAlarm")
    case True
    then have "on_timeout prev t (ev # evs) config = Returned c t' evs' \<or> on_timeout prev t evs config = Returned c t' evs'"
      using Cons.prems(1) by (auto split: if_splits)
    then show ?thesis
      using on_timeout_change [OF _ Cons.prems(3) assms(1) Cons.prems(4)] on_timeout_shorter Cons.prems(2)
      by (metis insert_subset list.set(2))
  next
    case False
    then obtain src d where ev: "ev = Datagram src d" and f: "f \<noteq> 3"
      by (cases ev) auto
    have a: "ack_seq be d \<in> acks be H"
      using Cons.prems(2) ev by (auto simp: acks_def)
    obtain n q where nq: "recv_udp_data be (Some (cliaddr config)) SIZE_SOCKADDR_IN src d zero_query = (n, q)"
      by (cases "recv_udp_data be (Some (cliaddr config)) SIZE_SOCKADDR_IN src d zero_query")
    have q: "u_seq (q_config q) = ack_seq be d"
      using recv_ack_seq [of be "cliaddr config" SIZE_SOCKADDR_IN src d] nq by simp
    have sub: "set evs \<subseteq> H"
      using Cons.prems(2) by simp
    have rec: "ack_change (acks be H) config' c \<and> set evs' \<subseteq> H"
      if "ack_loop be clock e prev' f' t evs config' = Returned c t' evs'" "prev' = -1 \<or> prev' \<in> acks be H"
        "last_pack_seq_no config' = last_pack_seq_no config" for prev' f' config'
      using Cons.IH [OF that(1) sub that(2)] that(3) Cons.prems(4) by simp
    have le: "ack_change (acks be H) config' c \<Longrightarrow> last_pack_seq_no config' = last_pack_seq_no config \<Longrightarrow>
        last_unacked_seq config' = last_unacked_seq config \<Longrightarrow> isEOF config' = isEOF config \<Longrightarrow>
        ack_change (acks be H) config c" for config'
      by (simp add: ack_change_def)
    show ?thesis
    proof (cases "ack_seq be d > last_pack_seq_no config \<and> last_pack_seq_no config \<noteq> -1")
      case True
      then show ?thesis
        using Cons.prems(1) f ev nq q a sub by (auto simp: Let_def ack_change_def)
    next
      case False
      show ?thesis
      proof (cases "n < SIZE_UDP_DATA \<or> ack_seq be d \<noteq> e")
        case True
        have "\<exists>prev' f' config'. ack_loop be clock e prev' f' t evs config' = Returned c t' evs' \<and>
            (prev' = -1 \<or> prev' \<in> acks be H) \<and> last_pack_seq_no config' = last_pack_seq_no config \<and>
            last_unacked_seq config' = last_unacked_seq config \<and> isEOF config' = isEOF config"
          using Cons.prems(1) f ev nq q False True a
          by (cases "prev = ack_seq be d") (force simp: Let_def)+
        then show ?thesis
          using rec le by metis
      next
        case more: False
        then show ?thesis
          using Cons.prems(1) f ev nq q False sub
          by (cases "prev = ack_seq be d") (auto simp: Let_def ack_change_def)
      qed
    qed
  qed
qed

section \<open>A whole transfer\<close>

fun transfer_state :: "transfer \<Rightarrow> sender" where
  "transfer_state (Finished s) = s"
| "transfer_state (Abandoned s) = s"
| "transfer_state (StillWaiting s) = s"
| "transfer_state (Wild s) = s"

text \<open>Waiting keeps the invariant, and the flag goes up only when the end was acknowledged.\<close>

lemma after_ack_inv:
  assumes inv: "sender_inv T B s" and c: "ack_change A (th s) c" and A: "\<forall>a \<in> A. unat a \<le> B"
  shows "sender_inv T B (s\<lparr>th := c, ticks := t\<rparr>)"
  using assms unfolding sender_inv_def ack_change_def by auto

lemma send_rounds_inv:
  assumes "\<forall>a \<in> acks be H. unat a \<le> B" and B: "Suc (Suc B) < 2 ^ 31" "length (tokens file) \<le> B"
    and "sender_inv (tokens file) B s" and "set evs \<subseteq> H" and "send_rounds be clock file evs s = Some r"
  shows "(\<forall>x \<in> set (sends (transfer_state r)). good (tokens file) B (snd x)) \<and>
         (\<forall>s'. r = Finished s' \<longrightarrow> isEOF (th s) = 1 \<or> (\<exists>a \<in> acks be H. length (tokens file) < unat a))"
  using assms(4-6)
proof (induction "length evs" arbitrary: evs s rule: less_induct)
  case less
  obtain s1 where s1: "send_round clock file s = Some s1"
    using less.prems(3) by (subst (asm) send_rounds.simps) (auto split: option.splits)
  have inv1: "sender_inv (tokens file) B s1" and eof1: "isEOF (th s1) = isEOF (th s)"
    using send_round_inv [OF less.prems(1) B s1] by simp_all
  have good1: "\<forall>x \<in> set (sends s1). good (tokens file) B (snd x)"
    using inv1 by (simp add: sender_inv_def)
  consider "late evs" | "\<not> late evs" "isEOF (th s1) = 1" | "\<not> late evs" "isEOF (th s1) \<noteq> 1"
    by blast
  then show ?case
  proof cases
    case 1
    then have "r = Wild s1"
      using less.prems(3) s1 by (subst (asm) send_rounds.simps) simp
    then show ?thesis
      using good1 by simp
  next
    case 2
    then have "r = Finished s1"
      using less.prems(3) s1 by (subst (asm) send_rounds.simps) simp
    then show ?thesis
      using good1 2 eof1 by simp
  next
    case False: 3
    let ?o = "snd (receive_ack be clock (seq_num s1) (ticks s1) evs (th s1))"
    have r: "(case ?o of Blocked c \<Rightarrow> Some (StillWaiting (s1\<lparr>th := c\<rparr>))
            | GaveUp c \<Rightarrow> Some (Abandoned (s1\<lparr>th := c\<rparr>))
            | Returned c t evs' \<Rightarrow> send_rounds be clock file evs' (s1\<lparr>th := c, ticks := t\<rparr>)) = Some r"
      using less.prems(3) s1 False by (subst (asm) send_rounds.simps) simp
    show ?thesis
    proof (cases ?o)
      case (Returned c t evs')
      then have al: "ack_loop be clock (seq_num s1 + 1) (-1) 0 (ticks s1) evs (th s1) = Returned c t evs'"
        by (simp add: receive_ack_def Let_def)
      have "last_pack_seq_no (th s1) = -1 \<or> unat (last_pack_seq_no (th s1)) < 2 ^ 31"
        using inv1 B(1) by (auto simp: sender_inv_def)
      then have ch: "ack_change (acks be H) (th s1) c" and sub: "set evs' \<subseteq> H"
        using ack_loop_change [OF _ al less.prems(2)] assms(1) B(1) by force+
      let ?s2 = "s1\<lparr>th := c, ticks := t\<rparr>"
      have ih: "(\<forall>x \<in> set (sends (transfer_state r)). good (tokens file) B (snd x)) \<and>
         (\<forall>s'. r = Finished s' \<longrightarrow> isEOF (th ?s2) = 1 \<or> (\<exists>a \<in> acks be H. length (tokens file) < unat a))"
        using less.hyps [of evs' ?s2] ack_loop_shorter [OF al] after_ack_inv [OF inv1 ch assms(1)] sub r Returned
        by simp
      moreover have "\<exists>a \<in> acks be H. length (tokens file) < unat a" if eof: "isEOF c = 1"
      proof -
        obtain a where a: "a \<in> acks be H" "last_pack_seq_no (th s1) < a" "last_pack_seq_no (th s1) \<noteq> -1"
          using ch eof False(2) by (auto simp: ack_change_def)
        moreover have "length (tokens file) \<le> unat (last_pack_seq_no (th s1))"
          using inv1 a(3) by (simp add: sender_inv_def)
        ultimately show ?thesis
          by (intro bexI [of _ a]) (simp_all add: word_less_nat_alt)
      qed
      ultimately show ?thesis
        by auto
    qed (use r good1 in auto)
  qed
qed

lemma start_inv:
  assumes "length (q_buf junk) = MAXLINE"
  shows "sender_inv (tokens file) B
    \<lparr>th = config\<lparr>last_unacked_seq := -1, last_pack_seq_no := -1, ssthresh := -1, rwnd := w, cwnd := 1\<rparr>,
     seq_num = -1, fp = file, obj = junk, ticks = 0, sends = []\<rparr>"
  using assms by (simp add: sender_inv_def)

lemma send_file_data_sends:
  assumes "files (srv_file_name cfg) = Some file" and "length (q_buf junk) = MAXLINE"
    and "Suc (Suc B) < 2 ^ 31" and "length (tokens file) \<le> B" and "\<forall>a \<in> acks be (set evs). unat a \<le> B"
    and "send_file_data be clock cfg files junk evs config = Some r"
  shows "\<forall>x \<in> set (sends (transfer_state r)). good (tokens file) B (snd x)"
    and "r = Finished s' \<Longrightarrow> isEOF config = 1 \<or> (\<exists>a \<in> acks be (set evs). length (tokens file) < unat a)"
  using send_rounds_inv [OF assms(5,3,4) start_inv [OF assms(2), of _ _ "srv_rwnd cfg" config] subset_refl, of clock r]
    assms(1,6)
  by (auto simp: send_file_data_def)

lemma scan_buf_defined:
  assumes "\<forall>w \<in> set (tokens rest). length w < MAXLINE"
  shows "\<exists>e buf' r. scan_buf rest buf = Some (e, buf', r) \<and> set (tokens r) \<subseteq> set (tokens rest)"
proof (cases "tokens rest")
  case Nil
  then have "fscanf_s rest = (None, [])"
    by (subst fscanf_s_tokens) simp
  then show ?thesis
    by (intro exI [of _ True]) (simp add: scan_buf_def)
next
  case (Cons w ws)
  then have f: "fscanf_s rest = (Some w, snd (fscanf_s rest))"
    by (subst fscanf_s_tokens) simp
  have "scan_buf rest buf = Some (False, w @ NUL # drop (Suc (length w)) buf, snd (fscanf_s rest))"
    by (subst scan_buf_def, subst f) (use assms Cons in simp)
  then show ?thesis
    using Cons tokens_rest [of rest] by auto
qed

lemma skip_words_defined:
  assumes "\<forall>w \<in> set (tokens rest). length w < MAXLINE"
  shows "\<exists>buf' r. skip_words n rest buf = Some (buf', r) \<and> set (tokens r) \<subseteq> set (tokens rest)"
  using assms
proof (induction n arbitrary: rest buf)
  case 0
  then show ?case by simp
next
  case (Suc n)
  obtain e b r where s: "scan_buf rest buf = Some (e, b, r)" "set (tokens r) \<subseteq> set (tokens rest)"
    using scan_buf_defined [OF Suc.prems] by blast
  have "\<forall>w \<in> set (tokens r). length w < MAXLINE"
    using s(2) Suc.prems by blast
  from Suc.IH [OF this, of b] show ?case
    using s by auto
qed

definition words_fit :: "string \<Rightarrow> sender \<Rightarrow> bool" where
  "words_fit text s \<longleftrightarrow> (\<forall>w \<in> set (tokens text) \<union> set (tokens (fp s)). length w < MAXLINE)"

lemma send_one_defined:
  assumes "words_fit text s"
  shows "\<exists>s'. send_one clock text s = Some s' \<and> words_fit text s'"
proof -
  have "\<exists>q n rest c t. pick_word clock text s = Some (q, n, rest, c, t) \<and>
          (\<forall>w \<in> set (tokens text) \<union> set (tokens rest). length w < MAXLINE)"
  proof (cases "last_unacked_seq (th s) = -1")
    case True
    obtain e b r where "scan_buf (fp s) (q_buf zero_query) = Some (e, b, r)" "set (tokens r) \<subseteq> set (tokens (fp s))"
      using scan_buf_defined [of "fp s" "q_buf zero_query"] assms by (auto simp: words_fit_def)
    then show ?thesis
      using True assms by (auto simp: pick_word_def Let_def words_fit_def)
  next
    case False
    obtain b r where k: "skip_words (unat (last_unacked_seq (th s))) text (q_buf zero_query) = Some (b, r)"
      "set (tokens r) \<subseteq> set (tokens text)"
      using skip_words_defined [of "text" "unat (last_unacked_seq (th s))" "q_buf zero_query"] assms
      by (auto simp: words_fit_def)
    obtain e b' r' where "scan_buf r b = Some (e, b', r')" "set (tokens r') \<subseteq> set (tokens r)"
      using scan_buf_defined [of r b] k(2) assms by (auto simp: words_fit_def subset_iff)
    then show ?thesis
      using False k assms by (auto simp: pick_word_def Let_def words_fit_def subset_iff)
  qed
  then show ?thesis
    by (auto simp: send_one_def words_fit_def Let_def)
qed

lemma send_window_defined:
  "words_fit text s \<Longrightarrow> \<exists>s'. send_window clock text k s = Some s' \<and> words_fit text s'"
proof (induction k arbitrary: s)
  case 0
  then show ?case by simp
next
  case (Suc k)
  obtain u where "send_one clock text s = Some u" "words_fit text u"
    using send_one_defined [OF Suc.prems] by blast
  then show ?case
    using Suc.IH [of u] Suc.prems by (auto simp: words_fit_def)
qed

lemma send_ping_fp [simp]: "fp (send_ping s) = fp s"
  by (simp add: send_ping_def Let_def)

lemma send_round_defined:
  "words_fit text s \<Longrightarrow> \<exists>s'. send_round clock text s = Some s' \<and> words_fit text s'"
  using send_window_defined [of "text" s clock "nat (sint (smin (cwnd (th s)) (rwnd (th s))))"]
  by (auto simp: send_round_def words_fit_def)

lemma send_rounds_defined: "words_fit text s \<Longrightarrow> \<exists>r. send_rounds be clock text evs s = Some r"
proof (induction "length evs" arbitrary: evs s rule: less_induct)
  case less
  obtain s1 where s1: "send_round clock text s = Some s1" "words_fit text s1"
    using send_round_defined [OF less.prems] by blast
  have fit: "words_fit text (s1\<lparr>th := c, ticks := t\<rparr>)" for c t
    using s1(2) by (simp add: words_fit_def)
  have "\<exists>r. send_rounds be clock text evs' (s1\<lparr>th := c, ticks := t\<rparr>) = Some r"
    if "snd (receive_ack be clock (seq_num s1) (ticks s1) evs (th s1)) = Returned c t evs'" for c t evs'
    using less.hyps [OF _ fit] that ack_loop_shorter by (auto simp: receive_ack_def Let_def)
  then show ?case
    by (subst send_rounds.simps) (auto simp: s1 split: ack_outcome.splits)
qed

section \<open>Timeouts and fast retransmission\<close>

lemma ack_loop_Datagram:
  assumes "f \<noteq> 3"
  shows "ack_loop be clock e prev f t (Datagram src d # evs) config =
    (let n = fst (recv_udp_data be (Some (cliaddr config)) SIZE_SOCKADDR_IN src d zero_query);
         c = q_config (received be src d);
         config1 = config\<lparr>cliaddr := src,
           cwnd := (if ssthresh config \<noteq> -1 \<and> sint (cwnd config) \<ge> sint (ssthresh config)
                    then cwnd config + 1 else cwnd config * 2)\<rparr>;
         stop = (\<lambda>cfg. Returned (cfg\<lparr>rttinfo := rtt_stop (rtt_ts (clock t) (rttinfo cfg) - u_ts c) (rttinfo cfg),
                            last_unacked_seq := -1\<rparr>) (t + 1) evs)
     in if u_seq c > last_pack_seq_no config1 \<and> last_pack_seq_no config1 \<noteq> -1
        then stop (config1\<lparr>isEOF := 1\<rparr>)
        else
          (let config2 = config1\<lparr>rwnd := u_rwnd c\<rparr>;
               prev' = u_seq c;
               fast' = (if prev = u_seq c then f + 1 else 0)
           in if n < SIZE_UDP_DATA \<or> u_seq c \<noteq> e
              then ack_loop be clock e prev' fast' t evs config2
              else stop config2))"
proof -
  have pair_if: "(if p = x then (p, a) else (x, b)) = (x, if p = x then a else b)" for p x :: u32 and a b :: nat
    by simp
  have "(f = 3) = False"
    using assms by simp
  then show ?thesis
    by (simp only: ack_loop.simps net_event.case Let_def case_prod_beta received_given pair_if fst_conv snd_conv if_False)
qed

lemma ack_loop_third: "ack_loop be clock e prev 3 t evs config = on_timeout prev t evs config"
  by (cases evs) simp_all

lemma ack_loop_Alarm: "f \<noteq> 3 \<Longrightarrow> ack_loop be clock e prev f t (Alarm # evs) config = on_timeout prev t evs config"
  by simp

declare ack_loop.simps(2) [simp del]

lemma ack_seq_received: "u_seq (q_config (received be src d)) = ack_seq be d"
  by (simp add: ack_seq_def received_src [of be src d zero_sockaddr])

text \<open>A datagram that neither ends the transfer nor carries the number waited for.\<close>

definition grown :: "bool \<Rightarrow> sockaddr_in \<Rightarrow> u8 list \<Rightarrow> th_config \<Rightarrow> th_config" where
  "grown be src d config = config\<lparr>cliaddr := src,
     cwnd := (if ssthresh config \<noteq> -1 \<and> sint (cwnd config) \<ge> sint (ssthresh config)
              then cwnd config + 1 else cwnd config * 2),
     rwnd := u_rwnd (q_config (received be src d))\<rparr>"

lemma ack_loop_other:
  assumes "f \<noteq> 3" and "ack_seq be d \<noteq> e" and "last_pack_seq_no config = -1 \<or> ack_seq be d \<le> last_pack_seq_no config"
  shows "ack_loop be clock e prev f t (Datagram src d # evs) config =
     ack_loop be clock e (ack_seq be d) (if prev = ack_seq be d then f + 1 else 0) t evs (grown be src d config)"
  using assms by (auto simp: ack_loop_Datagram Let_def ack_seq_received grown_def)

lemma grown_same [simp]:
  "last_pack_seq_no (grown be src d config) = last_pack_seq_no config"
  "rttinfo (grown be src d config) = rttinfo config"
  by (simp_all add: grown_def)

section \<open>Concrete transfers\<close>

definition demo_clock :: "nat \<Rightarrow> timeval" where
  "demo_clock n = \<lparr>tv_sec = 0, tv_usec = 0\<rparr>"

definition demo_th :: th_config where
  "demo_th = \<lparr>cliaddr = zero_sockaddr, rwnd = -1, last_unacked_seq = 0,
     rttinfo = \<lparr>rtt_rtt = 0, rtt_srtt = 0, rtt_rttvar = 0, rtt_rto = 0, rtt_nrexmt = 0, rtt_base = 0\<rparr>,
     rttinit = 0, cwnd = 0, isEOF = 0, last_pack_seq_no = 0, ssthresh = 0\<rparr>"

definition demo_srv :: server_config where
  "demo_srv = \<lparr>port_num = 5000, srv_rwnd = 3, srv_file_name = ''f''\<rparr>"

definition demo_files :: "string \<Rightarrow> string option" where
  "demo_files name = (if name = ''f'' then Some ''a b c d e f'' else if name = ''empty'' then Some [] else None)"

definition ack_event :: "u32 \<Rightarrow> u32 \<Rightarrow> net_event" where
  "ack_event n w = Datagram zero_sockaddr (dgram_of False (packet n w ack []))"

lemma ack_event_not_late [simp]: "ack_event n w \<noteq> LateAlarm"
  by (simp add: ack_event_def)

text \<open>Number, type and text of each packet sent.\<close>

definition summary :: "sender \<Rightarrow> (u32 \<times> u32 \<times> string) list" where
  "summary s = map (\<lambda>(a, q). (u_seq (q_config q), u_type (q_config q), cstr (q_buf q))) (sends s)"

lemma ack_event_seq: "ack_seq False (dgram_of False (packet n w ack [])) = n"
  by (simp add: ack_seq_def received_packet)

lemma rtt_timeout_first: "rtt_nrexmt p = 0 \<Longrightarrow> rtt_timeout p = (0, snd (rtt_timeout p))"
  by (simp add: rtt_timeout_def Let_def)

lemma rtt_newpack_nrexmt [simp]: "rtt_nrexmt (rtt_newpack p) = 0"
  by (simp add: rtt_newpack_def)

lemma ack_event_loop:
  assumes "f \<noteq> 3"
  shows "ack_loop False clock e prev f t (ack_event n w # evs) config =
    (let config1 = config\<lparr>cliaddr := zero_sockaddr,
           cwnd := (if ssthresh config \<noteq> -1 \<and> sint (cwnd config) \<ge> sint (ssthresh config)
                    then cwnd config + 1 else cwnd config * 2)\<rparr>;
         stop = (\<lambda>cfg. Returned (cfg\<lparr>rttinfo := rtt_stop (rtt_ts (clock t) (rttinfo cfg)) (rttinfo cfg),
                            last_unacked_seq := -1\<rparr>) (t + 1) evs)
     in if n > last_pack_seq_no config1 \<and> last_pack_seq_no config1 \<noteq> -1 then stop (config1\<lparr>isEOF := 1\<rparr>)
        else if n \<noteq> e then ack_loop False clock e n (if prev = n then f + 1 else 0) t evs (config1\<lparr>rwnd := w\<rparr>)
        else stop (config1\<lparr>rwnd := w\<rparr>))"
proof -
  have "length (q_buf (packet n w ack [])) = MAXLINE"
    by (rule packet_length) simp
  from recv_length [OF this] show ?thesis
    unfolding ack_event_def ack_loop_Datagram [OF assms] by (simp add: received_packet Let_def)
qed

lemma send_window_numeral:
  "send_window clock file (numeral k) s =
     (if isEOF (th s) = 1 then Some (s\<lparr>obj := zero_query\<rparr>)
      else do { s' \<leftarrow> send_one clock file s; send_window clock file (pred_numeral k) s' })"
  "send_window clock file 1 s =
     (if isEOF (th s) = 1 then Some (s\<lparr>obj := zero_query\<rparr>) else send_one clock file s)"
  by (simp add: numeral_eq_Suc, cases "send_one clock file s") simp_all

lemma skip_words_numeral:
  "skip_words (numeral k) rest buf = do { (e, buf', r) \<leftarrow> scan_buf rest buf; skip_words (pred_numeral k) r buf' }"
  by (simp add: numeral_eq_Suc)

lemmas sender_eval = send_round_def smin_def send_one_def pick_word_def scan_buf_def fscanf_s_def is_space_def
  Let_def send_ping_def receive_ack_def ack_event_loop ack_loop_Alarm on_timeout_def rtt_timeout_first
  send_window_numeral skip_words_numeral cint_div_def

lemma demo_first:
  "\<exists>s. send_file_data False demo_clock demo_srv demo_files zero_query [] demo_th = Some (StillWaiting s) \<and>
       summary s = [(0, type_code data, ''a'')]"
proof -
  have "\<exists>s. send_file_data False demo_clock demo_srv demo_files zero_query [] demo_th = Some (StillWaiting s) \<and>
       map (\<lambda>(a, q). (u_seq (q_config q), u_type (q_config q), cstr (q_buf q))) (sends s) = [(0, type_code data, ''a'')]"
    by (simp add: send_file_data_def demo_files_def demo_srv_def, subst send_rounds.simps)
      (simp add: demo_th_def sender_eval cstr_def)
  then show ?thesis
    by (simp add: summary_def)
qed

text \<open>
  A view of the sender for runs that have not met the end of the file: last number, words left,
  packet to retransmit, windows, threshold, and the packets sent.
\<close>

definition sees :: "sender \<Rightarrow> cint \<Rightarrow> string list \<Rightarrow> cint \<Rightarrow> cint \<Rightarrow> u32 \<Rightarrow> cint \<Rightarrow> (u32 \<times> u32 \<times> string) list \<Rightarrow> bool" where
  "sees s n ws lu cw rw ss out \<longleftrightarrow> seq_num s = n \<and> tokens (fp s) = ws \<and> last_unacked_seq (th s) = lu \<and>
     cwnd (th s) = cw \<and> rwnd (th s) = rw \<and> ssthresh (th s) = ss \<and> last_pack_seq_no (th s) = -1 \<and>
     isEOF (th s) \<noteq> 1 \<and> summary s = out"

lemma scan_word:
  assumes "tokens rest = w # ws" and "length w < MAXLINE"
  obtains r where "scan_buf rest buf = Some (False, w @ NUL # drop (Suc (length w)) buf, r)" and "tokens r = ws"
proof
  have f: "fscanf_s rest = (Some w, snd (fscanf_s rest))"
    using assms(1) by (subst fscanf_s_tokens) simp
  show "scan_buf rest buf = Some (False, w @ NUL # drop (Suc (length w)) buf, snd (fscanf_s rest))"
    by (subst scan_buf_def, subst f) (use assms(2) in simp)
  show "tokens (snd (fscanf_s rest)) = ws"
    using assms(1) by (simp add: tokens_rest)
qed

lemma scan_end: "tokens rest = [] \<Longrightarrow> scan_buf rest buf = Some (True, buf, [])"
  using fscanf_s_tokens [of rest] by (simp add: scan_buf_def)

text \<open>Reading past the end leaves the last word in the buffer.\<close>

lemma skip_words_last:
  assumes "\<forall>w \<in> set (tokens rest). length w < MAXLINE"
  shows "\<exists>buf' r. skip_words n rest buf = Some (buf', r) \<and> tokens r = drop n (tokens rest) \<and>
           (0 < n \<and> tokens rest \<noteq> [] \<longrightarrow> cstr buf' = cstr (tokens rest ! (min n (length (tokens rest)) - 1))) \<and>
           (n = 0 \<or> tokens rest = [] \<longrightarrow> buf' = buf)"
  using assms
proof (induction n arbitrary: rest buf)
  case 0
  then show ?case by simp
next
  case (Suc n)
  show ?case
  proof (cases "tokens rest")
    case Nil
    obtain buf' r where "skip_words n [] buf = Some (buf', r)" "tokens r = []" "buf' = buf"
      using Suc.IH [of "[]" buf] by auto
    then show ?thesis
      using scan_end [OF Nil, of buf] Nil by simp
  next
    case (Cons w ws)
    obtain r where r: "scan_buf rest buf = Some (False, w @ NUL # drop (Suc (length w)) buf, r)" "tokens r = ws"
      using scan_word [OF Cons, of buf] Suc.prems Cons by auto
    have "\<forall>w \<in> set (tokens r). length w < MAXLINE"
      using Suc.prems Cons r(2) by simp
    from Suc.IH [OF this, of "w @ NUL # drop (Suc (length w)) buf"] show ?thesis
      using r Cons by (cases n; cases ws) (auto simp: cstr_write min_def nth_Cons' split: if_splits)
  qed
qed

lemma summary_snoc: "summary (s\<lparr>sends := xs @ [(a, q)]\<rparr>) =
    summary (s\<lparr>sends := xs\<rparr>) @ [(u_seq (q_config q), u_type (q_config q), cstr (q_buf q))]"
  by (simp add: summary_def)

lemma sees_new:
  assumes "sees s n (w # ws) (-1) cw rw ss out" and "length w < MAXLINE" and "NUL \<notin> set w"
  shows "\<exists>s'. send_one clock text s = Some s' \<and> rtt_nrexmt (rttinfo (th s')) = 0 \<and>
           sees s' (n + 1) ws (-1) cw rw ss (out @ [(n + 1, type_code data, w)])"
proof -
  have "tokens (fp s) = w # ws"
    using assms(1) by (simp add: sees_def)
  from scan_word [OF this assms(2), of "q_buf zero_query"] obtain r where
    "scan_buf (fp s) (q_buf zero_query) = Some (False, w @ NUL # drop (Suc (length w)) (q_buf zero_query), r)" "tokens r = ws"
    by blast
  then show ?thesis
    using assms by (auto simp: sees_def send_one_def pick_word_def Let_def summary_def cstr_append_nul)
qed

lemma sees_again:
  assumes "sees s n ws k cw rw ss out" and "k \<noteq> -1" and "tokens body \<noteq> []"
    and "\<forall>w \<in> set (tokens body). length w < MAXLINE \<and> NUL \<notin> set w"
  shows "\<exists>s'. send_one clock body s = Some s' \<and> rtt_nrexmt (rttinfo (th s')) = 0 \<and>
           sees s' k (drop (Suc (unat k)) (tokens body)) (-1) cw rw ss
             (out @ [(k, type_code data, tokens body ! min (unat k) (length (tokens body) - 1))])"
proof -
  let ?T = "tokens body"
  have fit: "\<forall>w \<in> set ?T. length w < MAXLINE"
    using assms(4) by simp
  obtain b r where k: "skip_words (unat k) body (q_buf zero_query) = Some (b, r)" "tokens r = drop (unat k) ?T"
    "0 < unat k \<longrightarrow> cstr b = cstr (?T ! (min (unat k) (length ?T) - 1))"
    using skip_words_last [OF fit, of "unat k" "q_buf zero_query"] assms(3) by auto
  have "\<exists>e b' r'. scan_buf r b = Some (e, b', r') \<and> tokens r' = drop (Suc (unat k)) ?T \<and>
          cstr b' = cstr (?T ! min (unat k) (length ?T - 1))"
  proof (cases "unat k < length ?T")
    case True
    then have d: "tokens r = ?T ! unat k # drop (Suc (unat k)) ?T"
      using k(2) by (simp add: Cons_nth_drop_Suc)
    have "length (?T ! unat k) < MAXLINE"
      using fit True by simp
    from scan_word [OF d this, of b] show ?thesis
      using True by (metis cstr_write min.absorb1 Suc_leI Suc_le_mono Suc_pred' length_greater_0_conv assms(3) less_Suc_eq_le)
  next
    case False
    then have "tokens r = []"
      using k(2) by simp
    moreover have "0 < unat k"
      using False assms(3) by (cases "unat k") auto
    moreover have "min (unat k) (length ?T) - 1 = length ?T - 1" and "min (unat k) (length ?T - 1) = length ?T - 1"
      using False by simp_all
    ultimately show ?thesis
      using scan_end [of r b] k(3) False by (intro exI [of _ True]) simp
  qed
  then obtain e b' r' where sc: "scan_buf r b = Some (e, b', r')" "tokens r' = drop (Suc (unat k)) ?T"
    "cstr b' = cstr (?T ! min (unat k) (length ?T - 1))"
    by blast
  have "min (unat k) (length ?T - 1) < length ?T"
    by (rule min.strict_coboundedI2) (use assms(3) in simp)
  then have "cstr b' = ?T ! min (unat k) (length ?T - 1)"
    using sc(3) assms(4) by (simp add: cstr_id)
  then show ?thesis
    using assms(1,2) k(1) sc(1,2) by (auto simp: sees_def send_one_def pick_word_def Let_def summary_def)
qed

lemma sees_round:
  assumes "send_window clock body (nat (sint (smin (cwnd (th s)) (rwnd (th s))))) s = Some s1"
    and "sees s1 n ws (-1) cw rw ss out" and "rw \<noteq> 0" and "\<not> late evs"
  shows "send_rounds False clock body evs s =
    (case ack_loop False clock (n + 1) (-1) 0 (ticks s1) evs (th s1) of
        Blocked c \<Rightarrow> Some (StillWaiting (s1\<lparr>th := c\<rparr>))
      | GaveUp c \<Rightarrow> Some (Abandoned (s1\<lparr>th := c\<rparr>))
      | Returned c t evs' \<Rightarrow> send_rounds False clock body evs' (s1\<lparr>th := c, ticks := t\<rparr>))"
proof -
  have "send_round clock body s = Some s1"
    using assms by (simp add: send_round_def send_ping_def sees_def)
  moreover have "isEOF (th s1) \<noteq> 1" and "seq_num s1 = n"
    using assms(2) by (simp_all add: sees_def)
  ultimately show ?thesis
    using assms(4) by (subst send_rounds.simps) (simp add: receive_ack_def Let_def)
qed

text \<open>The awaited acknowledgement, one that is not awaited, and the alarm.\<close>

lemma sees_awaited:
  assumes "sees s n ws (-1) cw rw ss out" and "ss = -1 \<or> sint cw < sint ss" and "f \<noteq> 3" and "n + 1 \<noteq> -1"
  shows "\<exists>c t'. ack_loop False clock (n + 1) prev f t (ack_event (n + 1) w # evs) (th s) = Returned c t' evs \<and>
           sees (s\<lparr>th := c, ticks := t'\<rparr>) n ws (-1) (cw * 2) w ss out"
  using assms by (auto simp: ack_event_loop sees_def summary_def Let_def)

lemma sees_other:
  assumes "sees s n ws (-1) cw rw ss out" and "ss = -1 \<or> sint cw < sint ss" and "a \<noteq> e" and "a \<noteq> prev"
  shows "\<exists>c. ack_loop False clock e prev 0 t (ack_event a w # evs) (th s) =
               ack_loop False clock e a 0 t evs c \<and> sees (s\<lparr>th := c\<rparr>) n ws (-1) (cw * 2) w ss out \<and>
               rttinfo c = rttinfo (th s)"
  using assms by (auto simp: ack_event_loop sees_def summary_def Let_def)

lemma sees_alarm:
  assumes "sees (s\<lparr>th := c0\<rparr>) n ws (-1) cw rw ss out" and "rtt_nrexmt (rttinfo c0) = 0" and "prev \<noteq> -1"
  shows "\<exists>c. ack_loop False clock e prev 0 t (Alarm # evs) c0 = Returned c t evs \<and>
           sees (s\<lparr>th := c, ticks := t\<rparr>) n ws prev 1 rw (cint_div cw 2) out"
  using assms rtt_timeout_first [OF assms(2)]
  by (auto simp: ack_loop_Alarm on_timeout_def sees_def summary_def Let_def split: prod.splits)

definition demo_text :: string where
  "demo_text = ''a b c d e f''"

definition demo_begin :: sender where
  "demo_begin = \<lparr>th = demo_th\<lparr>last_unacked_seq := -1, last_pack_seq_no := -1, ssthresh := -1, rwnd := 3, cwnd := 1\<rparr>,
     seq_num = -1, fp = demo_text, obj = zero_query, ticks = 0, sends = []\<rparr>"

lemma demo_words: "tokens demo_text = [''a'', ''b'', ''c'', ''d'', ''e'', ''f'']"
  by (simp add: demo_text_def tokens.simps fscanf_s_def is_space_def Let_def)

lemma demo_begins: "sees demo_begin (-1) [''a'', ''b'', ''c'', ''d'', ''e'', ''f''] (-1) 1 3 (-1) []"
  by (simp add: sees_def demo_begin_def demo_th_def summary_def demo_words)

fun numbered :: "cint \<Rightarrow> string list \<Rightarrow> (u32 \<times> u32 \<times> string) list" where
  "numbered n [] = []"
| "numbered n (w # ws) = (n + 1, type_code data, w) # numbered (n + 1) ws"

lemma sees_window:
  assumes "sees s n (us @ ws) (-1) cw rw ss out" and "\<forall>w \<in> set us. length w < MAXLINE \<and> NUL \<notin> set w"
  shows "\<exists>s'. send_window clock body (length us) s = Some s' \<and> (us \<noteq> [] \<longrightarrow> rtt_nrexmt (rttinfo (th s')) = 0) \<and>
           sees s' (n + word_of_nat (length us)) ws (-1) cw rw ss (out @ numbered n us)"
  using assms
proof (induction us arbitrary: s n out)
  case Nil
  then show ?case by simp
next
  case (Cons u us)
  have "sees s n (u # (us @ ws)) (-1) cw rw ss out" and "isEOF (th s) \<noteq> 1"
    using Cons.prems(1) by (simp_all add: sees_def)
  then obtain s1 where s1: "send_one clock body s = Some s1" "rtt_nrexmt (rttinfo (th s1)) = 0"
    "sees s1 (n + 1) (us @ ws) (-1) cw rw ss (out @ [(n + 1, type_code data, u)])"
    using sees_new [of s n u "us @ ws" cw rw ss out clock body] Cons.prems(2) by auto
  obtain s' where s': "send_window clock body (length us) s1 = Some s'"
    "us \<noteq> [] \<longrightarrow> rtt_nrexmt (rttinfo (th s')) = 0"
    "sees s' (n + 1 + word_of_nat (length us)) ws (-1) cw rw ss ((out @ [(n + 1, type_code data, u)]) @ numbered (n + 1) us)"
    using Cons.IH [OF s1(3)] Cons.prems(2) by auto
  have "us = [] \<Longrightarrow> s' = s1"
    using s'(1) by simp
  then show ?case
    using s1 s' \<open>isEOF (th s) \<noteq> 1\<close> by (auto simp: add.assoc)
qed

text \<open>
  Whole rounds: a window of new words or one word again, then what comes back.
\<close>

lemma round_start:
  assumes "sees s n (us @ ws) (-1) cw rw ss out" and "\<forall>w \<in> set us. length w < MAXLINE \<and> NUL \<notin> set w"
    and "nat (sint (smin cw rw)) = length us" and "us \<noteq> []"
  obtains s1 where "send_window clock body (nat (sint (smin (cwnd (th s)) (rwnd (th s))))) s = Some s1"
    and "sees s1 (n + word_of_nat (length us)) ws (-1) cw rw ss (out @ numbered n us)"
    and "rtt_nrexmt (rttinfo (th s1)) = 0"
proof -
  have "cwnd (th s) = cw" and "rwnd (th s) = rw"
    using assms(1) by (simp_all add: sees_def)
  then show thesis
    using sees_window [OF assms(1,2), of clock body] assms(3,4) that by auto
qed

lemma round_again:
  assumes "sees s n ws k 1 rw ss out" and "k \<noteq> -1" and "tokens body \<noteq> []"
    and "\<forall>w \<in> set (tokens body). length w < MAXLINE \<and> NUL \<notin> set w" and "sint rw > 1"
  obtains s1 where "send_window clock body (nat (sint (smin (cwnd (th s)) (rwnd (th s))))) s = Some s1"
    and "sees s1 k (drop (Suc (unat k)) (tokens body)) (-1) 1 rw ss
           (out @ [(k, type_code data, tokens body ! min (unat k) (length (tokens body) - 1))])"
    and "rtt_nrexmt (rttinfo (th s1)) = 0"
proof -
  have "nat (sint (smin (cwnd (th s)) (rwnd (th s)))) = 1" and "isEOF (th s) \<noteq> 1"
    using assms(1,5) by (simp_all add: sees_def smin_def)
  then show thesis
    using sees_again [OF assms(1-4), of clock] that by (auto simp: send_window_numeral)
qed

lemma round_awaited:
  assumes "sees s n (us @ ws) (-1) cw rw (-1) out" and "\<forall>w \<in> set us. length w < MAXLINE \<and> NUL \<notin> set w"
    and "nat (sint (smin cw rw)) = length us" and "us \<noteq> []" and "rw \<noteq> 0" and "n' = n + word_of_nat (length us)" and "n' + 1 \<noteq> -1"
  shows "\<exists>s'. sees s' n' ws (-1) (cw * 2) w (-1) (out @ numbered n us) \<and>
           send_rounds False clock body (ack_event (n' + 1) w # evs) s = send_rounds False clock body evs s'"
proof -
  obtain s1 where 1: "send_window clock body (nat (sint (smin (cwnd (th s)) (rwnd (th s))))) s = Some s1"
    "sees s1 n' ws (-1) cw rw (-1) (out @ numbered n us)"
    using round_start [OF assms(1-4), of clock body] assms(6) by metis
  obtain c t' where "ack_loop False clock (n' + 1) (-1) 0 (ticks s1) (ack_event (n' + 1) w # evs) (th s1) = Returned c t' evs"
    "sees (s1\<lparr>th := c, ticks := t'\<rparr>) n' ws (-1) (cw * 2) w (-1) (out @ numbered n us)"
    using sees_awaited [OF 1(2), of 0 clock "-1" "ticks s1" w evs] assms(7) by auto
  then show ?thesis
    using sees_round [OF 1 assms(5), of "ack_event (n' + 1) w # evs"] by auto
qed

lemma round_other_awaited:
  assumes "sees s n (us @ ws) (-1) cw rw (-1) out" and "\<forall>w \<in> set us. length w < MAXLINE \<and> NUL \<notin> set w"
    and "nat (sint (smin cw rw)) = length us" and "us \<noteq> []" and "rw \<noteq> 0" and "n' = n + word_of_nat (length us)" and "n' + 1 \<noteq> -1"
    and "a \<noteq> n' + 1" and "a \<noteq> -1"
  shows "\<exists>s'. sees s' n' ws (-1) (cw * 4) w (-1) (out @ numbered n us) \<and>
           send_rounds False clock body (ack_event a w # ack_event (n' + 1) w # evs) s = send_rounds False clock body evs s'"
proof -
  obtain s1 where 1: "send_window clock body (nat (sint (smin (cwnd (th s)) (rwnd (th s))))) s = Some s1"
    "sees s1 n' ws (-1) cw rw (-1) (out @ numbered n us)"
    using round_start [OF assms(1-4), of clock body] assms(6) by metis
  obtain c where c: "ack_loop False clock (n' + 1) (-1) 0 (ticks s1) (ack_event a w # ack_event (n' + 1) w # evs) (th s1) =
      ack_loop False clock (n' + 1) a 0 (ticks s1) (ack_event (n' + 1) w # evs) c"
    "sees (s1\<lparr>th := c\<rparr>) n' ws (-1) (cw * 2) w (-1) (out @ numbered n us)"
    using sees_other [OF 1(2), of a "n' + 1" "-1" clock "ticks s1" w "ack_event (n' + 1) w # evs"] assms(8,9) by auto
  obtain c' t' where "ack_loop False clock (n' + 1) a 0 (ticks s1) (ack_event (n' + 1) w # evs) c = Returned c' t' evs"
    "sees (s1\<lparr>th := c', ticks := t'\<rparr>) n' ws (-1) (cw * 2 * 2) w (-1) (out @ numbered n us)"
    using sees_awaited [OF c(2), of 0 clock a "ticks s1" w evs] assms(7) by auto
  then show ?thesis
    using sees_round [OF 1 assms(5), of "ack_event a w # ack_event (n' + 1) w # evs"] c(1) by (auto simp: mult.assoc)
qed

lemma round_other_alarm:
  assumes "send_window clock body (nat (sint (smin (cwnd (th s)) (rwnd (th s))))) s = Some s1"
    and "sees s1 n ws (-1) cw rw ss out" and "rtt_nrexmt (rttinfo (th s1)) = 0" and "rw \<noteq> 0"
    and "ss = -1 \<or> sint cw < sint ss" and "a \<noteq> n + 1" and "a \<noteq> -1"
  shows "\<exists>s'. sees s' n ws a 1 w (cint_div (cw * 2) 2) out \<and>
           send_rounds False clock body (ack_event a w # Alarm # evs) s = send_rounds False clock body evs s'"
proof -
  obtain c where c: "ack_loop False clock (n + 1) (-1) 0 (ticks s1) (ack_event a w # Alarm # evs) (th s1) =
      ack_loop False clock (n + 1) a 0 (ticks s1) (Alarm # evs) c"
    "sees (s1\<lparr>th := c\<rparr>) n ws (-1) (cw * 2) w ss out" "rttinfo c = rttinfo (th s1)"
    using sees_other [OF assms(2,5,6), of "-1" clock "ticks s1" w "Alarm # evs"] assms(7) by auto
  obtain c' where "ack_loop False clock (n + 1) a 0 (ticks s1) (Alarm # evs) c = Returned c' (ticks s1) evs"
    "sees (s1\<lparr>th := c', ticks := ticks s1\<rparr>) n ws a 1 w (cint_div (cw * 2) 2) out"
    using sees_alarm [OF c(2) _ assms(7), of clock "n + 1" "ticks s1" evs] c(3) assms(3) by auto
  then show ?thesis
    using sees_round [OF assms(1,2,4), of "ack_event a w # Alarm # evs"] c(1) by auto
qed

definition demo_acks :: "net_event list" where
  "demo_acks = [ack_event 1 3, ack_event 2 3, ack_event 3 3, ack_event 4 3, Alarm, ack_event 6 3, Alarm]"

lemma demo_fit: "\<forall>w \<in> set (tokens demo_text). length w < MAXLINE \<and> NUL \<notin> set w" "tokens demo_text \<noteq> []"
  by (simp_all add: demo_words)

lemma demo_round1:
  "\<exists>s. sees s 0 ([''b'', ''c''] @ [''d'', ''e'', ''f'']) (-1) 2 3 (-1) [(0, 2, ''a'')] \<and>
     send_rounds False demo_clock demo_text (ack_event 1 3 # evs) demo_begin = send_rounds False demo_clock demo_text evs s"
proof -
  have "sees demo_begin (-1) ([''a''] @ [''b'', ''c'', ''d'', ''e'', ''f'']) (-1) 1 3 (-1) []"
    using demo_begins by simp
  from round_awaited [OF this, of 0 3 demo_clock demo_text evs] show ?thesis
    by (simp add: smin_def)
qed

lemma demo_round2:
  assumes "sees s1 0 ([''b'', ''c''] @ [''d'', ''e'', ''f'']) (-1) 2 3 (-1) [(0, 2, ''a'')]"
  shows "\<exists>s. sees s 2 ([''d'', ''e'', ''f''] @ []) (-1) 8 3 (-1) [(0, 2, ''a''), (1, 2, ''b''), (2, 2, ''c'')] \<and>
     send_rounds False demo_clock demo_text (ack_event 2 3 # ack_event 3 3 # evs) s1 = send_rounds False demo_clock demo_text evs s"
proof -
  have f: "\<forall>w \<in> set [''b'', ''c'']. length w < MAXLINE \<and> NUL \<notin> set w" "nat (sint (smin 2 3)) = length [''b'', ''c'']"
    "[''b'', ''c''] \<noteq> []" "(3 :: u32) \<noteq> 0" "(2 :: cint) = 0 + word_of_nat (length [''b'', ''c''])"
    "(2 :: cint) + 1 \<noteq> -1" "(2 :: cint) \<noteq> 2 + 1" "(2 :: cint) \<noteq> -1"
    by (simp_all add: smin_def)
  have n: "(2 :: cint) * 4 = 8" "(2 :: cint) + 1 = 3"
    "[(0, 2, ''a'')] @ numbered 0 [''b'', ''c''] = [(0, 2, ''a''), (1, 2, ''b''), (2, 2, ''c'')]"
    by simp_all
  show ?thesis
    using round_other_awaited [OF assms f] unfolding n append_Nil2 by blast
qed

lemma demo_round3:
  assumes "sees s2 2 ([''d'', ''e'', ''f''] @ []) (-1) 8 3 (-1) [(0, 2, ''a''), (1, 2, ''b''), (2, 2, ''c'')]"
  shows "\<exists>s. sees s 5 [] 4 1 3 8 (numbered (-1) (tokens demo_text)) \<and>
     send_rounds False demo_clock demo_text (ack_event 4 3 # Alarm # evs) s2 = send_rounds False demo_clock demo_text evs s"
proof -
  have f: "\<forall>w \<in> set [''d'', ''e'', ''f'']. length w < MAXLINE \<and> NUL \<notin> set w" "nat (sint (smin 8 3)) = length [''d'', ''e'', ''f'']"
    by (simp_all add: smin_def)
  obtain s3 where 3: "send_window demo_clock demo_text (nat (sint (smin (cwnd (th s2)) (rwnd (th s2))))) s2 = Some s3"
    "sees s3 (2 + word_of_nat (length [''d'', ''e'', ''f''])) [] (-1) 8 3 (-1)
       ([(0, 2, ''a''), (1, 2, ''b''), (2, 2, ''c'')] @ numbered 2 [''d'', ''e'', ''f''])" "rtt_nrexmt (rttinfo (th s3)) = 0"
    by (rule round_start [OF assms f]) simp_all
  from round_other_alarm [OF this, of 4 3 evs] show ?thesis
    by (simp add: cint_div_def demo_words)
qed

lemma demo_round4:
  assumes "sees s4 5 [] 4 1 3 8 (numbered (-1) (tokens demo_text))"
  shows "\<exists>s. sees s 4 [''f''] 6 1 3 1 (numbered (-1) (tokens demo_text) @ [(4, type_code data, ''e'')]) \<and>
     send_rounds False demo_clock demo_text (ack_event 6 3 # Alarm # evs) s4 = send_rounds False demo_clock demo_text evs s"
proof -
  obtain s5 where 5: "send_window demo_clock demo_text (nat (sint (smin (cwnd (th s4)) (rwnd (th s4))))) s4 = Some s5"
    "sees s5 4 (drop (Suc (unat (4 :: cint))) (tokens demo_text)) (-1) 1 3 8 (numbered (-1) (tokens demo_text) @
       [(4, type_code data, tokens demo_text ! min (unat (4 :: cint)) (length (tokens demo_text) - 1))])"
    "rtt_nrexmt (rttinfo (th s5)) = 0"
    by (rule round_again [OF assms _ demo_fit(2,1)]) simp_all
  from round_other_alarm [OF this, of 6 3 evs] show ?thesis
    by (simp add: cint_div_def demo_words)
qed

lemma demo_round5:
  assumes "sees s6 4 [''f''] 6 1 3 1 out"
  shows "\<exists>s. send_rounds False demo_clock demo_text [] s6 = Some (StillWaiting s) \<and> summary s = out @ [(6, type_code data, ''f'')]"
proof -
  obtain s7 where 7: "send_window demo_clock demo_text (nat (sint (smin (cwnd (th s6)) (rwnd (th s6))))) s6 = Some s7"
    "sees s7 6 (drop (Suc (unat (6 :: cint))) (tokens demo_text)) (-1) 1 3 1 (out @
       [(6, type_code data, tokens demo_text ! min (unat (6 :: cint)) (length (tokens demo_text) - 1))])"
    by (rule round_again [OF assms _ demo_fit(2,1)]) simp_all
  have "send_rounds False demo_clock demo_text [] s6 = Some (StillWaiting (s7\<lparr>th := th s7\<rparr>))"
    using sees_round [OF 7, of "[]"] by simp
  then show ?thesis
    using 7(2) by (simp add: sees_def demo_words)
qed

lemma demo_rounds:
  "\<exists>s. send_rounds False demo_clock demo_text demo_acks demo_begin = Some (StillWaiting s) \<and>
     summary s = numbered (-1) (tokens demo_text) @ [(4, type_code data, ''e''), (6, type_code data, ''f'')]"
proof -
  obtain s1 where 1: "sees s1 0 ([''b'', ''c''] @ [''d'', ''e'', ''f'']) (-1) 2 3 (-1) [(0, 2, ''a'')]"
    "send_rounds False demo_clock demo_text demo_acks demo_begin = send_rounds False demo_clock demo_text (tl demo_acks) s1"
    using demo_round1 [of "tl demo_acks"] by (metis demo_acks_def list.sel(3))
  obtain s2 where 2: "sees s2 2 ([''d'', ''e'', ''f''] @ []) (-1) 8 3 (-1) [(0, 2, ''a''), (1, 2, ''b''), (2, 2, ''c'')]"
    "send_rounds False demo_clock demo_text (tl demo_acks) s1 =
     send_rounds False demo_clock demo_text [ack_event 4 3, Alarm, ack_event 6 3, Alarm] s2"
    using demo_round2 [OF 1(1)] by (metis demo_acks_def list.sel(3))
  obtain s4 where 4: "sees s4 5 [] 4 1 3 8 (numbered (-1) (tokens demo_text))"
    "send_rounds False demo_clock demo_text [ack_event 4 3, Alarm, ack_event 6 3, Alarm] s2 =
     send_rounds False demo_clock demo_text [ack_event 6 3, Alarm] s4"
    using demo_round3 [OF 2(1)] by metis
  obtain s6 where 6: "sees s6 4 [''f''] 6 1 3 1 (numbered (-1) (tokens demo_text) @ [(4, type_code data, ''e'')])"
    "send_rounds False demo_clock demo_text [ack_event 6 3, Alarm] s4 = send_rounds False demo_clock demo_text [] s6"
    using demo_round4 [OF 4(1)] by metis
  show ?thesis
    using demo_round5 [OF 6(1)] unfolding 1(2) 2(2) 4(2) 6(2) by simp
qed

text \<open>
  An alarm while the second window is sent: the first acknowledgement has made \<open>receive_ack\<close> return
  with its timer still running.
\<close>

theorem late_alarm_wild: "\<exists>s. send_rounds False demo_clock demo_text [ack_event 1 3, LateAlarm] demo_begin = Some (Wild s)"
proof -
  obtain s1 where s1: "sees s1 0 ([''b'', ''c''] @ [''d'', ''e'', ''f'']) (-1) 2 3 (-1) [(0, 2, ''a'')]"
    "send_rounds False demo_clock demo_text [ack_event 1 3, LateAlarm] demo_begin = send_rounds False demo_clock demo_text [LateAlarm] s1"
    using demo_round1 [of "[LateAlarm]"] by blast
  have "words_fit demo_text s1"
    using s1(1) by (simp add: words_fit_def sees_def demo_words)
  then obtain s where "send_round demo_clock demo_text s1 = Some s"
    using send_round_defined by blast
  then show ?thesis
    unfolding s1(2) by (subst send_rounds.simps) simp
qed

section \<open>What the sender guarantees\<close>

text \<open>
  C7: whatever the client acknowledges, up to any bound that fits, and whenever the alarm fires:
  every packet of data whose number belongs to a word of the file carries exactly that word,
  first transmissions and retransmissions alike, and no packet announces the end of the file
  under the number of a word.
\<close>

theorem server_sends_words:
  assumes "files (srv_file_name cfg) = Some file" and "length (q_buf junk) = MAXLINE"
    and "Suc (Suc B) < 2 ^ 31" and "length (tokens file) \<le> B" and "\<forall>a \<in> acks be (set evs). unat a \<le> B"
    and "send_file_data be clock cfg files junk evs config = Some r" and "(dst, q) \<in> set (sends (transfer_state r))"
  shows "(u_type (q_config q) = type_code data \<and> unat (u_seq (q_config q)) < length (tokens file) \<longrightarrow>
            cstr (q_buf q) = cstr (tokens file ! unat (u_seq (q_config q)))) \<and>
         (u_type (q_config q) = type_code eof \<longrightarrow> length (tokens file) \<le> unat (u_seq (q_config q)))"
proof -
  have "good (tokens file) B q"
    using send_file_data_sends(1) [OF assms(1-6)] assms(7) by fastforce
  then show ?thesis
    by (simp add: good_def)
qed

theorem server_sends_words_witness:
  "\<exists>s dst q. send_file_data False demo_clock demo_srv demo_files zero_query [] demo_th = Some (StillWaiting s) \<and>
       (dst, q) \<in> set (sends s) \<and> unat (u_seq (q_config q)) < length (tokens ''a b c d e f'') \<and>
       cstr (q_buf q) = cstr (tokens ''a b c d e f'' ! unat (u_seq (q_config q)))"
proof -
  obtain s where s: "send_file_data False demo_clock demo_srv demo_files zero_query [] demo_th = Some (StillWaiting s)"
    "summary s = [(0, type_code data, ''a'')]"
    using demo_first by blast
  then obtain dst q where q: "(dst, q) \<in> set (sends s)" "u_seq (q_config q) = 0" "u_type (q_config q) = type_code data"
    by (cases "sends s") (auto simp: summary_def)
  have "demo_files (srv_file_name demo_srv) = Some ''a b c d e f''" and "length (q_buf zero_query) = MAXLINE"
    and "Suc (Suc 6) < 2 ^ 31" and l: "length (tokens ''a b c d e f'') \<le> 6" and "\<forall>a \<in> acks False (set []). unat a \<le> 6"
    using demo_words by (simp_all add: demo_files_def demo_srv_def zero_query_def acks_def demo_text_def)
  note w = server_sends_words [OF this s(1), of dst q]
  have "0 < length (tokens ''a b c d e f'')"
    using demo_words by (simp add: demo_text_def)
  then show ?thesis
    using w q s(1) by (intro exI [of _ s] exI [of _ dst] exI [of _ q]) simp
qed

text \<open>
  The sender ends the transfer only after an acknowledgement of a number past the last word,
  provided the flag \<open>isEOF\<close>, which nothing initialises, was not 1 to begin with.
\<close>

theorem server_finishes_acked:
  assumes "files (srv_file_name cfg) = Some file" and "length (q_buf junk) = MAXLINE"
    and "Suc (Suc B) < 2 ^ 31" and "length (tokens file) \<le> B" and "\<forall>a \<in> acks be (set evs). unat a \<le> B"
    and "send_file_data be clock cfg files junk evs config = Some (Finished s)" and "isEOF config \<noteq> 1"
  shows "\<exists>src d. Datagram src d \<in> set evs \<and> length (tokens file) < unat (ack_seq be d)"
  using send_file_data_sends(2) [OF assms(1-6) refl] assms(7) by (auto simp: acks_def)

lemma demo_empty:
  "\<exists>s. send_file_data False demo_clock (demo_srv\<lparr>srv_file_name := ''empty''\<rparr>) demo_files zero_query [ack_event 1 3] demo_th
     = Some (Finished s)"
proof -
  have "scan_buf [] (q_buf zero_query) = Some (True, q_buf zero_query, [])"
    by (rule scan_end) simp
  then show ?thesis
    by (simp add: send_file_data_def demo_files_def demo_srv_def demo_th_def, subst send_rounds.simps)
      (simp add: send_round_def smin_def send_one_def pick_word_def Let_def send_ping_def receive_ack_def ack_event_loop
        send_rounds.simps [of False demo_clock "[]" "[]"] send_window_numeral)
qed

theorem server_finishes_acked_witness:
  "\<exists>src d. Datagram src d \<in> set [ack_event 1 3] \<and> length (tokens []) < unat (ack_seq False d)"
proof -
  obtain s where s: "send_file_data False demo_clock (demo_srv\<lparr>srv_file_name := ''empty''\<rparr>) demo_files zero_query
      [ack_event 1 3] demo_th = Some (Finished s)"
    using demo_empty by blast
  show ?thesis
  proof (rule server_finishes_acked [OF _ _ _ _ _ s])
    show "demo_files (srv_file_name (demo_srv\<lparr>srv_file_name := ''empty''\<rparr>)) = Some []"
      by (simp add: demo_files_def)
    show "length (q_buf zero_query) = MAXLINE"
      by (simp add: zero_query_def)
    show "Suc (Suc 1) < 2 ^ 31" and "length (tokens []) \<le> 1"
      by simp_all
    show "\<forall>a \<in> acks False (set [ack_event 1 3]). unat a \<le> 1"
      by (auto simp: acks_def ack_event_def ack_event_seq)
    show "isEOF demo_th \<noteq> 1"
      by (simp add: demo_th_def)
  qed
qed

text \<open>
  The same acknowledgement must arrive four times in a row before the packet it asks for is sent
  again: after three the sender still waits, after the fourth it returns with that packet marked
  for retransmission and the congestion window back at one.
\<close>

theorem fast_retransmit_on_fourth:
  assumes "ack_seq be d1 = a" and "ack_seq be d2 = a" and "ack_seq be d3 = a" and "ack_seq be d4 = a"
    and "a \<noteq> seq_no + 1" and "a \<noteq> -1"
    and "last_pack_seq_no config = -1 \<or> a \<le> last_pack_seq_no config \<and> unat (last_pack_seq_no config) < 2 ^ 31"
    and "rtt_nrexmt (rttinfo config) = 0"
  shows "(\<exists>c. snd (receive_ack be clock seq_no t [Datagram s1 d1, Datagram s2 d2, Datagram s3 d3] config) = Blocked c) \<and>
         (\<exists>c. snd (receive_ack be clock seq_no t (Datagram s1 d1 # Datagram s2 d2 # Datagram s3 d3 # Datagram s4 d4 # evs) config)
                = Returned c t evs \<and> last_unacked_seq c = a \<and> cwnd c = 1)"
proof -
  let ?c4 = "grown be s4 d4 (grown be s3 d3 (grown be s2 d2 (grown be s1 d1 config)))"
  have lp: "last_pack_seq_no config = -1 \<or> a \<le> last_pack_seq_no config"
    using assms(7) by blast
  have "sint a \<le> sint (last_pack_seq_no config)" if "last_pack_seq_no config \<noteq> -1"
  proof -
    have le: "unat a \<le> unat (last_pack_seq_no config)" and lt: "unat (last_pack_seq_no config) < 2 ^ 31"
      using assms(7) that by (auto simp: word_le_nat_alt)
    then show ?thesis
      using sint_le_small [OF le_less_trans [OF le lt] lt] by simp
  qed
  moreover have "sint (fst (rtt_timeout (rttinfo config))) \<ge> 0"
    using assms(8) by (simp add: rtt_timeout_def Let_def)
  ultimately have "\<exists>c. on_timeout a t evs ?c4 = Returned c t evs \<and> last_unacked_seq c = a \<and> cwnd c = 1"
    using assms(6) by (auto simp: on_timeout_def Let_def split: prod.splits)
  then show ?thesis
    using assms(1-6) lp by (simp add: receive_ack_def Let_def ack_loop_other ack_loop_third [unfolded numeral_3_eq_3])
qed

theorem fast_retransmit_on_fourth_witness:
  "\<exists>c. snd (receive_ack False demo_clock 5 0 [ack_event 2 3, ack_event 2 3, ack_event 2 3, ack_event 2 3] (demo_th\<lparr>last_pack_seq_no := -1\<rparr>))
         = Returned c 0 [] \<and> last_unacked_seq c = 2 \<and> cwnd c = 1"
  using fast_retransmit_on_fourth [OF ack_event_seq ack_event_seq ack_event_seq ack_event_seq, of 2 5 "demo_th\<lparr>last_pack_seq_no := -1\<rparr>" demo_clock 0]
  by (simp add: ack_event_def demo_th_def)

text \<open>
  While the timeout is within its bounds, the timer that \<open>receive_ack\<close> sets runs for one, two or
  three whole seconds.
\<close>

theorem alarm_seconds:
  assumes "rto_in_bounds (rttinfo config)"
  shows "sint (fst (receive_ack be clock seq_no t evs config)) \<in> {1, 2, 3}"
proof -
  let ?r = "rtt_rto (rttinfo config)"
  have b: "1000 \<le> sint ?r" "sint ?r \<le> 3000"
    using assms by (auto simp: rto_in_bounds_def)
  then have "rtt_start (rttinfo config) = ?r"
    by (intro rtt_start_exact) auto
  then have "fst (receive_ack be clock seq_no t evs config) = word_of_int (sint ?r div 1000)"
    using b by (simp add: receive_ack_def Let_def cint_div_def signed_divide_int_def sgn_if)
  moreover have "sint ?r div 1000 \<in> {1, 2, 3}"
    using b by auto
  ultimately show ?thesis
    by auto
qed

theorem alarm_seconds_witness:
  "sint (fst (receive_ack False demo_clock 0 0 [] (demo_th\<lparr>rttinfo := (rttinfo demo_th)\<lparr>rtt_rto := 3000\<rparr>\<rparr>))) \<in> {1, 2, 3}"
  by (rule alarm_seconds) (simp add: rto_in_bounds_def)

text \<open>
  A transfer of a file of six words in which the last word goes out twice, under the numbers 5
  and 6.  The acknowledgements are those of a client that receives every packet while some
  of its answers are lost: packet 6 is retransmitted before the sender has noticed the end of
  the file, and reading past the end leaves the last word in the buffer.
\<close>

theorem server_repeats_last_word:
  "length (tokens ''a b c d e f'') = 6 \<and>
   (\<exists>s. send_file_data False demo_clock demo_srv demo_files zero_query demo_acks demo_th = Some (StillWaiting s) \<and>
        {(5, type_code data, ''f''), (6, type_code data, ''f'')} \<subseteq> set (summary s))"
proof -
  have "send_file_data False demo_clock demo_srv demo_files zero_query demo_acks demo_th =
        send_rounds False demo_clock demo_text demo_acks demo_begin"
    by (simp add: send_file_data_def demo_files_def demo_srv_def demo_begin_def demo_text_def)
  moreover have "(5, type_code data, ''f'') \<in> set (numbered (-1) (tokens demo_text))"
    by (simp add: demo_words)
  ultimately show ?thesis
    using demo_rounds demo_words unfolding demo_text_def by auto
qed

end
