(* ===== verification/Rdt_System.thy ===== *)
theory Rdt_System
  imports Rdt_Client Rdt_Server
begin

text \<open>
  The file transfer from end to end: the sender of \<open>src/hw2/server.c\<close> and the receiver of
  \<open>src/hw2/client.c\<close> over a network that may lose, repeat, reorder and delay datagrams but
  does not invent them.
\<close>

text \<open>\<open>from_sender be S e\<close>: the event delivers the bytes of one of the packets \<open>S\<close>.\<close>

fun from_sender :: "bool \<Rightarrow> query_obj set \<Rightarrow> client_event \<Rightarrow> bool" where
  "from_sender be S (Recv src d junk) \<longleftrightarrow> (\<exists>q \<in> S. d = dgram_of be q)"
| "from_sender be S ReaderPass \<longleftrightarrow> True"

definition word_at :: "string list \<Rightarrow> string \<Rightarrow> u32 \<Rightarrow> bool" where
  "word_at T d n \<longleftrightarrow> (unat n < length T \<longrightarrow> d = cstr (T ! unat n))"

lemma good_carries:
  assumes "good T B q" and "d = dgram_of be q"
  shows "carries (word_at T) (received be src d)"
proof -
  have l: "length (q_buf q) = MAXLINE"
    using assms(1) by (simp add: good_def)
  show ?thesis
    using assms unfolding carries_def received_dgram_of [OF l] assms(2) by (auto simp: good_def word_at_def)
qed

lemma from_sender_carries:
  assumes "\<forall>q \<in> S. good T B q" and "from_sender be S e"
  shows "event_carries be (word_at T) e"
  using assms by (cases e) (auto intro: good_carries)

text \<open>Items numbered from 0 that are each the word of their number are a prefix of the words.\<close>

lemma numbered_prefix:
  assumes "map snd xs = map word_of_nat [0..<length xs]" and "length xs \<le> 2 ^ 31"
    and "\<forall>x \<in> set xs. word_at T (fst x) (snd x)"
  shows "take (length T) (map fst xs) = map cstr (take (length xs) T)"
proof (rule nth_equalityI)
  show "length (take (length T) (map fst xs)) = length (map cstr (take (length xs) T))"
    by simp
next
  fix i
  assume "i < length (take (length T) (map fst xs))"
  then have i: "i < length T" "i < length xs"
    by simp_all
  have "snd (xs ! i) = map snd xs ! i"
    using i(2) by simp
  also have "\<dots> = word_of_nat i"
    using i(2) by (simp add: assms(1))
  finally have "unat (snd (xs ! i)) = i"
    using i(2) assms(2) by simp
  then have "fst (xs ! i) = cstr (T ! i)"
    using assms(3) i by (auto simp: word_at_def dest: nth_mem)
  then show "take (length T) (map fst xs) ! i = map cstr (take (length xs) T) ! i"
    using i by simp
qed

text \<open>The receiver takes in any packet with a full buffer, not only those built by \<open>packet\<close>.\<close>

lemma reached_recv:
  assumes r: "reached s0 evs (buf, e, out, False)" and l: "length (q_buf q) = MAXLINE"
    and ty: "u_type (q_config q) = type_code data"
    and b: "push_data_to_buffer 3 (q_buf q) (u_seq (q_config q)) e buf = Some buf'"
    and u: "update_expected_seq_num (Suc (length buf')) buf' e = Some e'"
  shows "reached s0 (evs @ [Recv zero_sockaddr (dgram_of False q) zero_query]) (buf', e', out, False)"
proof -
  obtain s where o: "orun demo_step evs s0 = Some s"
    and s: "text_buffer s = buf" "expected_seq_num s = e" "file_out s = out" "\<not> finished s" "\<not> locked s" "is_EOF s = 0"
    using r by (auto simp: reached_def)
  let ?q = "received False zero_sockaddr (dgram_of False q)"
  have rw: "cli_rwnd demo_cfg = 3"
    by (simp add: demo_cfg_def)
  have st: "stored demo_cfg ?q (s\<lparr>rand_pos := rand_pos s + 2\<rparr>) = Some buf'"
    using b ty s unfolding stored_def received_dgram_of [OF l] rw by auto
  have "\<exists>x. handle_packet False demo_cfg zero_query ?q (s\<lparr>rand_pos := rand_pos s + 2\<rparr>) = Some x"
    using st u s unfolding handle_packet_def Let_def stored_def [symmetric]
    by (simp del: update_expected_seq_num.simps)
  then obtain x where x: "handle_packet False demo_cfg zero_query ?q (s\<lparr>rand_pos := rand_pos s + 2\<rparr>) = Some x" ..
  have "demo_step (Recv zero_sockaddr (dgram_of False q) zero_query) s = Some x"
    unfolding demo_step_def client_step.simps received_def [symmetric] demo_keeps
    using s x by (simp del: update_expected_seq_num.simps)
  moreover have "text_buffer x = buf'" "expected_seq_num x = e'" "file_out x = out" "is_EOF x = 0"
    "\<not> finished x" "\<not> locked x"
    using x st u s received_dgram_of(1) [OF l] ty
    by (auto elim!: handle_packetE simp del: update_expected_seq_num.simps)
  ultimately show ?thesis
    unfolding reached_def using o by (simp add: orun_append)
qed

text \<open>
  C1: the transfer from end to end.  Take any run of the sender and any run of the receiver in which
  every datagram the receiver gets is one the sender sent, in whatever order, with whatever losses
  and repetitions: the items the receiver prints, up to the number of words of the file, are the
  words of the file in their order, each once.
\<close>

theorem transfer_end_to_end:
  assumes "send_file_data be clock scfg files sjunk sevs config = Some r"
    and "files (srv_file_name scfg) = Some body" and "length (q_buf sjunk) = MAXLINE"
    and "Suc (Suc B) < 2 ^ 31" and "length (tokens body) \<le> B" and "\<forall>a \<in> acks be (set sevs). unat a \<le> B"
    and "create_new_connection be rand cfg port ip cevs (client_init mem) = Some s"
    and "0 < sint (cli_rwnd cfg)" and "length mem = nat (sint (cli_rwnd cfg))" and "length cevs < 2 ^ 30 - 1"
    and "\<forall>e \<in> set cevs. from_sender be (snd ` set (sends (transfer_state r))) e"
  shows "take (length (tokens body)) (map fst (file_out s)) = map cstr (take (length (file_out s)) (tokens body))"
proof -
  have "\<forall>q \<in> snd ` set (sends (transfer_state r)). good (tokens body) B q"
    using send_file_data_sends(1) [OF assms(2-6,1)] by auto
  then have ok: "\<forall>e \<in> set cevs. event_carries be (word_at (tokens body)) e"
    using from_sender_carries assms(11) by blast
  note i = connection_inv [OF assms(7-9) ok]
  have p: "rand_pos s < 2 ^ 31 - 1"
    using i(2) assms(10) by simp
  note w = client_inv_window [OF i(1) p]
  have "length (file_out s) \<le> 2 ^ 31"
    using window_size(3) [OF w(1)] w(3) by simp
  then show ?thesis
    using numbered_prefix [OF w(2)] i(1) by (simp add: client_inv_def contents_def)
qed

theorem transfer_end_to_end_witness:
  "\<exists>r q s. send_file_data False demo_clock demo_srv demo_files zero_query [] demo_th = Some r \<and>
       create_new_connection False (\<lambda>_. 0) demo_cfg 6000 ''10.0.0.2''
         [Recv zero_sockaddr (dgram_of False q) zero_query, ReaderPass] (client_init demo_mem) = Some s \<and>
       length (file_out s) = 1 \<and> map fst (file_out s) = map cstr (take 1 (tokens demo_text))"
proof -
  obtain sn where sn: "send_file_data False demo_clock demo_srv demo_files zero_query [] demo_th = Some (StillWaiting sn)"
    "summary sn = [(0, type_code data, ''a'')]"
    using demo_first by blast
  then obtain dst q where q: "sends sn = [(dst, q)]" "u_seq (q_config q) = 0" "u_type (q_config q) = type_code data"
    "cstr (q_buf q) = ''a''"
    by (auto simp: summary_def)
  have srv: "demo_files (srv_file_name demo_srv) = Some demo_text" "length (q_buf zero_query) = MAXLINE"
    "Suc (Suc 6) < 2 ^ 31" "length (tokens demo_text) \<le> 6" "\<forall>a \<in> acks False (set []). unat a \<le> 6"
    by (simp_all add: demo_files_def demo_srv_def zero_query_def acks_def demo_words demo_text_def [symmetric])
  have "good (tokens demo_text) 6 q"
    using send_file_data_sends(1) [OF srv sn(1)] q(1) by simp
  then have g: "length (q_buf q) = MAXLINE" "NUL \<in> set (q_buf q)"
    using q(3) by (simp_all add: good_def)
  have 1: "reached demo_start ([] @ [Recv zero_sockaddr (dgram_of False q) zero_query]) ([slot ''a'' 0, free_slot 7, free_slot 7], 1, [], False)"
    by (rule reached_recv [OF demo_reached0 g(1) q(3)]) (use g q in \<open>simp_all add: push_eval\<close>)
  have 2: "reached demo_start (([] @ [Recv zero_sockaddr (dgram_of False q) zero_query]) @ [ReaderPass])
      ([free_slot 0, free_slot 7, free_slot 7], 1, [(''a'', 0)], False)"
    using reached_pass [OF 1 refl] by (simp add: min_seq_num_def Let_def)
  then obtain s where s: "create_new_connection False (\<lambda>_. 0) demo_cfg 6000 ''10.0.0.2''
      [Recv zero_sockaddr (dgram_of False q) zero_query, ReaderPass] (client_init demo_mem) = Some s"
    "file_out s = [(''a'', 0)]"
    unfolding demo_connection reached_def by auto
  have c: "0 < sint (cli_rwnd demo_cfg)" "length demo_mem = nat (sint (cli_rwnd demo_cfg))"
    "length [Recv zero_sockaddr (dgram_of False q) zero_query, ReaderPass] < 2 ^ 30 - 1"
    by (simp_all add: demo_cfg_def demo_mem_def)
  have "\<forall>e \<in> set [Recv zero_sockaddr (dgram_of False q) zero_query, ReaderPass].
      from_sender False (snd ` set (sends (transfer_state (StillWaiting sn)))) e"
    using q(1) by simp
  from transfer_end_to_end [OF sn(1) srv s(1) c this] show ?thesis
    using sn(1) s demo_words by (intro exI [of _ "StillWaiting sn"] exI [of _ q] exI [of _ s]) simp
qed

section \<open>Acknowledgements\<close>

text \<open>The buffer of an object on the stack has its full length, whatever it holds.\<close>

fun full_buffer :: "client_event \<Rightarrow> bool" where
  "full_buffer (Recv src d junk) \<longleftrightarrow> length (q_buf junk) = MAXLINE"
| "full_buffer ReaderPass \<longleftrightarrow> True"

text \<open>No datagram that the receiver has sent acknowledges more than it has got.\<close>

definition acked :: "bool \<Rightarrow> client_state \<Rightarrow> bool" where
  "acked be s \<longleftrightarrow> (rand_pos s < 2 ^ 31 - 1 \<longrightarrow> (\<forall>x \<in> set (sent s). unat (ack_seq be (snd x)) \<le> unat (expected_seq_num s)))"

lemma sent_bytes: "fst (send_udp_data be sa sl q) = dgram_of be q"
  by (simp add: dgram_of_def send_udp_data_def Let_def sendmsg_init)

lemma sent_seq: "length (q_buf q) = MAXLINE \<Longrightarrow> ack_seq be (dgram_of be q) = u_seq (q_config q)"
  by (simp add: ack_seq_def received_dgram_of)

lemma client_inv_hi:
  assumes "client_inv n Q s" and "rand_pos s < 2 ^ 31 - 1"
  obtains lo hi where "window n lo hi (text_buffer s)" and "expected_seq_num s = word_of_nat hi" and "hi \<le> rand_pos s"
    and "unat (expected_seq_num s) = hi"
proof -
  obtain lo hi where w: "window n lo hi (text_buffer s)" "expected_seq_num s = word_of_nat hi" "hi \<le> rand_pos s"
    using assms by (auto simp: client_inv_def)
  moreover have "unat (expected_seq_num s) = hi"
    using w(2,3) assms(2) by simp
  ultimately show thesis
    by (rule that)
qed

lemma handle_packet_acked:
  assumes inv: "client_inv n Q s" and a: "acked be s" and n: "n = nat (sint (cli_rwnd cfg))" and j: "length (q_buf junk) = MAXLINE"
    and st: "handle_packet be cfg junk q (s\<lparr>rand_pos := rand_pos s + 2\<rparr>) = Some t"
  shows "acked be t"
  using st
proof (cases rule: handle_packetE)
  case (1 buf e)
  let ?s = "s\<lparr>rand_pos := rand_pos s + 2\<rparr>"
  have "unat (ack_seq be (snd x)) \<le> unat e" if pos: "rand_pos t < 2 ^ 31 - 1" and x: "x \<in> set (sent t)" for x
  proof -
    have p: "rand_pos s < 2 ^ 31 - 1"
      using pos 1(6) by simp
    obtain lo hi where w: "window n lo hi (text_buffer s)" and eh: "expected_seq_num s = word_of_nat hi"
      and hi: "hi \<le> rand_pos s" "unat (expected_seq_num s) = hi"
      using client_inv_hi [OF inv p] by blast
    have h: "Suc hi < 2 ^ 31"
      using hi(1) pos 1(6) by simp
    obtain hi' where hi': "hi' = hi \<or> hi' = Suc hi" "e = word_of_nat hi'"
      using stored_window [of n lo hi ?s, OF _ _ n h 1(1,2)] w eh by auto
    have "hi' < 2 ^ 32"
      using hi'(1) h by auto
    then have "unat e = hi'"
      unfolding hi'(2) by (rule unat_of_nat32)
    then have le: "hi \<le> unat e"
      using hi'(1) by auto
    from x consider "x \<in> set (sent s)" | "ack_seq be (snd x) = e"
      unfolding 1(7) sent_bytes by (auto simp: sent_seq j)
    then show ?thesis
      using a p le hi(2) by cases (auto simp: acked_def intro: le_trans)
  qed
  then show ?thesis
    using 1(4) by (auto simp: acked_def)
qed

interpretation acker: guarded_machine "client_step be rand cfg" full_buffer
  "\<lambda>s. client_inv (nat (sint (cli_rwnd cfg))) (\<lambda>_ _. True) s \<and> acked be s"
proof
  fix s t a
  let ?n = "nat (sint (cli_rwnd cfg))"
  assume inv: "client_inv ?n (\<lambda>_ _. True) s \<and> acked be s" and ok: "full_buffer a" and st: "client_step be rand cfg a s = Some t"
  have "client_inv ?n (\<lambda>_ _. True) t"
    using client.step_inv inv event_carries_any st by blast
  moreover have "acked be t"
  proof (cases a)
    case (Recv src dgram junk)
    show ?thesis
      using st unfolding Recv
    proof (cases rule: client_step_recvE)
      case handled
      then show ?thesis
        using handle_packet_acked [OF _ _ refl _ handled(3)] inv ok Recv by auto
    qed (use inv in \<open>simp_all add: acked_def\<close>)
  next
    case ReaderPass
    then have "t = s \<or> t = print_filled s \<or> t = (print_filled s)\<lparr>locked := True\<rparr>"
      using st by (auto simp: buffer_reader_thread_def Let_def)
    then have "rand_pos t = rand_pos s \<and> sent t = sent s \<and> expected_seq_num t = expected_seq_num s"
      by auto
    then show ?thesis
      using inv by (simp add: acked_def)
  qed
  ultimately show "client_inv ?n (\<lambda>_ _. True) t \<and> acked be t" ..
qed

lemma connection_acked:
  assumes c: "create_new_connection be rand cfg port ip evs (client_init mem) = Some s"
    and r: "0 < sint (cli_rwnd cfg)" and m: "length mem = nat (sint (cli_rwnd cfg))" and j: "\<forall>e \<in> set evs. full_buffer e"
  shows "acked be s"
proof -
  from c obtain a where o: "orun (client_step be rand cfg) evs
      ((client_init mem)\<lparr>expected_seq_num := 0, rand_pos := 0, sent := [(a, dgram_of be zero_query)]\<rparr>) = Some s"
    by (auto simp: create_new_connection_def bind_eq_Some_conv Let_def case_prod_beta sent_bytes client_init_def)
  have "ack_seq be (dgram_of be zero_query) = 0"
    by (subst sent_seq) (simp_all add: zero_query_def)
  then have "acked be ((client_init mem)\<lparr>expected_seq_num := 0, rand_pos := 0, sent := [(a, dgram_of be zero_query)]\<rparr>)"
    by (simp add: acked_def)
  then show ?thesis
    using acker.run_inv [OF conjI [OF client_start_inv [OF r m]] j o] by blast
qed

text \<open>The receiver has printed item \<open>i\<close>, or holds it in its buffer, with the text \<open>w\<close>.\<close>

definition has_item :: "client_state \<Rightarrow> nat \<Rightarrow> string \<Rightarrow> bool" where
  "has_item s i w \<longleftrightarrow> (i < length (file_out s) \<and> file_out s ! i = (w, word_of_nat i)) \<or>
     list_ex (\<lambda>b. is_filled b = 1 \<and> b_seq b = word_of_nat i \<and> b_data b = w) (text_buffer s)"

lemma window_has_item:
  assumes inv: "client_inv n (word_at T) s" and p: "rand_pos s < 2 ^ 31 - 1" and i: "i < length T" "i < unat (expected_seq_num s)"
  shows "has_item s i (cstr (T ! i))"
proof -
  note w = client_inv_window [OF inv p]
  have u: "unat (word_of_nat i :: u32) = i"
    using i(2) w(3) by simp
  have c: "contents (word_at T) s"
    using inv by (simp add: client_inv_def)
  show ?thesis
  proof (cases "i < length (file_out s)")
    case True
    then have "snd (file_out s ! i) = word_of_nat i"
      using arg_cong [OF w(2), of "\<lambda>xs. xs ! i"] by simp
    moreover have "word_at T (fst (file_out s ! i)) (snd (file_out s ! i))"
      using c True by (simp add: contents_def)
    ultimately show ?thesis
      using True i(1) u by (simp add: has_item_def word_at_def prod_eq_iff)
  next
    case False
    let ?b = "text_buffer s ! (i mod n)"
    have b: "is_filled ?b = 1" "b_seq ?b = word_of_nat i" "?b \<in> set (text_buffer s)"
      using window_filled [OF w(1), of i] False i(2) window_size(1,2) [OF w(1)] by auto
    then have "b_data ?b = cstr (T ! i)"
      using c i(1) u by (auto simp: contents_def word_at_def)
    then show ?thesis
      using b by (auto simp: has_item_def list_ex_iff)
  qed
qed

text \<open>
  C10: a transfer that the sender has ended is complete.  Take a run of the sender that finishes and
  a run of the receiver in which every datagram that one of them gets is one that the other has sent,
  in whatever order, with whatever losses and repetitions: the receiver has every word of the file
  under its number, printed or in its buffer.
\<close>

theorem finished_means_received:
  assumes "send_file_data be clock scfg files sjunk sevs config = Some (Finished snt)" and "isEOF config \<noteq> 1"
    and "files (srv_file_name scfg) = Some body" and "length (q_buf sjunk) = MAXLINE" and "length (tokens body) \<le> 2 ^ 31 - 3"
    and "create_new_connection be rand cfg port ip cevs (client_init mem) = Some s"
    and "0 < sint (cli_rwnd cfg)" and "length mem = nat (sint (cli_rwnd cfg))" and "length cevs < 2 ^ 30 - 1"
    and "\<forall>e \<in> set cevs. full_buffer e \<and> from_sender be (snd ` set (sends snt)) e"
    and "\<forall>src d. Datagram src d \<in> set sevs \<longrightarrow> d \<in> snd ` set (sent s)"
  shows "\<forall>i < length (tokens body). has_item s i (cstr (tokens body ! i))"
proof -
  let ?n = "nat (sint (cli_rwnd cfg))"
  have any: "\<forall>e \<in> set cevs. event_carries be (\<lambda>_ _. True) e"
    by simp
  note j = connection_inv [OF assms(6-8) any]
  have pos: "rand_pos s < 2 ^ 31 - 2"
    using j(2) assms(9) by simp
  then have p: "rand_pos s < 2 ^ 31 - 1"
    by simp
  have "acked be s"
    using connection_acked [OF assms(6-8)] assms(10) by blast
  then have "\<forall>x \<in> set (sent s). unat (ack_seq be (snd x)) \<le> unat (expected_seq_num s)"
    unfolding acked_def using p by (rule mp)
  then have a: "\<forall>a \<in> acks be (set sevs). unat a \<le> unat (expected_seq_num s)"
    unfolding acks_def using assms(11) by auto
  moreover have "unat (expected_seq_num s) \<le> 2 ^ 31 - 3"
    by (rule client_inv_hi [OF j(1) p]) (use pos in simp)
  ultimately have b: "\<forall>a \<in> acks be (set sevs). unat a \<le> 2 ^ 31 - 3"
    by (blast intro: le_trans)
  have B: "Suc (Suc (2 ^ 31 - 3)) < (2 :: nat) ^ 31"
    by simp
  note sends = send_file_data_sends [OF assms(3,4) B assms(5) b assms(1)]
  obtain x where x: "x \<in> acks be (set sevs)" "length (tokens body) < unat x"
    using sends(2) [OF refl] assms(2) by blast
  have "\<forall>q \<in> snd ` set (sends snt). good (tokens body) (2 ^ 31 - 3) q"
    using sends(1) by auto
  then have "\<forall>e \<in> set cevs. event_carries be (word_at (tokens body)) e"
    using from_sender_carries assms(10) by blast
  note i = connection_inv(1) [OF assms(6-8) this]
  have "length (tokens body) < unat (expected_seq_num s)"
    using x a by (blast intro: less_le_trans)
  then show ?thesis
    using window_has_item [OF i p] by (blast intro: less_trans)
qed

section \<open>A finished transfer\<close>

text \<open>A file of one word: the sender's packets, and the receiver that takes them in.\<close>

definition one_word :: "string \<Rightarrow> string option" where
  "one_word name = Some ''a''"

lemma one_word_sent:
  "\<exists>s. send_file_data False demo_clock demo_srv one_word zero_query [ack_event 1 2, ack_event 2 1] demo_th = Some (Finished s) \<and>
     map (\<lambda>(a, q). (u_seq (q_config q), u_type (q_config q), u_ts (q_config q), cstr (q_buf q))) (sends s) =
       [(0, type_code data, 0, ''a''), (1, type_code eof, 0, []), (1, type_code eof, 0, [])]"
proof -
  have ts: "rtt_ts \<lparr>tv_sec = 0, tv_usec = 0\<rparr> r = 0" if "rtt_base r = 0" for r
    using that by (simp add: rtt_ts_def)
  have base: "rtt_base (rtt_newpack r) = rtt_base r" "rtt_base (rtt_stop ms r) = rtt_base r" "rtt_base (rtt_init \<lparr>tv_sec = 0, tv_usec = 0\<rparr> r) = 0" for r ms
    by (simp_all add: rtt_newpack_def rtt_stop_def rtt_init_def Let_def)
  have "takeWhile (\<lambda>c. c \<noteq> NUL) (q_buf zero_query) = []"
    by (simp add: zero_query_def takeWhile_eq_Nil_iff)
  note eval = sender_eval cstr_def demo_clock_def ts base this
  show ?thesis
    by (simp add: send_file_data_def one_word_def demo_srv_def demo_th_def, (subst send_rounds.simps, simp add: eval)+)
qed

lemma demo_takes:
  assumes l: "length (q_buf q) = MAXLINE" and s: "\<not> finished s" "\<not> locked s"
    and b: "stored demo_cfg q s = Some buf" and u: "update_expected_seq_num (Suc (length buf)) buf (expected_seq_num s) = Some e"
  shows "\<exists>t. demo_step (Recv zero_sockaddr (dgram_of False q) junk) s = Some t \<and> text_buffer t = buf \<and> expected_seq_num t = e \<and>
    file_out t = file_out s \<and> finished t = (u_type (q_config q) = type_code eof \<and> u_seq (q_config q) + 1 = e) \<and> locked t = finished t \<and>
    sent t = sent s @ [(zero_sockaddr, dgram_of False (junk\<lparr>q_config := (q_config junk)\<lparr>u_seq := e, u_rwnd := get_window_size buf,
      u_ts := u_ts (q_config q)\<rparr>\<rparr>))]"
proof -
  let ?q = "received False zero_sockaddr (dgram_of False q)" and ?s = "s\<lparr>rand_pos := rand_pos s + 2\<rparr>"
  have st: "stored demo_cfg ?q ?s = Some buf"
    using b unfolding stored_def received_dgram_of [OF l] by (auto split: if_splits)
  have "\<exists>x. handle_packet False demo_cfg junk ?q ?s = Some x"
    using st u unfolding handle_packet_def Let_def stored_def [symmetric] by (simp del: update_expected_seq_num.simps)
  then obtain x where x: "handle_packet False demo_cfg junk ?q ?s = Some x" ..
  have "demo_step (Recv zero_sockaddr (dgram_of False q) junk) s = Some x"
    unfolding demo_step_def client_step.simps received_def [symmetric] demo_keeps
    using s x by (simp del: update_expected_seq_num.simps)
  then show ?thesis
    using x st u s received_dgram_of(1) [OF l]
    by (auto elim!: handle_packetE simp: sent_bytes simp del: update_expected_seq_num.simps)
qed

lemma ack_packet: "(packet 0 0 ack [])\<lparr>q_config := (q_config (packet 0 0 ack []))\<lparr>u_seq := n, u_rwnd := w, u_ts := 0\<rparr>\<rparr> = packet n w ack []"
  by (simp add: packet_def)

lemma one_token: "tokens ''a'' = [''a'']"
  by code_simp

theorem finished_means_received_witness:
  "\<exists>sn q q' s. send_file_data False demo_clock demo_srv one_word zero_query [ack_event 1 2, ack_event 2 1] demo_th = Some (Finished sn) \<and>
       create_new_connection False (\<lambda>_. 0) demo_cfg 6000 ''10.0.0.2''
         [Recv zero_sockaddr (dgram_of False q) (packet 0 0 ack []), Recv zero_sockaddr (dgram_of False q') (packet 0 0 ack [])]
         (client_init demo_mem) = Some s \<and>
       q \<in> snd ` set (sends sn) \<and> q' \<in> snd ` set (sends sn) \<and> tokens ''a'' = [''a''] \<and> has_item s 0 ''a''"
proof -
  obtain sn where sn: "send_file_data False demo_clock demo_srv one_word zero_query [ack_event 1 2, ack_event 2 1] demo_th = Some (Finished sn)"
    "map (\<lambda>(a, q). (u_seq (q_config q), u_type (q_config q), u_ts (q_config q), cstr (q_buf q))) (sends sn) =
       [(0, type_code data, 0, ''a''), (1, type_code eof, 0, []), (1, type_code eof, 0, [])]"
    using one_word_sent by (elim exE conjE)
  obtain a q a' q' r where se: "sends sn = [(a, q), (a', q'), r]"
    and q: "u_seq (q_config q) = 0" "u_type (q_config q) = type_code data" "u_ts (q_config q) = 0" "cstr (q_buf q) = ''a''"
    and q': "u_seq (q_config q') = 1" "u_type (q_config q') = type_code eof" "u_ts (q_config q') = 0"
    using sn(2) by (auto simp: map_eq_Cons_conv simp del: type_code.simps)
  have srv: "one_word (srv_file_name demo_srv) = Some ''a''" "length (q_buf zero_query) = MAXLINE" "Suc (Suc 2) < 2 ^ 31"
    "length (tokens ''a'') \<le> 2" "\<forall>a \<in> acks False (set [ack_event 1 2, ack_event 2 1]). unat a \<le> 2"
    by (auto simp: one_word_def zero_query_def one_token acks_def ack_event_def ack_event_seq)
  have "good (tokens ''a'') 2 q" "good (tokens ''a'') 2 q'"
    using send_file_data_sends(1) [OF srv sn(1)] se by simp_all
  then have g: "length (q_buf q) = MAXLINE" "NUL \<in> set (q_buf q)" "length (q_buf q') = MAXLINE"
    using q(2) by (simp_all add: good_def)
  let ?j = "packet 0 0 ack []"
  have s0: "text_buffer demo_start = [free_slot 7, free_slot 7, free_slot 7]" "expected_seq_num demo_start = 0"
    "\<not> finished demo_start" "\<not> locked demo_start"
    by (simp_all add: demo_start_def client_init_def demo_mem_def numeral_3_eq_3 Let_def)
  obtain s1 where s1: "demo_step (Recv zero_sockaddr (dgram_of False q) ?j) demo_start = Some s1"
    "text_buffer s1 = [slot ''a'' 0, free_slot 7, free_slot 7]" "expected_seq_num s1 = 1" "\<not> finished s1" "\<not> locked s1"
    "(zero_sockaddr, dgram_of False (packet 1 2 ack [])) \<in> set (sent s1)"
    using demo_takes [OF g(1) s0(3,4), of "[slot ''a'' 0, free_slot 7, free_slot 7]" 1 ?j] q g s0
    by (auto simp: stored_def demo_cfg_def push_eval ack_packet get_window_size_def)
  obtain s where s: "demo_step (Recv zero_sockaddr (dgram_of False q') ?j) s1 = Some s"
    "(zero_sockaddr, dgram_of False (packet 2 1 ack [])) \<in> set (sent s)" "set (sent s1) \<subseteq> set (sent s)"
    using demo_takes [OF g(3) s1(4,5), of "[slot ''a'' 0, slot END_OF_FILE 1, free_slot 7]" 2 ?j] q' s1
    by (auto simp: stored_def demo_cfg_def push_eval ack_packet get_window_size_def subset_insertI)
  let ?evs = "[Recv zero_sockaddr (dgram_of False q) ?j, Recv zero_sockaddr (dgram_of False q') ?j]"
  have c: "create_new_connection False (\<lambda>_. 0) demo_cfg 6000 ''10.0.0.2'' ?evs (client_init demo_mem) = Some s"
    unfolding demo_connection using s1(1) s(1) by simp
  have r: "isEOF demo_th \<noteq> 1" "length (tokens ''a'') \<le> 2 ^ 31 - 3" "0 < sint (cli_rwnd demo_cfg)"
    "length demo_mem = nat (sint (cli_rwnd demo_cfg))" "length ?evs < 2 ^ 30 - 1"
    by (simp_all add: demo_th_def one_token demo_cfg_def demo_mem_def)
  have e: "\<forall>e \<in> set ?evs. full_buffer e \<and> from_sender False (snd ` set (sends sn)) e"
    using se packet_length [of "[]" 0 0 ack] by auto
  have d: "\<forall>src d. Datagram src d \<in> set [ack_event 1 2, ack_event 2 1] \<longrightarrow> d \<in> snd ` set (sent s)"
    using s1(6) s(2,3) by (force simp: ack_event_def)
  show ?thesis
    using finished_means_received [OF sn(1) r(1) srv(1,2) r(2) c r(3-5) e d] sn(1) c se
    by (intro exI [of _ sn] exI [of _ q] exI [of _ q'] exI [of _ s]) (simp add: one_token cstr_def)
qed

end
