(* ===== verification/Hw_Addrs.thy ===== *)
theory Hw_Addrs
  imports Ifi
begin

text \<open>
  The list of hardware addresses, \<open>src/hw3/get_hw_addrs.c\<close> and \<open>src/hw3/hw_addrs.h\<close> (the
  copies under \<open>src/hw4\<close> are the same text), the program \<open>src/hw3/prhwaddrs.c\<close> that prints
  it, and the table of interfaces that the routing and the ARP programs fill from it
  (\<open>populate_server_details\<close> of \<open>src/hw3/common.c\<close> and \<open>src/hw4/common.c\<close>).
\<close>

section \<open>Hardware addresses\<close>

text \<open>
  \<open>k_hwaddr\<close> and \<open>k_ifindex\<close> are what the request structure holds after \<open>SIOCGIFHWADDR\<close>
  and \<open>SIOCGIFINDEX\<close> for a name; the program goes on when they fail.
\<close>

record hw_kernel = kernel +
  k_hwaddr :: "string \<Rightarrow> u8 list"
  k_ifindex :: "string \<Rightarrow> cint"

abbreviation IF_NAME :: nat where "IF_NAME \<equiv> 16"
abbreviation IF_HADDR :: nat where "IF_HADDR \<equiv> 6"
abbreviation IP_ALIAS :: u16 where "IP_ALIAS \<equiv> 1"

record hwa_info =
  if_name :: string
  if_haddr :: "u8 list"
  if_index :: cint
  ip_alias :: u16
  hwa_ip_addr :: "sa option"

text \<open>
  The name is copied before the colon of an alias is replaced in the request; the requests
  that follow, and the comparison with the previous entry, use the shortened name.
\<close>

fun hwa_walk :: "'a hw_kernel_scheme \<Rightarrow> string \<Rightarrow> ifreq list \<Rightarrow> hwa_info list" where
  "hwa_walk k lastname [] = []"
| "hwa_walk k lastname (item # rest) =
     (let base = takeWhile (\<lambda>c. c \<noteq> CHR '':'') (ifr_name item);
          alias = (if take IF_NAME lastname = take IF_NAME base then IP_ALIAS else 0)
      in \<lparr>if_name = take (IF_NAME - 1) (ifr_name item), if_haddr = take IF_HADDR (k_hwaddr k base),
          if_index = k_ifindex k base, ip_alias = alias, hwa_ip_addr = Some (ifr_addr item)\<rparr>
         # hwa_walk k base rest)"

definition get_hw_addrs :: "nat \<Rightarrow> 'a hw_kernel_scheme \<Rightarrow> (errno + hwa_info list) option" where
  "get_hw_addrs fuel k =
     (case ifconf_loop fuel (k_ifconf k) (100 * SIZE_IFREQ) 0 of
        None \<Rightarrow> None
      | Some (Inl e) \<Rightarrow> Some (Inl e)
      | Some (Inr entries) \<Rightarrow> Some (Inr (hwa_walk k [] entries)))"

text \<open>\<open>Get_hw_addrs\<close> leaves the process on an empty list; any exit is \<open>None\<close> here.\<close>

definition Get_hw_addrs :: "nat \<Rightarrow> 'a hw_kernel_scheme \<Rightarrow> hwa_info list option" where
  "Get_hw_addrs fuel k =
     (case get_hw_addrs fuel k of
        Some (Inr (h # hs)) \<Rightarrow> Some (h # hs)
      | _ \<Rightarrow> None)"

text \<open>The blocks that \<open>free_hwa_info\<close> frees, in order: an address, then its node.\<close>

fun free_hwa_info :: "nat \<Rightarrow> hwa_info list \<Rightarrow> block list" where
  "free_hwa_info i [] = []"
| "free_hwa_info i (h # hs) =
     (case hwa_ip_addr h of None \<Rightarrow> [] | Some a \<Rightarrow> [Addr i]) @ Node i # free_hwa_info (Suc i) hs"

section \<open>Printing\<close>

definition hex_digit :: "nat \<Rightarrow> char" where
  "hex_digit d = (if d < 10 then char_of (48 + d) else char_of (87 + d))"

definition hex2 :: "u8 \<Rightarrow> string" where
  "hex2 b = [hex_digit (unat b div 16), hex_digit (unat b mod 16)]"

text \<open>The loop of \<open>display_mac_addr\<close>: two digits and a colon, a blank after the last.\<close>

fun mac_text :: "u8 list \<Rightarrow> string" where
  "mac_text [] = []"
| "mac_text [b] = hex2 b @ '' ''"
| "mac_text (b # bs) = hex2 b @ '':'' @ mac_text bs"

definition display_mac_addr :: "u8 list \<Rightarrow> string" where
  "display_mac_addr mac = mac_text (take IF_HADDR mac)"

definition has_haddr :: "u8 list \<Rightarrow> bool" where
  "has_haddr mac = list_ex (\<lambda>b. b \<noteq> 0) (take IF_HADDR mac)"

definition print_hwa :: "(u8 list \<Rightarrow> string) \<Rightarrow> hwa_info \<Rightarrow> string list" where
  "print_hwa ntop6 h =
     [if_name h @ '' :'' @ (if ip_alias h = IP_ALIAS then '' (alias)'' else [])]
     @ (case hwa_ip_addr h of None \<Rightarrow> [] | Some s \<Rightarrow> [''         IP addr = '' @ sock_ntop_host ntop6 s 16])
     @ [if has_haddr (if_haddr h) then ''         HW addr = '' @ display_mac_addr (if_haddr h) else []]
     @ [''         interface index = '' @ dec_int (sint (if_index h)), []]"

definition prhwaddrs_main :: "nat \<Rightarrow> 'a hw_kernel_scheme \<Rightarrow> (u8 list \<Rightarrow> string) \<Rightarrow> string list option" where
  "prhwaddrs_main fuel k ntop6 =
     map_option (\<lambda>hs. [] # concat (map (print_hwa ntop6) hs)) (Get_hw_addrs fuel k)"

section \<open>The table of interfaces\<close>

abbreviation IP_LEN :: nat where "IP_LEN \<equiv> 20"

record server_details =
  sd_ip :: string
  sd_mac :: "u8 list"
  sd_index :: cint

text \<open>
  The loop of \<open>populate_server_details\<close>: \<open>skip\<close> is the test on the name with which it
  starts, \<open>room\<close> the number of rows left in the caller's array, \<open>None\<close> a write past it or
  past the 20 characters of an address.
\<close>

fun details_loop :: "(string \<Rightarrow> bool) \<Rightarrow> (u8 list \<Rightarrow> string) \<Rightarrow> nat \<Rightarrow> hwa_info list \<Rightarrow> server_details list option" where
  "details_loop skip ntop6 room [] = Some []"
| "details_loop skip ntop6 room (h # hs) =
     (if skip (if_name h) then details_loop skip ntop6 room hs
      else
        (let addr = (case hwa_ip_addr h of None \<Rightarrow> [] | Some s \<Rightarrow> sock_ntop_host ntop6 s 16) in
         if length addr \<ge> IP_LEN then None
         else if has_haddr (if_haddr h) then
           (case room of
              0 \<Rightarrow> None
            | Suc r \<Rightarrow> map_option (\<lambda>ds. \<lparr>sd_ip = addr, sd_mac = take IF_HADDR (if_haddr h), sd_index = if_index h\<rparr> # ds)
                         (details_loop skip ntop6 r hs))
         else details_loop skip ntop6 room hs))"

text \<open>The routing program takes every interface but two; the ARP program takes one.\<close>

definition odr_populate_server_details ::
  "nat \<Rightarrow> 'a hw_kernel_scheme \<Rightarrow> (u8 list \<Rightarrow> string) \<Rightarrow> nat \<Rightarrow> server_details list option" where
  "odr_populate_server_details fuel k ntop6 room =
     Option.bind (Get_hw_addrs fuel k)
       (details_loop (\<lambda>name. name = ''lo'' \<or> name = ''eth0'') ntop6 room)"

definition arp_populate_server_details ::
  "nat \<Rightarrow> 'a hw_kernel_scheme \<Rightarrow> (u8 list \<Rightarrow> string) \<Rightarrow> nat \<Rightarrow> server_details list option" where
  "arp_populate_server_details fuel k ntop6 room =
     Option.bind (Get_hw_addrs fuel k) (details_loop (\<lambda>name. name \<noteq> ''eth0'') ntop6 room)"

section \<open>Lemmas\<close>

lemma hwa_walk_map:
  "map (\<lambda>h. (if_name h, hwa_ip_addr h)) (hwa_walk k lastname es) =
   map (\<lambda>e. (take (IF_NAME - 1) (ifr_name e), Some (ifr_addr e))) es"
  by (induction es arbitrary: lastname) (simp_all add: Let_def)

lemma get_hw_complete:
  assumes "truncating (k_ifconf k) entries" and "length entries + 2 \<le> fuel"
  shows "get_hw_addrs fuel k = Some (Inr (hwa_walk k [] entries))"
proof -
  have "ifconf_loop fuel (k_ifconf k) (32 * 100) 0 = Some (Inr entries)"
    by (rule ifconf_loop_truncating [OF assms(1)]) (use assms(2) in auto)
  then show ?thesis
    by (simp add: get_hw_addrs_def)
qed

text \<open>
  A row of the table per interface that is neither skipped nor without hardware address, in
  order, when there is room.
\<close>

definition wanted :: "(string \<Rightarrow> bool) \<Rightarrow> hwa_info list \<Rightarrow> hwa_info list" where
  "wanted skip hs = filter (\<lambda>h. \<not> skip (if_name h) \<and> has_haddr (if_haddr h)) hs"

lemma details_loop_rows:
  "details_loop skip ntop6 room hs = Some ds \<Longrightarrow>
   map (\<lambda>d. (sd_mac d, sd_index d)) ds = map (\<lambda>h. (take IF_HADDR (if_haddr h), if_index h)) (wanted skip hs) \<and>
   length ds \<le> room \<and> (\<forall>d \<in> set ds. length (sd_ip d) < IP_LEN)"
proof (induction skip ntop6 room hs arbitrary: ds rule: details_loop.induct)
  case (1 skip ntop6 room)
  then show ?case by (simp add: wanted_def)
next
  case (2 skip ntop6 room h hs)
  show ?case
    using "2.prems" "2.IH"
    by (auto simp: wanted_def Let_def split: if_splits nat.splits)
qed

text \<open>
  On a kernel that truncates its answer to the buffer, the list of hardware addresses has one
  node per entry of the kernel, in order, with the name shortened to fifteen characters and the
  entry's address.
\<close>

theorem get_hw_addrs_complete:
  assumes "truncating (k_ifconf k) entries" and "length entries + 2 \<le> fuel"
  shows "\<exists>hs. get_hw_addrs fuel k = Some (Inr hs) \<and>
           map (\<lambda>h. (if_name h, hwa_ip_addr h)) hs =
           map (\<lambda>e. (take (IF_NAME - 1) (ifr_name e), Some (ifr_addr e))) entries"
  using get_hw_complete [OF assms] hwa_walk_map [of k "[]" entries] by simp

definition demo_hw :: hw_kernel where
  "demo_hw = kernel.extend demo_kernel
     (hw_kernel.fields (\<lambda>name. [2, 0, 0, 0, 0, 1]) (\<lambda>name. 3))"

lemma demo_hw_ifconf: "k_ifconf demo_hw = k_ifconf demo_kernel"
  by (simp add: demo_hw_def kernel.defs hw_kernel.defs)

theorem get_hw_addrs_complete_witness:
  "\<exists>hs. get_hw_addrs 4 demo_hw = Some (Inr hs) \<and>
     map (\<lambda>h. (if_name h, hwa_ip_addr h)) hs =
     map (\<lambda>e. (take (IF_NAME - 1) (ifr_name e), Some (ifr_addr e))) demo_entries"
  by (rule get_hw_addrs_complete) (use demo_truncating in \<open>simp_all only: demo_hw_ifconf\<close>, simp add: demo_entries_def)

end
