(* ===== verification/Odr_Table.thy ===== *)
theory Odr_Table
  imports Hw_Addrs
begin

text \<open>
  The shared part of the on-demand routing program, \<open>src/hw3/common.h\<close> and
  \<open>src/hw3/common.c\<close>: the frame header and its bytes, the routing table, the buffer of waiting
  clients, and the messages between the router and its local clients.

  A character array of a frame or of a row is the string of all its characters, read through
  \<open>cstr\<close>; a string in a message between processes of one host is the C string itself.  An
  index outside an array, a string copied to an array it does not fit, and a string without
  terminator that the code reads are \<open>None\<close>.
\<close>

section \<open>Frames\<close>

datatype odr_type = rrep | rreq | payload_req | payload_resp

fun odr_code :: "odr_type \<Rightarrow> u32" where
  "odr_code rrep = 0"
| "odr_code rreq = 1"
| "odr_code payload_req = 2"
| "odr_code payload_resp = 3"

abbreviation MSG_LEN :: nat where "MSG_LEN \<equiv> 100"
abbreviation SIZE_FRAME_HEAD :: nat where "SIZE_FRAME_HEAD \<equiv> 156"

record frame_header =
  fh_src_ip :: string
  fh_dest_ip :: string
  fh_hop_count :: cint
  fh_bc_id :: cint
  fh_msg :: string
  fh_force_flag :: cint
  fh_type :: u32

text \<open>The packed structure, byte by byte; integers are in the order of the host.\<close>

definition header_bytes :: "bool \<Rightarrow> frame_header \<Rightarrow> u8 list" where
  "header_bytes be h = map byte_of_char (fh_src_ip h) @ map byte_of_char (fh_dest_ip h) @
     bytes_of_word be (fh_hop_count h) @ bytes_of_word be (fh_bc_id h) @ map byte_of_char (fh_msg h) @
     bytes_of_word be (fh_force_flag h) @ bytes_of_word be (fh_type h)"

definition header_of_bytes :: "bool \<Rightarrow> u8 list \<Rightarrow> frame_header" where
  "header_of_bytes be bs = \<lparr>
     fh_src_ip = map char_of_byte (take 20 bs), fh_dest_ip = map char_of_byte (take 20 (drop 20 bs)),
     fh_hop_count = word_of_bytes be (take 4 (drop 40 bs)), fh_bc_id = word_of_bytes be (take 4 (drop 44 bs)),
     fh_msg = map char_of_byte (take 100 (drop 48 bs)), fh_force_flag = word_of_bytes be (take 4 (drop 148 bs)),
     fh_type = word_of_bytes be (take 4 (drop 152 bs))\<rparr>"

abbreviation TAB :: string where "TAB \<equiv> [CHR 0x09]"
abbreviation NEWLINE :: string where "NEWLINE \<equiv> [CHR 0x0A]"

definition populate_frame_header ::
  "string \<Rightarrow> string \<Rightarrow> cint \<Rightarrow> cint \<Rightarrow> odr_type \<Rightarrow> cint \<Rightarrow> frame_header option" where
  "populate_frame_header src_ip dest_ip hops b_id type force_flag = do {
     s \<leftarrow> strcpy IP_LEN src_ip;
     d \<leftarrow> strcpy IP_LEN dest_ip;
     Some \<lparr>fh_src_ip = s, fh_dest_ip = d, fh_hop_count = hops, fh_bc_id = b_id,
           fh_msg = replicate MSG_LEN NUL, fh_force_flag = force_flag, fh_type = odr_code type\<rparr>
   }"

definition display_header :: "frame_header \<Rightarrow> string option" where
  "display_header h = do {
     s \<leftarrow> c_string (fh_src_ip h);
     d \<leftarrow> c_string (fh_dest_ip h);
     Some (''Src Ip = '' @ s @ '' '' @ TAB @ ''Dest Ip = '' @ d @ '' '' @ TAB @ ''HOPS = '' @
       dec_int (sint (fh_hop_count h)) @ '' '' @ TAB @
       (if fh_type h = odr_code rreq then ''RREQ'' @ NEWLINE
        else if fh_type h = odr_code rrep then ''RREP'' @ NEWLINE
        else if fh_type h = odr_code payload_req then ''Payload Request'' @ NEWLINE
        else if fh_type h = odr_code payload_resp then ''Payload Response'' @ NEWLINE
        else []))
   }"

section \<open>The routing table\<close>

abbreviation ROUTING_TABLE_SIZE :: nat where "ROUTING_TABLE_SIZE \<equiv> 100"

record routing_table_row =
  rt_dest_ip :: string
  rt_next_hop_mac :: "u8 list"
  rt_outgoing_index :: cint
  rt_hop_count :: cint
  rt_ts :: int
  rt_broadcast_id :: cint
  rt_rrep_sent :: cint
  rt_is_filled :: cint

type_synonym routing_table = "routing_table_row list"

definition zero_row :: routing_table_row where
  "zero_row = \<lparr>rt_dest_ip = replicate IP_LEN NUL, rt_next_hop_mac = replicate IF_HADDR 0, rt_outgoing_index = 0,
     rt_hop_count = 0, rt_ts = 0, rt_broadcast_id = 0, rt_rrep_sent = 0, rt_is_filled = 0\<rparr>"

definition init_routing_table :: routing_table where
  "init_routing_table = replicate ROUTING_TABLE_SIZE zero_row"

definition get_empty_row :: "routing_table \<Rightarrow> nat" where
  "get_empty_row table = first_idx (\<lambda>r. rt_is_filled r = 0) table"

definition get_row_entry :: "routing_table \<Rightarrow> string \<Rightarrow> int" where
  "get_row_entry table ip =
     (let i = first_idx (\<lambda>r. cstr (rt_dest_ip r) = cstr ip) table
      in if i < length table then int i else -1)"

definition delete_table_entry :: "routing_table \<Rightarrow> int \<Rightarrow> routing_table option" where
  "delete_table_entry table i = aset table i zero_row"

definition should_update_rt :: "routing_table \<Rightarrow> frame_header \<Rightarrow> int" where
  "should_update_rt table head =
     (case aget table (get_row_entry table (fh_src_ip head)) of
        None \<Rightarrow> 1
      | Some r \<Rightarrow>
          if sint (fh_bc_id head) > sint (rt_broadcast_id r) then 1
          else if sint (rt_hop_count r) > sint (fh_hop_count head) then 1
          else -1)"

text \<open>\<open>now\<close> is what \<open>time\<close> returns.\<close>

definition update_routing_table ::
  "int \<Rightarrow> routing_table \<Rightarrow> frame_header \<Rightarrow> u8 list \<Rightarrow> routing_table option" where
  "update_routing_table now table head next_hop_mac =
     (let row_index = get_row_entry table (fh_src_ip head) in
      if row_index = -1 then do {
        let index = int (get_empty_row table);
        r \<leftarrow> aget table index;
        aset table index (r\<lparr>rt_is_filled := 1, rt_dest_ip := fh_src_ip head, rt_next_hop_mac := next_hop_mac,
          rt_ts := now, rt_broadcast_id := fh_bc_id head, rt_rrep_sent := 0, rt_hop_count := fh_hop_count head\<rparr>)
      }
      else do {
        r \<leftarrow> aget table row_index;
        if sint (fh_bc_id head) > sint (rt_broadcast_id r)
        then aset table row_index (r\<lparr>rt_broadcast_id := fh_bc_id head\<rparr>)
        else if sint (rt_hop_count r) > sint (fh_hop_count head)
        then aset table row_index (r\<lparr>rt_hop_count := fh_hop_count head\<rparr>)
        else Some table
      })"

definition display_row :: "routing_table_row \<Rightarrow> string" where
  "display_row r = cstr (rt_dest_ip r) @ TAB @ TAB @ dec_int (sint (rt_hop_count r)) @ TAB @ dec_int (rt_ts r) @
     TAB @ TAB @ display_mac_addr (rt_next_hop_mac r) @ TAB @ TAB @ dec_int (sint (rt_broadcast_id r)) @ NEWLINE"

definition display_routing_table :: "string \<Rightarrow> routing_table \<Rightarrow> string" where
  "display_routing_table currhostname table =
     ''['' @ currhostname @ ''] Displaying Routing Table----'' @ NEWLINE @
     ''['' @ currhostname @ ''] Dest Ip'' @ TAB @ TAB @ TAB @ ''Hops'' @ TAB @ ''TS'' @ TAB @ TAB @ TAB @ ''Next Hop'' @
     TAB @ TAB @ TAB @ ''B ID'' @ NEWLINE @
     concat (map display_row (filter (\<lambda>r. rt_is_filled r \<noteq> 0) table)) @
     ''------------xxx------------'' @ NEWLINE @ NEWLINE"

section \<open>Own addresses\<close>

text \<open>The last interface with the address, as the loops run to their end.\<close>

fun last_match :: "('a \<Rightarrow> bool) \<Rightarrow> 'a list \<Rightarrow> int \<Rightarrow> int \<Rightarrow> int" where
  "last_match P [] i found = found"
| "last_match P (x # xs) i found = last_match P xs (i + 1) (if P x then i else found)"

definition source_ip_cmp :: "string \<Rightarrow> server_details list \<Rightarrow> int" where
  "source_ip_cmp ip serv = last_match (\<lambda>d. sd_ip d = cstr ip) serv 0 (-1)"

definition ip_to_vm :: "string \<Rightarrow> string option" where
  "ip_to_vm ip = do {
     tail \<leftarrow> c_string (drop 11 ip);
     if length (''vm'' @ tail) < 10 then Some (''vm'' @ tail) else None
   }"

definition ipmap :: "string list" where
  "ipmap = [''dontcare'', ''192.168.10.1'', ''192.168.10.2'', ''192.168.10.3'', ''192.168.11.4'', ''192.168.11.5'',
     ''192.168.11.6'', ''192.168.12.7'', ''192.168.12.8'', ''192.168.13.9'', ''192.168.13.10'', '''']"

definition set_ip :: "string \<Rightarrow> string option" where
  "set_ip host = aget ipmap (atoi (cstr (drop 2 host)))"

definition set_this_ip :: "string \<Rightarrow> string option" where
  "set_this_ip hostname = set_ip hostname"

section \<open>Messages between local processes\<close>

abbreviation MAX_MSG_LEN :: nat where "MAX_MSG_LEN \<equiv> 50"
abbreviation MAX_VM_NAME_LEN :: nat where "MAX_VM_NAME_LEN \<equiv> 10"
abbreviation INET_ADDRSTRLEN :: nat where "INET_ADDRSTRLEN \<equiv> 16"

record peer_info =
  pi_dest_port :: string
  pi_dest_ip :: string
  pi_src_port :: string
  pi_src_ip :: string
  pi_msg :: string
  pi_source_vm :: string
  pi_flag :: cint

definition zero_peer :: peer_info where
  "zero_peer = \<lparr>pi_dest_port = [], pi_dest_ip = [], pi_src_port = [], pi_src_ip = [], pi_msg = [], pi_source_vm = [],
     pi_flag = 0\<rparr>"

text \<open>\<open>hostname\<close> is what \<open>gethostname\<close> stores in ten characters.\<close>

definition msg_send ::
  "string \<Rightarrow> string \<Rightarrow> string \<Rightarrow> string \<Rightarrow> string \<Rightarrow> string \<Rightarrow> cint \<Rightarrow> peer_info option" where
  "msg_send hostname dest_ip dest_port src_ip src_port msg flag =
     (if length dest_port < 100 \<and> length src_port < 100 \<and> length src_ip < INET_ADDRSTRLEN \<and> length msg < MAX_MSG_LEN
      then Some \<lparr>pi_dest_port = dest_port, pi_dest_ip = take INET_ADDRSTRLEN dest_ip, pi_src_port = src_port,
                 pi_src_ip = src_ip, pi_msg = msg, pi_source_vm = take MAX_VM_NAME_LEN hostname, pi_flag = flag\<rparr>
      else None)"

text \<open>What a receiver reads: the message, the address and the port of the sender.\<close>

definition msg_recv :: "peer_info \<Rightarrow> string \<times> string \<times> string" where
  "msg_recv p = (pi_msg p, pi_src_ip p, pi_src_port p)"

record server_buf =
  sb_peer :: peer_info
  sb_count :: cint

definition zero_buf :: server_buf where
  "zero_buf = \<lparr>sb_peer = zero_peer, sb_count = 0\<rparr>"

definition init_buffer :: "nat \<Rightarrow> server_buf list" where
  "init_buffer count = replicate count zero_buf"

definition push_data_to_buf :: "server_buf list \<Rightarrow> peer_info \<Rightarrow> server_buf list option" where
  "push_data_to_buf buf p =
     aset buf (int (first_idx (\<lambda>b. sb_count b = 0) (take 100 buf))) \<lparr>sb_peer = p, sb_count = 1\<rparr>"

section \<open>The table as a map\<close>

definition live_row :: "routing_table_row \<Rightarrow> bool" where
  "live_row r \<longleftrightarrow> rt_is_filled r \<noteq> 0"

definition row_ip :: "routing_table_row \<Rightarrow> string" where
  "row_ip r = cstr (rt_dest_ip r)"

definition routes :: "routing_table \<Rightarrow> string \<Rightarrow> routing_table_row option" where
  "routes = row_of live_row row_ip"

text \<open>
  Well-formed tables: a row is free exactly when its address is empty, and no two rows in use
  have the same address.
\<close>

definition row_ok :: "routing_table_row \<Rightarrow> bool" where
  "row_ok r \<longleftrightarrow> (live_row r \<longleftrightarrow> row_ip r \<noteq> []) \<and> (live_row r \<longrightarrow> rt_is_filled r = 1) \<and>
     rt_outgoing_index r = 0 \<and> (live_row r \<longrightarrow> rt_rrep_sent r = 0) \<and> length (rt_next_hop_mac r) = IF_HADDR"

definition table_ok :: "routing_table \<Rightarrow> bool" where
  "table_ok t \<longleftrightarrow> length t = ROUTING_TABLE_SIZE \<and> (\<forall>r \<in> set t. row_ok r) \<and>
     (\<forall>i < length t. \<forall>j < length t. live_row (t ! i) \<and> live_row (t ! j) \<and> row_ip (t ! i) = row_ip (t ! j) \<longrightarrow> i = j)"

text \<open>What the row of a source is after a frame with that source is recorded.\<close>

fun learn :: "int \<times> frame_header \<times> u8 list \<Rightarrow> routing_table_row option \<Rightarrow> routing_table_row" where
  "learn (now, h, mac) None =
     \<lparr>rt_dest_ip = fh_src_ip h, rt_next_hop_mac = mac, rt_outgoing_index = 0, rt_hop_count = fh_hop_count h, rt_ts = now,
      rt_broadcast_id = fh_bc_id h, rt_rrep_sent = 0, rt_is_filled = 1\<rparr>"
| "learn (now, h, mac) (Some r) =
     (if sint (rt_broadcast_id r) < sint (fh_bc_id h) then r\<lparr>rt_broadcast_id := fh_bc_id h\<rparr>
      else if sint (fh_hop_count h) < sint (rt_hop_count r) then r\<lparr>rt_hop_count := fh_hop_count h\<rparr>
      else r)"

fun record_frame :: "int \<times> frame_header \<times> u8 list \<Rightarrow> routing_table \<Rightarrow> routing_table option" where
  "record_frame (now, h, mac) t = update_routing_table now t h mac"

definition frame_key :: "int \<times> frame_header \<times> u8 list \<Rightarrow> string" where
  "frame_key d = cstr (fh_src_ip (fst (snd d)))"

definition frame_ok :: "int \<times> frame_header \<times> u8 list \<Rightarrow> bool" where
  "frame_ok d \<longleftrightarrow> frame_key d \<noteq> [] \<and> length (snd (snd d)) = IF_HADDR"

lemma init_ok: "table_ok init_routing_table"
  by (simp add: table_ok_def init_routing_table_def zero_row_def row_ok_def live_row_def row_ip_def)

lemma table_row_ok: "table_ok t \<Longrightarrow> i < length t \<Longrightarrow> row_ok (t ! i)"
  by (simp add: table_ok_def)

lemma table_unique:
  "table_ok t \<Longrightarrow> i < length t \<Longrightarrow> j < length t \<Longrightarrow> live_row (t ! i) \<Longrightarrow> live_row (t ! j) \<Longrightarrow>
   row_ip (t ! i) = row_ip (t ! j) \<Longrightarrow> i = j"
  unfolding table_ok_def by blast

lemma routes_empty: "table_ok t \<Longrightarrow> routes t [] = None"
  unfolding routes_def row_of_None_iff table_ok_def row_ok_def by blast

text \<open>Where the search of \<open>get_row_entry\<close> ends.\<close>

lemma row_entry_cases [case_names None Some]:
  assumes "table_ok t"
  obtains "get_row_entry t ip = -1" and "\<And>i. i < length t \<Longrightarrow> row_ip (t ! i) \<noteq> cstr ip" and "routes t (cstr ip) = None"
  | i where "get_row_entry t ip = int i" and "i < length t" and "row_ip (t ! i) = cstr ip"
      and "live_row (t ! i) \<longleftrightarrow> cstr ip \<noteq> []" and "cstr ip \<noteq> [] \<Longrightarrow> routes t (cstr ip) = Some (t ! i)"
proof -
  let ?P = "\<lambda>r. cstr (rt_dest_ip r) = cstr ip"
  let ?i = "first_idx ?P t"
  show thesis
  proof (cases "?i < length t")
    case True
    have ip: "row_ip (t ! ?i) = cstr ip"
      using first_idx_hit [OF True] by (simp add: row_ip_def)
    have live: "live_row (t ! ?i) \<longleftrightarrow> cstr ip \<noteq> []"
      using table_row_ok [OF assms True] ip by (simp add: row_ok_def)
    have "routes t (cstr ip) = Some (t ! ?i)" if "cstr ip \<noteq> []"
      unfolding routes_def
      by (rule row_of_nth) (use True live ip that first_idx_before [of _ ?P t] in \<open>auto simp: row_ip_def\<close>)
    then show thesis
      using True ip live by (intro that(2) [of ?i]) (simp_all add: get_row_entry_def Let_def)
  next
    case False
    then have "?i = length t"
      using first_idx_le [of ?P t] by linarith
    then have n: "\<forall>r \<in> set t. row_ip r \<noteq> cstr ip"
      by (simp add: first_idx_full_iff row_ip_def)
    then show thesis
      using False by (intro that(1)) (auto simp: get_row_entry_def Let_def routes_def row_of_None_iff)
  qed
qed

lemma row_entry_iff:
  assumes "table_ok t" and "cstr ip \<noteq> []"
  shows "get_row_entry t ip = -1 \<longleftrightarrow> routes t (cstr ip) = None"
  using assms(1) by (cases rule: row_entry_cases [of t ip]) (use assms(2) in auto)

lemma row_entry_get:
  assumes "table_ok t" and "cstr ip \<noteq> []"
  shows "aget t (get_row_entry t ip) = routes t (cstr ip)"
  using assms(1) by (cases rule: row_entry_cases [of t ip]) (use assms(2) in \<open>auto simp: aget_nat\<close>, simp add: aget_def)

text \<open>Writing a well-formed row in place keeps the table well-formed.\<close>

lemma table_ok_update:
  assumes "table_ok t" and "i < length t" and "row_ok r"
    and "\<And>j. j < length t \<Longrightarrow> j \<noteq> i \<Longrightarrow> live_row r \<Longrightarrow> row_ip (t ! j) = row_ip r \<Longrightarrow> \<not> live_row (t ! j)"
  shows "table_ok (t[i := r])"
proof -
  have "\<forall>x \<in> set (t[i := r]). row_ok x"
    using assms(1,3) by (auto simp: table_ok_def dest!: subsetD [OF set_update_subset_insert])
  moreover have "a = b" if "a < length t" and "b < length t" and "live_row (t[i := r] ! a)" and "live_row (t[i := r] ! b)"
    and "row_ip (t[i := r] ! a) = row_ip (t[i := r] ! b)" for a b
  proof -
    consider "a = i" "b = i" | "a = i" "b \<noteq> i" | "a \<noteq> i" "b = i" | "a \<noteq> i" "b \<noteq> i"
      by blast
    then show ?thesis
    proof cases
      case 4
      then show ?thesis
        using that table_unique [OF assms(1), of a b] by simp
    qed (use that assms(4) [of a] assms(4) [of b] assms(2) in auto)
  qed
  ultimately show ?thesis
    using assms(1) unfolding table_ok_def by simp
qed

text \<open>Writing over a row without changing its address or whether it is used.\<close>

lemma update_in_place:
  assumes "table_ok t" and "i < length t" and "row_ok r" and "live_row r \<longleftrightarrow> live_row (t ! i)" and "row_ip r = row_ip (t ! i)"
  shows "table_ok (t[i := r])"
    and "routes (t[i := r]) = (if live_row r then (routes t)(row_ip r \<mapsto> r) else routes t)"
proof -
  have u: "\<not> live_row (t ! j)" if "j < length t" "j \<noteq> i" "live_row r" "row_ip (t ! j) = row_ip r" for j
    using table_unique [OF assms(1), of i j] assms that by auto
  show "table_ok (t[i := r])"
    by (rule table_ok_update [OF assms(1,2,3)]) (rule u)
  show "routes (t[i := r]) = (if live_row r then (routes t)(row_ip r \<mapsto> r) else routes t)"
  proof (cases "live_row r")
    case True
    have "row_of live_row row_ip (t[i := r]) = (row_of live_row row_ip t)(row_ip r \<mapsto> r)"
    proof (rule row_of_update)
      show "i < length t" and "live_row r" and "row_ip r = row_ip r" and "live_row (t ! i) \<Longrightarrow> row_ip (t ! i) = row_ip r"
        using assms(2,5) True by simp_all
      show "\<not> (live_row (t ! j) \<and> row_ip (t ! j) = row_ip r)" if "j < length t" and "j \<noteq> i" for j
        using u [OF that True] by blast
    qed
    then show ?thesis
      using True by (simp add: routes_def)
  next
    case False
    then show ?thesis
      using row_of_dead [of live_row r t i row_ip] assms(4) by (simp add: routes_def)
  qed
qed

lemma update_fresh:
  assumes "table_ok t" and "e < length t" and "\<not> live_row (t ! e)" and "row_ok r" and "live_row r"
    and "routes t (row_ip r) = None"
  shows "table_ok (t[e := r])" and "routes (t[e := r]) = (routes t)(row_ip r \<mapsto> r)"
proof -
  have n: "\<not> (live_row (t ! j) \<and> row_ip (t ! j) = row_ip r)" if "j < length t" for j
    using assms(6) that unfolding routes_def row_of_None_iff by simp
  show "table_ok (t[e := r])"
    by (rule table_ok_update [OF assms(1,2,4)]) (use n in blast)
  show "routes (t[e := r]) = (routes t)(row_ip r \<mapsto> r)"
    unfolding routes_def
    by (rule row_of_update) (use assms(2,3,5) n in \<open>blast+\<close>)
qed

lemma learn_known: "row_ip (learn d (Some r)) = row_ip r" "live_row (learn d (Some r)) = live_row r"
  "row_ok (learn d (Some r)) = row_ok r" "rt_next_hop_mac (learn d (Some r)) = rt_next_hop_mac r"
  by (cases d; simp add: row_ip_def live_row_def row_ok_def)+

lemma learn_new:
  assumes "length mac = IF_HADDR" and "cstr (fh_src_ip h) \<noteq> []"
  shows "row_ip (learn (now, h, mac) None) = cstr (fh_src_ip h)" and "live_row (learn (now, h, mac) None)"
    and "row_ok (learn (now, h, mac) None)"
  using assms by (simp_all add: row_ip_def live_row_def row_ok_def)

text \<open>\<open>update_routing_table\<close> in the two cases of the search.\<close>

lemma update_known:
  assumes "get_row_entry t (fh_src_ip h) = int i" and "i < length t"
  shows "update_routing_table now t h mac = Some (t[i := learn (now, h, mac) (Some (t ! i))])"
  using assms by (simp add: update_routing_table_def Let_def aget_nat aset_nat)

lemma update_unknown:
  assumes "table_ok t" and "get_row_entry t (fh_src_ip h) = -1"
  shows "update_routing_table now t h mac =
    (if get_empty_row t < length t then Some (t[get_empty_row t := learn (now, h, mac) None]) else None)"
proof (cases "get_empty_row t < length t")
  case True
  have "rt_outgoing_index (t ! get_empty_row t) = 0"
    using table_row_ok [OF assms(1) True] by (simp add: row_ok_def)
  then have "(t ! get_empty_row t)\<lparr>rt_is_filled := 1, rt_dest_ip := fh_src_ip h, rt_next_hop_mac := mac,
      rt_ts := now, rt_broadcast_id := fh_bc_id h, rt_rrep_sent := 0, rt_hop_count := fh_hop_count h\<rparr> =
      learn (now, h, mac) None"
    by (cases "t ! get_empty_row t") simp
  then show ?thesis
    using assms(2) True by (simp add: update_routing_table_def Let_def aget_nat aset_nat)
next
  case False
  then show ?thesis
    using assms(2) by (simp add: update_routing_table_def Let_def aget_nat)
qed

lemma empty_row_dead: "get_empty_row t < length t \<Longrightarrow> \<not> live_row (t ! get_empty_row t)"
  unfolding get_empty_row_def live_row_def by (auto dest: first_idx_hit)

lemma update_table:
  assumes "table_ok t" and "length mac = IF_HADDR" and "update_routing_table now t h mac = Some u"
  shows "table_ok u" and "cstr (fh_src_ip h) = [] \<Longrightarrow> routes u = routes t"
    and "cstr (fh_src_ip h) \<noteq> [] \<Longrightarrow>
      routes u = (routes t)(cstr (fh_src_ip h) \<mapsto> learn (now, h, mac) (routes t (cstr (fh_src_ip h))))"
proof -
  let ?s = "cstr (fh_src_ip h)"
  have "table_ok u \<and> (?s = [] \<longrightarrow> routes u = routes t) \<and>
        (?s \<noteq> [] \<longrightarrow> routes u = (routes t)(?s \<mapsto> learn (now, h, mac) (routes t ?s)))"
    using assms(1)
  proof (cases rule: row_entry_cases [of t "fh_src_ip h"])
    case None
    have e: "get_empty_row t < length t" and u: "u = t[get_empty_row t := learn (now, h, mac) None]"
      using assms(3) update_unknown [OF assms(1) None(1)] by (auto split: if_splits)
    have s: "?s \<noteq> []"
      using None(2) [OF e] table_row_ok [OF assms(1) e] empty_row_dead [OF e] by (auto simp: row_ok_def)
    note l = learn_new [OF assms(2) s, of now]
    show ?thesis
      using update_fresh [OF assms(1) e empty_row_dead [OF e] l(3,2)] None(3) s u l(1) by simp
  next
    case (Some i)
    let ?r = "learn (now, h, mac) (Some (t ! i))"
    have u: "u = t[i := ?r]"
      using assms(3) update_known [OF Some(1,2)] by simp
    have "row_ok ?r"
      using table_row_ok [OF assms(1) Some(2)] by (simp only: learn_known)
    from update_in_place [OF assms(1) Some(2) this] show ?thesis
      using Some u by (simp add: learn_known del: learn.simps)
  qed
  then show "table_ok u" and "?s = [] \<Longrightarrow> routes u = routes t"
    and "?s \<noteq> [] \<Longrightarrow> routes u = (routes t)(?s \<mapsto> learn (now, h, mac) (routes t ?s))"
    by blast+
qed

interpretation rt: merge_table routes record_frame frame_key learn frame_ok table_ok
proof
  show "table_ok u" if "table_ok t" "frame_ok d" "record_frame d t = Some u" for t d u
    using that update_table(1) by (cases d) (auto simp: frame_ok_def)
  show "routes u = (routes t)(frame_key d \<mapsto> learn d (routes t (frame_key d)))"
    if "table_ok t" "frame_ok d" "record_frame d t = Some u" for t d u
    using that update_table(3) [of t] by (cases d) (auto simp: frame_ok_def frame_key_def)
qed

lemma should_update_iff:
  assumes "table_ok t" and "cstr (fh_src_ip h) \<noteq> []"
  shows "should_update_rt t h = 1 \<longleftrightarrow>
    (case routes t (cstr (fh_src_ip h)) of None \<Rightarrow> True
     | Some r \<Rightarrow> sint (rt_broadcast_id r) < sint (fh_bc_id h) \<or> sint (fh_hop_count h) < sint (rt_hop_count r))"
  unfolding should_update_rt_def row_entry_get [OF assms] by (auto split: option.splits)

end
