(* ===== verification/Odr.thy ===== *)
theory Odr
  imports Odr_Table
begin

text \<open>
  The on-demand routing program, \<open>src/hw3/odr.c\<close>: route requests, route replies and payloads
  between hosts, and the requests of local clients.  A state holds the static variables of the
  program and the list of everything it has sent.  The order of frames, client messages and
  timeouts of \<open>select\<close> is a list of events.
\<close>

section \<open>State and output\<close>

text \<open>
  What the program takes from its host: the byte order, the two bytes that
  \<open>htons(PF_PACK_PROTO)\<close> makes of the address of a string, the contents of the block that
  \<open>malloc\<close> returns for a frame, and the name of the host.
\<close>

record odr_env =
  e_be :: bool
  e_proto :: "u8 list"
  e_heap :: "u8 list"
  e_hostname :: string

datatype odr_out = Raw cint "u8 list" | Local string peer_info

record odr =
  o_serv :: "server_details list"
  o_table :: routing_table
  o_broadcast_id :: cint
  o_packet_counter :: cint
  o_buffer :: "server_buf list"
  o_b_id :: cint
  o_out :: "odr_out list"

abbreviation ETH_FRAME_LEN :: nat where "ETH_FRAME_LEN \<equiv> 1514"
abbreviation DOMAIN_SOCK_PATH :: string where "DOMAIN_SOCK_PATH \<equiv> ''/tmp/deva_kau''"

definition b_mac :: "u8 list" where
  "b_mac = replicate 6 255"

definition emit :: "odr_out \<Rightarrow> odr \<Rightarrow> odr" where
  "emit x s = s\<lparr>o_out := o_out s @ [x]\<rparr>"

section \<open>Sending\<close>

definition send_packet :: "odr_env \<Rightarrow> u8 list \<Rightarrow> u8 list \<Rightarrow> cint \<Rightarrow> frame_header \<Rightarrow> odr \<Rightarrow> odr" where
  "send_packet env dest_mac src_mac ifidx header =
     emit (Raw ifidx (take 6 dest_mac @ take 6 src_mac @ e_proto env @ header_bytes (e_be env) header @
       drop (14 + SIZE_FRAME_HEAD) (e_heap env)))"

definition send_rreq :: "odr_env \<Rightarrow> cint \<Rightarrow> cint \<Rightarrow> string \<Rightarrow> string \<Rightarrow> cint \<Rightarrow> odr \<Rightarrow> odr option" where
  "send_rreq env b_id h_count src_ip dest_ip force_flag s =
     orun (\<lambda>d s. do {
       header \<leftarrow> populate_frame_header src_ip dest_ip h_count b_id rreq force_flag;
       Some (send_packet env b_mac (sd_mac d) (sd_index d) header s)
     }) (o_serv s) s"

definition send_rrep :: "odr_env \<Rightarrow> cint \<Rightarrow> cint \<Rightarrow> string \<Rightarrow> string \<Rightarrow> odr \<Rightarrow> odr option" where
  "send_rrep env b_id h_count dest_ip src_ip s =
     (let t_i = get_row_entry (o_table s) dest_ip in
      orun (\<lambda>d s. do {
        header \<leftarrow> populate_frame_header src_ip dest_ip h_count b_id rrep 0;
        r \<leftarrow> aget (o_table s) t_i;
        Some (send_packet env (rt_next_hop_mac r) (sd_mac d) (sd_index d) header s)
      }) (o_serv s) s)"

definition send_payload :: "odr_env \<Rightarrow> string \<Rightarrow> string \<Rightarrow> odr_type \<Rightarrow> string \<Rightarrow> cint \<Rightarrow> odr \<Rightarrow> odr option" where
  "send_payload env src_ip dest_ip payload msg force_flag s =
     (let t_i = get_row_entry (o_table s) dest_ip in
      if t_i = -1 then
        orun (\<lambda>d s. send_rreq env (o_broadcast_id s) 1 (sd_ip d) dest_ip force_flag s) (o_serv s) s
      else
        orun (\<lambda>d s. do {
          r \<leftarrow> aget (o_table s) t_i;
          header \<leftarrow> populate_frame_header src_ip dest_ip (rt_hop_count r) (o_broadcast_id s) payload force_flag;
          m \<leftarrow> strcpy MSG_LEN msg;
          Some (send_packet env (rt_next_hop_mac r) (sd_mac d) (sd_index d) (header\<lparr>fh_msg := m\<rparr>) s)
        }) (o_serv s) s)"

definition send_to_client :: "odr_env \<Rightarrow> string \<Rightarrow> peer_info \<Rightarrow> odr \<Rightarrow> odr option" where
  "send_to_client env msg p s = do {
     m \<leftarrow> msg_send (e_hostname env) ''dst_ip'' ''dst_port'' ''srcip'' ''srcport'' msg 0;
     Some (emit (Local (pi_src_port p) m) s)
   }"

text \<open>
  The message to the local server and its answer: \<open>reply\<close> is the datagram that arrives next on
  the local socket.  The result is the message that \<open>header.msg\<close> holds afterwards.
\<close>

definition get_data_from_server ::
  "odr_env \<Rightarrow> peer_info \<Rightarrow> frame_header \<Rightarrow> string \<Rightarrow> odr \<Rightarrow> (string \<times> odr) option" where
  "get_data_from_server env reply header source_vm s = do {
     let buf = dec_int (sint (fh_bc_id header)) @ ''#'' @ source_vm;
     m \<leftarrow> msg_send (e_hostname env) ''dst_ip'' ''dst_port'' ''srcip'' ''srcport'' buf 0;
     msg \<leftarrow> strcpy MSG_LEN (pi_msg reply);
     let s1 = emit (Local DOMAIN_SOCK_PATH m) s;
     Some (cstr msg, if sint (fh_bc_id header) > sint (o_b_id s1) then s1\<lparr>o_b_id := fh_bc_id header\<rparr> else s1)
   }"

section \<open>Frames\<close>

text \<open>The first part of \<open>process_frame\<close>: the table learns from requests and replies.\<close>

definition learn_route :: "int \<Rightarrow> frame_header \<Rightarrow> u8 list \<Rightarrow> odr \<Rightarrow> (odr \<times> bool) option" where
  "learn_route now h src_mac s =
     (if fh_type h \<noteq> odr_code payload_req \<and> fh_type h \<noteq> odr_code payload_resp \<and>
         should_update_rt (o_table s) h = 1 \<and> source_ip_cmp (fh_src_ip h) (o_serv s) = -1
      then do { t \<leftarrow> update_routing_table now (o_table s) h src_mac; Some (s\<lparr>o_table := t\<rparr>, True) }
      else Some (s, False))"

definition handle_rreq :: "odr_env \<Rightarrow> bool \<Rightarrow> frame_header \<Rightarrow> odr \<Rightarrow> odr option" where
  "handle_rreq env update h s = do {
     let index = source_ip_cmp (fh_dest_ip h) (o_serv s);
     let row_entry = get_row_entry (o_table s) (fh_dest_ip h);
     s1 \<leftarrow> (if index = -1 \<and> row_entry = -1 \<and> update
            then send_rreq env (fh_bc_id h) (fh_hop_count h + 1) (cstr (fh_src_ip h)) (cstr (fh_dest_ip h)) (fh_force_flag h) s
            else Some s);
     if index \<noteq> -1 \<or> row_entry \<noteq> -1
     then send_rrep env (fh_bc_id h) 1 (cstr (fh_src_ip h)) (cstr (fh_dest_ip h)) s1
     else Some s1
   }"

definition handle_rrep :: "odr_env \<Rightarrow> frame_header \<Rightarrow> odr \<Rightarrow> odr option" where
  "handle_rrep env h s =
     (if source_ip_cmp (fh_dest_ip h) (o_serv s) \<noteq> -1
      then send_payload env (cstr (fh_dest_ip h)) (cstr (fh_src_ip h)) payload_req '' '' 0 s
      else send_rrep env (fh_bc_id h) (fh_hop_count h + 1) (cstr (fh_dest_ip h)) (cstr (fh_src_ip h)) s)"

text \<open>The answer goes to the first waiting client that asked for the sender's address.\<close>

definition deliver :: "odr_env \<Rightarrow> frame_header \<Rightarrow> odr \<Rightarrow> odr option" where
  "deliver env h s =
     (let i = first_idx (\<lambda>b. cstr (fh_src_ip h) = pi_dest_ip (sb_peer b) \<and> sb_count b \<noteq> 0) (o_buffer s) in
      if i < length (o_buffer s) then do {
        msg \<leftarrow> c_string (fh_msg h);
        s1 \<leftarrow> send_to_client env msg (sb_peer (o_buffer s ! i)) s;
        Some (s1\<lparr>o_buffer := (o_buffer s1)[i := (o_buffer s1 ! i)\<lparr>sb_count := 0\<rparr>]\<rparr>)
      }
      else Some s)"

definition handle_payload :: "odr_env \<Rightarrow> peer_info \<Rightarrow> odr_type \<Rightarrow> frame_header \<Rightarrow> odr \<Rightarrow> odr option" where
  "handle_payload env reply ty h s =
     (if source_ip_cmp (fh_dest_ip h) (o_serv s) \<noteq> -1 then
        (if ty = payload_req then do {
           source_vm \<leftarrow> ip_to_vm (fh_src_ip h);
           (msg, s1) \<leftarrow> get_data_from_server env reply h source_vm s;
           send_payload env (cstr (fh_dest_ip h)) (cstr (fh_src_ip h)) payload_resp msg 0 s1
         }
         else deliver env h s)
      else if get_row_entry (o_table s) (fh_dest_ip h) \<noteq> -1 then do {
        msg \<leftarrow> c_string (fh_msg h);
        send_payload env (cstr (fh_src_ip h)) (cstr (fh_dest_ip h)) ty msg 0 s
      }
      else Some s)"

definition odr_process_frame :: "odr_env \<Rightarrow> int \<Rightarrow> peer_info \<Rightarrow> u8 list \<Rightarrow> odr \<Rightarrow> odr option" where
  "odr_process_frame env now reply output s = do {
     let src_mac = take 6 (drop 6 output);
     let h = header_of_bytes (e_be env) (take SIZE_FRAME_HEAD (drop 14 output));
     shown \<leftarrow> display_header h;
     (s1, update) \<leftarrow> learn_route now h src_mac s;
     if fh_type h = odr_code rreq then handle_rreq env update h s1
     else if fh_type h = odr_code rrep then handle_rrep env h s1
     else if fh_type h = odr_code payload_req then handle_payload env reply payload_req h s1
     else if fh_type h = odr_code payload_resp then handle_payload env reply payload_resp h s1
     else Some s1
   }"

section \<open>The loop of \<open>main\<close>\<close>

text \<open>
  A frame comes with the time and with the datagram that the local server would answer.
\<close>

datatype odr_event = RawFrame int peer_info "u8 list" | ClientMsg peer_info | Stale

definition client_request :: "odr_env \<Rightarrow> peer_info \<Rightarrow> odr \<Rightarrow> odr option" where
  "client_request env p s =
     (if length (pi_dest_ip p) < INET_ADDRSTRLEN then do {
        let s1 = s\<lparr>o_broadcast_id := o_broadcast_id s + 1, o_packet_counter := o_packet_counter s + 1\<rparr>;
        buf \<leftarrow> push_data_to_buf (o_buffer s1) p;
        orun (\<lambda>d s. send_payload env (sd_ip d) (pi_dest_ip p) payload_req '' '' (pi_flag p)
                (if pi_flag p = 1 then s\<lparr>o_table := init_routing_table\<rparr> else s))
          (o_serv s1) (s1\<lparr>o_buffer := buf\<rparr>)
      }
      else None)"

text \<open>The cleared buffer after \<open>Recvfrom\<close> has stored a frame in it.\<close>

definition frame_buf :: "u8 list \<Rightarrow> u8 list" where
  "frame_buf bs = take ETH_FRAME_LEN bs @ replicate (ETH_FRAME_LEN - length bs) 0"

fun odr_step :: "odr_env \<Rightarrow> odr_event \<Rightarrow> odr \<Rightarrow> odr option" where
  "odr_step env (RawFrame now reply bs) s =
     odr_process_frame env now reply (frame_buf bs) s"
| "odr_step env (ClientMsg p) s = client_request env p s"
| "odr_step env Stale s = Some (s\<lparr>o_table := init_routing_table\<rparr>)"

definition odr_init :: "server_details list \<Rightarrow> odr" where
  "odr_init serv = \<lparr>o_serv = serv, o_table = init_routing_table, o_broadcast_id = 1, o_packet_counter = 0,
     o_buffer = init_buffer 100, o_b_id = 0, o_out = []\<rparr>"

definition odr_main ::
  "odr_env \<Rightarrow> nat \<Rightarrow> 'a hw_kernel_scheme \<Rightarrow> (u8 list \<Rightarrow> string) \<Rightarrow> odr_event list \<Rightarrow> odr option" where
  "odr_main env fuel k ntop6 events = do {
     serv \<leftarrow> odr_populate_server_details fuel k ntop6 2;
     orun (odr_step env) events (odr_init serv)
   }"

section \<open>Lemmas: what is sent\<close>

text \<open>The header that \<open>populate_frame_header\<close> makes, with a message, and the frame around it.\<close>

definition head :: "string \<Rightarrow> string \<Rightarrow> cint \<Rightarrow> cint \<Rightarrow> odr_type \<Rightarrow> cint \<Rightarrow> string \<Rightarrow> frame_header" where
  "head src_ip dest_ip hops b_id ty force_flag msg =
     \<lparr>fh_src_ip = fixed IP_LEN src_ip, fh_dest_ip = fixed IP_LEN dest_ip, fh_hop_count = hops, fh_bc_id = b_id,
      fh_msg = fixed MSG_LEN msg, fh_force_flag = force_flag, fh_type = odr_code ty\<rparr>"

definition frame_to :: "odr_env \<Rightarrow> u8 list \<Rightarrow> frame_header \<Rightarrow> server_details \<Rightarrow> odr_out" where
  "frame_to env mac h d =
     Raw (sd_index d) (take 6 mac @ take 6 (sd_mac d) @ e_proto env @ header_bytes (e_be env) h @
       drop (14 + SIZE_FRAME_HEAD) (e_heap env))"

definition out_header :: "odr_env \<Rightarrow> odr_out \<Rightarrow> frame_header option" where
  "out_header env x = (case x of Raw i bs \<Rightarrow> Some (header_of_bytes (e_be env) (take SIZE_FRAME_HEAD (drop 14 bs)))
     | Local path p \<Rightarrow> None)"

definition env_ok :: "odr_env \<Rightarrow> bool" where
  "env_ok env \<longleftrightarrow> length (e_proto env) = 2"

definition serv_ok :: "server_details list \<Rightarrow> bool" where
  "serv_ok serv \<longleftrightarrow> (\<forall>d \<in> set serv. length (sd_mac d) = 6 \<and> length (sd_ip d) < IP_LEN \<and> NUL \<notin> set (sd_ip d))"

definition header_ok :: "frame_header \<Rightarrow> bool" where
  "header_ok h \<longleftrightarrow> length (fh_src_ip h) = IP_LEN \<and> length (fh_dest_ip h) = IP_LEN \<and> length (fh_msg h) = MSG_LEN"

lemma header_roundtrip: "header_ok h \<Longrightarrow> header_of_bytes be (header_bytes be h) = h"
  by (simp add: header_ok_def header_of_bytes_def header_bytes_def)

lemma header_bytes_length: "header_ok h \<Longrightarrow> length (header_bytes be h) = SIZE_FRAME_HEAD"
  by (simp add: header_ok_def header_bytes_def)

lemma head_ok: "length s < IP_LEN \<Longrightarrow> length d < IP_LEN \<Longrightarrow> length m < MSG_LEN \<Longrightarrow> header_ok (head s d hops b ty f m)"
  by (simp add: header_ok_def head_def fixed_length)

lemma populate_head:
  "length s < IP_LEN \<Longrightarrow> length d < IP_LEN \<Longrightarrow> populate_frame_header s d hops b ty f = Some (head s d hops b ty f [])"
  by (simp add: populate_frame_header_def strcpy_def head_def fixed_def)

lemma head_msg: "(head s d hops b ty f m)\<lparr>fh_msg := fixed MSG_LEN m'\<rparr> = head s d hops b ty f m'"
  by (simp add: head_def)

lemma send_packet_frame: "send_packet env mac (sd_mac d) (sd_index d) h = emit (frame_to env mac h d)"
  by (simp add: send_packet_def frame_to_def)

lemma out_header_frame:
  assumes "env_ok env" and "length mac = 6" and "length (sd_mac d) = 6" and "header_ok h"
  shows "out_header env (frame_to env mac h d) = Some h"
  using assms header_bytes_length [OF assms(4), of "e_be env"] header_roundtrip [OF assms(4)]
  by (simp add: out_header_def frame_to_def env_ok_def)

lemma orun_emits:
  assumes "\<And>d x. d \<in> set ds \<Longrightarrow> f d (s\<lparr>o_out := x\<rparr>) = Some (s\<lparr>o_out := x @ g d\<rparr>)"
  shows "orun f ds (s\<lparr>o_out := x\<rparr>) = Some (s\<lparr>o_out := x @ concat (map g ds)\<rparr>)"
  using assms by (induction ds arbitrary: x) simp_all

lemma orun_emits_out:
  assumes "\<And>d x. d \<in> set ds \<Longrightarrow> f d (s\<lparr>o_out := x\<rparr>) = Some (s\<lparr>o_out := x @ g d\<rparr>)"
  shows "orun f ds s = Some (s\<lparr>o_out := o_out s @ concat (map g ds)\<rparr>)"
  using orun_emits [of ds f s g "o_out s", OF assms] by simp

lemma orun_emits_map:
  assumes "\<And>d x. d \<in> set ds \<Longrightarrow> f d (s\<lparr>o_out := x\<rparr>) = Some (s\<lparr>o_out := x @ [g d]\<rparr>)"
  shows "orun f ds s = Some (s\<lparr>o_out := o_out s @ map g ds\<rparr>)"
  using orun_emits_out [of ds f s "\<lambda>d. [g d]", OF assms] by (simp add: concat_map_singleton)

lemma send_rreq_eq:
  assumes "length src < IP_LEN" and "length dest < IP_LEN"
  shows "send_rreq env b hops src dest f s =
    Some (s\<lparr>o_out := o_out s @ map (frame_to env b_mac (head src dest hops b rreq f [])) (o_serv s)\<rparr>)"
  unfolding send_rreq_def
  by (rule orun_emits_map) (simp add: populate_head [OF assms] send_packet_frame emit_def)

lemma send_rrep_eq:
  assumes "length src < IP_LEN" and "length dest < IP_LEN" and "aget (o_table s) (get_row_entry (o_table s) dest) = Some r"
  shows "send_rrep env b hops dest src s =
    Some (s\<lparr>o_out := o_out s @ map (frame_to env (rt_next_hop_mac r) (head src dest hops b rrep 0 [])) (o_serv s)\<rparr>)"
  unfolding send_rrep_def Let_def
  by (rule orun_emits_map) (simp add: populate_head [OF assms(1,2)] assms(3) send_packet_frame emit_def)

text \<open>Without a row for the destination the program reads before the table.\<close>

lemma send_rrep_wild:
  assumes "get_row_entry (o_table s) dest = -1" and "o_serv s \<noteq> []"
  shows "send_rrep env b hops dest src s = None"
proof -
  obtain d ds where "o_serv s = d # ds"
    using assms(2) by (cases "o_serv s") auto
  then show ?thesis
    using assms(1) by (auto simp: send_rrep_def aget_def Option.bind_eq_None_conv)
qed

lemma send_payload_route:
  assumes "length src < IP_LEN" and "length dest < IP_LEN" and "length msg < MSG_LEN"
    and "aget (o_table s) (get_row_entry (o_table s) dest) = Some r"
  shows "send_payload env src dest ty msg f s =
    Some (s\<lparr>o_out := o_out s @
      map (frame_to env (rt_next_hop_mac r) (head src dest (rt_hop_count r) (o_broadcast_id s) ty f msg)) (o_serv s)\<rparr>)"
proof -
  have "get_row_entry (o_table s) dest \<noteq> -1"
    using assms(4) by (auto simp: aget_def)
  then show ?thesis
    unfolding send_payload_def Let_def if_not_P [OF \<open>get_row_entry (o_table s) dest \<noteq> -1\<close>]
    by (intro orun_emits_map)
      (use assms in \<open>simp add: populate_head strcpy_def head_msg send_packet_frame emit_def\<close>)
qed

lemma send_payload_none:
  assumes "\<forall>d \<in> set (o_serv s). length (sd_ip d) < IP_LEN" and "length dest < IP_LEN"
    and "get_row_entry (o_table s) dest = -1"
  shows "send_payload env src dest ty msg f s =
    Some (s\<lparr>o_out := o_out s @
      concat (map (\<lambda>d. map (frame_to env b_mac (head (sd_ip d) dest 1 (o_broadcast_id s) rreq f [])) (o_serv s)) (o_serv s))\<rparr>)"
  unfolding send_payload_def Let_def if_P [OF assms(3)]
  by (rule orun_emits_out) (use assms in \<open>simp add: send_rreq_eq\<close>)

section \<open>Lemmas: requests on behalf of others\<close>

text \<open>The route requests with source \<open>S\<close> among the frames sent.\<close>

definition is_rreq :: "odr_env \<Rightarrow> string \<Rightarrow> odr_out \<Rightarrow> bool" where
  "is_rreq env S x = (case out_header env x of None \<Rightarrow> False
     | Some h \<Rightarrow> fh_type h = odr_code rreq \<and> cstr (fh_src_ip h) = S)"

definition rreqs :: "odr_env \<Rightarrow> string \<Rightarrow> odr_out list \<Rightarrow> odr_out list" where
  "rreqs env S outs = filter (is_rreq env S) outs"

text \<open>What goes out on the interface with index \<open>i\<close>, and how often a node lists that interface.\<close>

fun sent_on :: "cint \<Rightarrow> odr_out \<Rightarrow> bool" where
  "sent_on i (Raw j bs) \<longleftrightarrow> i = j"
| "sent_on i (Local path p) \<longleftrightarrow> False"

definition on_if :: "cint \<Rightarrow> odr_out list \<Rightarrow> nat" where
  "on_if i outs = length (filter (sent_on i) outs)"

definition ports :: "cint \<Rightarrow> server_details list \<Rightarrow> nat" where
  "ports i serv = length (filter (\<lambda>d. i = sd_index d) serv)"

definition own_ip :: "odr \<Rightarrow> string \<Rightarrow> bool" where
  "own_ip s ip \<longleftrightarrow> ip \<in> sd_ip ` set (o_serv s)"

definition odr_ok :: "odr \<Rightarrow> bool" where
  "odr_ok s \<longleftrightarrow> serv_ok (o_serv s) \<and> table_ok (o_table s) \<and> length (o_buffer s) = 100"

text \<open>A part of a handler that keeps the table and sends no request with source \<open>S\<close>.\<close>

definition calm :: "odr_env \<Rightarrow> string \<Rightarrow> odr \<Rightarrow> odr \<Rightarrow> bool" where
  "calm env S s s' \<longleftrightarrow> o_serv s' = o_serv s \<and> o_table s' = o_table s \<and> length (o_buffer s') = length (o_buffer s) \<and>
     rreqs env S (o_out s') = rreqs env S (o_out s)"

lemma calm_refl [simp]: "calm env S s s"
  by (simp add: calm_def)

lemma calm_trans: "calm env S s t \<Longrightarrow> calm env S t u \<Longrightarrow> calm env S s u"
  by (simp add: calm_def)

lemma calm_ok: "calm env S s t \<Longrightarrow> odr_ok t = odr_ok s"
  by (simp add: calm_def odr_ok_def)

lemma calm_own: "calm env S s t \<Longrightarrow> own_ip t ip = own_ip s ip"
  by (simp add: calm_def own_ip_def)

lemma is_rreq_frame:
  assumes "env_ok env" and "length mac = 6" and "length (sd_mac d) = 6"
    and "length src < IP_LEN" and "length dest < IP_LEN" and "length m < MSG_LEN" and "NUL \<notin> set src"
  shows "is_rreq env S (frame_to env mac (head src dest hops b ty f m) d) \<longleftrightarrow> ty = rreq \<and> src = S"
proof -
  have "odr_code ty = odr_code rreq \<longleftrightarrow> ty = rreq"
    by (cases ty) simp_all
  then show ?thesis
    using out_header_frame [OF assms(1-3) head_ok [OF assms(4-6)]] assms(7)
    by (simp add: is_rreq_def head_def cstr_fixed)
qed

lemma rreqs_quiet: "\<forall>x \<in> set xs. \<not> is_rreq env S x \<Longrightarrow> rreqs env S (outs @ xs) = rreqs env S outs"
  by (simp add: rreqs_def filter_False)

lemma rreqs_local [simp]: "rreqs env S (outs @ [Local path p]) = rreqs env S outs"
  by (rule rreqs_quiet) (simp add: is_rreq_def out_header_def)

lemma b_mac_length [simp]: "length b_mac = 6"
  by (simp add: b_mac_def)

lemma entry_row:
  assumes "table_ok t" and "aget t i = Some r"
  shows "length (rt_next_hop_mac r) = 6"
  using assms table_row_ok [of t "nat i"] by (auto dest!: aget_SomeD simp: row_ok_def)

lemma entry_some: "table_ok t \<Longrightarrow> get_row_entry t ip \<noteq> -1 \<Longrightarrow> \<exists>r. aget t (get_row_entry t ip) = Some r"
  by (cases rule: row_entry_cases [of t ip]) (auto simp: aget_nat)

lemma serv_okD: "serv_ok serv \<Longrightarrow> d \<in> set serv \<Longrightarrow> length (sd_mac d) = 6 \<and> length (sd_ip d) < IP_LEN \<and> NUL \<notin> set (sd_ip d)"
  by (simp add: serv_ok_def)

lemma calm_rreq:
  assumes "env_ok env" and "odr_ok s" and "length src < IP_LEN" and "length dest < IP_LEN" and "NUL \<notin> set src" and "src \<noteq> S"
    and "send_rreq env b hops src dest f s = Some t"
  shows "calm env S s t"
proof -
  have t: "t = s\<lparr>o_out := o_out s @ map (frame_to env b_mac (head src dest hops b rreq f [])) (o_serv s)\<rparr>"
    using assms(7) send_rreq_eq [OF assms(3,4)] by simp
  have "rreqs env S (o_out t) = rreqs env S (o_out s)"
    unfolding t using assms serv_okD [of "o_serv s"] is_rreq_frame [OF assms(1) b_mac_length]
    by (auto simp: odr_ok_def intro!: rreqs_quiet)
  then show ?thesis
    by (simp add: calm_def t)
qed

lemma calm_rrep:
  assumes "env_ok env" and "odr_ok s" and "length src < IP_LEN" and "length dest < IP_LEN" and "NUL \<notin> set src"
    and "send_rrep env b hops dest src s = Some t"
  shows "calm env S s t"
proof (cases "o_serv s = []")
  case True
  then show ?thesis
    using assms(6) by (simp add: send_rrep_def)
next
  case False
  then have "get_row_entry (o_table s) dest \<noteq> -1"
    using assms(6) send_rrep_wild by (metis option.distinct(1))
  then obtain r where r: "aget (o_table s) (get_row_entry (o_table s) dest) = Some r"
    using entry_some assms(2) by (auto simp: odr_ok_def)
  have t: "t = s\<lparr>o_out := o_out s @ map (frame_to env (rt_next_hop_mac r) (head src dest hops b rrep 0 [])) (o_serv s)\<rparr>"
    using assms(6) send_rrep_eq [OF assms(3,4) r] by simp
  have "length (rt_next_hop_mac r) = 6"
    using entry_row r assms(2) by (auto simp: odr_ok_def)
  then have "rreqs env S (o_out t) = rreqs env S (o_out s)"
    unfolding t using assms serv_okD [of "o_serv s"] is_rreq_frame [OF assms(1)]
    by (auto simp: odr_ok_def intro!: rreqs_quiet)
  then show ?thesis
    by (simp add: calm_def t)
qed

lemma calm_payload:
  assumes "env_ok env" and "odr_ok s" and "length src < IP_LEN" and "length dest < IP_LEN" and "NUL \<notin> set src"
    and "length msg < MSG_LEN" and "ty \<noteq> rreq" and "\<not> own_ip s S"
    and "send_payload env src dest ty msg f s = Some t"
  shows "calm env S s t"
proof (cases "get_row_entry (o_table s) dest = -1")
  case True
  have serv: "\<forall>d \<in> set (o_serv s). length (sd_ip d) < IP_LEN"
    using assms(2) by (auto simp: odr_ok_def serv_ok_def)
  have t: "t = s\<lparr>o_out := o_out s @
      concat (map (\<lambda>d. map (frame_to env b_mac (head (sd_ip d) dest 1 (o_broadcast_id s) rreq f [])) (o_serv s)) (o_serv s))\<rparr>"
    using assms(9) send_payload_none [OF serv assms(4) True] by simp
  have "\<not> is_rreq env S (frame_to env b_mac (head (sd_ip d) dest 1 (o_broadcast_id s) rreq f []) e)"
    if "d \<in> set (o_serv s)" and "e \<in> set (o_serv s)" for d e
    using that assms(1,2,4,8) serv_okD [of "o_serv s"]
    by (subst is_rreq_frame) (auto simp: odr_ok_def own_ip_def)
  then have "rreqs env S (o_out t) = rreqs env S (o_out s)"
    unfolding t by (auto intro!: rreqs_quiet)
  then show ?thesis
    by (simp add: calm_def t)
next
  case False
  then obtain r where r: "aget (o_table s) (get_row_entry (o_table s) dest) = Some r"
    using entry_some assms(2) by (auto simp: odr_ok_def)
  have t: "t = s\<lparr>o_out := o_out s @
      map (frame_to env (rt_next_hop_mac r) (head src dest (rt_hop_count r) (o_broadcast_id s) ty f msg)) (o_serv s)\<rparr>"
    using assms(9) send_payload_route [OF assms(3,4,6) r] by simp
  have "length (rt_next_hop_mac r) = 6"
    using entry_row r assms(2) by (auto simp: odr_ok_def)
  then have "rreqs env S (o_out t) = rreqs env S (o_out s)"
    unfolding t using assms serv_okD [of "o_serv s"] is_rreq_frame [OF assms(1)]
    by (auto simp: odr_ok_def intro!: rreqs_quiet)
  then show ?thesis
    by (simp add: calm_def t)
qed

lemma last_match_bound: "0 \<le> i \<Longrightarrow> 0 \<le> found \<Longrightarrow> 0 \<le> last_match P xs i found"
  by (induction xs arbitrary: i found) simp_all

lemma last_match_none: "0 \<le> i \<Longrightarrow> last_match P xs i (-1) = -1 \<longleftrightarrow> (\<forall>x \<in> set xs. \<not> P x)"
proof (induction xs arbitrary: i)
  case Nil
  show ?case by simp
next
  case (Cons x xs)
  then show ?case
    using last_match_bound [of "i + 1" i P xs] by (cases "P x") auto
qed

lemma source_ip_own: "source_ip_cmp ip (o_serv s) = -1 \<longleftrightarrow> \<not> own_ip s (cstr ip)"
  by (simp add: source_ip_cmp_def last_match_none own_ip_def image_iff) metis

text \<open>A header as it comes out of a frame and passes \<open>display_header\<close>.\<close>

definition shown :: "frame_header \<Rightarrow> bool" where
  "shown h \<longleftrightarrow> header_ok h \<and> NUL \<in> set (fh_src_ip h) \<and> NUL \<in> set (fh_dest_ip h)"

lemma shown_lengths: "shown h \<Longrightarrow> length (cstr (fh_src_ip h)) < IP_LEN" "shown h \<Longrightarrow> length (cstr (fh_dest_ip h)) < IP_LEN"
  using cstr_length [of "fh_src_ip h"] cstr_length [of "fh_dest_ip h"] by (auto simp: shown_def header_ok_def)

lemma shown_msg: "shown h \<Longrightarrow> c_string (fh_msg h) = Some m \<Longrightarrow> length m < MSG_LEN"
  using cstr_length [of "fh_msg h"] by (auto simp: shown_def header_ok_def c_string_def split: if_splits)

lemma decoded_ok: "14 + SIZE_FRAME_HEAD \<le> length bs \<Longrightarrow> header_ok (header_of_bytes be (take SIZE_FRAME_HEAD (drop 14 bs)))"
  by (simp add: header_ok_def header_of_bytes_def)

lemma display_shown: "header_ok h \<Longrightarrow> display_header h \<noteq> None \<longleftrightarrow> shown h"
  by (auto simp: display_header_def shown_def c_string_def)

lemma calm_handle_rrep:
  assumes "env_ok env" and "odr_ok s" and "shown h" and "\<not> own_ip s S" and "handle_rrep env h s = Some t"
  shows "calm env S s t"
proof (cases "source_ip_cmp (fh_dest_ip h) (o_serv s) = -1")
  case True
  then show ?thesis
    using assms(5) calm_rrep [OF assms(1,2) shown_lengths [OF assms(3)] cstr_no_nul] by (simp add: handle_rrep_def)
next
  case False
  then have "send_payload env (cstr (fh_dest_ip h)) (cstr (fh_src_ip h)) payload_req '' '' 0 s = Some t"
    using assms(5) by (simp add: handle_rrep_def)
  then show ?thesis
    by (rule calm_payload [OF assms(1,2) shown_lengths(2,1) [OF assms(3)] cstr_no_nul _ _ assms(4), rotated 2]) simp_all
qed

lemma calm_deliver:
  assumes "deliver env h s = Some t"
  shows "calm env S s t"
  using assms by (auto simp: deliver_def Let_def send_to_client_def emit_def calm_def bind_eq_Some_conv split: if_splits)

lemma calm_server:
  assumes "get_data_from_server env reply h vm s = Some (msg, t)"
  shows "calm env S s t" and "length msg < MSG_LEN"
proof -
  show "calm env S s t"
    using assms by (auto simp: get_data_from_server_def Let_def emit_def calm_def bind_eq_Some_conv split: if_splits)
  obtain a where "strcpy MSG_LEN (pi_msg reply) = Some a" and m: "msg = cstr a"
    using assms by (auto simp: get_data_from_server_def Let_def bind_eq_Some_conv)
  then have "NUL \<in> set a" and "length a = MSG_LEN"
    by (auto simp: strcpy_def nul_fixed fixed_length split: if_splits)
  then show "length msg < MSG_LEN"
    using cstr_length [of a] m by simp
qed

lemma calm_handle_payload:
  assumes "env_ok env" and "odr_ok s" and "shown h" and "\<not> own_ip s S" and "ty \<noteq> rreq"
    and "handle_payload env reply ty h s = Some t"
  shows "calm env S s t"
proof (cases "source_ip_cmp (fh_dest_ip h) (o_serv s) \<noteq> -1")
  case True
  show ?thesis
  proof (cases "ty = payload_req")
    case req: True
    obtain vm msg u where g: "get_data_from_server env reply h vm s = Some (msg, u)"
      and p: "send_payload env (cstr (fh_dest_ip h)) (cstr (fh_src_ip h)) payload_resp msg 0 u = Some t"
      using assms(6) True req by (auto simp: handle_payload_def bind_eq_Some_conv)
    note c = calm_server(1) [OF g, of S]
    have "calm env S u t"
      by (rule calm_payload [OF assms(1) _ shown_lengths(2,1) [OF assms(3)] _ calm_server(2) [OF g] _ _ p])
        (use c assms(2,4) in \<open>simp_all add: calm_ok calm_own\<close>)
    then show ?thesis
      by (rule calm_trans [OF c])
  next
    case False
    then show ?thesis
      using True assms(6) calm_deliver by (simp add: handle_payload_def)
  qed
next
  case False
  then show ?thesis
    using assms(6) calm_payload [OF assms(1,2) shown_lengths [OF assms(3)] _ shown_msg [OF assms(3)] assms(5,4)]
    by (auto simp: handle_payload_def bind_eq_Some_conv split: if_splits)
qed

lemma calm_handle_rreq:
  assumes "env_ok env" and "odr_ok s" and "shown h" and "update \<Longrightarrow> cstr (fh_src_ip h) \<noteq> S"
    and "handle_rreq env update h s = Some t"
  shows "calm env S s t"
proof -
  let ?flood = "source_ip_cmp (fh_dest_ip h) (o_serv s) = -1 \<and> get_row_entry (o_table s) (fh_dest_ip h) = -1 \<and> update"
  obtain u where u: "(if ?flood then send_rreq env (fh_bc_id h) (fh_hop_count h + 1) (cstr (fh_src_ip h))
        (cstr (fh_dest_ip h)) (fh_force_flag h) s else Some s) = Some u"
    and t: "(if source_ip_cmp (fh_dest_ip h) (o_serv s) \<noteq> -1 \<or> get_row_entry (o_table s) (fh_dest_ip h) \<noteq> -1
        then send_rrep env (fh_bc_id h) 1 (cstr (fh_src_ip h)) (cstr (fh_dest_ip h)) u else Some u) = Some t"
    using assms(5) by (auto simp: handle_rreq_def Let_def bind_eq_Some_conv)
  have su: "calm env S s u"
    using u calm_rreq [OF assms(1,2) shown_lengths [OF assms(3)] cstr_no_nul assms(4)] by (auto split: if_splits)
  moreover have "calm env S u t"
    using t su assms(2) calm_rrep [OF assms(1) _ shown_lengths(2,1) [OF assms(3)] cstr_no_nul]
    by (auto simp: calm_ok split: if_splits)
  ultimately show ?thesis
    by (rule calm_trans)
qed

lemma calm_client:
  assumes "env_ok env" and "odr_ok s" and "\<not> own_ip s S" and "pi_flag p \<noteq> 1" and "client_request env p s = Some t"
  shows "calm env S s t"
proof -
  obtain buf where len: "length (pi_dest_ip p) < INET_ADDRSTRLEN" and b: "push_data_to_buf (o_buffer s) p = Some buf"
    and r: "orun (\<lambda>d s. send_payload env (sd_ip d) (pi_dest_ip p) payload_req '' '' (pi_flag p) s) (o_serv s)
        (s\<lparr>o_broadcast_id := o_broadcast_id s + 1, o_packet_counter := o_packet_counter s + 1, o_buffer := buf\<rparr>) = Some t"
    using assms(4,5) by (auto simp: client_request_def Let_def bind_eq_Some_conv split: if_splits)
  show ?thesis
  proof (rule orun_keeps [OF _ _ r])
    show "calm env S s (s\<lparr>o_broadcast_id := o_broadcast_id s + 1, o_packet_counter := o_packet_counter s + 1, o_buffer := buf\<rparr>)"
      using b by (auto simp: calm_def push_data_to_buf_def dest: aset_length)
    show "calm env S s v" if "d \<in> set (o_serv s)" and "calm env S s u"
      and "send_payload env (sd_ip d) (pi_dest_ip p) payload_req '' '' (pi_flag p) u = Some v" for d u v
    proof (rule calm_trans [OF that(2) calm_payload [OF assms(1) _ _ _ _ _ _ _ that(3)]])
      show "odr_ok u" and "\<not> own_ip u S"
        using that(2) assms(2,3) by (simp_all add: calm_ok calm_own)
      show "length (sd_ip d) < IP_LEN" and "NUL \<notin> set (sd_ip d)"
        using serv_okD [OF _ that(1)] assms(2) by (simp_all add: odr_ok_def)
    qed (use len in simp_all)
  qed
qed

text \<open>What a frame does to the table and to the requests with source \<open>S\<close>.\<close>

abbreviation decoded :: "odr_env \<Rightarrow> u8 list \<Rightarrow> frame_header" where
  "decoded env bs \<equiv> header_of_bytes (e_be env) (take SIZE_FRAME_HEAD (drop 14 bs))"

abbreviation sender_mac :: "u8 list \<Rightarrow> u8 list" where
  "sender_mac bs \<equiv> take 6 (drop 6 bs)"

definition learns :: "frame_header \<Rightarrow> odr \<Rightarrow> bool" where
  "learns h s \<longleftrightarrow> fh_type h \<noteq> odr_code payload_req \<and> fh_type h \<noteq> odr_code payload_resp \<and>
     should_update_rt (o_table s) h = 1 \<and> \<not> own_ip s (cstr (fh_src_ip h))"

lemma learn_route_eq:
  "learn_route now h mac s =
     (if learns h s then map_option (\<lambda>t. (s\<lparr>o_table := t\<rparr>, True)) (update_routing_table now (o_table s) h mac)
      else Some (s, False))"
  by (auto simp: learn_route_def learns_def source_ip_own map_option_case split: option.splits)

lemma handlers_calm:
  assumes "env_ok env" and "odr_ok s" and "shown h" and "\<not> own_ip s S" and "update \<Longrightarrow> cstr (fh_src_ip h) \<noteq> S"
    and "(if fh_type h = odr_code rreq then handle_rreq env update h s
          else if fh_type h = odr_code rrep then handle_rrep env h s
          else if fh_type h = odr_code payload_req then handle_payload env reply payload_req h s
          else if fh_type h = odr_code payload_resp then handle_payload env reply payload_resp h s
          else Some s) = Some t"
  shows "calm env S s t"
  using assms(6) calm_handle_rreq [OF assms(1-3,5)] calm_handle_rrep [OF assms(1-4)]
    calm_handle_payload [OF assms(1-4), of payload_req] calm_handle_payload [OF assms(1-4), of payload_resp]
  by (auto split: if_splits)

lemma process_cases:
  assumes "14 + SIZE_FRAME_HEAD \<le> length bs" and "odr_process_frame env now reply bs s = Some t"
  obtains tb where "shown (decoded env bs)"
    and "if learns (decoded env bs) s then update_routing_table now (o_table s) (decoded env bs) (sender_mac bs) = Some tb
         else tb = o_table s"
    and "(if fh_type (decoded env bs) = odr_code rreq then handle_rreq env (learns (decoded env bs) s) (decoded env bs) (s\<lparr>o_table := tb\<rparr>)
          else if fh_type (decoded env bs) = odr_code rrep then handle_rrep env (decoded env bs) (s\<lparr>o_table := tb\<rparr>)
          else if fh_type (decoded env bs) = odr_code payload_req then handle_payload env reply payload_req (decoded env bs) (s\<lparr>o_table := tb\<rparr>)
          else if fh_type (decoded env bs) = odr_code payload_resp then handle_payload env reply payload_resp (decoded env bs) (s\<lparr>o_table := tb\<rparr>)
          else Some (s\<lparr>o_table := tb\<rparr>)) = Some t"
proof -
  let ?h = "decoded env bs"
  obtain out r where d: "display_header ?h = Some out" and l: "learn_route now ?h (sender_mac bs) s = Some r"
    and k: "(case r of (s1, update) \<Rightarrow>
         if fh_type ?h = odr_code rreq then handle_rreq env update ?h s1
         else if fh_type ?h = odr_code rrep then handle_rrep env ?h s1
         else if fh_type ?h = odr_code payload_req then handle_payload env reply payload_req ?h s1
         else if fh_type ?h = odr_code payload_resp then handle_payload env reply payload_resp ?h s1
         else Some s1) = Some t"
    using assms(2) unfolding odr_process_frame_def Let_def bind_eq_Some_conv by blast
  have "shown ?h"
    using display_shown [OF decoded_ok [OF assms(1), of "e_be env"]] d by simp
  moreover obtain tb where "r = (s\<lparr>o_table := tb\<rparr>, learns ?h s)"
    and "if learns ?h s then update_routing_table now (o_table s) ?h (sender_mac bs) = Some tb else tb = o_table s"
    using l by (cases "learns ?h s") (auto simp: learn_route_eq)
  ultimately show thesis
    using that k by simp
qed

lemma filter_frames: "length (filter (sent_on i) (filter (is_rreq env S) (map (frame_to env mac h) ds))) \<le> ports i ds"
proof (induction ds)
  case (Cons d ds)
  have "sent_on i (frame_to env mac h d) \<longleftrightarrow> i = sd_index d"
    by (simp add: frame_to_def)
  with Cons show ?case
    by (auto simp: ports_def)
qed (simp add: ports_def)

lemma rreq_growth:
  assumes "env_ok env" and "odr_ok s" and "shown h" and "handle_rreq env update h s = Some t"
  shows "on_if i (rreqs env S (o_out t)) \<le> on_if i (rreqs env S (o_out s)) + ports i (o_serv s)"
proof (cases "source_ip_cmp (fh_dest_ip h) (o_serv s) = -1 \<and> get_row_entry (o_table s) (fh_dest_ip h) = -1 \<and> update")
  case True
  then have "o_out t = o_out s @ map (frame_to env b_mac (head (cstr (fh_src_ip h)) (cstr (fh_dest_ip h)) (fh_hop_count h + 1) (fh_bc_id h) rreq (fh_force_flag h) []))
      (o_serv s)"
    using assms(4) send_rreq_eq [OF shown_lengths [OF assms(3)]] by (auto simp: handle_rreq_def Let_def)
  then show ?thesis
    using filter_frames [of i env S] by (simp add: rreqs_def on_if_def)
next
  case False
  then have "handle_rreq env False h s = Some t"
    using assms(4) by (auto simp: handle_rreq_def Let_def)
  then have "calm env S s t"
    by (rule calm_handle_rreq [OF assms(1-3), rotated]) simp
  then show ?thesis
    by (simp add: calm_def)
qed

lemma unowned_address:
  assumes "serv_ok (o_serv s)" and "length S \<ge> IP_LEN"
  shows "\<not> own_ip s S"
  using assms by (force simp: own_ip_def serv_ok_def)

lemma frame_effect:
  assumes "env_ok env" and "odr_ok s" and "14 + SIZE_FRAME_HEAD \<le> length bs" and "odr_process_frame env now reply bs s = Some t"
  shows "o_serv t = o_serv s" and "odr_ok t"
    and "if learns (decoded env bs) s
         then update_routing_table now (o_table s) (decoded env bs) (sender_mac bs) = Some (o_table t)
         else o_table t = o_table s"
    and "\<not> own_ip s S \<Longrightarrow> (learns (decoded env bs) s \<Longrightarrow> cstr (fh_src_ip (decoded env bs)) \<noteq> S) \<Longrightarrow>
      rreqs env S (o_out t) = rreqs env S (o_out s)"
    and "\<not> own_ip s S \<Longrightarrow> on_if i (rreqs env S (o_out t)) \<le> on_if i (rreqs env S (o_out s)) + ports i (o_serv s)"
proof -
  let ?h = "decoded env bs"
  have m: "length (sender_mac bs) = IF_HADDR"
    using assms(3) by simp
  obtain tb where sh: "shown ?h"
    and tb: "if learns ?h s then update_routing_table now (o_table s) ?h (sender_mac bs) = Some tb else tb = o_table s"
    and k: "(if fh_type ?h = odr_code rreq then handle_rreq env (learns ?h s) ?h (s\<lparr>o_table := tb\<rparr>)
          else if fh_type ?h = odr_code rrep then handle_rrep env ?h (s\<lparr>o_table := tb\<rparr>)
          else if fh_type ?h = odr_code payload_req then handle_payload env reply payload_req ?h (s\<lparr>o_table := tb\<rparr>)
          else if fh_type ?h = odr_code payload_resp then handle_payload env reply payload_resp ?h (s\<lparr>o_table := tb\<rparr>)
          else Some (s\<lparr>o_table := tb\<rparr>)) = Some t"
    using process_cases [OF assms(3,4)] .
  have "table_ok tb"
    using tb assms(2) update_table(1) [OF _ m] by (auto simp: odr_ok_def split: if_splits)
  then have ok: "odr_ok (s\<lparr>o_table := tb\<rparr>)"
    using assms(2) by (simp add: odr_ok_def)
  have own: "own_ip (s\<lparr>o_table := tb\<rparr>) ip = own_ip s ip" for ip
    by (simp add: own_ip_def)
  note c = handlers_calm [OF assms(1) ok sh _ _ k]
  let ?S = "replicate IP_LEN CHR ''x''"
  have "length (cstr (fh_src_ip ?h)) < length ?S"
    using shown_lengths(1) [OF sh] by simp
  then have "cstr (fh_src_ip ?h) \<noteq> ?S"
    by fastforce
  moreover have "\<not> own_ip s ?S"
    by (rule unowned_address) (use assms(2) in \<open>simp_all add: odr_ok_def\<close>)
  ultimately have calm0: "calm env ?S (s\<lparr>o_table := tb\<rparr>) t"
    by (intro c) (simp_all add: own)
  then show "o_serv t = o_serv s" and "odr_ok t"
    and "if learns ?h s then update_routing_table now (o_table s) ?h (sender_mac bs) = Some (o_table t) else o_table t = o_table s"
    using ok tb calm_ok [OF calm0] by (auto simp: calm_def)
  show "rreqs env S (o_out t) = rreqs env S (o_out s)" if "\<not> own_ip s S" and "learns ?h s \<Longrightarrow> cstr (fh_src_ip ?h) \<noteq> S"
    using c [of S] that by (simp add: own calm_def)
  show "on_if i (rreqs env S (o_out t)) \<le> on_if i (rreqs env S (o_out s)) + ports i (o_serv s)" if "\<not> own_ip s S"
  proof (cases "fh_type ?h = odr_code rreq")
    case True
    then show ?thesis
      using k rreq_growth [OF assms(1) ok sh, of "learns ?h s" t i S] by simp
  next
    case False
    then have "calm env S (s\<lparr>o_table := tb\<rparr>) t"
      using k handlers_calm [OF assms(1) ok sh, of S False reply t] that by (simp add: own)
    then show ?thesis
      by (simp add: calm_def)
  qed
qed

text \<open>The state stays well-formed, and the interfaces are fixed.\<close>

lemma client_fields:
  assumes "env_ok env" and "odr_ok s" and "client_request env p s = Some t"
  shows "odr_ok t \<and> o_serv t = o_serv s \<and> (o_table t = o_table s \<or> o_table t = init_routing_table)"
proof -
  let ?P = "\<lambda>u. odr_ok u \<and> o_serv u = o_serv s \<and> (o_table u = o_table s \<or> o_table u = init_routing_table)"
  obtain buf where len: "length (pi_dest_ip p) < INET_ADDRSTRLEN" and b: "push_data_to_buf (o_buffer s) p = Some buf"
    and r: "orun (\<lambda>d s. send_payload env (sd_ip d) (pi_dest_ip p) payload_req '' '' (pi_flag p)
                (if pi_flag p = 1 then s\<lparr>o_table := init_routing_table\<rparr> else s)) (o_serv s)
        (s\<lparr>o_broadcast_id := o_broadcast_id s + 1, o_packet_counter := o_packet_counter s + 1, o_buffer := buf\<rparr>) = Some t"
    using assms(3) by (auto simp: client_request_def Let_def bind_eq_Some_conv split: if_splits)
  show ?thesis
  proof (rule orun_keeps [where P = ?P, OF _ _ r])
    show "?P (s\<lparr>o_broadcast_id := o_broadcast_id s + 1, o_packet_counter := o_packet_counter s + 1, o_buffer := buf\<rparr>)"
      using b assms(2) by (auto simp: odr_ok_def push_data_to_buf_def dest: aset_length)
    show "?P v" if d: "d \<in> set (o_serv s)" and u: "?P u"
      and v: "send_payload env (sd_ip d) (pi_dest_ip p) payload_req '' '' (pi_flag p)
                (if pi_flag p = 1 then u\<lparr>o_table := init_routing_table\<rparr> else u) = Some v" for d u v
    proof -
      let ?u = "if pi_flag p = 1 then u\<lparr>o_table := init_routing_table\<rparr> else u"
      have ok: "odr_ok ?u" and serv: "o_serv ?u = o_serv s" and tb: "o_table ?u = o_table s \<or> o_table ?u = init_routing_table"
        using u init_ok by (auto simp: odr_ok_def)
      have c: "calm env (replicate IP_LEN CHR ''x'') ?u v"
      proof (rule calm_payload [OF assms(1) ok _ _ _ _ _ unowned_address v])
        show "length (sd_ip d) < IP_LEN" and "NUL \<notin> set (sd_ip d)"
          using serv_okD [OF _ d] assms(2) by (simp_all add: odr_ok_def)
      qed (use len ok in \<open>simp_all add: odr_ok_def\<close>)
      then show ?thesis
        using ok serv tb calm_ok [OF c] unfolding calm_def by simp
    qed
  qed
qed

lemma frame_buf_room: "14 + SIZE_FRAME_HEAD \<le> length (frame_buf bs)"
  by (simp add: frame_buf_def)

lemma step_fields:
  assumes "env_ok env" and "odr_ok s" and "odr_step env e s = Some t"
  shows "odr_ok t \<and> o_serv t = o_serv s"
proof (cases e)
  case (RawFrame now reply bs)
  then show ?thesis
    using assms(3) frame_effect(1,2) [OF assms(1,2) frame_buf_room] by simp
next
  case (ClientMsg p)
  then show ?thesis
    using client_fields assms by simp
next
  case Stale
  then show ?thesis
    using assms(2,3) init_ok by (auto simp: odr_ok_def)
qed

definition node_ok :: "odr_env \<Rightarrow> server_details list \<Rightarrow> odr \<Rightarrow> bool" where
  "node_ok env serv s \<longleftrightarrow> env_ok env \<and> odr_ok s \<and> o_serv s = serv"

interpretation node: guarded_machine "odr_step env" "\<lambda>_. True" "node_ok env serv" for env serv
  by unfold_locales (use step_fields in \<open>auto simp: node_ok_def\<close>)

lemma node_init: "env_ok env \<Longrightarrow> serv_ok serv \<Longrightarrow> node_ok env serv (odr_init serv)"
  by (simp add: node_ok_def odr_init_def odr_ok_def init_ok init_buffer_def)

end
