(* ===== verification/Odr_Routes.thy ===== *)
theory Odr_Routes
  imports Odr
begin

text \<open>
  Properties of the routing program: what a node keeps in its table, how often it repeats a
  route request, along which neighbours replies travel, which frames make it read before its
  table, and an exchange between two neighbours from the request of a client to the answer.
\<close>

section \<open>Runs without a reset of the table\<close>

fun no_reset :: "odr_event \<Rightarrow> bool" where
  "no_reset (RawFrame now reply bs) = True"
| "no_reset (ClientMsg p) = (pi_flag p \<noteq> 1)"
| "no_reset Stale = False"

lemma client_table:
  assumes "env_ok env" and "odr_ok s" and "pi_flag p \<noteq> 1" and "client_request env p s = Some t"
  shows "o_table t = o_table s"
  using calm_client [OF assms(1,2) unowned_address assms(3,4), of "replicate IP_LEN CHR ''x''"] assms(2)
  by (simp add: calm_def odr_ok_def)

lemma learns_routes:
  assumes "odr_ok s" and "length mac = IF_HADDR" and "update_routing_table now (o_table s) h mac = Some tb"
  shows "routes tb k = (if k = cstr (fh_src_ip h) \<and> k \<noteq> [] then Some (learn (now, h, mac) (routes (o_table s) k))
           else routes (o_table s) k)"
proof -
  have ok: "table_ok (o_table s)"
    using assms(1) by (simp add: odr_ok_def)
  show ?thesis
    using update_table(2,3) [OF ok assms(2,3)] by (cases "cstr (fh_src_ip h) = []") auto
qed

text \<open>One frame and the route to one address.\<close>

lemma frame_routes:
  assumes "env_ok env" and "odr_ok s" and "odr_process_frame env now reply (frame_buf bs) s = Some t"
  shows "routes (o_table t) k =
    (if learns (decoded env (frame_buf bs)) s \<and> k = cstr (fh_src_ip (decoded env (frame_buf bs))) \<and> k \<noteq> []
     then Some (learn (now, decoded env (frame_buf bs), sender_mac (frame_buf bs)) (routes (o_table s) k))
     else routes (o_table s) k)"
proof -
  let ?h = "decoded env (frame_buf bs)" and ?mac = "sender_mac (frame_buf bs)"
  have m: "length ?mac = IF_HADDR"
    using frame_buf_room [of bs] by simp
  note f = frame_effect(3) [OF assms(1,2) frame_buf_room assms(3)]
  show ?thesis
  proof (cases "learns ?h s")
    case True
    then have "update_routing_table now (o_table s) ?h ?mac = Some (o_table t)"
      using f by simp
    from learns_routes [OF assms(2) m this] show ?thesis
      unfolding simp_thms eqTrueI [OF True] .
  next
    case False
    then show ?thesis
      using f by simp
  qed
qed

lemma step_routes [consumes 4, case_names same learned]:
  assumes "env_ok env" and "odr_ok s" and "no_reset e" and "odr_step env e s = Some t"
  obtains "routes (o_table t) k = routes (o_table s) k"
  | now reply bs where "e = RawFrame now reply bs" and "learns (decoded env (frame_buf bs)) s"
      and "k = cstr (fh_src_ip (decoded env (frame_buf bs)))" and "k \<noteq> []"
      and "routes (o_table t) k =
        Some (learn (now, decoded env (frame_buf bs), sender_mac (frame_buf bs)) (routes (o_table s) k))"
proof (cases e)
  case (RawFrame now reply bs)
  have p: "odr_process_frame env now reply (frame_buf bs) s = Some t"
    using assms(4) RawFrame by simp
  note r = frame_routes [OF assms(1,2) p, of k]
  show thesis
  proof (cases "learns (decoded env (frame_buf bs)) s \<and> k = cstr (fh_src_ip (decoded env (frame_buf bs))) \<and> k \<noteq> []")
    case True
    show thesis
      by (rule that(2) [OF RawFrame]) (use True r [unfolded if_P [OF True]] in blast)+
  next
    case False
    show thesis
      by (rule that(1)) (rule r [unfolded if_not_P [OF False]])
  qed
next
  case (ClientMsg p)
  then show thesis
    using client_table [OF assms(1,2)] assms(3,4) that(1) by simp
next
  case Stale
  then show thesis
    using assms(3) by simp
qed

lemma learns_improves:
  assumes "odr_ok s" and "learns h s" and "cstr (fh_src_ip h) \<noteq> []" and "routes (o_table s) (cstr (fh_src_ip h)) = Some r"
  shows "sint (rt_broadcast_id r) < sint (fh_bc_id h) \<or> sint (fh_hop_count h) < sint (rt_hop_count r)"
  using assms should_update_iff [of "o_table s" h] by (simp add: learns_def odr_ok_def)

text \<open>A route keeps its first neighbour, and its identifier never decreases.\<close>

lemma route_sticks:
  assumes "node_ok env serv s" and "\<forall>e \<in> set evs. no_reset e" and "orun (odr_step env) evs s = Some t"
    and "routes (o_table s) k = Some r"
  shows "\<exists>r'. routes (o_table t) k = Some r' \<and> rt_next_hop_mac r' = rt_next_hop_mac r \<and>
           sint (rt_broadcast_id r) \<le> sint (rt_broadcast_id r')"
proof -
  let ?Q = "\<lambda>u. \<exists>r'. routes (o_table u) k = Some r' \<and> rt_next_hop_mac r' = rt_next_hop_mac r \<and>
           sint (rt_broadcast_id r) \<le> sint (rt_broadcast_id r')"
  have "node_ok env serv t \<and> ?Q t"
  proof (rule orun_keeps [where P = "\<lambda>u. node_ok env serv u \<and> ?Q u", OF _ _ assms(3)])
    show "node_ok env serv s \<and> ?Q s"
      using assms(1,4) by simp
    show "node_ok env serv v \<and> ?Q v" if e: "e \<in> set evs" and u: "node_ok env serv u \<and> ?Q u" and v: "odr_step env e u = Some v"
      for e u v
    proof -
      have env: "env_ok env" and ok: "odr_ok u" and nr: "no_reset e"
        using u e assms(2) by (auto simp: node_ok_def)
      obtain r' where r': "routes (o_table u) k = Some r'" "rt_next_hop_mac r' = rt_next_hop_mac r"
        "sint (rt_broadcast_id r) \<le> sint (rt_broadcast_id r')"
        using u by blast
      have "?Q v"
        using env ok nr v
      proof (cases rule: step_routes [where k = k])
        case same
        then show ?thesis
          using r' by simp
      next
        case (learned now reply bs)
        then show ?thesis
          using r' by (auto simp: learn_known)
      qed
      moreover have "node_ok env serv v"
        using node.step_inv [of env serv u e v] u v by simp
      ultimately show ?thesis
        by simp
    qed
  qed
  then show ?thesis
    by simp
qed

section \<open>How often a request is repeated\<close>

text \<open>
  The events of a run in which the requests and replies of the source \<open>S\<close> carry identifiers up
  to \<open>M\<close> and hop counts up to \<open>H\<close>, and nothing resets the table.
\<close>

definition flood_ok :: "odr_env \<Rightarrow> string \<Rightarrow> nat \<Rightarrow> nat \<Rightarrow> odr_event \<Rightarrow> bool" where
  "flood_ok env S M H e \<longleftrightarrow> no_reset e \<and>
     (case e of RawFrame now reply bs \<Rightarrow>
        (let h = decoded env (frame_buf bs) in
         cstr (fh_src_ip h) = S \<longrightarrow> 0 \<le> sint (fh_bc_id h) \<and> sint (fh_bc_id h) \<le> int M \<and>
           0 \<le> sint (fh_hop_count h) \<and> sint (fh_hop_count h) \<le> int H)
      | _ \<Rightarrow> True)"

definition row_bounded :: "nat \<Rightarrow> nat \<Rightarrow> routing_table_row \<Rightarrow> bool" where
  "row_bounded M H r \<longleftrightarrow> 0 \<le> sint (rt_broadcast_id r) \<and> sint (rt_broadcast_id r) \<le> int M \<and>
     0 \<le> sint (rt_hop_count r) \<and> sint (rt_hop_count r) \<le> int H"

definition flood_inv :: "odr_env \<Rightarrow> string \<Rightarrow> nat \<Rightarrow> nat \<Rightarrow> server_details list \<Rightarrow> odr \<Rightarrow> bool" where
  "flood_inv env S M H serv s \<longleftrightarrow> node_ok env serv s \<and> S \<notin> sd_ip ` set serv \<and> S \<noteq> [] \<and>
     (\<forall>r. routes (o_table s) S = Some r \<longrightarrow> row_bounded M H r)"

definition row_rank :: "nat \<Rightarrow> nat \<Rightarrow> routing_table_row option \<Rightarrow> nat" where
  "row_rank M H v = (case v of None \<Rightarrow> M + H + 1
     | Some r \<Rightarrow> nat (int M - sint (rt_broadcast_id r)) + nat (sint (rt_hop_count r)))"

definition flood_rank :: "nat \<Rightarrow> nat \<Rightarrow> string \<Rightarrow> odr \<Rightarrow> nat" where
  "flood_rank M H S s = row_rank M H (routes (o_table s) S)"

definition flood_step :: "odr_env \<Rightarrow> string \<Rightarrow> odr_event \<Rightarrow> odr \<Rightarrow> odr \<times> bool" where
  "flood_step env S e s = (case odr_step env e s of None \<Rightarrow> (s, False)
     | Some t \<Rightarrow> (t, rreqs env S (o_out t) \<noteq> rreqs env S (o_out s)))"

text \<open>Each row that a frame of the source improves gets a lower rank.\<close>

lemma learn_bounded:
  assumes "0 \<le> sint (fh_bc_id h)" and "sint (fh_bc_id h) \<le> int M" and "0 \<le> sint (fh_hop_count h)" and "sint (fh_hop_count h) \<le> int H"
    and "\<And>r. v = Some r \<Longrightarrow> row_bounded M H r"
  shows "row_bounded M H (learn (now, h, mac) v)"
  using assms by (cases v) (auto simp: row_bounded_def)

lemma learn_lower:
  assumes "0 \<le> sint (fh_bc_id h)" and "sint (fh_bc_id h) \<le> int M" and "0 \<le> sint (fh_hop_count h)" and "sint (fh_hop_count h) \<le> int H"
    and "\<And>r. v = Some r \<Longrightarrow> row_bounded M H r \<and>
      (sint (rt_broadcast_id r) < sint (fh_bc_id h) \<or> sint (fh_hop_count h) < sint (rt_hop_count r))"
  shows "row_rank M H (Some (learn (now, h, mac) v)) < row_rank M H v"
proof (cases v)
  case None
  then show ?thesis
    using assms(1-4) by (simp add: row_rank_def)
next
  case (Some r)
  then show ?thesis
    using assms(1-4) assms(5) [OF Some] by (auto simp: row_rank_def row_bounded_def)
qed

lemma flood_effect:
  assumes "flood_inv env S M H serv s" and "flood_ok env S M H e" and "odr_step env e s = Some t"
  shows "flood_inv env S M H serv t" and "flood_rank M H S t \<le> flood_rank M H S s"
    and "rreqs env S (o_out t) \<noteq> rreqs env S (o_out s) \<Longrightarrow> flood_rank M H S t < flood_rank M H S s"
    and "on_if i (rreqs env S (o_out t)) \<le> on_if i (rreqs env S (o_out s)) + ports i serv"
proof -
  have env: "env_ok env" and ok: "odr_ok s" and own: "\<not> own_ip s S" and nr: "no_reset e" and serv: "o_serv s = serv"
    using assms(1,2) by (auto simp: flood_inv_def flood_ok_def node_ok_def own_ip_def)
  have t: "node_ok env serv t"
    using node.step_inv [of env serv s e t] assms(1,3) by (simp add: flood_inv_def)
  have "flood_inv env S M H serv t \<and> flood_rank M H S t \<le> flood_rank M H S s \<and>
        (rreqs env S (o_out t) \<noteq> rreqs env S (o_out s) \<longrightarrow> flood_rank M H S t < flood_rank M H S s) \<and>
        on_if i (rreqs env S (o_out t)) \<le> on_if i (rreqs env S (o_out s)) + ports i serv"
  proof (cases e)
    case (RawFrame now reply bs)
    let ?h = "decoded env (frame_buf bs)"
    have p: "odr_process_frame env now reply (frame_buf bs) s = Some t"
      using assms(3) RawFrame by simp
    note f = frame_effect(4) [OF env ok frame_buf_room p, where S = S] frame_effect(5) [OF env ok frame_buf_room p, where S = S and i = i] and r = frame_routes [OF env ok p, of S]
    show ?thesis
    proof (cases "learns ?h s \<and> S = cstr (fh_src_ip ?h) \<and> S \<noteq> []")
      case True
      have b: "0 \<le> sint (fh_bc_id ?h)" "sint (fh_bc_id ?h) \<le> int M" "0 \<le> sint (fh_hop_count ?h)"
        "sint (fh_hop_count ?h) \<le> int H"
        using assms(2) RawFrame True by (simp_all add: flood_ok_def Let_def)
      have v: "row_bounded M H v \<and> (sint (rt_broadcast_id v) < sint (fh_bc_id ?h) \<or> sint (fh_hop_count ?h) < sint (rt_hop_count v))"
        if "routes (o_table s) S = Some v" for v
        using assms(1) that learns_improves [OF ok, of ?h v] True by (simp add: flood_inv_def)
      note new = r [unfolded if_P [OF True]]
      have "flood_rank M H S t < flood_rank M H S s"
        unfolding flood_rank_def new by (rule learn_lower [OF b v])
      moreover have "row_bounded M H (learn (now, ?h, sender_mac (frame_buf bs)) (routes (o_table s) S))"
        by (rule learn_bounded [OF b conjunct1 [OF v]])
      ultimately show ?thesis
        using f(2) [OF own] assms(1) t serv new unfolding flood_inv_def by simp
    next
      case False
      have "rreqs env S (o_out t) = rreqs env S (o_out s)"
        by (rule f(1) [OF own]) (use False assms(1) in \<open>auto simp: flood_inv_def\<close>)
      then show ?thesis
        using r [unfolded if_not_P [OF False]] assms(1) t by (simp add: flood_inv_def flood_rank_def)
    qed
  next
    case (ClientMsg p)
    then have "calm env S s t"
      using calm_client [OF env ok own] nr assms(3) by simp
    then show ?thesis
      using assms(1) t by (simp add: calm_def flood_inv_def flood_rank_def)
  next
    case Stale
    then show ?thesis
      using nr by simp
  qed
  then show "flood_inv env S M H serv t" and "flood_rank M H S t \<le> flood_rank M H S s"
    and "rreqs env S (o_out t) \<noteq> rreqs env S (o_out s) \<Longrightarrow> flood_rank M H S t < flood_rank M H S s"
    and "on_if i (rreqs env S (o_out t)) \<le> on_if i (rreqs env S (o_out s)) + ports i serv"
    by blast+
qed

interpretation flood: ranked_machine "flood_step env S" "flood_ok env S M H" "flood_inv env S M H serv" "flood_rank M H S"
  for env S M H serv
  by unfold_locales (use flood_effect in \<open>auto simp: flood_step_def split: option.splits\<close>)

lemma rreqs_per_flood:
  "flood_inv env S M H serv s \<Longrightarrow> \<forall>e \<in> set evs. flood_ok env S M H e \<Longrightarrow> orun (odr_step env) evs s = Some t \<Longrightarrow>
   on_if i (rreqs env S (o_out t)) \<le> on_if i (rreqs env S (o_out s)) + ports i serv * count_changes (flood_step env S) evs s"
proof (induction evs arbitrary: s)
  case Nil
  then show ?case by simp
next
  case (Cons e evs)
  obtain u where u: "odr_step env e s = Some u" and t: "orun (odr_step env) evs u = Some t"
    using Cons.prems(3) by (auto simp: bind_eq_Some_conv)
  note eff = flood_effect [OF Cons.prems(1) _ u]
  have "on_if i (rreqs env S (o_out t)) \<le> on_if i (rreqs env S (o_out u)) + ports i serv * count_changes (flood_step env S) evs u"
    using Cons.IH [OF _ _ t] eff(1) Cons.prems(2) by simp
  then show ?case
    using u eff(4) [of i] Cons.prems(2) by (auto simp: flood_step_def [of env S e s])
qed

lemma flood_init: "env_ok env \<Longrightarrow> serv_ok serv \<Longrightarrow> S \<notin> sd_ip ` set serv \<Longrightarrow> S \<noteq> [] \<Longrightarrow> flood_inv env S M H serv (odr_init serv)"
  using node_init [of env serv]
  by (auto simp: flood_inv_def odr_init_def routes_def row_of_def init_routing_table_def zero_row_def live_row_def find_Some_iff)

lemma init_routes: "routes init_routing_table k = None"
  by (simp add: routes_def row_of_None_iff init_routing_table_def zero_row_def live_row_def)

section \<open>Own addresses\<close>

text \<open>A node never records a route to one of its own addresses.\<close>

lemma own_unrouted_step:
  assumes "node_ok env serv s" and "odr_step env e s = Some t" and "ip \<in> sd_ip ` set serv" and "routes (o_table s) ip = None"
  shows "routes (o_table t) ip = None"
proof -
  have env: "env_ok env" and ok: "odr_ok s" and own: "own_ip s ip"
    using assms(1,3) by (auto simp: node_ok_def own_ip_def)
  show ?thesis
  proof (cases "no_reset e")
    case True
    show ?thesis
      using env ok True assms(2)
    proof (cases rule: step_routes [where k = ip])
      case same
      then show ?thesis
        using assms(4) by simp
    next
      case (learned now reply bs)
      then show ?thesis
        using own by (simp add: learns_def)
    qed
  next
    case False
    show ?thesis
    proof (cases e)
      case (ClientMsg p)
      then show ?thesis
        using assms(2,4) client_fields [OF env ok, of p t] init_routes [of ip] by auto
    next
      case Stale
      then show ?thesis
        using assms(2) init_routes by auto
    qed (use False in simp)
  qed
qed

lemma own_unrouted:
  assumes "env_ok env" and "serv_ok serv" and "orun (odr_step env) evs (odr_init serv) = Some s" and "ip \<in> sd_ip ` set serv"
  shows "routes (o_table s) ip = None"
proof -
  have "node_ok env serv s \<and> routes (o_table s) ip = None"
  proof (rule orun_keeps [where P = "\<lambda>u. node_ok env serv u \<and> routes (o_table u) ip = None", OF _ _ assms(3)])
    show "node_ok env serv (odr_init serv) \<and> routes (o_table (odr_init serv)) ip = None"
      using node_init [OF assms(1,2)] init_routes by (simp add: odr_init_def)
    show "node_ok env serv v \<and> routes (o_table v) ip = None"
      if "node_ok env serv u \<and> routes (o_table u) ip = None" and "odr_step env e u = Some v" for e u v
      using that own_unrouted_step [of env serv u e v ip] node.step_inv [of env serv u e v] assms(4) by simp
  qed
  then show ?thesis
    by simp
qed

section \<open>Frames between nodes\<close>

fun wire :: "odr_out \<Rightarrow> u8 list" where
  "wire (Raw i bs) = bs"
| "wire (Local path p) = []"

text \<open>A frame that one node sends is decoded by another to the same header and sender.\<close>

lemma received_frame:
  assumes "env_ok env" and "length mac = 6" and "length (sd_mac d) = 6" and "header_ok h"
  shows "header_of_bytes (e_be env) (take SIZE_FRAME_HEAD (drop 14 (frame_buf (wire (frame_to env mac h d))))) = h"
    and "sender_mac (frame_buf (wire (frame_to env mac h d))) = sd_mac d"
proof -
  define hb where "hb = header_bytes (e_be env) h"
  have l: "length hb = 156"
    using header_bytes_length [OF assms(4)] by (simp add: hb_def)
  define r where "r = drop (14 + SIZE_FRAME_HEAD) (e_heap env)"
  have w: "wire (frame_to env mac h d) = (mac @ sd_mac d @ e_proto env @ hb) @ r"
    using assms(2,3) by (simp add: frame_to_def hb_def r_def)
  have "length (mac @ sd_mac d @ e_proto env @ hb) = 170"
    using assms l by (simp add: env_ok_def)
  then obtain q where q: "frame_buf (wire (frame_to env mac h d)) = (mac @ sd_mac d @ e_proto env @ hb) @ q"
    unfolding w frame_buf_def by (simp add: take_append)
  show "sender_mac (frame_buf (wire (frame_to env mac h d))) = sd_mac d"
    unfolding q using assms by simp
  have "take SIZE_FRAME_HEAD (drop 14 (frame_buf (wire (frame_to env mac h d)))) = hb"
    unfolding q using assms l by (simp add: env_ok_def)
  then show "header_of_bytes (e_be env) (take SIZE_FRAME_HEAD (drop 14 (frame_buf (wire (frame_to env mac h d))))) = h"
    using header_roundtrip [OF assms(4)] by (simp add: hb_def)
qed

section \<open>Requests\<close>

lemma learn_route_defined:
  assumes "odr_ok s" and "get_empty_row (o_table s) < ROUTING_TABLE_SIZE"
  shows "\<exists>tb. learn_route now h mac s = Some (s\<lparr>o_table := tb\<rparr>, learns h s) \<and>
    (if learns h s then update_routing_table now (o_table s) h mac = Some tb else tb = o_table s)"
proof (cases "learns h s")
  case True
  have tb: "table_ok (o_table s)" and len: "length (o_table s) = ROUTING_TABLE_SIZE"
    using assms(1) by (auto simp: odr_ok_def table_ok_def)
  from tb have "\<exists>t. update_routing_table now (o_table s) h mac = Some t"
  proof (cases rule: row_entry_cases [of "o_table s" "fh_src_ip h"])
    case None
    then show ?thesis
      using update_unknown [OF tb None(1)] assms(2) len by simp
  next
    case (Some i)
    then show ?thesis
      using update_known [OF Some(1,2)] by simp
  qed
  then show ?thesis
    using True by (auto simp: learn_route_eq)
next
  case False
  then show ?thesis
    by (auto simp: learn_route_eq intro: exI [of _ "o_table s"])
qed

lemma process_learned:
  assumes "shown (decoded env bs)" and "learn_route now (decoded env bs) (sender_mac bs) s = Some (s1, update)"
  shows "odr_process_frame env now reply bs s =
    (if fh_type (decoded env bs) = odr_code rreq then handle_rreq env update (decoded env bs) s1
     else if fh_type (decoded env bs) = odr_code rrep then handle_rrep env (decoded env bs) s1
     else if fh_type (decoded env bs) = odr_code payload_req then handle_payload env reply payload_req (decoded env bs) s1
     else if fh_type (decoded env bs) = odr_code payload_resp then handle_payload env reply payload_resp (decoded env bs) s1
     else Some s1)"
proof -
  have "header_ok (decoded env bs)"
    using assms(1) by (simp add: shown_def)
  then obtain out where "display_header (decoded env bs) = Some out"
    using display_shown assms(1) by blast
  then show ?thesis
    using assms(2) by (simp add: odr_process_frame_def Let_def)
qed

text \<open>Sending along a route, with the table read as a map.\<close>

lemma routed_entry:
  assumes "odr_ok s" and "routes (o_table s) ip = Some r" and "NUL \<notin> set ip"
  shows "aget (o_table s) (get_row_entry (o_table s) ip) = Some r" and "length (rt_next_hop_mac r) = 6"
    and "get_row_entry (o_table s) ip \<noteq> -1"
proof -
  have tb: "table_ok (o_table s)"
    using assms(1) by (simp add: odr_ok_def)
  have "cstr ip = ip" and "ip \<noteq> []"
    using assms(2,3) routes_empty [OF tb] by (auto simp: cstr_id)
  then show e: "aget (o_table s) (get_row_entry (o_table s) ip) = Some r"
    using row_entry_get [OF tb, of ip] assms(2) by simp
  show "length (rt_next_hop_mac r) = 6"
    by (rule entry_row [OF tb e])
  show "get_row_entry (o_table s) ip \<noteq> -1"
    using e by (auto simp: aget_def)
qed

lemma send_rrep_along:
  assumes "odr_ok s" and "routes (o_table s) dest = Some r" and "NUL \<notin> set dest" and "length src < IP_LEN" and "length dest < IP_LEN"
  shows "send_rrep env b hops dest src s =
    Some (s\<lparr>o_out := o_out s @ map (frame_to env (rt_next_hop_mac r) (head src dest hops b rrep 0 [])) (o_serv s)\<rparr>)"
  by (rule send_rrep_eq [OF assms(4,5) routed_entry(1) [OF assms(1-3)]])

lemma learned_known:
  assumes "odr_ok s" and "learn_route now h mac s = Some (s1, update)" and "length mac = IF_HADDR"
    and "fh_type h = odr_code rreq" and "\<not> own_ip s (cstr (fh_src_ip h))" and "cstr (fh_src_ip h) \<noteq> []"
  shows "\<exists>r. routes (o_table s1) (cstr (fh_src_ip h)) = Some r"
proof (cases "learns h s")
  case True
  then obtain tb where "update_routing_table now (o_table s) h mac = Some tb" and "s1 = s\<lparr>o_table := tb\<rparr>"
    using assms(2) by (auto simp: learn_route_eq)
  then show ?thesis
    using learns_routes [OF assms(1,3), of now h tb "cstr (fh_src_ip h)"] assms(6) by simp
next
  case False
  have tb: "table_ok (o_table s)"
    using assms(1) by (simp add: odr_ok_def)
  have "s1 = s"
    using False assms(2) by (simp add: learn_route_eq)
  moreover have "should_update_rt (o_table s) h \<noteq> 1"
    using False assms(4,5) by (simp add: learns_def)
  ultimately show ?thesis
    using should_update_iff [OF tb assms(6)] by (auto split: option.splits)
qed

lemma learn_route_ok:
  assumes "odr_ok s" and "learn_route now h mac s = Some (s1, update)" and "length mac = IF_HADDR"
  shows "odr_ok s1"
  using assms update_table(1) [OF _ assms(3)] by (auto simp: learn_route_eq odr_ok_def split: if_splits)

lemma rreq_defined:
  assumes "env_ok env" and "odr_ok s" and "get_empty_row (o_table s) < ROUTING_TABLE_SIZE"
    and "shown (decoded env (frame_buf bs))" and "fh_type (decoded env (frame_buf bs)) = odr_code rreq"
    and "\<not> own_ip s (cstr (fh_src_ip (decoded env (frame_buf bs))))" and "cstr (fh_src_ip (decoded env (frame_buf bs))) \<noteq> []"
  shows "\<exists>t. odr_step env (RawFrame now reply bs) s = Some t"
proof -
  let ?h = "decoded env (frame_buf bs)"
  have m: "length (sender_mac (frame_buf bs)) = IF_HADDR"
    using frame_buf_room [of bs] by simp
  obtain tb where l: "learn_route now ?h (sender_mac (frame_buf bs)) s = Some (s\<lparr>o_table := tb\<rparr>, learns ?h s)"
    using learn_route_defined [OF assms(2,3)] by blast
  obtain r where r: "routes tb (cstr (fh_src_ip ?h)) = Some r"
    using learned_known [OF assms(2) l m assms(5-7)] by auto
  have ok1: "odr_ok (s\<lparr>o_table := tb, o_out := x\<rparr>)" for x
    using learn_route_ok [OF assms(2) l m] by (simp add: odr_ok_def)
  have "\<exists>t. send_rrep env b hops (cstr (fh_src_ip ?h)) (cstr (fh_dest_ip ?h)) (s\<lparr>o_table := tb, o_out := x\<rparr>) = Some t"
    for b hops x
    using send_rrep_along [OF ok1, of x "cstr (fh_src_ip ?h)" r] r shown_lengths [OF assms(4)] by simp
  from this [where x = "o_out s"] this show ?thesis
    unfolding odr_step.simps process_learned [OF assms(4) l]
    using assms(5) send_rreq_eq [OF shown_lengths [OF assms(4)]] by (auto simp: handle_rreq_def Let_def)
qed

text \<open>
  A route request from another host never makes the program read outside its table: as long
  as a row is free, it is processed, whatever its destination, its counters and the state.
\<close>

theorem foreign_rreq_processed:
  assumes "env_ok env" and "serv_ok serv" and "orun (odr_step env) evs (odr_init serv) = Some s"
    and "get_empty_row (o_table s) < ROUTING_TABLE_SIZE"
    and "shown (decoded env (frame_buf bs))" and "fh_type (decoded env (frame_buf bs)) = odr_code rreq"
    and "cstr (fh_src_ip (decoded env (frame_buf bs))) \<notin> insert [] (sd_ip ` set serv)"
  shows "\<exists>t. odr_step env (RawFrame now reply bs) s = Some t"
proof (rule rreq_defined [OF assms(1) _ assms(4-6)])
  have "node_ok env serv s"
    using node.run_inv [OF node_init [OF assms(1,2)] _ assms(3)] by simp
  then show "odr_ok s" and "\<not> own_ip s (cstr (fh_src_ip (decoded env (frame_buf bs))))"
    using assms(7) by (auto simp: node_ok_def own_ip_def)
qed (use assms(7) in simp)

text \<open>
  A route request that comes back to the host that issued it makes the program read the row
  before its table, when its destination is the host itself or has a row by then: a host never
  has a row for its own address.
\<close>

theorem own_rreq_wild_read:
  assumes "env_ok env" and "serv_ok serv" and "orun (odr_step env) evs (odr_init serv) = Some s"
    and "shown (decoded env (frame_buf bs))" and "fh_type (decoded env (frame_buf bs)) = odr_code rreq"
    and "cstr (fh_src_ip (decoded env (frame_buf bs))) \<in> sd_ip ` set serv - {[]}"
    and "cstr (fh_dest_ip (decoded env (frame_buf bs))) \<in> sd_ip ` set serv \<or>
         get_row_entry (o_table s) (fh_dest_ip (decoded env (frame_buf bs))) \<noteq> -1"
  shows "odr_step env (RawFrame now reply bs) s = None"
proof -
  let ?h = "decoded env (frame_buf bs)"
  let ?S = "cstr (fh_src_ip ?h)"
  have n: "node_ok env serv s"
    using node.run_inv [OF node_init [OF assms(1,2)] _ assms(3)] by simp
  then have tb: "table_ok (o_table s)" and own: "own_ip s ?S" and serv: "o_serv s = serv" "serv \<noteq> []"
    using assms(6) by (auto simp: node_ok_def odr_ok_def own_ip_def)
  have l: "learn_route now ?h (sender_mac (frame_buf bs)) s = Some (s, False)"
    using own by (simp add: learn_route_eq learns_def)
  have "routes (o_table s) ?S = None"
    using own_unrouted [OF assms(1-3)] assms(6) by blast
  then have "get_row_entry (o_table s) ?S = -1"
    using row_entry_iff [OF tb, of ?S] assms(6) by simp
  then have "send_rrep env b hops ?S src s = None" for b hops src
    using send_rrep_wild serv by simp
  moreover have "source_ip_cmp (fh_dest_ip ?h) (o_serv s) \<noteq> -1 \<or> get_row_entry (o_table s) (fh_dest_ip ?h) \<noteq> -1"
    using assms(7) serv source_ip_own [of "fh_dest_ip ?h" s] by (auto simp: own_ip_def)
  ultimately show ?thesis
    using assms(5) by (simp add: process_learned [OF assms(4) l] handle_rreq_def)
qed

text \<open>
  C8: replies travel back along the requests.  Once a node has learned of the source \<open>S\<close> from a
  frame of a neighbour, every later reply to \<open>S\<close> is passed on to that neighbour with one more
  hop, whatever happens in between, unless the table is cleared.
\<close>

theorem reply_follows_request:
  assumes "env_ok env" and "serv_ok serv" and "orun (odr_step env) evs0 (odr_init serv) = Some s0"
    and "odr_step env (RawFrame n1 rep1 bs1) s0 = Some s1" and "learns (decoded env (frame_buf bs1)) s0"
    and "S = cstr (fh_src_ip (decoded env (frame_buf bs1)))" and "S \<noteq> []" and "routes (o_table s0) S = None"
    and "orun (odr_step env) evs s1 = Some s2" and "\<forall>e \<in> set evs. no_reset e"
    and "get_empty_row (o_table s2) < ROUTING_TABLE_SIZE"
    and "shown (decoded env (frame_buf bs2))" and "fh_type (decoded env (frame_buf bs2)) = odr_code rrep"
    and "cstr (fh_dest_ip (decoded env (frame_buf bs2))) = S"
  shows "\<exists>t. odr_step env (RawFrame n2 rep2 bs2) s2 = Some t \<and>
    o_out t = o_out s2 @ map (frame_to env (sender_mac (frame_buf bs1))
      (head (cstr (fh_src_ip (decoded env (frame_buf bs2)))) S (fh_hop_count (decoded env (frame_buf bs2)) + 1)
        (fh_bc_id (decoded env (frame_buf bs2))) rrep 0 [])) serv"
proof -
  let ?h1 = "decoded env (frame_buf bs1)" and ?h2 = "decoded env (frame_buf bs2)"
  let ?mac = "sender_mac (frame_buf bs1)"
  have n0: "node_ok env serv s0"
    using node.run_inv [OF node_init [OF assms(1,2)] _ assms(3)] by simp
  have n1: "node_ok env serv s1"
    by (rule node.step_inv [OF n0 TrueI assms(4)])
  have n2: "node_ok env serv s2"
    using node.run_inv [OF n1 _ assms(9)] by simp
  have ok0: "odr_ok s0" and ok2: "odr_ok s2" and serv: "o_serv s2 = serv"
    using n0 n2 by (auto simp: node_ok_def)
  have p1: "odr_process_frame env n1 rep1 (frame_buf bs1) s0 = Some s1"
    using assms(4) by simp
  have "routes (o_table s1) S = Some (learn (n1, ?h1, ?mac) None)"
    using frame_routes [OF assms(1) ok0 p1, of S] assms(5-8) by simp
  from route_sticks [OF n1 assms(10,9) this] obtain r2
    where r2: "routes (o_table s2) S = Some r2" "rt_next_hop_mac r2 = ?mac"
    by auto
  have foreign: "\<not> own_ip s2 S"
    using assms(5,6) n0 n2 by (simp add: learns_def node_ok_def own_ip_def)
  have m: "length (sender_mac (frame_buf bs2)) = IF_HADDR"
    using frame_buf_room [of bs2] by simp
  obtain tb where l: "learn_route n2 ?h2 (sender_mac (frame_buf bs2)) s2 = Some (s2\<lparr>o_table := tb\<rparr>, learns ?h2 s2)"
    and tb: "if learns ?h2 s2 then update_routing_table n2 (o_table s2) ?h2 (sender_mac (frame_buf bs2)) = Some tb
             else tb = o_table s2"
    using learn_route_defined [OF ok2 assms(11)] by blast
  have "\<exists>r. routes tb S = Some r \<and> rt_next_hop_mac r = ?mac"
  proof (cases "learns ?h2 s2")
    case True
    then have "update_routing_table n2 (o_table s2) ?h2 (sender_mac (frame_buf bs2)) = Some tb"
      using tb by simp
    from learns_routes [OF ok2 m this, of S] show ?thesis
      using r2 by (auto simp: learn_known)
  next
    case False
    then show ?thesis
      using tb r2 by simp
  qed
  then obtain r where r: "routes tb S = Some r" "rt_next_hop_mac r = ?mac"
    by blast
  have ok3: "odr_ok (s2\<lparr>o_table := tb\<rparr>)"
    by (rule learn_route_ok [OF ok2 l m])
  have "NUL \<notin> set S"
    using assms(6) by simp
  then have "send_rrep env b hops S (cstr (fh_src_ip ?h2)) (s2\<lparr>o_table := tb\<rparr>) = Some (s2\<lparr>o_table := tb,
      o_out := o_out s2 @ map (frame_to env ?mac (head (cstr (fh_src_ip ?h2)) S hops b rrep 0 [])) serv\<rparr>)" for b hops
    using send_rrep_along [OF ok3, of S r "cstr (fh_src_ip ?h2)" env b hops] r shown_lengths [OF assms(12)] assms(14) serv
    by simp
  moreover have "source_ip_cmp (fh_dest_ip ?h2) (o_serv s2) = -1"
    using foreign source_ip_own [of "fh_dest_ip ?h2" s2] assms(14) by simp
  ultimately show ?thesis
    using assms(13,14) by (simp add: process_learned [OF assms(12) l] handle_rrep_def)
qed

section \<open>An exchange between neighbours\<close>

lemma learns_new:
  assumes "odr_ok s" and "fh_type h = odr_code rreq \<or> fh_type h = odr_code rrep" and "cstr (fh_src_ip h) \<noteq> []"
    and "\<not> own_ip s (cstr (fh_src_ip h))" and "routes (o_table s) (cstr (fh_src_ip h)) = None"
  shows "learns h s"
  using assms should_update_iff [of "o_table s" h] by (auto simp: learns_def odr_ok_def)

lemma learn_route_new:
  assumes "odr_ok s" and "get_empty_row (o_table s) < ROUTING_TABLE_SIZE" and "length mac = IF_HADDR"
    and "learns h s" and "cstr (fh_src_ip h) \<noteq> []" and "routes (o_table s) (cstr (fh_src_ip h)) = None"
  obtains tb where "learn_route now h mac s = Some (s\<lparr>o_table := tb\<rparr>, True)" and "odr_ok (s\<lparr>o_table := tb\<rparr>)"
    and "routes tb (cstr (fh_src_ip h)) = Some (learn (now, h, mac) None)"
proof -
  obtain tb where l: "learn_route now h mac s = Some (s\<lparr>o_table := tb\<rparr>, learns h s)"
    and u: "update_routing_table now (o_table s) h mac = Some tb"
    using learn_route_defined [OF assms(1,2), of now h mac] assms(4) by auto
  show thesis
  proof (rule that)
    show "learn_route now h mac s = Some (s\<lparr>o_table := tb\<rparr>, True)"
      using l assms(4) by simp
    show "odr_ok (s\<lparr>o_table := tb\<rparr>)"
      by (rule learn_route_ok [OF assms(1) l assms(3)])
    show "routes tb (cstr (fh_src_ip h)) = Some (learn (now, h, mac) None)"
      using learns_routes [OF assms(1,3) u] assms(5,6) by simp
  qed
qed

text \<open>A request that reaches its destination is answered to the neighbour it came from.\<close>

lemma rreq_answered:
  assumes "odr_ok s" and "get_empty_row (o_table s) < ROUTING_TABLE_SIZE" and "length (sender_mac bs) = IF_HADDR"
    and "decoded env bs = h" and "shown h" and "fh_type h = odr_code rreq" and "own_ip s (cstr (fh_dest_ip h))"
    and "cstr (fh_src_ip h) \<noteq> []" and "\<not> own_ip s (cstr (fh_src_ip h))" and "routes (o_table s) (cstr (fh_src_ip h)) = None"
  shows "\<exists>tb. odr_process_frame env now reply bs s =
      Some (s\<lparr>o_table := tb, o_out := o_out s @
        map (frame_to env (sender_mac bs) (head (cstr (fh_dest_ip h)) (cstr (fh_src_ip h)) 1 (fh_bc_id h) rrep 0 [])) (o_serv s)\<rparr>) \<and>
    table_ok tb \<and> routes tb (cstr (fh_src_ip h)) = Some (learn (now, h, sender_mac bs) None)"
proof -
  have "learns h s"
    using learns_new assms by blast
  then obtain tb where l: "learn_route now h (sender_mac bs) s = Some (s\<lparr>o_table := tb\<rparr>, True)"
    and ok: "odr_ok (s\<lparr>o_table := tb\<rparr>)" and r: "routes tb (cstr (fh_src_ip h)) = Some (learn (now, h, sender_mac bs) None)"
    using learn_route_new [OF assms(1-3) _ assms(8,10)] by blast
  have "source_ip_cmp (fh_dest_ip h) (o_serv s) \<noteq> -1"
    using assms(7) source_ip_own [of "fh_dest_ip h" s] by blast
  then have "odr_process_frame env now reply bs s =
      send_rrep env (fh_bc_id h) 1 (cstr (fh_src_ip h)) (cstr (fh_dest_ip h)) (s\<lparr>o_table := tb\<rparr>)"
    using process_learned [of env bs now s "s\<lparr>o_table := tb\<rparr>" True reply] assms(4-6) l by (simp add: handle_rreq_def)
  then show ?thesis
    using send_rrep_along [OF ok, of "cstr (fh_src_ip h)"] r shown_lengths [OF assms(5)] ok by (auto simp: odr_ok_def)
qed

text \<open>A reply that reaches its destination releases the payload.\<close>

lemma rrep_received:
  assumes "odr_ok s" and "get_empty_row (o_table s) < ROUTING_TABLE_SIZE" and "length (sender_mac bs) = IF_HADDR"
    and "decoded env bs = h" and "shown h" and "fh_type h = odr_code rrep" and "own_ip s (cstr (fh_dest_ip h))"
    and "cstr (fh_src_ip h) \<noteq> []" and "\<not> own_ip s (cstr (fh_src_ip h))" and "routes (o_table s) (cstr (fh_src_ip h)) = None"
  shows "\<exists>tb. odr_process_frame env now reply bs s =
      Some (s\<lparr>o_table := tb, o_out := o_out s @
        map (frame_to env (sender_mac bs) (head (cstr (fh_dest_ip h)) (cstr (fh_src_ip h)) (fh_hop_count h) (o_broadcast_id s)
          payload_req 0 '' '')) (o_serv s)\<rparr>) \<and>
    table_ok tb \<and> routes tb (cstr (fh_src_ip h)) = Some (learn (now, h, sender_mac bs) None)"
proof -
  have "learns h s"
    using learns_new assms by blast
  then obtain tb where l: "learn_route now h (sender_mac bs) s = Some (s\<lparr>o_table := tb\<rparr>, True)"
    and ok: "odr_ok (s\<lparr>o_table := tb\<rparr>)" and r: "routes tb (cstr (fh_src_ip h)) = Some (learn (now, h, sender_mac bs) None)"
    using learn_route_new [OF assms(1-3) _ assms(8,10)] by blast
  have "source_ip_cmp (fh_dest_ip h) (o_serv s) \<noteq> -1"
    using assms(7) source_ip_own [of "fh_dest_ip h" s] by blast
  then have "odr_process_frame env now reply bs s =
      send_payload env (cstr (fh_dest_ip h)) (cstr (fh_src_ip h)) payload_req '' '' 0 (s\<lparr>o_table := tb\<rparr>)"
    using process_learned [of env bs now s "s\<lparr>o_table := tb\<rparr>" True reply] assms(4-6) l by (simp add: handle_rrep_def)
  moreover have "aget tb (get_row_entry tb (cstr (fh_src_ip h))) = Some (learn (now, h, sender_mac bs) None)"
    using routed_entry(1) [OF ok, of "cstr (fh_src_ip h)"] r by simp
  ultimately show ?thesis
    using send_payload_route [of "cstr (fh_dest_ip h)" "cstr (fh_src_ip h)" "'' ''" "s\<lparr>o_table := tb\<rparr>"]
      r shown_lengths [OF assms(5)] ok by (auto simp: odr_ok_def)
qed

lemma dec_nat_length: "n < 10 ^ Suc k \<Longrightarrow> length (dec_nat n) \<le> Suc k"
proof (induction k arbitrary: n)
  case 0
  then show ?case by (simp add: dec_nat.simps)
next
  case (Suc k)
  show ?case
  proof (cases "n < 10")
    case True
    then show ?thesis by (simp add: dec_nat.simps)
  next
    case False
    have "n div 10 < 10 ^ Suc k"
      using Suc.prems by (simp add: less_mult_imp_div_less)
    from Suc.IH [OF this] show ?thesis
      using False by (simp add: dec_nat.simps [of n])
  qed
qed

lemma dec_int_length: "length (dec_int (sint (w :: cint))) \<le> 11"
proof -
  have "nat (sint w) < 10 ^ Suc 9" and "nat (- sint w) < 10 ^ Suc 9"
    using sint_range32 [of w] by simp_all
  then show ?thesis
    using dec_nat_length [of "nat (sint w)" 9] dec_nat_length [of "nat (- sint w)" 9] by (simp add: dec_int_def)
qed

lemma payload_unlearned:
  assumes "fh_type h = odr_code payload_req \<or> fh_type h = odr_code payload_resp"
  shows "learn_route now h mac s = Some (s, False)"
  using assms by (auto simp: learn_route_eq learns_def)

text \<open>A payload that reaches its destination is answered with what the local server says.\<close>

lemma payload_answered:
  assumes "odr_ok s" and "decoded env bs = h" and "shown h" and "fh_type h = odr_code payload_req"
    and "own_ip s (cstr (fh_dest_ip h))" and "routes (o_table s) (cstr (fh_src_ip h)) = Some r"
    and "ip_to_vm (fh_src_ip h) = Some vm" and "length (pi_msg reply) < MAX_MSG_LEN" and "NUL \<notin> set (pi_msg reply)"
  shows "\<exists>b q. odr_process_frame env now reply bs s =
      Some (s\<lparr>o_b_id := b, o_out := o_out s @ Local DOMAIN_SOCK_PATH q #
        map (frame_to env (rt_next_hop_mac r) (head (cstr (fh_dest_ip h)) (cstr (fh_src_ip h)) (rt_hop_count r)
          (o_broadcast_id s) payload_resp 0 (pi_msg reply))) (o_serv s)\<rparr>) \<and>
      pi_msg q = dec_int (sint (fh_bc_id h)) @ ''#'' @ vm"
proof -
  have own: "source_ip_cmp (fh_dest_ip h) (o_serv s) \<noteq> -1"
    using assms(5) source_ip_own [of "fh_dest_ip h" s] by blast
  let ?buf = "dec_int (sint (fh_bc_id h)) @ ''#'' @ vm"
  have "length vm < 10"
    using assms(7) by (auto simp: ip_to_vm_def bind_eq_Some_conv split: if_splits)
  then have "length ?buf < MAX_MSG_LEN"
    using dec_int_length [of "fh_bc_id h"] by simp
  then obtain q where q: "msg_send (e_hostname env) ''dst_ip'' ''dst_port'' ''srcip'' ''srcport'' ?buf 0 = Some q" "pi_msg q = ?buf"
    by (simp add: msg_send_def)
  define b where "b = (if sint (fh_bc_id h) > sint (o_b_id s) then fh_bc_id h else o_b_id s)"
  let ?u = "s\<lparr>o_b_id := b, o_out := o_out s @ [Local DOMAIN_SOCK_PATH q]\<rparr>"
  have "get_data_from_server env reply h vm s = Some (pi_msg reply, ?u)"
    using q(1) assms(8,9) by (simp add: get_data_from_server_def Let_def strcpy_def cstr_fixed emit_def b_def)
  then have "odr_process_frame env now reply bs s =
      send_payload env (cstr (fh_dest_ip h)) (cstr (fh_src_ip h)) payload_resp (pi_msg reply) 0 ?u"
    using process_learned [of env bs now s s False reply] payload_unlearned [of h now "sender_mac bs" s] assms(2-4,7) own
    by (simp add: handle_payload_def)
  moreover have "aget (o_table ?u) (get_row_entry (o_table ?u) (cstr (fh_src_ip h))) = Some r"
    using routed_entry(1) [OF assms(1,6)] by simp
  ultimately show ?thesis
    using send_payload_route [of "cstr (fh_dest_ip h)" "cstr (fh_src_ip h)" "pi_msg reply" ?u r] shown_lengths [OF assms(3)]
      assms(8) q(2) by auto
qed

text \<open>The answer reaches the first client that waits for its sender.\<close>

lemma response_at_client:
  assumes "decoded env bs = h" and "shown h" and "fh_type h = odr_code payload_resp" and "own_ip s (cstr (fh_dest_ip h))"
    and "i < length (o_buffer s)" and "sb_count (o_buffer s ! i) \<noteq> 0" and "pi_dest_ip (sb_peer (o_buffer s ! i)) = cstr (fh_src_ip h)"
    and "\<And>j. j < i \<Longrightarrow> sb_count (o_buffer s ! j) = 0 \<or> pi_dest_ip (sb_peer (o_buffer s ! j)) \<noteq> cstr (fh_src_ip h)"
    and "c_string (fh_msg h) = Some m" and "length m < MAX_MSG_LEN"
  shows "\<exists>q. odr_process_frame env now reply bs s =
      Some (s\<lparr>o_out := o_out s @ [Local (pi_src_port (sb_peer (o_buffer s ! i))) q],
              o_buffer := (o_buffer s)[i := (o_buffer s ! i)\<lparr>sb_count := 0\<rparr>]\<rparr>) \<and> pi_msg q = m"
proof -
  let ?P = "\<lambda>b. cstr (fh_src_ip h) = pi_dest_ip (sb_peer b) \<and> sb_count b \<noteq> 0"
  have own: "source_ip_cmp (fh_dest_ip h) (o_serv s) \<noteq> -1"
    using assms(4) source_ip_own [of "fh_dest_ip h" s] by blast
  have i: "first_idx ?P (o_buffer s) = i"
  proof (rule first_idx_eqI)
    show "?P (o_buffer s ! i)"
      using assms(6,7) by simp
    show "\<not> ?P (o_buffer s ! j)" if "j < i" for j
      using assms(8) [OF that] by auto
  qed (rule assms(5))
  obtain q where q: "msg_send (e_hostname env) ''dst_ip'' ''dst_port'' ''srcip'' ''srcport'' m 0 = Some q" "pi_msg q = m"
    using assms(10) by (simp add: msg_send_def)
  have "odr_process_frame env now reply bs s = deliver env h s"
    using process_learned [of env bs now s s False reply] payload_unlearned [of h now "sender_mac bs" s] assms(1-3) own
    by (simp add: handle_payload_def)
  then show ?thesis
    using i assms(5,9) q by (intro exI [of _ q]) (simp add: deliver_def send_to_client_def emit_def)
qed

text \<open>The first request of a client, at a host with one interface.\<close>

lemma first_request:
  assumes "serv_ok [a]" and "length (pi_dest_ip p) < INET_ADDRSTRLEN" and "pi_dest_ip p \<noteq> []" and "NUL \<notin> set (pi_dest_ip p)"
  shows "odr_step env (ClientMsg p) (odr_init [a]) =
    Some ((odr_init [a])\<lparr>o_broadcast_id := 2, o_packet_counter := 1, o_buffer := (init_buffer 100)[0 := \<lparr>sb_peer = p, sb_count = 1\<rparr>],
      o_out := [frame_to env b_mac (head (sd_ip a) (pi_dest_ip p) 1 2 rreq (pi_flag p) []) a]\<rparr>)"
proof -
  have "get_row_entry init_routing_table (pi_dest_ip p) = -1"
    using row_entry_iff [OF init_ok, of "pi_dest_ip p"] init_routes assms(3,4) by (simp add: cstr_id)
  moreover have "push_data_to_buf (init_buffer 100) p = Some ((init_buffer 100)[0 := \<lparr>sb_peer = p, sb_count = 1\<rparr>])"
    by (simp add: push_data_to_buf_def init_buffer_def zero_buf_def aset_def numeral_eq_Suc)
  moreover have "odr_init [a]\<lparr>o_table := init_routing_table\<rparr> = odr_init [a]"
    by (simp add: odr_init_def)
  ultimately show ?thesis
    using assms(1,2) by (simp add: client_request_def Let_def odr_init_def serv_ok_def send_payload_none)
qed

lemma room_init: "get_empty_row init_routing_table < ROUTING_TABLE_SIZE"
  by (simp add: get_empty_row_def init_routing_table_def zero_row_def numeral_eq_Suc)

lemma shown_head:
  assumes "length s < IP_LEN" and "length d < IP_LEN" and "length m < MSG_LEN"
  shows "shown (head s d hops b ty f m)"
  using head_ok [OF assms] assms nul_fixed by (simp add: shown_def head_def)

lemma head_fields [simp]:
  "fh_type (head s d hops b ty f m) = odr_code ty" "fh_hop_count (head s d hops b ty f m) = hops"
  "fh_bc_id (head s d hops b ty f m) = b" "fh_msg (head s d hops b ty f m) = fixed MSG_LEN m"
  "fh_src_ip (head s d hops b ty f m) = fixed IP_LEN s" "fh_dest_ip (head s d hops b ty f m) = fixed IP_LEN d"
  by (simp_all add: head_def)

declare cstr_fixed [simp]

lemma frame_buf_mac: "length (sender_mac (frame_buf bs)) = IF_HADDR"
  using frame_buf_room [of bs] by simp

lemma received_head:
  assumes "env_ok env" and "e_be env = e_be env'" and "length mac = 6" and "length (sd_mac d) = 6"
    and "length src < IP_LEN" and "length dest < IP_LEN" and "length m < MSG_LEN"
  shows "decoded env' (frame_buf (wire (frame_to env mac (head src dest hops b ty f m) d))) = head src dest hops b ty f m"
    and "sender_mac (frame_buf (wire (frame_to env mac (head src dest hops b ty f m) d))) = sd_mac d"
  using received_frame [OF assms(1,3,4) head_ok [OF assms(5-7)]] assms(2) by simp_all

text \<open>
  C2: two neighbouring hosts, each with one interface.  The request of a client at the first host
  leads to a route request, a route reply, a payload, a message to the server at the second host
  and a response, five frames and messages in all, after which the client has the server's
  answer.
\<close>

theorem two_node_exchange:
  assumes "env_ok ea" and "env_ok eb" and "e_be ea = e_be eb" and "serv_ok [a]" and "serv_ok [b]"
    and "sd_ip a \<noteq> sd_ip b" and "sd_ip a \<noteq> []" and "sd_ip b \<noteq> []" and "length (sd_ip b) < INET_ADDRSTRLEN"
    and "pi_dest_ip p = sd_ip b" and "ip_to_vm (fixed IP_LEN (sd_ip a)) = Some vm"
    and "length (pi_msg reply) < MAX_MSG_LEN" and "NUL \<notin> set (pi_msg reply)"
  shows "\<exists>a1 b1 a2 b2 a3 f1 f2 f3 f4 q r.
    odr_step ea (ClientMsg p) (odr_init [a]) = Some a1 \<and> o_out a1 = [f1] \<and>
    odr_step eb (RawFrame n1 r1 (wire f1)) (odr_init [b]) = Some b1 \<and> o_out b1 = [f2] \<and>
    odr_step ea (RawFrame n2 r2 (wire f2)) a1 = Some a2 \<and> o_out a2 = [f1, f3] \<and>
    odr_step eb (RawFrame n3 reply (wire f3)) b1 = Some b2 \<and> o_out b2 = [f2, Local DOMAIN_SOCK_PATH q, f4] \<and>
    odr_step ea (RawFrame n4 r4 (wire f4)) a2 = Some a3 \<and> o_out a3 = [f1, f3, Local (pi_src_port p) r] \<and>
    pi_msg q = dec_int 2 @ ''#'' @ vm \<and> pi_msg r = pi_msg reply"
proof -
  have ip: "length (sd_ip a) < IP_LEN" "NUL \<notin> set (sd_ip a)" "length (sd_mac a) = 6"
    "length (sd_ip b) < IP_LEN" "NUL \<notin> set (sd_ip b)" "length (sd_mac b) = 6"
    using assms(4,5) by (auto simp: serv_ok_def)
  define f1 where "f1 = frame_to ea b_mac (head (sd_ip a) (sd_ip b) 1 2 rreq (pi_flag p) []) a"
  define a1 where "a1 = (odr_init [a])\<lparr>o_broadcast_id := 2, o_packet_counter := 1,
    o_buffer := (init_buffer 100)[0 := \<lparr>sb_peer = p, sb_count = 1\<rparr>], o_out := [f1]\<rparr>"
  have s1: "odr_step ea (ClientMsg p) (odr_init [a]) = Some a1"
    using first_request [OF assms(4), of p ea] assms(8-10) ip by (simp add: a1_def f1_def)
  have oka: "odr_ok a1" and okb: "odr_ok (odr_init [b])"
    using node_init [OF assms(1,4)] node_init [OF assms(2,5)] by (auto simp: node_ok_def odr_ok_def a1_def odr_init_def init_buffer_def)
  have h1: "decoded eb (frame_buf (wire f1)) = head (sd_ip a) (sd_ip b) 1 2 rreq (pi_flag p) []"
    "sender_mac (frame_buf (wire f1)) = sd_mac a"
    using received_head [OF assms(1,3) b_mac_length ip(3,1,4)] by (simp_all add: f1_def)
  define f2 where "f2 = frame_to eb (sd_mac a) (head (sd_ip b) (sd_ip a) 1 2 rrep 0 []) b"
  obtain tb where s2: "odr_step eb (RawFrame n1 r1 (wire f1)) (odr_init [b]) = Some ((odr_init [b])\<lparr>o_table := tb, o_out := [f2]\<rparr>)"
    and tb: "table_ok tb" "routes tb (sd_ip a) = Some (learn (n1, head (sd_ip a) (sd_ip b) 1 2 rreq (pi_flag p) [], sd_mac a) None)"
    using rreq_answered [OF okb _ frame_buf_mac h1(1), of n1 r1] h1(2) shown_head ip assms(6,7) room_init init_routes
    by (auto simp: odr_init_def own_ip_def f2_def)
  have h2: "decoded ea (frame_buf (wire f2)) = head (sd_ip b) (sd_ip a) 1 2 rrep 0 []" "sender_mac (frame_buf (wire f2)) = sd_mac b"
    using received_head [OF assms(2) assms(3) [symmetric] ip(3,6,4,1)] by (simp_all add: f2_def)
  define f3 where "f3 = frame_to ea (sd_mac b) (head (sd_ip a) (sd_ip b) 1 2 payload_req 0 '' '') a"
  obtain ta where s3: "odr_step ea (RawFrame n2 r2 (wire f2)) a1 = Some (a1\<lparr>o_table := ta, o_out := [f1, f3]\<rparr>)" and ta: "table_ok ta"
    using rrep_received [OF oka _ frame_buf_mac h2(1), of n2 r2] h2(2) shown_head ip assms(6,8) room_init init_routes
    by (auto simp: odr_init_def own_ip_def f3_def a1_def)
  have h3: "decoded eb (frame_buf (wire f3)) = head (sd_ip a) (sd_ip b) 1 2 payload_req 0 '' ''"
    using received_head [OF assms(1,3) ip(6,3,1,4)] by (simp add: f3_def)
  have okb1: "odr_ok ((odr_init [b])\<lparr>o_table := tb, o_out := [f2]\<rparr>)"
    using okb tb(1) by (simp add: odr_ok_def)
  define f4 where "f4 = frame_to eb (sd_mac a) (head (sd_ip b) (sd_ip a) 1 1 payload_resp 0 (pi_msg reply)) b"
  obtain b2 q where s4: "odr_step eb (RawFrame n3 reply (wire f3)) ((odr_init [b])\<lparr>o_table := tb, o_out := [f2]\<rparr>) = Some b2"
    and b2: "o_out b2 = [f2, Local DOMAIN_SOCK_PATH q, f4]" "pi_msg q = dec_int 2 @ ''#'' @ vm"
    using payload_answered [OF okb1 h3, of _ vm reply n3] tb(2) shown_head ip assms(11-13)
    by (auto simp: odr_init_def own_ip_def f4_def)
  have h4: "decoded ea (frame_buf (wire f4)) = head (sd_ip b) (sd_ip a) 1 1 payload_resp 0 (pi_msg reply)"
    using received_head [OF assms(2) assms(3) [symmetric] ip(3,6,4,1)] assms(12) by (simp add: f4_def)
  have "c_string (fixed MSG_LEN (pi_msg reply)) = Some (pi_msg reply)"
    using assms(12,13) by (simp add: c_string_def nul_fixed cstr_fixed)
  then obtain a3 r where s5: "odr_step ea (RawFrame n4 r4 (wire f4)) (a1\<lparr>o_table := ta, o_out := [f1, f3]\<rparr>) = Some a3"
    and a3: "o_out a3 = [f1, f3, Local (pi_src_port p) r]" "pi_msg r = pi_msg reply"
    using response_at_client [OF h4, of "a1\<lparr>o_table := ta, o_out := [f1, f3]\<rparr>" 0 "pi_msg reply" n4 r4] shown_head ip assms(10,12)
    by (auto simp: a1_def odr_init_def own_ip_def init_buffer_def)
  from s1 s2 s3 s4 b2 s5 a3 show ?thesis
    by (intro exI conjI) (assumption | simp add: a1_def)+
qed

section \<open>Concrete hosts\<close>

definition demo_env :: odr_env where
  "demo_env = \<lparr>e_be = False, e_proto = [95, 116], e_heap = replicate ETH_FRAME_LEN 0, e_hostname = ''vm1''\<rparr>"

definition vm1 :: server_details where
  "vm1 = \<lparr>sd_ip = ''192.168.10.1'', sd_mac = [0, 12, 41, 0, 0, 1], sd_index = 2\<rparr>"

definition vm2 :: server_details where
  "vm2 = \<lparr>sd_ip = ''192.168.10.2'', sd_mac = [0, 12, 41, 0, 0, 2], sd_index = 2\<rparr>"

definition demo_client :: peer_info where
  "demo_client = zero_peer\<lparr>pi_dest_ip := ''192.168.10.2'', pi_src_port := ''/tmp/client''\<rparr>"

definition demo_reply :: peer_info where
  "demo_reply = zero_peer\<lparr>pi_msg := ''Mon Nov 3''\<rparr>"

text \<open>A frame that the second host sends to the first one.\<close>

definition demo_frame :: "string \<Rightarrow> string \<Rightarrow> odr_type \<Rightarrow> u8 list" where
  "demo_frame src dest ty = wire (frame_to demo_env b_mac (head src dest 1 5 ty 0 []) vm2)"

lemma demo_env_ok: "env_ok demo_env"
  by (simp add: env_ok_def demo_env_def)

lemma demo_serv: "serv_ok [vm1]" "serv_ok [vm2]"
  by (simp_all add: serv_ok_def vm1_def vm2_def)

lemma demo_decoded:
  assumes "length src < IP_LEN" and "length dest < IP_LEN"
  shows "decoded demo_env (frame_buf (demo_frame src dest ty)) = head src dest 1 5 ty 0 []"
    and "sender_mac (frame_buf (demo_frame src dest ty)) = [0, 12, 41, 0, 0, 2]"
  unfolding demo_frame_def
  using received_head [OF demo_env_ok refl b_mac_length, of vm2 src dest "[]" 1 5 ty 0] assms by (simp_all add: vm2_def)

lemma demo_ok: "odr_ok (odr_init [vm1])"
  using node_init [OF demo_env_ok demo_serv(1)] by (simp add: node_ok_def)

text \<open>
  C30: the node keeps its table well-formed on every sequence of frames, client requests and
  timeouts: a hundred rows, a row free exactly when its address is empty, no two rows for the
  same address, no row for an own address; the table of clients keeps its size and the
  interfaces never change.
\<close>

theorem node_well_formed:
  assumes "env_ok env" and "serv_ok serv" and "orun (odr_step env) evs (odr_init serv) = Some s"
  shows "table_ok (o_table s) \<and> length (o_buffer s) = 100 \<and> o_serv s = serv \<and>
    (\<forall>d \<in> set serv. routes (o_table s) (sd_ip d) = None)"
  using node.run_inv [OF node_init [OF assms(1,2)] _ assms(3)] own_unrouted [OF assms] by (auto simp: node_ok_def odr_ok_def)

lemma demo_request:
  "\<exists>s. odr_step demo_env (RawFrame 7 zero_peer (demo_frame ''192.168.10.2'' ''192.168.10.3'' rreq)) (odr_init [vm1]) = Some s"
  by (rule rreq_defined [OF demo_env_ok demo_ok])
    (simp_all add: demo_decoded shown_head room_init odr_init_def own_ip_def vm1_def)

theorem node_well_formed_witness:
  "\<exists>s. orun (odr_step demo_env) [RawFrame 7 zero_peer (demo_frame ''192.168.10.2'' ''192.168.10.3'' rreq), Stale] (odr_init [vm1]) = Some s \<and>
     table_ok (o_table s) \<and> routes (o_table s) ''192.168.10.1'' = None"
proof -
  obtain s where "orun (odr_step demo_env) [RawFrame 7 zero_peer (demo_frame ''192.168.10.2'' ''192.168.10.3'' rreq), Stale] (odr_init [vm1]) = Some s"
    using demo_request by auto
  with node_well_formed [OF demo_env_ok demo_serv(1) this] show ?thesis
    by (auto simp: vm1_def)
qed

text \<open>
  C9: a node repeats the route requests of another host only finitely often: while that host's
  frames carry identifiers up to \<open>M\<close> and hop counts up to \<open>H\<close> and nothing clears the table, the
  node sends at most \<open>M + H + 1\<close> of them on each interface, however many arrive; on an interface that
  its list of addresses has more than once, that many for each entry.
\<close>

theorem flooding_bounded:
  assumes "env_ok env" and "serv_ok serv" and "S \<notin> sd_ip ` set serv" and "S \<noteq> []"
    and "\<forall>e \<in> set evs. flood_ok env S M H e" and "orun (odr_step env) evs (odr_init serv) = Some s"
  shows "on_if i (rreqs env S (o_out s)) \<le> ports i serv * (M + H + 1)"
proof -
  note i = flood_init [OF assms(1-4), of M H]
  have "flood_rank M H S (odr_init serv) = M + H + 1"
    by (simp add: flood_rank_def row_rank_def odr_init_def init_routes)
  then have "count_changes (flood_step env S) evs (odr_init serv) \<le> M + H + 1"
    using flood.changes_bounded [OF i assms(5)] by simp
  then have "ports i serv * count_changes (flood_step env S) evs (odr_init serv) \<le> ports i serv * (M + H + 1)"
    by (rule mult_le_mono2)
  with rreqs_per_flood [OF i assms(5,6), of i] show ?thesis
    by (simp add: odr_init_def rreqs_def on_if_def)
qed

theorem flooding_bounded_witness:
  "\<exists>s. orun (odr_step demo_env) [RawFrame 7 zero_peer (demo_frame ''192.168.10.2'' ''192.168.10.3'' rreq)] (odr_init [vm1]) = Some s \<and>
     on_if 2 (rreqs demo_env ''192.168.10.2'' (o_out s)) \<le> 7 \<and> on_if 3 (rreqs demo_env ''192.168.10.2'' (o_out s)) = 0"
proof -
  obtain s where s: "orun (odr_step demo_env) [RawFrame 7 zero_peer (demo_frame ''192.168.10.2'' ''192.168.10.3'' rreq)] (odr_init [vm1]) = Some s"
    using demo_request by auto
  have b: "on_if i (rreqs demo_env ''192.168.10.2'' (o_out s)) \<le> ports i [vm1] * (5 + 1 + 1)" for i
  proof (rule flooding_bounded [OF demo_env_ok demo_serv(1) _ _ _ s])
    show "\<forall>e \<in> set [RawFrame 7 zero_peer (demo_frame ''192.168.10.2'' ''192.168.10.3'' rreq)]. flood_ok demo_env ''192.168.10.2'' 5 1 e"
      by (simp add: flood_ok_def Let_def demo_decoded)
  qed (simp_all add: vm1_def)
  show ?thesis
    using s b [of 2] b [of 3] by (auto simp: ports_def vm1_def)
qed

theorem foreign_rreq_processed_witness:
  "\<exists>t. odr_step demo_env (RawFrame 7 zero_peer (demo_frame ''192.168.10.2'' ''192.168.10.1'' rreq)) (odr_init [vm1]) = Some t"
  by (rule foreign_rreq_processed [OF demo_env_ok demo_serv(1), of "[]"])
    (simp_all add: demo_decoded shown_head room_init odr_init_def vm1_def)

theorem own_rreq_wild_read_witness:
  "odr_step demo_env (RawFrame 7 zero_peer (demo_frame ''192.168.10.1'' ''192.168.10.1'' rreq)) (odr_init [vm1]) = None"
  by (rule own_rreq_wild_read [OF demo_env_ok demo_serv(1), of "[]"])
    (simp_all add: demo_decoded shown_head vm1_def)

lemma demo_learned:
  assumes "odr_step demo_env (RawFrame 7 zero_peer (demo_frame ''192.168.10.2'' ''192.168.10.3'' rreq)) (odr_init [vm1]) = Some s"
  shows "learns (decoded demo_env (frame_buf (demo_frame ''192.168.10.2'' ''192.168.10.3'' rreq))) (odr_init [vm1])"
    and "get_empty_row (o_table s) < ROUTING_TABLE_SIZE"
proof -
  let ?bs = "demo_frame ''192.168.10.2'' ''192.168.10.3'' rreq"
  have l: "learns (decoded demo_env (frame_buf ?bs)) (odr_init [vm1])"
    by (rule learns_new [OF demo_ok]) (simp_all add: demo_decoded init_routes odr_init_def own_ip_def vm1_def)
  then show "learns (decoded demo_env (frame_buf ?bs)) (odr_init [vm1])" .
  have e: "get_row_entry init_routing_table (fh_src_ip (decoded demo_env (frame_buf ?bs))) = -1"
    using row_entry_iff [OF init_ok] init_routes by (simp add: demo_decoded)
  have "odr_process_frame demo_env 7 zero_peer (frame_buf ?bs) (odr_init [vm1]) = Some s"
    using assms by simp
  from frame_effect(3) [OF demo_env_ok demo_ok frame_buf_room this]
  have "o_table s = init_routing_table[get_empty_row init_routing_table :=
      learn (7, decoded demo_env (frame_buf ?bs), sender_mac (frame_buf ?bs)) None]"
    using l update_unknown [OF init_ok e] by (auto simp: odr_init_def split: if_splits)
  then show "get_empty_row (o_table s) < ROUTING_TABLE_SIZE"
    by (simp add: get_empty_row_def init_routing_table_def zero_row_def numeral_eq_Suc)
qed

theorem reply_follows_request_witness:
  "\<exists>s t. odr_step demo_env (RawFrame 7 zero_peer (demo_frame ''192.168.10.2'' ''192.168.10.3'' rreq)) (odr_init [vm1]) = Some s \<and>
     odr_step demo_env (RawFrame 8 zero_peer (demo_frame ''192.168.10.3'' ''192.168.10.2'' rrep)) s = Some t \<and>
     o_out t = o_out s @ [frame_to demo_env [0, 12, 41, 0, 0, 2] (head ''192.168.10.3'' ''192.168.10.2'' 2 5 rrep 0 []) vm1]"
proof -
  obtain s where s: "odr_step demo_env (RawFrame 7 zero_peer (demo_frame ''192.168.10.2'' ''192.168.10.3'' rreq)) (odr_init [vm1]) = Some s"
    using demo_request by blast
  have "\<exists>t. odr_step demo_env (RawFrame 8 zero_peer (demo_frame ''192.168.10.3'' ''192.168.10.2'' rrep)) s = Some t \<and>
    o_out t = o_out s @ map (frame_to demo_env (sender_mac (frame_buf (demo_frame ''192.168.10.2'' ''192.168.10.3'' rreq)))
      (head (cstr (fh_src_ip (decoded demo_env (frame_buf (demo_frame ''192.168.10.3'' ''192.168.10.2'' rrep))))) ''192.168.10.2''
        (fh_hop_count (decoded demo_env (frame_buf (demo_frame ''192.168.10.3'' ''192.168.10.2'' rrep))) + 1)
        (fh_bc_id (decoded demo_env (frame_buf (demo_frame ''192.168.10.3'' ''192.168.10.2'' rrep)))) rrep 0 [])) [vm1]"
    by (rule reply_follows_request [where ?evs0.0 = "[]" and evs = "[]", OF demo_env_ok demo_serv(1) _ s demo_learned(1) [OF s] _ _ _ _ _
          demo_learned(2) [OF s]])
      (simp_all add: demo_decoded shown_head init_routes odr_init_def)
  then show ?thesis
    using s by (auto simp: demo_decoded)
qed

theorem two_node_exchange_witness:
  "\<exists>a1 b1 a2 b2 a3 f1 f2 f3 f4 q r.
    odr_step demo_env (ClientMsg demo_client) (odr_init [vm1]) = Some a1 \<and> o_out a1 = [f1] \<and>
    odr_step demo_env (RawFrame 1 zero_peer (wire f1)) (odr_init [vm2]) = Some b1 \<and> o_out b1 = [f2] \<and>
    odr_step demo_env (RawFrame 2 zero_peer (wire f2)) a1 = Some a2 \<and> o_out a2 = [f1, f3] \<and>
    odr_step demo_env (RawFrame 3 demo_reply (wire f3)) b1 = Some b2 \<and> o_out b2 = [f2, Local DOMAIN_SOCK_PATH q, f4] \<and>
    odr_step demo_env (RawFrame 4 zero_peer (wire f4)) a2 = Some a3 \<and> o_out a3 = [f1, f3, Local (pi_src_port demo_client) r] \<and>
    pi_msg q = dec_int 2 @ ''#'' @ ''vm1'' \<and> pi_msg r = pi_msg demo_reply"
proof (rule two_node_exchange [OF demo_env_ok demo_env_ok refl demo_serv])
  show "ip_to_vm (fixed IP_LEN (sd_ip vm1)) = Some ''vm1''"
    by (simp add: ip_to_vm_def c_string_def fixed_def vm1_def cstr_def numeral_eq_Suc)
qed (simp_all add: vm1_def vm2_def demo_client_def demo_reply_def)

text \<open>
  C31: the table refines a map from addresses to routes.  After any sequence of recorded frames
  the route to an address is what the frames with that source make of the earlier route, one
  after the other; frames with other sources do not touch it.
\<close>

theorem routing_table_refines_map:
  assumes "table_ok t" and "\<forall>d \<in> set ds. frame_ok d" and "orun record_frame ds t = Some u"
  shows "table_ok u \<and> routes u k = fold (\<lambda>d v. Some (learn d v)) (filter (\<lambda>d. frame_key d = k) ds) (routes t k)"
  using rt.run_inv [OF assms] rt.run_lookup [OF assms] by simp

theorem routing_table_refines_map_witness:
  "\<exists>u. orun record_frame [(7, head ''192.168.10.2'' ''192.168.10.3'' 1 5 rreq 0 [], [0, 12, 41, 0, 0, 2])] init_routing_table = Some u \<and>
     (\<exists>r. routes u ''192.168.10.2'' = Some r \<and> rt_hop_count r = 1)"
proof -
  let ?h = "head ''192.168.10.2'' ''192.168.10.3'' 1 5 rreq 0 []"
  have e: "get_row_entry init_routing_table (fh_src_ip ?h) = -1"
    using row_entry_iff [OF init_ok] init_routes by simp
  obtain u where u: "orun record_frame [(7, ?h, [0, 12, 41, 0, 0, 2])] init_routing_table = Some u"
    using update_unknown [OF init_ok e] room_init by (simp add: init_routing_table_def)
  have "table_ok u \<and> routes u ''192.168.10.2'' = fold (\<lambda>d v. Some (learn d v))
      (filter (\<lambda>d. frame_key d = ''192.168.10.2'') [(7, ?h, [0, 12, 41, 0, 0, 2])]) (routes init_routing_table ''192.168.10.2'')"
    by (rule routing_table_refines_map [OF init_ok _ u]) (simp add: frame_ok_def frame_key_def)
  then show ?thesis
    using u by (simp add: frame_key_def init_routes)
qed

text \<open>
  A newer request that arrives through another neighbour refreshes the identifier of the
  route but neither its neighbour nor its hop count: payloads keep following the old path.
\<close>

theorem newer_route_keeps_neighbour:
  assumes "table_ok t" and "length mac = IF_HADDR" and "routes t (cstr (fh_src_ip h)) = Some r"
    and "sint (rt_broadcast_id r) < sint (fh_bc_id h)"
  shows "\<exists>u. update_routing_table now t h mac = Some u \<and>
    routes u (cstr (fh_src_ip h)) = Some (r\<lparr>rt_broadcast_id := fh_bc_id h\<rparr>)"
proof -
  have s: "cstr (fh_src_ip h) \<noteq> []"
    using assms(3) routes_empty [OF assms(1)] by auto
  from assms(1) obtain u where u: "update_routing_table now t h mac = Some u"
    by (cases rule: row_entry_cases [of t "fh_src_ip h"]) (use assms(3) update_known in auto)
  then show ?thesis
    using update_table(3) [OF assms(1,2) u s] assms(3,4) by simp
qed

theorem newer_route_keeps_neighbour_witness:
  "\<exists>t u r. routes t ''192.168.10.2'' = Some r \<and> rt_next_hop_mac r = [0, 12, 41, 0, 0, 2] \<and>
     update_routing_table 9 t (head ''192.168.10.2'' ''192.168.10.3'' 1 6 rreq 0 []) [0, 12, 41, 0, 0, 9] = Some u \<and>
     routes u ''192.168.10.2'' = Some (r\<lparr>rt_broadcast_id := 6\<rparr>)"
proof -
  let ?h = "head ''192.168.10.2'' ''192.168.10.3'' 1 5 rreq 0 []" and ?mac = "[0, 12, 41, 0, 0, 2] :: u8 list"
  have e: "get_row_entry init_routing_table (fh_src_ip ?h) = -1"
    using row_entry_iff [OF init_ok] init_routes by simp
  obtain t where t: "update_routing_table 7 init_routing_table ?h ?mac = Some t"
    using update_unknown [OF init_ok e] room_init by (simp add: init_routing_table_def)
  have tok: "table_ok t" and r: "routes t ''192.168.10.2'' = Some (learn (7, ?h, ?mac) None)"
    using update_table(1,3) [OF init_ok _ t] init_routes by simp_all
  have "\<exists>u. update_routing_table 9 t (head ''192.168.10.2'' ''192.168.10.3'' 1 6 rreq 0 []) [0, 12, 41, 0, 0, 9] = Some u \<and>
      routes u (cstr (fh_src_ip (head ''192.168.10.2'' ''192.168.10.3'' 1 6 rreq 0 []))) =
      Some ((learn (7, ?h, ?mac) None)\<lparr>rt_broadcast_id := fh_bc_id (head ''192.168.10.2'' ''192.168.10.3'' 1 6 rreq 0 [])\<rparr>)"
    by (rule newer_route_keeps_neighbour [OF tok]) (use r in simp_all)
  then obtain u where "update_routing_table 9 t (head ''192.168.10.2'' ''192.168.10.3'' 1 6 rreq 0 []) [0, 12, 41, 0, 0, 9] = Some u"
    and "routes u ''192.168.10.2'' = Some ((learn (7, ?h, ?mac) None)\<lparr>rt_broadcast_id := 6\<rparr>)"
    by auto
  then show ?thesis
    using r by (intro exI [of _ t] exI [of _ u] exI [of _ "learn (7, ?h, ?mac) None"]) simp
qed

text \<open>
  The two conversions between host names and addresses agree on the ten hosts.
\<close>

theorem vm_names_roundtrip:
  "list_all (\<lambda>n. Option.bind (set_ip (''vm'' @ dec_nat n)) (\<lambda>ip. ip_to_vm (fixed IP_LEN ip)) = Some (''vm'' @ dec_nat n)) [1..<11]"
  by code_simp

end
