(* ===== verification/Odr_App.thy ===== *)
theory Odr_App
  imports Odr_Routes
begin

text \<open>
  The two programs that talk through the router: the time client \<open>src/hw3/client.c\<close> and the time
  server \<open>src/hw3/server.c\<close>.  A turn of the client's loop is a word from the user and the
  datagram that arrives within two seconds, if one does.
\<close>

section \<open>The client\<close>

record app_client =
  ac_arg :: string
  ac_sent :: "peer_info list"
  ac_got :: "(string \<times> string) list"

text \<open>\<open>scanf("%s", arg)\<close> into twenty characters, then \<open>arg[4] = 0\<close>.\<close>

definition read_arg :: "string \<Rightarrow> string \<Rightarrow> string option" where
  "read_arg word arg =
     (if length word < length arg then Some ((word @ NUL # drop (Suc (length word)) arg)[4 := NUL]) else None)"

definition app_client_turn ::
  "string \<Rightarrow> string \<Rightarrow> string \<Rightarrow> string \<times> peer_info option \<Rightarrow> app_client \<Rightarrow> app_client option" where
  "app_client_turn hostname this_ip client_port turn c = do {
     arg \<leftarrow> read_arg (fst turn) (ac_arg c);
     ip \<leftarrow> set_ip arg;
     m \<leftarrow> msg_send hostname ip DOMAIN_SOCK_PATH this_ip client_port ''GetMeTime'' 0;
     case snd turn of
       Some p \<Rightarrow>
         (if length (pi_msg p) < 30
          then Some (c\<lparr>ac_arg := arg, ac_sent := ac_sent c @ [m], ac_got := ac_got c @ [(cstr arg, fst (msg_recv p))]\<rparr>)
          else None)
     | None \<Rightarrow> do {
         m' \<leftarrow> msg_send hostname ip DOMAIN_SOCK_PATH this_ip client_port ''GetMeTime'' 1;
         Some (c\<lparr>ac_arg := arg, ac_sent := ac_sent c @ [m, m']\<rparr>)
       }
   }"

definition app_client_main ::
  "string \<Rightarrow> string \<Rightarrow> (string \<times> peer_info option) list \<Rightarrow> app_client option" where
  "app_client_main hostname client_port turns = do {
     this_ip \<leftarrow> set_this_ip hostname;
     orun (app_client_turn hostname this_ip client_port) turns
       \<lparr>ac_arg = replicate 20 NUL, ac_sent = [], ac_got = []\<rparr>
   }"

section \<open>The server\<close>

record app_server =
  as_bc_id :: cint
  as_sent :: "peer_info list"

text \<open>
  One request: \<open>now\<close> is what \<open>ctime\<close> makes of the time.  The static \<open>bc_id\<close> only decides
  whether the request is reported.
\<close>

definition respond :: "string \<Rightarrow> string \<Rightarrow> string \<times> peer_info \<Rightarrow> app_server \<Rightarrow> app_server option" where
  "respond hostname this_ip req s = do {
     let (now, p) = req;
     let (recvline, client_ip, client_port) = msg_recv p;
     let bid = (word_of_int (atoi (takeWhile (\<lambda>c. c \<noteq> CHR ''#'') recvline)) :: cint);
     let buff = take 24 now;
     m \<leftarrow> msg_send hostname client_ip client_port this_ip DOMAIN_SOCK_PATH buff 0;
     Some (s\<lparr>as_bc_id := (if sint (as_bc_id s) < sint bid then bid else as_bc_id s), as_sent := as_sent s @ [m]\<rparr>)
   }"

definition app_server_main :: "string \<Rightarrow> (string \<times> peer_info) list \<Rightarrow> app_server option" where
  "app_server_main hostname reqs = do {
     this_ip \<leftarrow> set_this_ip hostname;
     orun (respond hostname this_ip) reqs \<lparr>as_bc_id = 0, as_sent = []\<rparr>
   }"

section \<open>Lemmas\<close>

text \<open>Every answer of the server fits the router, the client and their buffers.\<close>

lemma respond_answer:
  assumes "respond hostname this_ip (now, p) s = Some t"
  shows "\<exists>m. as_sent t = as_sent s @ [m] \<and> pi_msg m = take 24 now \<and> length (pi_msg m) < 30"
  using assms by (auto simp: respond_def msg_recv_def msg_send_def Let_def split: if_splits)

lemma takeWhile_digits:
  "sint b \<ge> 0 \<Longrightarrow> takeWhile (\<lambda>c. c \<noteq> CHR ''#'') (dec_int (sint b) @ ''#'' @ vm) = dec_nat (nat (sint b))" for b :: cint
  using dec_nat_digits [of "nat (sint b)"] by (subst takeWhile_append2) (auto simp: dec_int_def is_digit_not)

text \<open>
  The server reads from the router's message the identifier that the router put there, and
  answers with the time, whatever the request; the answer fits the message of a payload and the
  buffer of the client.
\<close>

theorem server_answers_router:
  assumes "get_data_from_server env reply h vm s = Some r" and "0 \<le> sint (fh_bc_id h)"
    and "o_out (snd r) = o_out s @ [Local DOMAIN_SOCK_PATH q]" and "length this_ip < INET_ADDRSTRLEN"
  shows "\<exists>u m. respond hostname this_ip (now, q) a = Some u \<and> as_sent u = as_sent a @ [m] \<and>
    pi_msg m = take 24 now \<and>
    as_bc_id u = (if sint (as_bc_id a) < sint (fh_bc_id h) then fh_bc_id h else as_bc_id a)"
proof -
  have q: "pi_msg q = dec_int (sint (fh_bc_id h)) @ ''#'' @ vm" "pi_src_ip q = ''srcip''" "pi_src_port q = ''srcport''"
    using assms(1,3)
    by (auto simp: get_data_from_server_def Let_def emit_def msg_send_def bind_eq_Some_conv split: if_splits)
  have "atoi (takeWhile (\<lambda>c. c \<noteq> CHR ''#'') (pi_msg q)) = sint (fh_bc_id h)"
    unfolding q(1) takeWhile_digits [OF assms(2)] using assms(2) by (simp add: atoi_dec_nat)
  then show ?thesis
    using assms(4) q by (simp add: respond_def msg_recv_def msg_send_def Let_def)
qed

theorem server_answers_router_witness:
  "\<exists>u m. respond ''vm2'' ''192.168.10.2''
      (''Mon Nov 16 10:00:00 2026'', \<lparr>pi_dest_port = ''dst_port'', pi_dest_ip = ''dst_ip'', pi_src_port = ''srcport'',
        pi_src_ip = ''srcip'', pi_msg = ''2#vm1'', pi_source_vm = ''vm1'', pi_flag = 0\<rparr>) \<lparr>as_bc_id = 0, as_sent = []\<rparr> = Some u \<and>
      as_sent u = [m] \<and> pi_msg m = ''Mon Nov 16 10:00:00 2026'' \<and> as_bc_id u = 2"
proof -
  let ?h = "head ''192.168.10.1'' ''192.168.10.2'' 1 2 payload_req 0 []"
  let ?q = "\<lparr>pi_dest_port = ''dst_port'', pi_dest_ip = ''dst_ip'', pi_src_port = ''srcport'',
        pi_src_ip = ''srcip'', pi_msg = ''2#vm1'', pi_source_vm = ''vm1'', pi_flag = 0\<rparr>"
  have d: "dec_int 2 = ''2''"
    by code_simp
  obtain r where r: "get_data_from_server demo_env demo_reply ?h ''vm1'' (odr_init [vm2]) = Some r"
      "o_out (snd r) = o_out (odr_init [vm2]) @ [Local DOMAIN_SOCK_PATH ?q]"
    by (simp add: get_data_from_server_def d msg_send_def demo_env_def demo_reply_def strcpy_def emit_def Let_def odr_init_def)
  show ?thesis
    using server_answers_router [OF r(1) _ r(2), of "''192.168.10.2''" "''vm2''" "''Mon Nov 16 10:00:00 2026''"
      "\<lparr>as_bc_id = 0, as_sent = []\<rparr>"] by simp
qed

end
