(* ===== verification/Arp.thy ===== *)
theory Arp
  imports Hw_Addrs
begin

text \<open>
  The address resolution program, \<open>src/hw4/arp.c\<close> and \<open>src/hw4/arp.h\<close>, and the functions of
  \<open>src/hw4/common.c\<close> that its clients call: the cache, requests and replies on the wire, the
  connections of waiting clients.  A turn of the main loop is a frame, a client, or both.
\<close>

section \<open>Data\<close>

abbreviation NUM_CACHE_ENTRIES :: nat where "NUM_CACHE_ENTRIES \<equiv> 40"
abbreviation NO_FD :: cint where "NO_FD \<equiv> 0"
abbreviation SIZE_ARP :: nat where "SIZE_ARP \<equiv> 79"
abbreviation ETH_LEN :: nat where "ETH_LEN \<equiv> 1514"

record arp_cache_details =
  ac_ip :: string
  ac_mac :: "u8 list"
  ac_index :: cint
  ac_fd :: cint
  ac_filled :: cint

definition zero_entry :: arp_cache_details where
  "zero_entry = \<lparr>ac_ip = [], ac_mac = replicate 6 0, ac_index = 0, ac_fd = 0, ac_filled = 0\<rparr>"

record arp_req_reply =
  eth_dest :: "u8 list"
  eth_src :: "u8 list"
  frame_type :: u16
  hard_type :: u16
  prot_type :: u16
  hard_size :: u16
  prot_size :: u16
  op :: u16
  sender_eth :: "u8 list"
  sender_ip :: string
  target_eth :: "u8 list"
  target_ip :: string
  identification :: string

record hwaddr =
  sll_ifindex :: cint
  sll_hatype :: u16
  sll_halen :: u8
  sll_addr :: "u8 list"

section \<open>Bytes\<close>

definition half_bytes :: "bool \<Rightarrow> u16 \<Rightarrow> u8 list" where
  "half_bytes be w =
     (let le = [word_of_nat (unat w mod 256), word_of_nat (unat w div 256 mod 256)] in if be then rev le else le)"

definition half_of_bytes :: "bool \<Rightarrow> u8 list \<Rightarrow> u16" where
  "half_of_bytes be bs = word_of_nat (nat_of_bytes (if be then rev bs else bs))"

definition arp_bytes :: "bool \<Rightarrow> arp_req_reply \<Rightarrow> u8 list" where
  "arp_bytes be p = eth_dest p @ eth_src p @ half_bytes be (frame_type p) @ half_bytes be (hard_type p) @
     half_bytes be (prot_type p) @ half_bytes be (hard_size p) @ half_bytes be (prot_size p) @ half_bytes be (op p) @
     sender_eth p @ map byte_of_char (sender_ip p) @ target_eth p @ map byte_of_char (target_ip p) @
     map byte_of_char (identification p)"

definition arp_of_bytes :: "bool \<Rightarrow> u8 list \<Rightarrow> arp_req_reply" where
  "arp_of_bytes be bs = \<lparr>eth_dest = take 6 bs, eth_src = take 6 (drop 6 bs),
     frame_type = half_of_bytes be (take 2 (drop 12 bs)), hard_type = half_of_bytes be (take 2 (drop 14 bs)),
     prot_type = half_of_bytes be (take 2 (drop 16 bs)), hard_size = half_of_bytes be (take 2 (drop 18 bs)),
     prot_size = half_of_bytes be (take 2 (drop 20 bs)), op = half_of_bytes be (take 2 (drop 22 bs)),
     sender_eth = take 6 (drop 24 bs), sender_ip = map char_of_byte (take 20 (drop 30 bs)),
     target_eth = take 6 (drop 50 bs), target_ip = map char_of_byte (take 20 (drop 56 bs)),
     identification = map char_of_byte (take 3 (drop 76 bs))\<rparr>"

definition hwaddr_bytes :: "bool \<Rightarrow> hwaddr \<Rightarrow> u8 list" where
  "hwaddr_bytes be h = bytes_of_word be (sll_ifindex h) @ half_bytes be (sll_hatype h) @ [sll_halen h] @ sll_addr h"

definition hwaddr_of_bytes :: "bool \<Rightarrow> u8 list \<Rightarrow> hwaddr" where
  "hwaddr_of_bytes be bs = \<lparr>sll_ifindex = word_of_bytes be (take 4 bs), sll_hatype = half_of_bytes be (take 2 (drop 4 bs)),
     sll_halen = hd (drop 6 bs), sll_addr = take 8 (drop 7 bs)\<rparr>"

section \<open>State\<close>

text \<open>
  From the host: the byte order, the value that \<open>htons(OUR_PF_PROTOCOL)\<close> makes of the address of
  a string, the contents of the block that \<open>malloc\<close> returns, and how many bytes that are not
  zero follow a hardware address in a row of the cache, which \<open>strlen\<close> may count.
\<close>

record arp_env =
  ae_be :: bool
  ae_proto :: u16
  ae_heap :: "u8 list"
  ae_pad :: nat

datatype arp_out = Frame cint "u8 list" | Write cint "u8 list" | Close cint

record arp =
  a_src_mac :: "u8 list"
  a_src_ip :: string
  a_src_ifindex :: cint
  a_cache :: "arp_cache_details list"
  a_recvline :: "u8 list"
  a_out :: "arp_out list"

definition put :: "arp_out list \<Rightarrow> arp \<Rightarrow> arp" where
  "put xs s = s\<lparr>a_out := a_out s @ xs\<rparr>"

section \<open>The cache\<close>

definition update_cache_entry ::
  "server_details \<Rightarrow> nat \<Rightarrow> cint \<Rightarrow> arp_cache_details list \<Rightarrow> arp_cache_details list option" where
  "update_cache_entry svd i fd cache =
     aset cache (int i) \<lparr>ac_ip = sd_ip svd, ac_mac = sd_mac svd, ac_index = sd_index svd, ac_fd = fd, ac_filled = 1\<rparr>"

text \<open>
  The loop ends at the first row that is not filled or holds the address, and the same update
  follows in both cases.
\<close>

definition insert_into_cache ::
  "server_details \<Rightarrow> cint \<Rightarrow> arp_cache_details list \<Rightarrow> arp_cache_details list option" where
  "insert_into_cache svd fd cache =
     update_cache_entry svd (first_idx (\<lambda>e. ac_filled e \<noteq> 1 \<or> ac_ip e = sd_ip svd) cache) fd cache"

definition boot_row :: "server_details \<Rightarrow> arp \<Rightarrow> arp option" where
  "boot_row d s = do {
     let s1 = (if a_src_ifindex s = -1
               then s\<lparr>a_src_mac := sd_mac d, a_src_ifindex := sd_index d, a_src_ip := sd_ip d\<rparr> else s);
     cache \<leftarrow> insert_into_cache d NO_FD (a_cache s1);
     Some (s1\<lparr>a_cache := cache\<rparr>)
   }"

definition boot_cache :: "server_details list \<Rightarrow> arp \<Rightarrow> arp option" where
  "boot_cache svd s = orun boot_row (takeWhile (\<lambda>d. sd_ip d \<noteq> []) (take 20 svd)) s"

definition display_entry :: "nat \<times> arp_cache_details \<Rightarrow> string list" where
  "display_entry ie = (case ie of (i, e) \<Rightarrow>
     [''('' @ dec_nat (Suc i) @ '')'', ''IP         : '' @ ac_ip e, ''HW         : '' @ display_mac_addr (ac_mac e),
      ''Ifindex    : '' @ dec_int (sint (ac_index e)), ''Waiting Fd : '' @ dec_int (sint (ac_fd e)), []])"

definition display_cache :: "arp \<Rightarrow> string list" where
  "display_cache s = [[], ''Cache contents on '' @ a_src_ip s] @
     concat (map display_entry (enumerate 0 (takeWhile (\<lambda>e. ac_filled e = 1) (a_cache s))))"

section \<open>Frames\<close>

definition arp_send_packet :: "arp_env \<Rightarrow> u8 list \<Rightarrow> u8 list \<Rightarrow> cint \<Rightarrow> arp_req_reply \<Rightarrow> arp \<Rightarrow> arp" where
  "arp_send_packet env dest_mac src_mac ifidx p =
     put [Frame ifidx (take 6 dest_mac @ take 6 src_mac @ half_bytes (ae_be env) (ae_proto env) @
       arp_bytes (ae_be env) p @ drop (14 + SIZE_ARP) (ae_heap env))]"

abbreviation println :: string where
  "println \<equiv> ''***************************************************************''"

definition print_arp :: "string \<Rightarrow> arp_req_reply \<Rightarrow> string list option" where
  "print_arp curr_vm p = do {
     sip \<leftarrow> c_string (sender_ip p);
     tip \<leftarrow> c_string (target_ip p);
     Some [println,
       [CHR 0x09] @ (if op p = 1 then '' Ethernet frame header and ARP request on '' else '' Ethernet frame header and ARP reply on '') @
         curr_vm @ [CHR 0x09],
       println,
       ''eth_dest       : '' @ display_mac_addr (eth_dest p),
       ''eth_src        : '' @ display_mac_addr (eth_src p),
       ''frame_type     : '' @ dec_nat (unat (frame_type p)),
       ''hard_type      : '' @ dec_nat (unat (hard_type p)),
       ''prot_type      : '' @ dec_nat (unat (prot_type p)),
       ''hard_size      : '' @ dec_nat (unat (hard_size p)),
       ''prot_size      : '' @ dec_nat (unat (prot_size p)),
       ''op             : '' @ dec_nat (unat (op p)),
       ''sender_eth     : '' @ display_mac_addr (sender_eth p),
       ''sender_ip      : '' @ sip,
       ''target_eth     : '' @ display_mac_addr (target_eth p),
       ''target_ip      : '' @ tip,
       ''identification : '' @ cstr (identification p),
       println]
   }"

definition prepare_arp_req_reply :: "arp_env \<Rightarrow> u16 \<Rightarrow> arp \<Rightarrow> arp_req_reply option" where
  "prepare_arp_req_reply env opc s = do {
     ip \<leftarrow> strcpy IP_LEN (a_src_ip s);
     Some \<lparr>eth_dest = replicate 6 0, eth_src = take 6 (a_src_mac s), frame_type = 0x0806, hard_type = 1,
       prot_type = ae_proto env, hard_size = 6, prot_size = 2, op = opc, sender_eth = take 6 (a_src_mac s), sender_ip = ip,
       target_eth = replicate 6 0, target_ip = replicate 20 NUL, identification = ''dk'' @ [NUL]\<rparr>
   }"

definition send_req :: "arp_env \<Rightarrow> string \<Rightarrow> cint \<Rightarrow> arp \<Rightarrow> arp option" where
  "send_req env ip waiting_fd s = do {
     req \<leftarrow> prepare_arp_req_reply env 1 s;
     t \<leftarrow> strcpy IP_LEN ip;
     cache \<leftarrow> insert_into_cache \<lparr>sd_ip = ip, sd_mac = replicate 6 0, sd_index = 0\<rparr> waiting_fd (a_cache s);
     Some (arp_send_packet env (replicate 6 255) (a_src_mac s) (a_src_ifindex s) (req\<lparr>target_ip := t\<rparr>) (s\<lparr>a_cache := cache\<rparr>))
   }"

definition mac_strlen :: "arp_env \<Rightarrow> u8 list \<Rightarrow> nat" where
  "mac_strlen env mac = (if 0 \<in> set mac then length (takeWhile (\<lambda>b. b \<noteq> 0) mac) else length mac + ae_pad env)"

text \<open>A result of 1 is \<open>True\<close>.\<close>

definition send_reply :: "arp_env \<Rightarrow> string \<Rightarrow> cint \<Rightarrow> arp \<Rightarrow> arp \<times> bool" where
  "send_reply env ip fd s =
     (let n = length (takeWhile (\<lambda>e. ac_filled e = 1) (a_cache s));
          i = first_idx (\<lambda>e. ac_ip e = ip) (take n (a_cache s)) in
      if i < n then
        (let e = a_cache s ! i;
             hwa = \<lparr>sll_ifindex = ac_index e, sll_hatype = 1, sll_halen = word_of_nat (mac_strlen env (ac_mac e)),
                    sll_addr = take 6 (ac_mac e) @ [0, 0]\<rparr>;
             fd_to_use = (if fd \<noteq> -1 then fd else ac_fd e)
         in (put (Write fd_to_use (hwaddr_bytes (ae_be env) hwa) # (if sint (ac_fd e) > 0 then [Close (ac_fd e)] else []))
               (s\<lparr>a_cache := (a_cache s)[i := e\<lparr>ac_fd := NO_FD\<rparr>]\<rparr>), True))
      else (s, False))"

definition update_response_in_cache :: "arp_req_reply \<Rightarrow> arp \<Rightarrow> arp \<times> bool" where
  "update_response_in_cache p s =
     (let i = first_idx (\<lambda>e. ac_ip e = cstr (sender_ip p)) (a_cache s) in
      if i < length (a_cache s)
      then (s\<lparr>a_cache := (a_cache s)[i := (a_cache s ! i)\<lparr>ac_mac := sender_eth p, ac_index := 2, ac_filled := 1\<rparr>]\<rparr>, True)
      else (s, False))"

definition handle_response :: "arp_env \<Rightarrow> arp_req_reply \<Rightarrow> arp \<Rightarrow> arp" where
  "handle_response env p s = fst (send_reply env (cstr (sender_ip p)) (-1) (fst (update_response_in_cache p s)))"

text \<open>The frame of a request turned into the reply, in place.\<close>

definition answer_of :: "u8 list \<Rightarrow> arp_req_reply \<Rightarrow> arp_req_reply" where
  "answer_of src_mac p =
     p\<lparr>op := 2, eth_src := take 6 src_mac, eth_dest := eth_src p, sender_eth := take 6 src_mac, target_eth := sender_eth p,
       sender_ip := target_ip p, target_ip := sender_ip p\<rparr>"

definition handle_request :: "arp_env \<Rightarrow> arp_req_reply \<Rightarrow> arp \<Rightarrow> arp option" where
  "handle_request env p s =
     (if a_src_ip s = cstr (target_ip p) then do {
        cache \<leftarrow> insert_into_cache \<lparr>sd_ip = cstr (sender_ip p), sd_mac = sender_eth p, sd_index = 0\<rparr> NO_FD (a_cache s);
        let q = answer_of (a_src_mac s) p;
        Some (arp_send_packet env (target_eth q) (a_src_mac s) (a_src_ifindex s) q (s\<lparr>a_cache := cache\<rparr>))
      }
      else Some (fst (update_response_in_cache p s)))"

definition arp_process_frame :: "arp_env \<Rightarrow> arp \<Rightarrow> arp option" where
  "arp_process_frame env s =
     (let p = arp_of_bytes (ae_be env) (take SIZE_ARP (drop 14 (a_recvline s))) in
      if identification p \<noteq> ''dk'' @ [NUL] then Some s
      else do {
        shown \<leftarrow> print_arp [] p;
        if op p = 1 then handle_request env p s
        else if op p = 2 then Some (handle_response env p s)
        else Some s
      })"

section \<open>The main loop\<close>

definition recv_raw :: "u8 list \<Rightarrow> arp \<Rightarrow> arp" where
  "recv_raw bs s = s\<lparr>a_recvline := take ETH_LEN bs @ drop (length (take ETH_LEN bs)) (a_recvline s)\<rparr>"

definition serve_client :: "arp_env \<Rightarrow> cint \<Rightarrow> string \<Rightarrow> arp \<Rightarrow> arp option" where
  "serve_client env connfd buf s =
     (case send_reply env (cstr buf) connfd s of
        (t, True) \<Rightarrow> Some t
      | (t, False) \<Rightarrow> send_req env (cstr buf) connfd t)"

text \<open>A turn: the frame on the raw socket, if any, then the client that connects, if any.\<close>

definition arp_turn :: "arp_env \<Rightarrow> u8 list option \<times> (cint \<times> string) option \<Rightarrow> arp \<Rightarrow> arp option" where
  "arp_turn env turn s = do {
     s1 \<leftarrow> (case fst turn of None \<Rightarrow> Some s | Some bs \<Rightarrow> arp_process_frame env (recv_raw bs s));
     (case snd turn of None \<Rightarrow> Some s1 | Some (connfd, buf) \<Rightarrow> serve_client env connfd (take 100 buf) s1)
   }"

definition arp_zero :: arp where
  "arp_zero = \<lparr>a_src_mac = replicate 6 0, a_src_ip = [], a_src_ifindex = -1, a_cache = replicate NUM_CACHE_ENTRIES zero_entry,
     a_recvline = replicate ETH_LEN 0, a_out = []\<rparr>"

definition boot :: "nat \<Rightarrow> 'a hw_kernel_scheme \<Rightarrow> (u8 list \<Rightarrow> string) \<Rightarrow> arp option" where
  "boot fuel k ntop6 = do {
     sv \<leftarrow> arp_populate_server_details fuel k ntop6 20;
     boot_cache sv arp_zero
   }"

definition arp_main ::
  "arp_env \<Rightarrow> nat \<Rightarrow> 'a hw_kernel_scheme \<Rightarrow> (u8 list \<Rightarrow> string) \<Rightarrow> (u8 list option \<times> (cint \<times> string) option) list \<Rightarrow> arp option" where
  "arp_main env fuel k ntop6 turns = do {
     s \<leftarrow> boot fuel k ntop6;
     orun (arp_turn env) turns s
   }"

section \<open>The client side\<close>

text \<open>What \<open>areq\<close> writes, and what it returns: \<open>None\<close> is a second without an answer.\<close>

definition areq_request :: "string \<Rightarrow> string" where
  "areq_request ip = ip @ [NUL]"

definition areq :: "bool \<Rightarrow> u8 list option \<Rightarrow> int \<times> hwaddr" where
  "areq be answer =
     (case answer of
        Some bs \<Rightarrow> (0, hwaddr_of_bytes be (take 15 bs @ replicate (15 - length bs) 0))
      | None \<Rightarrow> (1, hwaddr_of_bytes be (replicate 15 0)))"

text \<open>The resolver is a parameter; \<open>host\<close> and \<open>str\<close> are the caller's buffers.\<close>

definition get_host_from_ip :: "(ipv4 \<Rightarrow> string option) \<Rightarrow> ipv4 \<Rightarrow> string \<Rightarrow> string \<Rightarrow> string" where
  "get_host_from_ip gethostbyaddr junk ip host =
     (case gethostbyaddr (case inet_pton ip of None \<Rightarrow> junk | Some a \<Rightarrow> a) of None \<Rightarrow> host | Some h \<Rightarrow> h)"

definition get_ip_from_host :: "(string \<Rightarrow> ipv4 list option) \<Rightarrow> string \<Rightarrow> string \<Rightarrow> string" where
  "get_ip_from_host gethostbyname host str =
     (case gethostbyname host of None \<Rightarrow> str | Some as \<Rightarrow> fold (\<lambda>a _. inet_ntop a) as str)"

section \<open>Lemmas: the cache as a map\<close>

text \<open>
  The rows in use are the first \<open>n\<close>, with different addresses; the others are empty.
\<close>

definition cache_n :: "nat \<Rightarrow> arp_cache_details list \<Rightarrow> bool" where
  "cache_n n c \<longleftrightarrow> length c = NUM_CACHE_ENTRIES \<and> n \<le> NUM_CACHE_ENTRIES \<and> (\<forall>i < n. ac_filled (c ! i) = 1) \<and>
     (\<forall>i. n \<le> i \<longrightarrow> i < NUM_CACHE_ENTRIES \<longrightarrow> ac_filled (c ! i) = 0 \<and> ac_ip (c ! i) = []) \<and>
     (\<forall>i < n. \<forall>j < n. ac_ip (c ! i) = ac_ip (c ! j) \<longrightarrow> i = j)"

definition cache_ok :: "arp_cache_details list \<Rightarrow> bool" where
  "cache_ok c \<longleftrightarrow> (\<exists>n. cache_n n c)"

definition hosts :: "arp_cache_details list \<Rightarrow> string \<Rightarrow> arp_cache_details option" where
  "hosts = row_of (\<lambda>e. ac_filled e = 1) ac_ip"

definition entry_for :: "server_details \<times> cint \<Rightarrow> arp_cache_details option \<Rightarrow> arp_cache_details" where
  "entry_for d v = (case d of (svd, fd) \<Rightarrow>
     \<lparr>ac_ip = sd_ip svd, ac_mac = sd_mac svd, ac_index = sd_index svd, ac_fd = fd, ac_filled = 1\<rparr>)"

definition insert_op :: "server_details \<times> cint \<Rightarrow> arp_cache_details list \<Rightarrow> arp_cache_details list option" where
  "insert_op d = (case d of (svd, fd) \<Rightarrow> insert_into_cache svd fd)"

lemma cache_zero: "cache_n 0 (replicate NUM_CACHE_ENTRIES zero_entry)"
  by (simp add: cache_n_def zero_entry_def)

lemma cache_nD:
  assumes "cache_n n c"
  shows "length c = NUM_CACHE_ENTRIES" and "n \<le> NUM_CACHE_ENTRIES" and "i < n \<Longrightarrow> ac_filled (c ! i) = 1"
    and "n \<le> i \<Longrightarrow> i < NUM_CACHE_ENTRIES \<Longrightarrow> ac_filled (c ! i) = 0"
    and "n \<le> i \<Longrightarrow> i < NUM_CACHE_ENTRIES \<Longrightarrow> ac_ip (c ! i) = []"
    and "i < n \<Longrightarrow> j < n \<Longrightarrow> ac_ip (c ! i) = ac_ip (c ! j) \<Longrightarrow> i = j"
  using assms unfolding cache_n_def by blast+

lemma cache_live:
  assumes "cache_n n c" and "i < NUM_CACHE_ENTRIES"
  shows "ac_filled (c ! i) = 1 \<longleftrightarrow> i < n"
proof -
  consider "i < n" | "n \<le> i"
    by linarith
  then show ?thesis
    by cases (use cache_nD(3,4) [OF assms(1)] assms(2) in auto)
qed

text \<open>Where a search for an address among the rows in use ends.\<close>

lemma host_cases [consumes 1, case_names known unknown]:
  assumes "cache_n n c"
  obtains i where "i < n" and "ac_ip (c ! i) = ip" and "hosts c ip = Some (c ! i)" and "\<And>j. j < n \<Longrightarrow> ac_ip (c ! j) = ip \<Longrightarrow> j = i"
  | "\<And>i. i < n \<Longrightarrow> ac_ip (c ! i) \<noteq> ip" and "hosts c ip = None"
proof (cases "\<exists>i < n. ac_ip (c ! i) = ip")
  case True
  then obtain i where i: "i < n" "ac_ip (c ! i) = ip"
    by blast
  have u: "j = i" if "j < n" "ac_ip (c ! j) = ip" for j
    using cache_nD(6) [OF assms that(1) i(1)] that(2) i(2) by simp
  have "hosts c ip = Some (c ! i)"
    unfolding hosts_def
  proof (rule row_of_nth)
    show "i < length c" and "ac_filled (c ! i) = 1" and "ac_ip (c ! i) = ip"
      using cache_nD(1,2,3) [OF assms] i by auto
    show "\<not> (ac_filled (c ! j) = 1 \<and> ac_ip (c ! j) = ip)" if "j < i" for j
      using u [of j] that i(1) by auto
  qed
  then show thesis
    using that(1) [OF i _ u] by blast
next
  case False
  then have n: "\<And>i. i < n \<Longrightarrow> ac_ip (c ! i) \<noteq> ip"
    by blast
  have "hosts c ip = None"
    unfolding hosts_def row_of_None_iff all_set_conv_all_nth
    using n cache_live [OF assms] cache_nD(1) [OF assms] by auto
  from that(2) [OF n this] show thesis .
qed

lemma row_write:
  assumes "cache_n n c" and "i \<le> n" and "i < NUM_CACHE_ENTRIES" and "ac_filled e = 1"
    and "\<And>j. j < n \<Longrightarrow> j \<noteq> i \<Longrightarrow> ac_ip (c ! j) \<noteq> ac_ip e" and "i < n \<Longrightarrow> ac_ip (c ! i) = ac_ip e"
  shows "cache_n (max n (Suc i)) (c[i := e])" and "hosts (c[i := e]) = (hosts c)(ac_ip e \<mapsto> e)"
proof -
  note d = cache_nD [OF assms(1)]
  show "hosts (c[i := e]) = (hosts c)(ac_ip e \<mapsto> e)"
    unfolding hosts_def
  proof (rule row_of_update)
    show "i < length c" and "ac_filled e = 1" and "ac_ip e = ac_ip e"
      using assms(3,4) d(1) by simp_all
    show "\<not> (ac_filled (c ! j) = 1 \<and> ac_ip (c ! j) = ac_ip e)" if "j < length c" and "j \<noteq> i" for j
      using assms(5) [of j] cache_live [OF assms(1)] that d(1) by auto
    show "ac_ip (c ! i) = ac_ip e" if "ac_filled (c ! i) = 1"
      using assms(6) cache_live [OF assms(1,3)] that by blast
  qed
  have m: "max n (Suc i) \<le> NUM_CACHE_ENTRIES"
    using d(2) assms(3) by simp
  have f: "ac_filled (c[i := e] ! j) = 1" if "j < max n (Suc i)" for j
    using that assms(2,3,4) d by (cases "j = i") auto
  have z: "ac_filled (c[i := e] ! j) = 0 \<and> ac_ip (c[i := e] ! j) = []" if "max n (Suc i) \<le> j" and "j < NUM_CACHE_ENTRIES" for j
    using that d by simp
  have u: "j = k" if "j < max n (Suc i)" and "k < max n (Suc i)" and "ac_ip (c[i := e] ! j) = ac_ip (c[i := e] ! k)" for j k
  proof -
    consider "j = i" "k = i" | "j = i" "k \<noteq> i" | "j \<noteq> i" "k = i" | "j \<noteq> i" "k \<noteq> i"
      by blast
    moreover have "l < n" if "l < max n (Suc i)" and "l \<noteq> i" for l
      using that assms(2) by linarith
    ultimately show ?thesis
      by cases (use that assms(3) assms(5) [of j] assms(5) [of k] d(1) d(6) [of j k] in auto)
  qed
  show "cache_n (max n (Suc i)) (c[i := e])"
    unfolding cache_n_def using m f z u d(1) by simp
qed

lemma insert_cases [consumes 1, case_names known fresh full]:
  assumes "cache_n n c"
  obtains i where "i < n" and "hosts c (sd_ip svd) = Some (c ! i)" and "insert_into_cache svd fd c = Some (c[i := entry_for (svd, fd) None])"
      and "cache_n n (c[i := entry_for (svd, fd) None])"
      and "hosts (c[i := entry_for (svd, fd) None]) = (hosts c)(sd_ip svd \<mapsto> entry_for (svd, fd) None)"
  | "n < NUM_CACHE_ENTRIES" and "hosts c (sd_ip svd) = None" and "insert_into_cache svd fd c = Some (c[n := entry_for (svd, fd) None])"
      and "cache_n (Suc n) (c[n := entry_for (svd, fd) None])"
      and "hosts (c[n := entry_for (svd, fd) None]) = (hosts c)(sd_ip svd \<mapsto> entry_for (svd, fd) None)"
  | "n = NUM_CACHE_ENTRIES" and "hosts c (sd_ip svd) = None" and "insert_into_cache svd fd c = None"
proof -
  let ?P = "\<lambda>e. ac_filled e \<noteq> 1 \<or> ac_ip e = sd_ip svd" and ?e = "entry_for (svd, fd) None"
  note d = cache_nD [OF assms]
  have e: "ac_filled ?e = 1" "ac_ip ?e = sd_ip svd"
    by (simp_all add: entry_for_def)
  have ins: "insert_into_cache svd fd c = aset c (int (first_idx ?P c)) ?e"
    by (simp add: insert_into_cache_def update_cache_entry_def entry_for_def)
  from assms show thesis
  proof (cases rule: host_cases [where ip = "sd_ip svd"])
    case (known i)
    then have i: "i < NUM_CACHE_ENTRIES"
      using d(2) by linarith
    have "first_idx ?P c = i"
    proof (rule first_idx_eqI)
      show "\<not> ?P (c ! j)" if "j < i" for j
        using that known(1) known(4) [of j] d(3) [of j] by auto
    qed (use i known(2) d(1) in simp_all)
    then have "insert_into_cache svd fd c = Some (c[i := ?e])"
      using i d(1) by (simp add: ins aset_nat)
    moreover have o: "ac_ip (c ! j) \<noteq> ac_ip ?e" if "j < n" and "j \<noteq> i" for j
      using known(4) [of j] that e(2) by auto
    note w = row_write [OF assms less_imp_le [OF known(1)] i e(1) o]
    have "cache_n n (c[i := ?e])" and "hosts (c[i := ?e]) = (hosts c)(sd_ip svd \<mapsto> ?e)"
      using w known(1,2) e(2) by (simp_all add: max_absorb1)
    ultimately show thesis
      by (rule that(1) [OF known(1,3)])
  next
    case unknown
    show thesis
    proof (cases "n < NUM_CACHE_ENTRIES")
      case True
      have "first_idx ?P c = n"
      proof (rule first_idx_eqI)
        show "\<not> ?P (c ! j)" if "j < n" for j
          using that unknown(1) d(3) by auto
      qed (use True d(1) d(4) [of n] in simp_all)
      then have "insert_into_cache svd fd c = Some (c[n := ?e])"
        using True d(1) by (simp add: ins aset_nat)
      moreover have o: "ac_ip (c ! j) \<noteq> ac_ip ?e" if "j < n" and "j \<noteq> n" for j
        using unknown(1) [of j] that e(2) by simp
      note w = row_write [OF assms order_refl True e(1) o]
      have "cache_n (Suc n) (c[n := ?e])" and "hosts (c[n := ?e]) = (hosts c)(sd_ip svd \<mapsto> ?e)"
        using w e(2) by simp_all
      ultimately show thesis
        by (rule that(2) [OF True unknown(2)])
    next
      case False
      then have n: "n = NUM_CACHE_ENTRIES"
        using d(2) by simp
      have "\<forall>x \<in> set c. \<not> ?P x"
        unfolding all_set_conv_all_nth using unknown(1) d(1,3) n by simp
      then have "first_idx ?P c = length c"
        unfolding first_idx_full_iff .
      then show thesis
        using that(3) [OF n unknown(2)] by (simp add: ins aset_nat)
    qed
  qed
qed

lemma insert_effect:
  assumes "cache_ok c" and "insert_into_cache svd fd c = Some u"
  shows "cache_ok u" and "hosts u = (hosts c)(sd_ip svd \<mapsto> entry_for (svd, fd) None)"
proof -
  obtain n where "cache_n n c"
    using assms(1) by (auto simp: cache_ok_def)
  then have "cache_ok u \<and> hosts u = (hosts c)(sd_ip svd \<mapsto> entry_for (svd, fd) None)"
    by (cases rule: insert_cases [where svd = svd and fd = fd]) (use assms(2) in \<open>auto simp: cache_ok_def\<close>)
  then show "cache_ok u" and "hosts u = (hosts c)(sd_ip svd \<mapsto> entry_for (svd, fd) None)"
    by simp_all
qed

lemma entry_for_any: "entry_for d v = entry_for d None"
  by (simp add: entry_for_def)

interpretation cache: merge_table hosts insert_op "\<lambda>d. sd_ip (fst d)" entry_for "\<lambda>_. True" cache_ok
proof
  show "cache_ok u" if "cache_ok t" "True" "insert_op d t = Some u" for t d u
    using insert_effect(1) that by (cases d) (simp add: insert_op_def)
  show "hosts u = (hosts t)(sd_ip (fst d) \<mapsto> entry_for d (hosts t (sd_ip (fst d))))"
    if "cache_ok t" "True" "insert_op d t = Some u" for t d u
    using insert_effect(2) [of t "fst d" "snd d" u] that
    by (cases d) (simp add: insert_op_def entry_for_any [of _ "hosts t _"])
qed

section \<open>Lemmas: answers\<close>

lemma in_use:
  assumes "cache_n n c"
  shows "length (takeWhile (\<lambda>e. ac_filled e = 1) c) = n"
proof -
  have "takeWhile (\<lambda>e. ac_filled e = 1) c = take n c"
    by (rule takeWhile_eq_take_P_nth) (use cache_nD(1,3,4) [OF assms] in auto)
  then show ?thesis
    using cache_nD(1,2) [OF assms] by simp
qed

definition hwaddr_of :: "arp_env \<Rightarrow> arp_cache_details \<Rightarrow> hwaddr" where
  "hwaddr_of env e = \<lparr>sll_ifindex = ac_index e, sll_hatype = 1, sll_halen = word_of_nat (mac_strlen env (ac_mac e)),
     sll_addr = take 6 (ac_mac e) @ [0, 0]\<rparr>"

lemma reply_known:
  assumes "cache_n n (a_cache s)" and "i < n" and "ac_ip (a_cache s ! i) = ip"
  shows "send_reply env ip fd s =
    (put (Write (if fd \<noteq> -1 then fd else ac_fd (a_cache s ! i)) (hwaddr_bytes (ae_be env) (hwaddr_of env (a_cache s ! i))) #
        (if sint (ac_fd (a_cache s ! i)) > 0 then [Close (ac_fd (a_cache s ! i))] else []))
       (s\<lparr>a_cache := (a_cache s)[i := (a_cache s ! i)\<lparr>ac_fd := NO_FD\<rparr>]\<rparr>), True)"
proof -
  have "first_idx (\<lambda>e. ac_ip e = ip) (take n (a_cache s)) = i"
  proof (rule first_idx_eqI)
    show "ac_ip (take n (a_cache s) ! j) \<noteq> ip" if "j < i" for j
      using cache_nD(6) [OF assms(1), of j i] assms(2,3) that by auto
  qed (use assms cache_nD(1,2) [OF assms(1)] in auto)
  then show ?thesis
    using assms(2) by (simp add: send_reply_def in_use [OF assms(1)] hwaddr_of_def Let_def)
qed

lemma reply_unknown:
  assumes "cache_n n (a_cache s)" and "hosts (a_cache s) ip = None"
  shows "send_reply env ip fd s = (s, False)"
proof -
  from assms(1) have "\<forall>i < n. ac_ip (a_cache s ! i) \<noteq> ip"
  proof (cases rule: host_cases [where ip = ip])
    case (known k)
    show ?thesis
      using assms(2) known(3) by simp
  next
    case unknown
    show ?thesis
      using unknown(1) by blast
  qed
  then have "\<not> first_idx (\<lambda>e. ac_ip e = ip) (take n (a_cache s)) < length (take n (a_cache s))"
    unfolding first_idx_less_iff by (metis in_set_conv_nth length_take min_less_iff_conj nth_take)
  then show ?thesis
    using cache_nD(1,2) [OF assms(1)] by (simp add: send_reply_def in_use [OF assms(1)] Let_def)
qed

lemma response_known:
  assumes "cache_n n (a_cache s)" and "i < n" and "ac_ip (a_cache s ! i) = cstr (sender_ip p)"
  shows "update_response_in_cache p s =
    (s\<lparr>a_cache := (a_cache s)[i := (a_cache s ! i)\<lparr>ac_mac := sender_eth p, ac_index := 2, ac_filled := 1\<rparr>]\<rparr>, True)"
proof -
  have "first_idx (\<lambda>e. ac_ip e = cstr (sender_ip p)) (a_cache s) = i"
  proof (rule first_idx_eqI)
    show "ac_ip (a_cache s ! j) \<noteq> cstr (sender_ip p)" if "j < i" for j
      using cache_nD(6) [OF assms(1), of j i] assms(2,3) that by auto
  qed (use assms cache_nD(1,2) [OF assms(1)] in auto)
  then show ?thesis
    using assms(2) cache_nD(1,2) [OF assms(1)] by (simp add: update_response_in_cache_def)
qed

end
