(* ===== verification/Arp_Resolve.thy ===== *)
theory Arp_Resolve
  imports Arp
begin

text \<open>
  Properties of the address resolution program: the codecs of its packets, the exchange by which
  a host learns the hardware address of another one, what later requests are served from, and
  two ways in which a waiting client loses its answer.
\<close>

section \<open>Packets\<close>

definition packet_ok :: "arp_req_reply \<Rightarrow> bool" where
  "packet_ok p \<longleftrightarrow> length (eth_dest p) = 6 \<and> length (eth_src p) = 6 \<and> length (sender_eth p) = 6 \<and> length (target_eth p) = 6 \<and>
     length (sender_ip p) = IP_LEN \<and> length (target_ip p) = IP_LEN \<and> length (identification p) = 3"

lemma half_length [simp]: "length (half_bytes be w) = 2"
  by (simp add: half_bytes_def Let_def)

lemma half_roundtrip [simp]: "half_of_bytes be (half_bytes be w) = w"
proof -
  have "unat w < 2 ^ 16"
    using unsigned_less [of w, where ?'a = nat] by simp
  then have "unat w div 256 < 256"
    by simp
  then have "unat w mod 256 + 256 * (unat w div 256 mod 256) = unat w"
    by simp
  then have "word_of_nat (unat w mod 256 + 256 * (unat w div 256 mod 256)) = w"
    by simp
  moreover have "nat_of_bytes [word_of_nat (unat w mod 256), word_of_nat (unat w div 256 mod 256)] =
      unat w mod 256 + 256 * (unat w div 256 mod 256)"
    unfolding nat_of_bytes_def foldr.simps comp_def id_def unat_byte by simp
  ultimately show ?thesis
    by (cases be) (simp_all add: half_of_bytes_def half_bytes_def Let_def)
qed

lemma arp_length: "packet_ok p \<Longrightarrow> length (arp_bytes be p) = SIZE_ARP"
  by (simp add: packet_ok_def arp_bytes_def)

lemma arp_roundtrip: "packet_ok p \<Longrightarrow> arp_of_bytes be (arp_bytes be p) = p"
  by (simp add: packet_ok_def arp_of_bytes_def arp_bytes_def)

lemma hwaddr_length: "length (sll_addr h) = 8 \<Longrightarrow> length (hwaddr_bytes be h) = 15"
  by (simp add: hwaddr_bytes_def)

lemma hwaddr_roundtrip: "length (sll_addr h) = 8 \<Longrightarrow> hwaddr_of_bytes be (hwaddr_bytes be h) = h"
  by (simp add: hwaddr_of_bytes_def hwaddr_bytes_def)

text \<open>A client that is answered reads the row of the cache.\<close>

lemma areq_answer:
  assumes "length (ac_mac e) = 6"
  shows "areq be (Some (hwaddr_bytes be (hwaddr_of env e))) = (0, hwaddr_of env e)"
proof -
  have "length (sll_addr (hwaddr_of env e)) = 8"
    using assms by (simp add: hwaddr_of_def)
  then show ?thesis
    by (simp add: areq_def hwaddr_length hwaddr_roundtrip)
qed

section \<open>Hosts\<close>

definition arp_ok :: "arp \<Rightarrow> bool" where
  "arp_ok s \<longleftrightarrow> cache_ok (a_cache s) \<and> length (a_src_mac s) = 6 \<and> length (a_src_ip s) < IP_LEN \<and> NUL \<notin> set (a_src_ip s) \<and>
     length (a_recvline s) = ETH_LEN"

text \<open>The frame around a packet, and what another host reads from it.\<close>

definition arp_frame :: "arp_env \<Rightarrow> u8 list \<Rightarrow> arp \<Rightarrow> arp_req_reply \<Rightarrow> u8 list" where
  "arp_frame env dest s p = take 6 dest @ take 6 (a_src_mac s) @ half_bytes (ae_be env) (ae_proto env) @ arp_bytes (ae_be env) p @
     drop (14 + SIZE_ARP) (ae_heap env)"

lemma received_arp:
  assumes "length dest = 6" and "length (a_src_mac s) = 6" and "packet_ok p"
  shows "arp_of_bytes (ae_be env) (take SIZE_ARP (drop 14 (a_recvline (recv_raw (arp_frame env dest s p) t)))) = p"
proof -
  define r where "r = drop (14 + SIZE_ARP) (ae_heap env)"
  have f: "arp_frame env dest s p = (dest @ a_src_mac s @ half_bytes (ae_be env) (ae_proto env) @ arp_bytes (ae_be env) p) @ r"
    using assms(1,2) by (simp add: arp_frame_def r_def)
  have "length (dest @ a_src_mac s @ half_bytes (ae_be env) (ae_proto env) @ arp_bytes (ae_be env) p) = 93"
    using assms arp_length [OF assms(3)] by simp
  then obtain q where "a_recvline (recv_raw (arp_frame env dest s p) t) =
      (dest @ a_src_mac s @ half_bytes (ae_be env) (ae_proto env) @ arp_bytes (ae_be env) p) @ q"
    unfolding f recv_raw_def by (simp add: take_append)
  then have "take SIZE_ARP (drop 14 (a_recvline (recv_raw (arp_frame env dest s p) t))) = arp_bytes (ae_be env) p"
    using assms(1,2) arp_length [OF assms(3), of "ae_be env"] by simp
  then show ?thesis
    using arp_roundtrip [OF assms(3)] by simp
qed

text \<open>The request that a host sends for an address.\<close>

definition request_for :: "arp_env \<Rightarrow> arp \<Rightarrow> string \<Rightarrow> arp_req_reply" where
  "request_for env s ip = \<lparr>eth_dest = replicate 6 0, eth_src = a_src_mac s, frame_type = 0x0806, hard_type = 1,
     prot_type = ae_proto env, hard_size = 6, prot_size = 2, op = 1, sender_eth = a_src_mac s, sender_ip = fixed IP_LEN (a_src_ip s),
     target_eth = replicate 6 0, target_ip = fixed IP_LEN ip, identification = ''dk'' @ [NUL]\<rparr>"

lemma request_ok: "arp_ok s \<Longrightarrow> length ip < IP_LEN \<Longrightarrow> packet_ok (request_for env s ip)"
  by (simp add: packet_ok_def request_for_def arp_ok_def fixed_length)

lemma answer_ok: "packet_ok p \<Longrightarrow> length mac = 6 \<Longrightarrow> packet_ok (answer_of mac p)"
  by (simp add: packet_ok_def answer_of_def)

definition pending :: "string \<Rightarrow> cint \<Rightarrow> arp_cache_details" where
  "pending ip fd = \<lparr>ac_ip = ip, ac_mac = replicate 6 0, ac_index = 0, ac_fd = fd, ac_filled = 1\<rparr>"

text \<open>A client asks for an address that is not in the cache.\<close>

lemma asked_unknown:
  assumes "arp_ok s" and "cache_n n (a_cache s)" and "n < NUM_CACHE_ENTRIES" and "hosts (a_cache s) ip = None"
    and "length ip < IP_LEN" and "NUL \<notin> set ip"
  shows "serve_client env fd (ip @ [NUL]) s =
    Some (put [Frame (a_src_ifindex s) (arp_frame env (replicate 6 255) s (request_for env s ip))]
      (s\<lparr>a_cache := (a_cache s)[n := pending ip fd]\<rparr>))"
    and "cache_n (Suc n) ((a_cache s)[n := pending ip fd])"
proof -
  let ?sv = "\<lparr>sd_ip = ip, sd_mac = replicate 6 0, sd_index = 0\<rparr>"
  have e: "entry_for (?sv, fd) None = pending ip fd"
    by (simp add: entry_for_def pending_def)
  have "insert_into_cache ?sv fd (a_cache s) = Some ((a_cache s)[n := pending ip fd]) \<and> cache_n (Suc n) ((a_cache s)[n := pending ip fd])"
    using assms(2) by (cases rule: insert_cases [where svd = ?sv and fd = fd]) (use assms(3,4) e in auto)
  then show "cache_n (Suc n) ((a_cache s)[n := pending ip fd])"
    and "serve_client env fd (ip @ [NUL]) s =
      Some (put [Frame (a_src_ifindex s) (arp_frame env (replicate 6 255) s (request_for env s ip))]
        (s\<lparr>a_cache := (a_cache s)[n := pending ip fd]\<rparr>))"
    using assms(1,5,6) reply_unknown [OF assms(2,4), of env fd]
    by (simp_all add: serve_client_def cstr_append_nul [of ip "[]", simplified] send_req_def prepare_arp_req_reply_def strcpy_def
        arp_ok_def arp_send_packet_def arp_frame_def request_for_def)
qed

lemma arp_dispatch:
  assumes "arp_of_bytes (ae_be env) (take SIZE_ARP (drop 14 (a_recvline s))) = p" and "identification p = ''dk'' @ [NUL]"
    and "NUL \<in> set (sender_ip p)" and "NUL \<in> set (target_ip p)"
  shows "arp_process_frame env s = (if op p = 1 then handle_request env p s
    else if op p = 2 then Some (handle_response env p s) else Some s)"
  using assms by (simp add: arp_process_frame_def Let_def print_arp_def c_string_def)

lemma request_fields:
  assumes "arp_ok s" and "length ip < IP_LEN" and "NUL \<notin> set ip"
  shows "identification (request_for env s ip) = ''dk'' @ [NUL]" and "op (request_for env s ip) = 1"
    and "NUL \<in> set (sender_ip (request_for env s ip))" and "NUL \<in> set (target_ip (request_for env s ip))"
    and "cstr (sender_ip (request_for env s ip)) = a_src_ip s" and "cstr (target_ip (request_for env s ip)) = ip"
    and "sender_eth (request_for env s ip) = a_src_mac s"
  using assms by (simp_all add: request_for_def arp_ok_def nul_fixed cstr_fixed)

text \<open>The host that is asked for records the sender and answers it.\<close>

lemma request_answered:
  assumes "arp_ok s" and "arp_ok t" and "NUL \<notin> set (a_src_ip t)" and "ae_be env = ae_be env'"
    and "hosts (a_cache t) (a_src_ip s) \<noteq> None \<or> (\<exists>n < NUM_CACHE_ENTRIES. cache_n n (a_cache t))"
  shows "\<exists>c. arp_process_frame env' (recv_raw (arp_frame env (replicate 6 255) s (request_for env s (a_src_ip t))) t) =
      Some (put [Frame (a_src_ifindex t) (arp_frame env' (a_src_mac s) t (answer_of (a_src_mac t) (request_for env s (a_src_ip t))))]
        ((recv_raw (arp_frame env (replicate 6 255) s (request_for env s (a_src_ip t))) t)\<lparr>a_cache := c\<rparr>)) \<and>
    cache_ok c \<and> hosts c (a_src_ip s) = Some \<lparr>ac_ip = a_src_ip s, ac_mac = a_src_mac s, ac_index = 0, ac_fd = NO_FD, ac_filled = 1\<rparr>"
proof -
  let ?p = "request_for env s (a_src_ip t)"
  let ?t = "recv_raw (arp_frame env (replicate 6 255) s ?p) t"
  let ?sv = "\<lparr>sd_ip = a_src_ip s, sd_mac = a_src_mac s, sd_index = 0\<rparr>"
  have ip: "length (a_src_ip t) < IP_LEN" and mac: "length (a_src_mac s) = 6" and ct: "cache_ok (a_cache t)"
    using assms(1,2) by (simp_all add: arp_ok_def)
  note f = request_fields [OF assms(1) ip assms(3), of env]
  have d: "arp_of_bytes (ae_be env') (take SIZE_ARP (drop 14 (a_recvline ?t))) = ?p"
    using received_arp [OF _ mac request_ok [OF assms(1) ip], of "replicate 6 255" env env t] assms(4) by simp
  obtain c where c: "insert_into_cache ?sv NO_FD (a_cache t) = Some c"
  proof -
    obtain n where n: "cache_n n (a_cache t)"
      using ct by (auto simp: cache_ok_def)
    from n show thesis
    proof (cases rule: insert_cases [where svd = ?sv and fd = NO_FD])
      case full
      then have "\<exists>m < NUM_CACHE_ENTRIES. cache_n m (a_cache t)"
        using assms(5) by simp
      then show thesis
        using in_use [OF n] full(1) by (metis in_use less_irrefl)
    qed (rule that, assumption)+
  qed
  have "arp_process_frame env' ?t = handle_request env' ?p ?t"
    using arp_dispatch [OF d f(1,3,4)] f(2) by simp
  also have "\<dots> = Some (put [Frame (a_src_ifindex t) (arp_frame env' (a_src_mac s) t (answer_of (a_src_mac t) ?p))] (?t\<lparr>a_cache := c\<rparr>))"
    using c f(5-7) by (simp add: handle_request_def recv_raw_def arp_send_packet_def arp_frame_def answer_of_def)
  finally show ?thesis
    using insert_effect [OF ct c] by (intro exI [of _ c]) (simp add: entry_for_def)
qed

text \<open>The answer completes the row and goes to the client that waits.\<close>

lemma answer_served:
  assumes "arp_ok s" and "cache_n n (a_cache s)" and "i < n" and "a_cache s ! i = pending (a_src_ip t) fd" and "0 < sint fd"
    and "arp_of_bytes (ae_be env) (take SIZE_ARP (drop 14 (a_recvline s))) = answer_of (a_src_mac t) (request_for env' u (a_src_ip t))"
    and "arp_ok t" and "arp_ok u" and "a_src_ip u = a_src_ip s"
  shows "arp_process_frame env s = Some (put [Write fd (hwaddr_bytes (ae_be env) (hwaddr_of env
        ((pending (a_src_ip t) fd)\<lparr>ac_mac := a_src_mac t, ac_index := 2\<rparr>))), Close fd]
      (s\<lparr>a_cache := (a_cache s)[i := (pending (a_src_ip t) NO_FD)\<lparr>ac_mac := a_src_mac t, ac_index := 2\<rparr>]\<rparr>))"
proof -
  let ?q = "answer_of (a_src_mac t) (request_for env' u (a_src_ip t))"
  have ip: "length (a_src_ip t) < IP_LEN" "NUL \<notin> set (a_src_ip t)" and mac: "length (a_src_mac t) = 6"
    using assms(7) by (simp_all add: arp_ok_def)
  note f = request_fields [OF assms(8) ip, of env']
  have q: "identification ?q = ''dk'' @ [NUL]" "op ?q = 2" "NUL \<in> set (sender_ip ?q)" "NUL \<in> set (target_ip ?q)"
    "cstr (sender_ip ?q) = a_src_ip t" "sender_eth ?q = a_src_mac t"
    using f mac by (simp_all add: answer_of_def)
  define e where "e = (pending (a_src_ip t) fd)\<lparr>ac_mac := a_src_mac t, ac_index := 2\<rparr>"
  define s1 where "s1 = s\<lparr>a_cache := (a_cache s)[i := e]\<rparr>"
  have ipe: "ac_ip e = a_src_ip t" "ac_fd e = fd" "ac_filled e = 1"
    by (simp_all add: e_def pending_def)
  have i: "i < NUM_CACHE_ENTRIES" and len: "length (a_cache s) = NUM_CACHE_ENTRIES"
    using assms(3) cache_nD(1,2) [OF assms(2)] by auto
  have "update_response_in_cache ?q s = (s1, True)"
    using response_known [OF assms(2,3), of ?q] assms(4) q by (simp add: pending_def s1_def e_def)
  moreover have "cache_n n (a_cache s1)"
  proof -
    have "ac_ip (a_cache s ! j) \<noteq> ac_ip e" if "j < n" and "j \<noteq> i" for j
      using cache_nD(6) [OF assms(2) that(1) assms(3)] that assms(4) ipe(1) by (auto simp: pending_def)
    from row_write(1) [OF assms(2) less_imp_le [OF assms(3)] i ipe(3) this] show ?thesis
      using assms(3,4) ipe(1) by (simp add: s1_def max_absorb1 pending_def)
  qed
  moreover have "a_cache s1 ! i = e"
    using i len by (simp add: s1_def)
  ultimately have "handle_response env ?q s =
      put [Write fd (hwaddr_bytes (ae_be env) (hwaddr_of env e)), Close fd] (s1\<lparr>a_cache := (a_cache s1)[i := e\<lparr>ac_fd := NO_FD\<rparr>]\<rparr>)"
    using reply_known [of n s1 i "a_src_ip t" env "-1"] assms(3,5) ipe q(5) by (simp add: handle_response_def)
  moreover have "arp_process_frame env s = Some (handle_response env ?q s)"
    using arp_dispatch [OF assms(6) q(1,3,4)] q(2) by simp
  ultimately show ?thesis
    by (simp add: s1_def e_def pending_def)
qed

fun arp_wire :: "arp_out \<Rightarrow> u8 list" where
  "arp_wire (Frame i bs) = bs"
| "arp_wire x = []"

text \<open>
  C4: address resolution from end to end.  A client asks a host for an address that is not in its
  cache; the request goes out, the host with that address answers and remembers the asker, and
  the client receives the hardware address of the answering host on its own connection.
\<close>

theorem arp_resolution:
  assumes "arp_ok s" and "cache_n n (a_cache s)" and "n < NUM_CACHE_ENTRIES" and "hosts (a_cache s) (a_src_ip t) = None"
    and "arp_ok t" and "cache_n m (a_cache t)" and "m < NUM_CACHE_ENTRIES" and "ae_be env = ae_be env'" and "0 < sint fd"
  shows "\<exists>s1 t1 s2 f1 f2 answer e h.
    arp_turn env (None, Some (fd, areq_request (a_src_ip t))) s = Some s1 \<and> a_out s1 = a_out s @ [f1] \<and>
    arp_turn env' (Some (arp_wire f1), None) t = Some t1 \<and> a_out t1 = a_out t @ [f2] \<and>
    arp_turn env (Some (arp_wire f2), None) s1 = Some s2 \<and> a_out s2 = a_out s @ [f1, Write fd answer, Close fd] \<and>
    areq (ae_be env) (Some answer) = (0, h) \<and> take 6 (sll_addr h) = a_src_mac t \<and> sll_ifindex h = 2 \<and>
    hosts (a_cache t1) (a_src_ip s) = Some e \<and> ac_mac e = a_src_mac s"
proof -
  let ?ip = "a_src_ip t" and ?p = "request_for env s (a_src_ip t)"
  have ip: "length ?ip < IP_LEN" "NUL \<notin> set ?ip" and mac: "length (a_src_mac s) = 6" "length (a_src_mac t) = 6"
    using assms(1,5) by (simp_all add: arp_ok_def)
  define f1 where "f1 = Frame (a_src_ifindex s) (arp_frame env (replicate 6 255) s ?p)"
  define s1 where "s1 = put [f1] (s\<lparr>a_cache := (a_cache s)[n := pending ?ip fd]\<rparr>)"
  note asked = asked_unknown [OF assms(1-4) ip]
  have turn1: "arp_turn env (None, Some (fd, areq_request ?ip)) s = Some s1"
    using asked(1) ip(1) by (simp add: arp_turn_def areq_request_def s1_def f1_def)
  have ok1: "arp_ok s1" and c1: "cache_n (Suc n) (a_cache s1)" and row: "a_cache s1 ! n = pending ?ip fd"
    using assms(1-3) asked(2) cache_nD(1) [OF assms(2)] by (auto simp: arp_ok_def s1_def put_def cache_ok_def)
  have room: "hosts (a_cache t) (a_src_ip s) \<noteq> None \<or> (\<exists>n < NUM_CACHE_ENTRIES. cache_n n (a_cache t))"
    using assms(6,7) by blast
  define f2 where "f2 = Frame (a_src_ifindex t) (arp_frame env' (a_src_mac s) t (answer_of (a_src_mac t) ?p))"
  obtain c where turn2: "arp_process_frame env' (recv_raw (arp_wire f1) t) = Some (put [f2] ((recv_raw (arp_wire f1) t)\<lparr>a_cache := c\<rparr>))"
    and c: "hosts c (a_src_ip s) = Some \<lparr>ac_ip = a_src_ip s, ac_mac = a_src_mac s, ac_index = 0, ac_fd = NO_FD, ac_filled = 1\<rparr>"
    using request_answered [OF assms(1,5) ip(2) assms(8) room] by (auto simp: f1_def f2_def)
  let ?s1 = "recv_raw (arp_wire f2) s1"
  have ok2: "arp_ok ?s1"
    using ok1 by (auto simp: arp_ok_def recv_raw_def)
  have d: "arp_of_bytes (ae_be env) (take SIZE_ARP (drop 14 (a_recvline ?s1))) = answer_of (a_src_mac t) ?p"
    using received_arp [OF mac answer_ok [OF request_ok [OF assms(1) ip(1)] mac(2)], of env' env s1] assms(8) by (simp add: f2_def)
  have turn3: "arp_process_frame env ?s1 = Some (put [Write fd (hwaddr_bytes (ae_be env) (hwaddr_of env
        ((pending ?ip fd)\<lparr>ac_mac := a_src_mac t, ac_index := 2\<rparr>))), Close fd]
      (?s1\<lparr>a_cache := (a_cache ?s1)[n := (pending ?ip NO_FD)\<lparr>ac_mac := a_src_mac t, ac_index := 2\<rparr>]\<rparr>))"
    by (rule answer_served [OF ok2 _ lessI [of n] _ assms(9) d assms(5,1)]) (use c1 row in \<open>simp_all add: recv_raw_def s1_def put_def\<close>)
  show ?thesis
    using turn1 turn2 turn3 c mac(2) areq_answer [of "(pending ?ip fd)\<lparr>ac_mac := a_src_mac t, ac_index := 2\<rparr>" "ae_be env" env]
    by (intro exI conjI) (auto simp: arp_turn_def put_def s1_def recv_raw_def hwaddr_of_def pending_def)
qed

text \<open>
  A second client that asks for an address while the answer to the first one is still pending is
  told at once that the hardware address is all zero, with success, and the connection of the
  first client is closed without an answer.
\<close>

theorem pending_row_served_as_complete:
  assumes "cache_n n (a_cache s)" and "i < n" and "a_cache s ! i = pending ip fd" and "0 < sint fd" and "fd2 \<noteq> -1"
    and "length ip < IP_LEN" and "NUL \<notin> set ip"
  shows "\<exists>t answer h. arp_turn env (None, Some (fd2, areq_request ip)) s = Some t \<and>
    a_out t = a_out s @ [Write fd2 answer, Close fd] \<and> areq (ae_be env) (Some answer) = (0, h) \<and> sll_addr h = replicate 8 0"
proof -
  have "ac_ip (a_cache s ! i) = ip" "ac_fd (a_cache s ! i) = fd"
    using assms(3) by (simp_all add: pending_def)
  note r = reply_known [OF assms(1,2) this(1), of env fd2]
  have "arp_turn env (None, Some (fd2, areq_request ip)) s =
      Some (put [Write fd2 (hwaddr_bytes (ae_be env) (hwaddr_of env (pending ip fd))), Close fd]
        (s\<lparr>a_cache := (a_cache s)[i := (pending ip fd)\<lparr>ac_fd := NO_FD\<rparr>]\<rparr>))"
    using r assms(3-7) by (simp add: arp_turn_def areq_request_def serve_client_def cstr_append_nul [of ip "[]", simplified] pending_def)
  moreover have "areq (ae_be env) (Some (hwaddr_bytes (ae_be env) (hwaddr_of env (pending ip fd)))) = (0, hwaddr_of env (pending ip fd))"
    by (rule areq_answer) (simp add: pending_def)
  ultimately show ?thesis
    by (simp add: put_def hwaddr_of_def pending_def numeral_eq_Suc)
qed

text \<open>
  When the host that a client waits for sends a request of its own first, the row is rewritten
  without the waiting connection: nothing is written to the client, and the later answer goes to
  descriptor 0.
\<close>

theorem crossing_request_loses_client:
  assumes "arp_ok s" and "arp_ok t" and "ae_be env = ae_be env'" and "hosts (a_cache t) (a_src_ip s) = Some (pending (a_src_ip s) fd)"
  shows "\<exists>t1 f e. arp_turn env' (Some (arp_frame env (replicate 6 255) s (request_for env s (a_src_ip t))), None) t = Some t1 \<and>
    a_out t1 = a_out t @ [Frame (a_src_ifindex t) f] \<and> hosts (a_cache t1) (a_src_ip s) = Some e \<and> ac_fd e = NO_FD"
proof -
  have "NUL \<notin> set (a_src_ip t)"
    using assms(2) by (simp add: arp_ok_def)
  from request_answered [OF assms(1,2) this assms(3)] assms(4) show ?thesis
    by (auto simp: arp_turn_def put_def recv_raw_def)
qed

section \<open>The cache over time\<close>

lemma reply_keeps: "cache_ok (a_cache s) \<Longrightarrow> cache_ok (a_cache (fst (send_reply env ip fd s)))"
proof -
  assume "cache_ok (a_cache s)"
  then obtain n where n: "cache_n n (a_cache s)"
    by (auto simp: cache_ok_def)
  from n show ?thesis
  proof (cases rule: host_cases [where ip = ip])
    case (known i)
    let ?e = "(a_cache s ! i)\<lparr>ac_fd := NO_FD\<rparr>"
    have i: "i < NUM_CACHE_ENTRIES" and e: "ac_filled ?e = 1"
      using known(1) cache_nD(2,3) [OF n] by auto
    have o: "ac_ip (a_cache s ! j) \<noteq> ac_ip ?e" if "j < n" and "j \<noteq> i" for j
      using known(2) known(4) [of j] that by auto
    have "cache_ok ((a_cache s)[i := ?e])"
      unfolding cache_ok_def using row_write(1) [OF n less_imp_le [OF known(1)] i e o] by auto
    then show ?thesis
      using reply_known [OF n known(1,2), of env fd] by (simp add: put_def)
  next
    case unknown
    then show ?thesis
      using reply_unknown [OF n unknown(2)] n by (auto simp: cache_ok_def)
  qed
qed

lemma response_keeps: "cache_ok (a_cache s) \<Longrightarrow> cache_ok (a_cache (fst (update_response_in_cache p s)))"
proof -
  assume "cache_ok (a_cache s)"
  then obtain n where n: "cache_n n (a_cache s)"
    by (auto simp: cache_ok_def)
  note d = cache_nD [OF n]
  let ?P = "\<lambda>e. ac_ip e = cstr (sender_ip p)"
  define i where "i = first_idx ?P (a_cache s)"
  show ?thesis
  proof (cases "i < length (a_cache s)")
    case True
    let ?e = "(a_cache s ! i)\<lparr>ac_mac := sender_eth p, ac_index := 2, ac_filled := 1\<rparr>"
    have ip: "ac_ip (a_cache s ! i) = cstr (sender_ip p)"
      using first_idx_hit [of ?P "a_cache s"] True by (simp add: i_def)
    have before: "ac_ip (a_cache s ! j) \<noteq> cstr (sender_ip p)" if "j < i" for j
      using first_idx_before [of j ?P "a_cache s"] that by (simp add: i_def)
    have i: "i < NUM_CACHE_ENTRIES"
      using True d(1) by simp
    have le: "i \<le> n"
    proof (rule ccontr)
      assume "\<not> i \<le> n"
      then have "n < i" and "n < NUM_CACHE_ENTRIES"
        using i by simp_all
      then show False
        using before [of n] ip d(5) [of n] d(5) [of i] i by simp
    qed
    have "ac_ip (a_cache s ! j) \<noteq> ac_ip ?e" if "j < n" and "j \<noteq> i" for j
    proof (cases "i < n")
      case True
      then show ?thesis
        using d(6) [of j i] that by auto
    next
      case False
      then show ?thesis
        using before [of j] that le ip by simp
    qed
    from row_write(1) [OF n le i _ this] have "cache_ok ((a_cache s)[i := ?e])"
      by (auto simp: cache_ok_def)
    then show ?thesis
      using True by (simp add: update_response_in_cache_def Let_def i_def)
  next
    case False
    then show ?thesis
      using n by (auto simp: update_response_in_cache_def Let_def i_def cache_ok_def)
  qed
qed

lemma process_keeps:
  assumes "cache_ok (a_cache s)" and "arp_process_frame env s = Some t"
  shows "cache_ok (a_cache t)"
  using assms insert_effect(1) [OF assms(1)] response_keeps [OF assms(1)] reply_keeps
  by (auto simp: arp_process_frame_def Let_def handle_request_def handle_response_def arp_send_packet_def put_def bind_eq_Some_conv
      split: if_splits)

lemma client_keeps:
  assumes "cache_ok (a_cache s)" and "serve_client env fd buf s = Some t"
  shows "cache_ok (a_cache t)"
proof (cases "send_reply env (cstr buf) fd s")
  case (Pair u b)
  have u: "cache_ok (a_cache u)"
    using reply_keeps [OF assms(1), of env "cstr buf" fd] Pair by simp
  show ?thesis
    using assms(2) Pair u insert_effect(1) [OF u]
    by (cases b) (auto simp: serve_client_def send_req_def arp_send_packet_def put_def bind_eq_Some_conv)
qed

lemma turn_keeps:
  assumes "cache_ok (a_cache s)" and "arp_turn env turn s = Some t"
  shows "cache_ok (a_cache t)"
proof -
  obtain s1 where f: "(case fst turn of None \<Rightarrow> Some s | Some bs \<Rightarrow> arp_process_frame env (recv_raw bs s)) = Some s1"
    and c: "(case snd turn of None \<Rightarrow> Some s1 | Some (connfd, buf) \<Rightarrow> serve_client env connfd (take 100 buf) s1) = Some t"
    using assms(2) by (auto simp: arp_turn_def bind_eq_Some_conv)
  have "cache_ok (a_cache s1)"
  proof (cases "fst turn")
    case None
    then show ?thesis
      using f assms(1) by simp
  next
    case (Some bs)
    then show ?thesis
      using f assms(1) process_keeps [of "recv_raw bs s" env s1] by (simp add: recv_raw_def)
  qed
  then show ?thesis
    using c client_keeps [of s1 env] by (cases "snd turn") auto
qed

interpretation arp_node: guarded_machine "arp_turn env" "\<lambda>_. True" "\<lambda>s. cache_ok (a_cache s)" for env
  by unfold_locales (rule turn_keeps)

lemma boot_keeps:
  assumes "boot_row d s = Some t" and "cache_ok (a_cache s)"
  shows "cache_ok (a_cache t)"
  using assms insert_effect(1) [of "a_cache s"] by (auto simp: boot_row_def Let_def bind_eq_Some_conv split: if_splits)

lemma boot_ok:
  assumes "boot_cache svd s = Some t" and "cache_ok (a_cache s)"
  shows "cache_ok (a_cache t)"
  by (rule orun_keeps [where P = "\<lambda>s. cache_ok (a_cache s)", OF _ assms(2) assms(1) [unfolded boot_cache_def]]) (rule boot_keeps)

text \<open>
  From the start of the program, on every sequence of frames and clients, the rows of the cache
  that are in use come first and have different addresses, and the other rows are empty.
\<close>

theorem arp_cache_well_formed:
  assumes "arp_main env fuel k ntop6 turns = Some s"
  shows "cache_ok (a_cache s)"
proof -
  obtain sv s0 where b: "boot_cache sv arp_zero = Some s0" and r: "orun (arp_turn env) turns s0 = Some s"
    using assms by (auto simp: arp_main_def boot_def bind_eq_Some_conv)
  have "cache_ok (a_cache arp_zero)"
    using cache_zero by (auto simp: arp_zero_def cache_ok_def)
  from arp_node.run_inv [OF boot_ok [OF b this] _ r] show ?thesis
    by simp
qed

text \<open>
  C33: inserting into the cache refines updates of a map from addresses to rows: after any sequence
  of insertions an address has the row of its last insertion, or its old row when it has none.
\<close>

theorem arp_cache_refines_map:
  assumes "cache_ok c" and "orun insert_op ds c = Some u"
  shows "cache_ok u \<and> hosts u k = fold (\<lambda>d v. Some (entry_for d None)) (filter (\<lambda>d. sd_ip (fst d) = k) ds) (hosts c k)"
proof -
  have "(\<lambda>d v. Some (entry_for d v)) = (\<lambda>d v. Some (entry_for d None))"
    by (simp add: entry_for_def)
  then show ?thesis
    using cache.run_inv [OF assms(1) _ assms(2)] cache.run_lookup [OF assms(1) _ assms(2), of k] by simp
qed

section \<open>Concrete hosts\<close>

definition arp_demo_env :: arp_env where
  "arp_demo_env = \<lparr>ae_be = False, ae_proto = 0x645F, ae_heap = replicate ETH_LEN 0, ae_pad = 0\<rparr>"

definition arp_host :: "string \<Rightarrow> u8 list \<Rightarrow> arp" where
  "arp_host ip mac = arp_zero\<lparr>a_src_mac := mac, a_src_ip := ip, a_src_ifindex := 2\<rparr>"

abbreviation host21 :: arp where "host21 \<equiv> arp_host ''130.245.156.21'' [0, 12, 41, 73, 63, 91]"
abbreviation host22 :: arp where "host22 \<equiv> arp_host ''130.245.156.22'' [0, 12, 41, 222, 106, 98]"

text \<open>The first host while a client waits on descriptor 5 for the second one.\<close>

definition waiting21 :: arp where
  "waiting21 = host21\<lparr>a_cache := (replicate NUM_CACHE_ENTRIES zero_entry)[0 := pending ''130.245.156.22'' 5]\<rparr>"

lemma empty_hosts: "hosts (replicate NUM_CACHE_ENTRIES zero_entry) ip = None"
  by (simp add: hosts_def row_of_None_iff zero_entry_def)

lemma arp_host_ok:
  assumes "length mac = 6" and "length ip < IP_LEN" and "NUL \<notin> set ip"
  shows "arp_ok (arp_host ip mac)" and "cache_n 0 (a_cache (arp_host ip mac))"
  using assms cache_zero by (auto simp: arp_ok_def arp_host_def arp_zero_def cache_ok_def)

lemma waiting_cache:
  "cache_n 1 (a_cache waiting21)" "a_cache waiting21 ! 0 = pending ''130.245.156.22'' 5"
  "hosts (a_cache waiting21) ''130.245.156.22'' = Some (pending ''130.245.156.22'' 5)"
  using row_write [OF cache_zero, of 0 "pending ''130.245.156.22'' 5"] by (simp_all add: waiting21_def pending_def)

lemma waiting_ok: "arp_ok waiting21"
  using waiting_cache(1) by (auto simp: arp_ok_def cache_ok_def waiting21_def arp_host_def arp_zero_def)

theorem arp_resolution_witness:
  "\<exists>s1 t1 s2 f1 f2 answer e h.
    arp_turn arp_demo_env (None, Some (5, areq_request (a_src_ip host22))) host21 = Some s1 \<and> a_out s1 = a_out host21 @ [f1] \<and>
    arp_turn arp_demo_env (Some (arp_wire f1), None) host22 = Some t1 \<and> a_out t1 = a_out host22 @ [f2] \<and>
    arp_turn arp_demo_env (Some (arp_wire f2), None) s1 = Some s2 \<and> a_out s2 = a_out host21 @ [f1, Write 5 answer, Close 5] \<and>
    areq (ae_be arp_demo_env) (Some answer) = (0, h) \<and> take 6 (sll_addr h) = a_src_mac host22 \<and> sll_ifindex h = 2 \<and>
    hosts (a_cache t1) (a_src_ip host21) = Some e \<and> ac_mac e = a_src_mac host21"
  by (rule arp_resolution [OF arp_host_ok(1) arp_host_ok(2) _ _ arp_host_ok(1) arp_host_ok(2)])
    (simp_all add: arp_host_def arp_zero_def empty_hosts)

theorem pending_row_served_as_complete_witness:
  "\<exists>t answer h. arp_turn arp_demo_env (None, Some (6, areq_request ''130.245.156.22'')) waiting21 = Some t \<and>
    a_out t = a_out waiting21 @ [Write 6 answer, Close 5] \<and> areq (ae_be arp_demo_env) (Some answer) = (0, h) \<and> sll_addr h = replicate 8 0"
  by (rule pending_row_served_as_complete [OF waiting_cache(1) _ waiting_cache(2)]) simp_all

theorem crossing_request_loses_client_witness:
  "\<exists>t1 f e. arp_turn arp_demo_env
      (Some (arp_frame arp_demo_env (replicate 6 255) host22 (request_for arp_demo_env host22 (a_src_ip waiting21))), None) waiting21 = Some t1 \<and>
    a_out t1 = a_out waiting21 @ [Frame (a_src_ifindex waiting21) f] \<and> hosts (a_cache t1) (a_src_ip host22) = Some e \<and> ac_fd e = NO_FD"
  by (rule crossing_request_loses_client [OF arp_host_ok(1) waiting_ok refl])
    (use waiting_cache(3) in \<open>simp_all add: arp_host_def\<close>)

theorem arp_cache_well_formed_witness:
  "\<exists>s. arp_main arp_demo_env 4 demo_hw (\<lambda>_. []) [(None, None)] = Some s \<and> cache_ok (a_cache s)"
proof -
  have "get_hw_addrs 4 demo_hw = Some (Inr (hwa_walk demo_hw [] demo_entries))"
    by (rule get_hw_complete) (use demo_truncating in \<open>simp_all only: demo_hw_ifconf\<close>, simp add: demo_entries_def)
  then have "arp_populate_server_details 4 demo_hw (\<lambda>_. []) 20 = Some []"
    by (simp add: arp_populate_server_details_def Get_hw_addrs_def demo_entries_def Let_def)
  then have m: "arp_main arp_demo_env 4 demo_hw (\<lambda>_. []) [(None, None)] = Some arp_zero"
    by (simp add: arp_main_def boot_def boot_cache_def arp_turn_def)
  from arp_cache_well_formed [OF m] m show ?thesis
    by blast
qed

theorem arp_cache_refines_map_witness:
  "\<exists>u. orun insert_op [(\<lparr>sd_ip = ''130.245.156.22'', sd_mac = [0, 12, 41, 222, 106, 98], sd_index = 2\<rparr>, 0)]
      (replicate NUM_CACHE_ENTRIES zero_entry) = Some u \<and> (\<exists>e. hosts u ''130.245.156.22'' = Some e \<and> ac_index e = 2)"
proof -
  let ?d = "\<lparr>sd_ip = ''130.245.156.22'', sd_mac = [0, 12, 41, 222, 106, 98], sd_index = 2\<rparr>"
  obtain u where u: "orun insert_op [(?d, 0)] (replicate NUM_CACHE_ENTRIES zero_entry) = Some u"
    using cache_zero by (cases rule: insert_cases [where svd = ?d and fd = 0]) (simp_all add: insert_op_def)
  have ok: "cache_ok (replicate NUM_CACHE_ENTRIES zero_entry)"
    using cache_zero by (auto simp: cache_ok_def)
  from arp_cache_refines_map [OF ok u, of "''130.245.156.22''"] u show ?thesis
    by (simp add: entry_for_def)
qed

end
