(* ===== verification/Tour.thy ===== *)
theory Tour
  imports Arp_Resolve
begin

text \<open>
  The tour program, \<open>src/hw4/tour.c\<close> and \<open>src/hw4/tour.h\<close>: a packet that travels from host to
  host along a route, the hosts that ping the one before them, and the multicast message that ends
  the tour; with \<open>in_cksum\<close> (\<open>src/unpv13e/libfree/in_cksum.c\<close>), \<open>tv_sub\<close>
  (\<open>src/unpv13e/lib/tv_sub.c\<close>) and the IPv4 case of \<open>sock_ntop\<close> (\<open>src/unpv13e/lib/sock_ntop.c\<close>).
  The main thread and the ping thread are two kinds of steps on one state.  A step of the ping
  thread has at most one access to a variable that the main thread writes, and steps of the ping
  thread may fall into the one place where the main thread's update of the shared list is visible
  half done; the mutex of the source is held by the ping thread around a single read and by the main
  thread around a single store, so it orders nothing else.
\<close>

section \<open>The Internet checksum\<close>

text \<open>
  The loop over 16-bit words in memory order; the odd byte is stored as the first byte of a word
  that was zero.
\<close>

fun cksum_loop :: "bool \<Rightarrow> u8 list \<Rightarrow> u32 \<Rightarrow> u32" where
  "cksum_loop be (a # b # w) acc = cksum_loop be w (acc + ucast (half_of_bytes be [a, b]))"
| "cksum_loop be [a] acc = acc + ucast (half_of_bytes be [a, 0])"
| "cksum_loop be [] acc = acc"

definition in_cksum :: "bool \<Rightarrow> u8 list \<Rightarrow> u16" where
  "in_cksum be addr =
     (let acc = cksum_loop be addr 0;
          sum1 = drop_bit 16 acc + and acc 0xFFFF;
          sum2 = sum1 + drop_bit 16 sum1
      in not (ucast sum2))"

section \<open>Time\<close>

definition tv_sub :: "timeval \<Rightarrow> timeval \<Rightarrow> timeval" where
  "tv_sub out inn =
     (let usec = tv_usec out - tv_usec inn;
          out1 = (if usec < 0 then \<lparr>tv_sec = tv_sec out - 1, tv_usec = usec + 1000000\<rparr> else out\<lparr>tv_usec := usec\<rparr>)
      in out1\<lparr>tv_sec := tv_sec out1 - tv_sec inn\<rparr>)"

section \<open>Bytes of the packets\<close>

fun le_bytes :: "nat \<Rightarrow> nat \<Rightarrow> u8 list" where
  "le_bytes 0 n = []"
| "le_bytes (Suc k) n = word_of_nat (n mod 256) # le_bytes k (n div 256)"

definition long_bytes :: "bool \<Rightarrow> int \<Rightarrow> u8 list" where
  "long_bytes be i = (let bs = le_bytes 8 (nat (i mod 2 ^ 64)) in if be then rev bs else bs)"

definition long_of_bytes :: "bool \<Rightarrow> u8 list \<Rightarrow> int" where
  "long_of_bytes be bs = (let n = int (nat_of_bytes (if be then rev bs else bs)) in if n < 2 ^ 63 then n else n - 2 ^ 64)"

definition timeval_bytes :: "bool \<Rightarrow> timeval \<Rightarrow> u8 list" where
  "timeval_bytes be t = long_bytes be (tv_sec t) @ long_bytes be (tv_usec t)"

definition timeval_of_bytes :: "bool \<Rightarrow> u8 list \<Rightarrow> timeval" where
  "timeval_of_bytes be bs = \<lparr>tv_sec = long_of_bytes be (take 8 bs), tv_usec = long_of_bytes be (take 8 (drop 8 bs))\<rparr>"

text \<open>A value in network order as the host stores it.\<close>

definition htons :: "bool \<Rightarrow> u16 \<Rightarrow> u16" where
  "htons be w = half_of_bytes be (half_bytes True w)"

fun addr_bytes :: "ipv4 \<Rightarrow> u8 list" where
  "addr_bytes (a, b, c, d) = [a, b, c, d]"

definition addr_of_bytes :: "u8 list \<Rightarrow> ipv4" where
  "addr_of_bytes bs = (bs ! 0, bs ! 1, bs ! 2, bs ! 3)"

record ip_header =
  ip_vhl :: u8
  ip_tos :: u8
  ip_len :: u16
  ip_id :: u16
  ip_off :: u16
  ip_ttl :: u8
  ip_p :: u8
  ip_sum :: u16
  ip_src :: ipv4
  ip_dst :: ipv4

definition ip_bytes :: "bool \<Rightarrow> ip_header \<Rightarrow> u8 list" where
  "ip_bytes be h = [ip_vhl h, ip_tos h] @ half_bytes be (ip_len h) @ half_bytes be (ip_id h) @ half_bytes be (ip_off h) @
     [ip_ttl h, ip_p h] @ half_bytes be (ip_sum h) @ addr_bytes (ip_src h) @ addr_bytes (ip_dst h)"

definition ip_of_bytes :: "bool \<Rightarrow> u8 list \<Rightarrow> ip_header" where
  "ip_of_bytes be bs = \<lparr>ip_vhl = bs ! 0, ip_tos = bs ! 1, ip_len = half_of_bytes be (take 2 (drop 2 bs)),
     ip_id = half_of_bytes be (take 2 (drop 4 bs)), ip_off = half_of_bytes be (take 2 (drop 6 bs)), ip_ttl = bs ! 8, ip_p = bs ! 9,
     ip_sum = half_of_bytes be (take 2 (drop 10 bs)), ip_src = addr_of_bytes (take 4 (drop 12 bs)),
     ip_dst = addr_of_bytes (take 4 (drop 16 bs))\<rparr>"

record icmp =
  icmp_type :: u8
  icmp_code :: u8
  icmp_cksum :: u16
  icmp_id :: u16
  icmp_seq :: u16
  icmp_data :: "u8 list"

definition icmp_bytes :: "bool \<Rightarrow> icmp \<Rightarrow> u8 list" where
  "icmp_bytes be p = [icmp_type p, icmp_code p] @ half_bytes be (icmp_cksum p) @ half_bytes be (icmp_id p) @
     half_bytes be (icmp_seq p) @ icmp_data p"

definition icmp_of_bytes :: "bool \<Rightarrow> u8 list \<Rightarrow> icmp" where
  "icmp_of_bytes be bs = \<lparr>icmp_type = bs ! 0, icmp_code = bs ! 1, icmp_cksum = half_of_bytes be (take 2 (drop 2 bs)),
     icmp_id = half_of_bytes be (take 2 (drop 4 bs)), icmp_seq = half_of_bytes be (take 2 (drop 6 bs)), icmp_data = take 20 (drop 8 bs)\<rparr>"

abbreviation MAX_ROUTE :: nat where "MAX_ROUTE \<equiv> 20"
abbreviation ADDR_LEN :: nat where "ADDR_LEN \<equiv> 16"
abbreviation SIZE_ROUTE :: nat where "SIZE_ROUTE \<equiv> 328"

record route =
  r_ip_addr :: "string list"
  r_index :: cint
  r_total_size :: cint

definition route_bytes :: "bool \<Rightarrow> route \<Rightarrow> u8 list" where
  "route_bytes be r = map byte_of_char (concat (r_ip_addr r)) @ bytes_of_word be (r_index r) @ bytes_of_word be (r_total_size r)"

fun chunks :: "nat \<Rightarrow> nat \<Rightarrow> 'a list \<Rightarrow> 'a list list" where
  "chunks 0 n xs = []"
| "chunks (Suc k) n xs = take n xs # chunks k n (drop n xs)"

definition route_of_bytes :: "bool \<Rightarrow> u8 list \<Rightarrow> route" where
  "route_of_bytes be bs = \<lparr>r_ip_addr = chunks MAX_ROUTE ADDR_LEN (map char_of_byte (take 320 bs)),
     r_index = word_of_bytes be (take 4 (drop 320 bs)), r_total_size = word_of_bytes be (take 4 (drop 324 bs))\<rparr>"

section \<open>State\<close>

text \<open>
  From the host: the byte order, the value of \<open>htons(IDENTIFICATION)\<close> for the address of a
  string, the contents of a fresh block, \<open>inet_addr\<close>, the resolver, and the number of pointers
  there is room for at \<open>ips_to_ping\<close>.  The source declares that array without a length, which C
  completes to one element; \<open>main\<close> stores twenty pointers, so it depends on where the linker puts
  the array whether the other nineteen overwrite something.
\<close>

record tour_env =
  te_be :: bool
  te_ident :: u16
  te_heap :: "u8 list"
  te_inet_addr :: "string \<Rightarrow> ipv4"
  te_byname :: "string \<Rightarrow> ipv4 list option"
  te_byaddr :: "ipv4 \<Rightarrow> string option"
  te_slots :: nat

text \<open>What a host sends, and the line it prints for the answer to a ping.\<close>

datatype tour_out =
    RtPacket ipv4 "u8 list"
  | PingFrame cint "u8 list"
  | Mcast string
  | PingLine int string u16 u8 timeval

text \<open>
  An element of \<open>ips_to_ping\<close>: a null pointer, a block that \<open>malloc\<close> returned and nothing was copied
  into, or one that holds an address.
\<close>

datatype ip_slot = Unset | Fresh | Ip string

text \<open>
  Where the ping thread is: at the test of its outer loop, before it reads \<open>next_ip_index\<close>, at the
  head of the inner loop, at the test for a first ping, before the line for a first ping, before the
  ping, or returned.
\<close>

datatype ping_pc = AtWhile | AtLock | AtFor | AtCheck hwaddr hwaddr | AtFirst hwaddr hwaddr | AtSend hwaddr hwaddr | Returned

record tour =
  t_src_vm :: string
  t_src_ip :: string
  t_route :: route
  t_pid :: nat
  t_seq :: cint
  t_keep_pinging :: cint
  t_ips_to_ping :: "ip_slot list"
  t_next_ip_index :: nat
  t_next_ip_to_ping :: nat
  t_pc :: ping_pc
  t_idx :: nat
  t_k :: nat
  t_done :: bool
  t_out :: "tour_out list"

definition tell :: "tour_out \<Rightarrow> tour \<Rightarrow> tour" where
  "tell x s = s\<lparr>t_out := t_out s @ [x]\<rparr>"

abbreviation NUM_IPS_PING :: nat where "NUM_IPS_PING \<equiv> 20"

section \<open>Pings\<close>

abbreviation ICMP_ECHO :: u8 where "ICMP_ECHO \<equiv> 8"
abbreviation ICMP_ECHOREPLY :: u8 where "ICMP_ECHOREPLY \<equiv> 0"

definition set_icmp :: "tour_env \<Rightarrow> timeval \<Rightarrow> tour \<Rightarrow> icmp \<times> tour" where
  "set_icmp env now s =
     (let p = \<lparr>icmp_type = ICMP_ECHO, icmp_code = 0, icmp_cksum = 0, icmp_id = word_of_nat (t_pid s),
               icmp_seq = ucast (t_seq s + 1), icmp_data = timeval_bytes (te_be env) now @ replicate 4 0\<rparr>;
          p1 = p\<lparr>icmp_cksum := in_cksum (te_be env) (take 24 (icmp_bytes (te_be env) p))\<rparr>
      in (p1, s\<lparr>t_seq := t_seq s + 1\<rparr>))"

text \<open>The length field counts the ICMP structure twice and the IP header not at all.\<close>

definition ping_ip :: "tour_env \<Rightarrow> string \<Rightarrow> string \<Rightarrow> ip_header" where
  "ping_ip env src dest =
     (let h = \<lparr>ip_vhl = 0x45, ip_tos = 0, ip_len = htons (te_be env) (28 + 28), ip_id = 0, ip_off = 0, ip_ttl = 255, ip_p = 1, ip_sum = 0,
               ip_src = te_inet_addr env src, ip_dst = te_inet_addr env dest\<rparr>
      in h\<lparr>ip_sum := in_cksum (te_be env) (ip_bytes (te_be env) h)\<rparr>)"

definition send_ping_request ::
  "tour_env \<Rightarrow> timeval \<Rightarrow> u8 list \<Rightarrow> u8 list \<Rightarrow> string \<Rightarrow> string \<Rightarrow> cint \<Rightarrow> tour \<Rightarrow> tour" where
  "send_ping_request env now dst_mac src_mac src dest ifidx s =
     (let (p, s1) = set_icmp env now s in
      tell (PingFrame ifidx (take 6 dst_mac @ take 6 src_mac @ [8, 0] @ ip_bytes (te_be env) (ping_ip env src dest) @
        icmp_bytes (te_be env) p @ drop 62 (te_heap env))) s1)"

text \<open>
  The string at \<open>ips_to_ping[i]\<close>; \<open>None\<close> when the element is outside the array, a null pointer or a
  block without a string.
\<close>

definition ip_at :: "tour \<Rightarrow> nat \<Rightarrow> string option" where
  "ip_at s i = do {
     p \<leftarrow> aget (t_ips_to_ping s) (int i);
     case p of Ip ip \<Rightarrow> Some ip | _ \<Rightarrow> None
   }"

text \<open>
  One step of the ping thread.  The answers of \<open>areq\<close> for the destination and for the own address are
  given; its result is not looked at.
\<close>

record ping_tick =
  tick_dest :: "u8 list option"
  tick_src :: "u8 list option"
  tick_now :: timeval

definition ping_step :: "tour_env \<Rightarrow> ping_tick \<Rightarrow> tour \<Rightarrow> tour option" where
  "ping_step env tick s =
     (case t_pc s of
        AtWhile \<Rightarrow> Some (s\<lparr>t_pc := (if t_keep_pinging s = 1 then AtLock else Returned)\<rparr>)
      | AtLock \<Rightarrow> Some (s\<lparr>t_idx := t_next_ip_index s, t_k := 0, t_pc := AtFor\<rparr>)
      | AtFor \<Rightarrow>
          (if t_k s < t_idx s then do {
             dest \<leftarrow> ip_at s (t_k s);
             Some (s\<lparr>t_pc := AtCheck (snd (areq (te_be env) (tick_dest tick))) (snd (areq (te_be env) (tick_src tick)))\<rparr>)
           }
           else Some (s\<lparr>t_pc := AtWhile\<rparr>))
      | AtCheck dest_hwaddr src_hwaddr \<Rightarrow>
          Some (s\<lparr>t_pc := (if t_next_ip_to_ping s < t_next_ip_index s then AtFirst dest_hwaddr src_hwaddr else AtSend dest_hwaddr src_hwaddr)\<rparr>)
      | AtFirst dest_hwaddr src_hwaddr \<Rightarrow> do {
          x \<leftarrow> ip_at s (t_next_ip_to_ping s);
          ip \<leftarrow> inet_pton x;
          host \<leftarrow> te_byaddr env ip;
          Some (s\<lparr>t_next_ip_to_ping := Suc (t_next_ip_to_ping s), t_pc := AtSend dest_hwaddr src_hwaddr\<rparr>)
        }
      | AtSend dest_hwaddr src_hwaddr \<Rightarrow> do {
          dest \<leftarrow> ip_at s (t_k s);
          Some ((send_ping_request env (tick_now tick) (sll_addr dest_hwaddr) (sll_addr src_hwaddr) (t_src_ip s) dest (sll_ifindex src_hwaddr) s)
            \<lparr>t_k := Suc (t_k s), t_pc := AtFor\<rparr>)
        }
      | Returned \<Rightarrow> Some s)"

text \<open>
  The loop of \<open>add_ip_to_ping\<close> over the elements \<open>ks\<close>: whether it returns early.  The test for the
  own address is inside the loop, so it is skipped while the list is empty.
\<close>

fun listed :: "string \<Rightarrow> tour \<Rightarrow> nat list \<Rightarrow> bool option" where
  "listed ip s [] = Some False"
| "listed ip s (k # ks) = do {
     x \<leftarrow> ip_at s k;
     if ip = x \<or> t_src_ip s = ip then Some True else listed ip s ks
   }"

text \<open>
  The main thread counts the new element before the call of \<open>strcpy\<close> and takes no lock: the steps
  \<open>between\<close> of the ping thread fall between the two.  There is no test for the length of the array; the
  copy is undefined when the pointer read is outside the array or null, or the string does not fit into the
  block of twenty bytes.
\<close>

definition add_ip_to_ping :: "tour_env \<Rightarrow> ping_tick list \<Rightarrow> string \<Rightarrow> tour \<Rightarrow> tour option" where
  "add_ip_to_ping env between ip s = do {
     found \<leftarrow> listed ip s [0..<t_next_ip_index s];
     if found then orun (ping_step env) between s
     else do {
       let i = t_next_ip_index s;
       p \<leftarrow> aget (t_ips_to_ping s) (int i);
       s1 \<leftarrow> orun (ping_step env) between (s\<lparr>t_next_ip_index := Suc i\<rparr>);
       if p \<noteq> Unset \<and> length ip < 20 then Some (s1\<lparr>t_ips_to_ping := (t_ips_to_ping s1)[i := Ip ip]\<rparr>) else None
     }
   }"

text \<open>\<open>ptr\<close> is the packet in its zeroed buffer, \<open>len\<close> the length received.\<close>

definition proc_v4 :: "tour_env \<Rightarrow> u8 list \<Rightarrow> int \<Rightarrow> timeval \<Rightarrow> ipv4 \<Rightarrow> tour \<Rightarrow> tour option" where
  "proc_v4 env ptr len tvrecv src s =
     (let hlen1 = 4 * (unat (ptr ! 0) mod 16);
          p = icmp_of_bytes (te_be env) (drop hlen1 ptr);
          icmplen = len - int hlen1 in
      if icmplen < 8 then None
      else if icmp_type p = ICMP_ECHOREPLY then
        (if unat (icmp_id p) \<noteq> t_pid s then Some s
         else if icmplen < 16 then None
         else do {
           host \<leftarrow> te_byaddr env src;
           Some (tell (PingLine icmplen host (icmp_seq p) (ip_ttl (ip_of_bytes (te_be env) ptr))
             (tv_sub tvrecv (timeval_of_bytes (te_be env) (icmp_data p)))) s)
         })
      else Some s)"

section \<open>The route\<close>

definition recv_rt :: "tour_env \<Rightarrow> u8 list \<Rightarrow> tour \<Rightarrow> tour \<times> bool" where
  "recv_rt env output s =
     (if ip_id (ip_of_bytes (te_be env) (take 20 output)) \<noteq> te_ident env then (s, False)
      else (let r = route_of_bytes (te_be env) (take SIZE_ROUTE (drop 20 output))
            in (s\<lparr>t_route := r\<lparr>r_index := r_index r + 1\<rparr>\<rparr>, True)))"

definition rt_ip :: "tour_env \<Rightarrow> string \<Rightarrow> string \<Rightarrow> ip_header" where
  "rt_ip env src dest = \<lparr>ip_vhl = 0x45, ip_tos = 0, ip_len = 0, ip_id = te_ident env, ip_off = 0, ip_ttl = 255, ip_p = 195, ip_sum = 0,
     ip_src = te_inet_addr env src, ip_dst = te_inet_addr env dest\<rparr>"

definition send_rt :: "tour_env \<Rightarrow> tour \<Rightarrow> tour option" where
  "send_rt env s = do {
     arr \<leftarrow> aget (r_ip_addr (t_route s)) (sint (r_index (t_route s)));
     dest_ip \<leftarrow> c_string arr;
     Some (tell (RtPacket (te_inet_addr env dest_ip)
       (ip_bytes (te_be env) (rt_ip env (t_src_ip s) dest_ip) @ route_bytes (te_be env) (t_route s))) s)
   }"

definition send_multicast :: "tour \<Rightarrow> tour" where
  "send_multicast s =
     tell (Mcast (''<<<< This is '' @ t_src_vm s @ ''. Tour has ended. Group members please identify yourselves >>>>'')) s"

text \<open>\<open>args\<close> are the host names after the program's own name.\<close>

definition populate_route :: "tour_env \<Rightarrow> string list \<Rightarrow> tour \<Rightarrow> tour option" where
  "populate_route env args s =
     (if length args < MAX_ROUTE then
        (let r = t_route s;
             entry = (\<lambda>name i. fixed ADDR_LEN (get_ip_from_host (te_byname env) name (cstr (r_ip_addr r ! i))));
             addrs = map (\<lambda>i. if i \<le> length args then entry ((t_src_vm s # args) ! i) i else r_ip_addr r ! i) [0..<MAX_ROUTE]
         in send_rt env (s\<lparr>t_route := \<lparr>r_ip_addr = addrs, r_index = r_index r + 1, r_total_size = word_of_nat (Suc (length args))\<rparr>\<rparr>))
      else None)"

section \<open>The main thread\<close>

definition sock_ntop_in :: "sockaddr_in \<Rightarrow> string" where
  "sock_ntop_in a = inet_ntop (sin_addr a) @ (if sin_port a \<noteq> 0 then '':'' @ dec_nat (unat (sin_port a)) else [])"

abbreviation LINE :: nat where "LINE \<equiv> 4096"

definition recv_into :: "u8 list \<Rightarrow> u8 list \<Rightarrow> u8 list" where
  "recv_into bs output = take LINE bs @ drop (length (take LINE bs)) output"

definition on_route :: "tour_env \<Rightarrow> ping_tick list \<Rightarrow> sockaddr_in \<Rightarrow> u8 list \<Rightarrow> tour \<Rightarrow> tour option" where
  "on_route env between recvaddr output s =
     (case recv_rt env output s of
        (s1, False) \<Rightarrow> Some s1
      | (s1, True) \<Rightarrow> do {
          let dest_ping_ip = sock_ntop_in recvaddr;
          if length dest_ping_ip < ADDR_LEN then do {
            s2 \<leftarrow> add_ip_to_ping env between dest_ping_ip s1;
            if sint (r_index (t_route s2)) \<ge> sint (r_total_size (t_route s2)) then Some (send_multicast s2) else send_rt env s2
          }
          else None
        })"

definition on_icmp :: "tour_env \<Rightarrow> u8 list \<Rightarrow> int \<Rightarrow> timeval \<Rightarrow> tour \<Rightarrow> tour option" where
  "on_icmp env output len now s =
     (let src = ip_src (ip_of_bytes (te_be env) output) in
      if unat (icmp_id (icmp_of_bytes (te_be env) (drop 20 output))) = t_pid s then
        (if length (get_host_from_ip (te_byaddr env) src (inet_ntop src) []) < 20 then proc_v4 env output len now src s else None)
      else Some s)"

text \<open>
  A turn of the loop: what is ready on the three sockets, read into one buffer, and the steps of the
  ping thread while \<open>add_ip_to_ping\<close> has counted an element that it has not filled.  Apart from that
  element a turn writes one variable that the ping thread reads, \<open>keep_pinging\<close>, at its end.
\<close>

record tour_turn =
  on_rt :: "(sockaddr_in \<times> u8 list) option"
  on_pg :: "(u8 list \<times> timeval) option"
  on_udp :: "u8 list option"
  on_add :: "ping_tick list"

definition main_turn :: "tour_env \<Rightarrow> tour_turn \<Rightarrow> tour \<Rightarrow> tour option" where
  "main_turn env turn s =
     (if t_done s then Some s else do {
        let output = replicate LINE 0;
        let output1 = (case on_rt turn of None \<Rightarrow> output | Some (a, bs) \<Rightarrow> recv_into bs output);
        s1 \<leftarrow> (case on_rt turn of None \<Rightarrow> Some s | Some (a, bs) \<Rightarrow> on_route env (on_add turn) a output1 s);
        let output2 = (case on_pg turn of None \<Rightarrow> output1 | Some (bs, now) \<Rightarrow> recv_into bs output1);
        s2 \<leftarrow> (case on_pg turn of None \<Rightarrow> Some s1 | Some (bs, now) \<Rightarrow> on_icmp env output2 (int (length (take LINE bs))) now s1);
        Some (case on_udp turn of None \<Rightarrow> s2 | Some bs \<Rightarrow> s2\<lparr>t_keep_pinging := 0, t_done := True\<rparr>)
      })"

section \<open>The two threads\<close>

datatype tour_event = MainTurn tour_turn | PingTick ping_tick

fun tour_step :: "tour_env \<Rightarrow> tour_event \<Rightarrow> tour \<Rightarrow> tour option" where
  "tour_step env (MainTurn turn) s = main_turn env turn s"
| "tour_step env (PingTick tick) s = ping_step env tick s"

definition zero_route :: route where
  "zero_route = \<lparr>r_ip_addr = replicate MAX_ROUTE (replicate ADDR_LEN NUL), r_index = 0, r_total_size = 0\<rparr>"

definition tour_init :: "tour_env \<Rightarrow> string \<Rightarrow> nat \<Rightarrow> tour" where
  "tour_init env hostname pid = \<lparr>t_src_vm = hostname, t_src_ip = get_ip_from_host (te_byname env) hostname [], t_route = zero_route,
     t_pid = pid mod 65536, t_seq = 0, t_keep_pinging = 1, t_ips_to_ping = replicate (te_slots env) Unset,
     t_next_ip_index = 0, t_next_ip_to_ping = 0, t_pc = AtWhile, t_idx = 0, t_k = 0,
     t_done = False, t_out = []\<rparr>"

text \<open>The first loop of \<open>main\<close>, which gives the elements of \<open>ips_to_ping\<close> their blocks.\<close>

fun malloc_ips :: "nat list \<Rightarrow> tour \<Rightarrow> tour option" where
  "malloc_ips [] s = Some s"
| "malloc_ips (k # ks) s = do {
     ps \<leftarrow> aset (t_ips_to_ping s) (int k) Fresh;
     malloc_ips ks (s\<lparr>t_ips_to_ping := ps\<rparr>)
   }"

definition tour_main :: "tour_env \<Rightarrow> string \<Rightarrow> nat \<Rightarrow> string list \<Rightarrow> tour_event list \<Rightarrow> tour option" where
  "tour_main env hostname pid args events = do {
     s \<leftarrow> malloc_ips [0..<NUM_IPS_PING] (tour_init env hostname pid);
     s1 \<leftarrow> (if args \<noteq> [] then populate_route env args s else Some s);
     orun (tour_step env) events s1
   }"

end
