(* ===== verification/Tour_Props.thy ===== *)
theory Tour_Props
  imports Tour
begin

text \<open>
  Properties of the tour program: the checksum against its arithmetic meaning and the checksums of
  a ping, time differences and the answer to a ping, the list of hosts to ping under every
  interleaving of the two threads, and the order in which a tour visits its hosts.
\<close>

section \<open>The checksum as arithmetic\<close>

text \<open>The plain sum of the words, and the number from 1 to 65535 to which it folds (0 for 0).\<close>

fun csum :: "bool \<Rightarrow> u8 list \<Rightarrow> nat" where
  "csum be (a # b # w) = unat (half_of_bytes be [a, b]) + csum be w"
| "csum be [a] = unat (half_of_bytes be [a, 0])"
| "csum be [] = 0"

definition fold16 :: "nat \<Rightarrow> nat" where
  "fold16 n = (if n = 0 then 0 else (n - 1) mod 65535 + 1)"

lemma unat_half: "unat (w :: u16) \<le> 65535"
  using unsigned_less [of w, where ?'a = nat] by simp

lemma csum_bound: "csum be bs \<le> 65535 * (Suc (length bs) div 2)"
proof (induction be bs rule: csum.induct)
  case (1 be a b w)
  then show ?case
    using unat_half [of "half_of_bytes be [a, b]"] by simp
next
  case (2 be a)
  then show ?case
    using unat_half [of "half_of_bytes be [a, 0]"] by simp
qed simp

lemma unat_ucast_half: "unat (ucast (w :: u16) :: u32) = unat w"
  by (simp add: unsigned_ucast_eq take_bit_nat_eq_self unat_half order_le_less_trans [OF unat_half])

lemma cksum_loop_sum:
  "unat acc + csum be bs < 2 ^ 32 \<Longrightarrow> unat (cksum_loop be bs acc) = unat acc + csum be bs"
proof (induction be bs acc rule: cksum_loop.induct)
  case (1 be a b w acc)
  have "unat (acc + ucast (half_of_bytes be [a, b])) = unat acc + unat (half_of_bytes be [a, b])"
    using 1 by (simp add: unat_word_ariths unat_ucast_half)
  then show ?case
    using 1 by simp
next
  case (2 be a acc)
  then show ?case
    by (simp add: unat_word_ariths unat_ucast_half)
qed simp

lemma fold_twice:
  fixes n :: nat
  assumes "n < 2 ^ 32" and "s1 = n div 65536 + n mod 65536"
  shows "(s1 + s1 div 65536) mod 65536 = fold16 n"
proof -
  define h where "h = n div 65536"
  have h: "h < 65536"
    using assms(1) by (simp add: h_def less_mult_imp_div_less)
  have l: "n mod 65536 < 65536"
    by simp
  have n: "n = 65535 * h + s1"
    using mult_div_mod_eq [of 65536 n] assms(2) by (simp add: h_def)
  show ?thesis
  proof (cases "n = 0")
    case True
    then show ?thesis
      using assms(2) by (simp add: fold16_def)
  next
    case False
    have "s1 \<noteq> 0"
    proof
      assume "s1 = 0"
      then have "h = 0"
        using assms(2) by (simp add: h_def)
      then show False
        using n \<open>s1 = 0\<close> False by simp
    qed
    then have s1: "1 \<le> s1"
      by simp
    then have "n - 1 = 65535 * h + (s1 - 1)"
      using n by linarith
    then have m: "(n - 1) mod 65535 = (s1 - 1) mod 65535"
      by (simp only: mod_mult_self4)
    show ?thesis
    proof (cases "s1 < 65536")
      case True
      then show ?thesis
        using m s1 False by (simp add: fold16_def)
    next
      case big: False
      define k where "k = s1 - 65536"
      have k: "s1 = 65536 + k" "k < 65535"
        using big assms(2) h l by (simp_all add: k_def h_def)
      have "(s1 - 1) mod 65535 = k mod 65535"
        using k(1) by (simp add: mod_add_self1)
      moreover have "(65536 + k) div 65536 = 1"
        by (rule div_nat_eqI) (use k(2) in simp_all)
      moreover have "(65536 + Suc k) mod 65536 = Suc k"
        unfolding mod_add_self1 using k(2) by (intro mod_less) simp
      ultimately show ?thesis
        using k False m by (simp add: fold16_def)
    qed
  qed
qed

lemma low_half: "unat (and w 0xFFFF) = unat w mod 65536" for w :: u32
proof -
  have "and w 0xFFFF = take_bit 16 w"
    using take_bit_eq_mask [of 16 w] by (simp add: mask_eq_exp_minus_1)
  then have "unat (and w 0xFFFF) = take_bit 16 (unat w)"
    by (simp only: unsigned_take_bit_eq)
  then show ?thesis
    by (simp add: take_bit_eq_mod)
qed

lemma high_half: "unat (drop_bit 16 w) = unat w div 65536" for w :: u32
  by (simp add: drop_bit_eq_div unat_div)

lemma unat_low: "unat (ucast w :: u16) = unat w mod 65536" for w :: u32
  by (simp add: unsigned_ucast_eq take_bit_eq_mod)

lemma unat_not16: "unat (not w) = 65535 - unat w" for w :: u16
proof -
  have "not w = -1 - w"
    by (simp add: not_eq_complement)
  moreover have "unat (-1 :: u16) = 65535"
    by (simp add: unsigned_minus_1_eq_mask mask_eq_exp_minus_1)
  ultimately show ?thesis
    using unat_half [of w] by (simp add: unat_sub word_le_nat_alt)
qed

lemma cksum_fold:
  assumes "length bs \<le> 2 ^ 17"
  shows "unat (in_cksum be bs) = 65535 - fold16 (csum be bs)"
proof -
  let ?s = "cksum_loop be bs 0"
  have "Suc (length bs) div 2 \<le> 65536"
    using assms by simp
  then have "csum be bs \<le> 65535 * 65536"
    using csum_bound [of be bs] by (meson le_trans mult_le_mono2)
  then have lt: "csum be bs < 2 ^ 32"
    by simp
  then have s: "unat ?s = csum be bs"
    using cksum_loop_sum [of 0 be bs] by simp
  define s1 where "s1 = drop_bit 16 ?s + and ?s 0xFFFF"
  have parts: "unat (drop_bit 16 ?s) = csum be bs div 65536" "unat (and ?s 0xFFFF) = csum be bs mod 65536"
    using s low_half [of ?s] high_half [of ?s] by simp_all
  have small: "csum be bs div 65536 + csum be bs mod 65536 < 131072"
    using lt by (simp add: add_less_le_mono [of _ 65536 _ 65535, simplified] less_mult_imp_div_less)
  then have s1: "unat s1 = csum be bs div 65536 + csum be bs mod 65536"
    using parts by (simp add: s1_def unat_word_ariths)
  have "unat (s1 + drop_bit 16 s1) = unat s1 + unat s1 div 65536"
  proof -
    have "unat s1 < 131072"
      using small s1 by simp
    then have "unat s1 + unat s1 div 65536 < 4294967296"
      using div_le_dividend [of "unat s1" 65536] by linarith
    then show ?thesis
      by (simp add: unat_word_ariths high_half)
  qed
  then have "unat (ucast (s1 + drop_bit 16 s1) :: u16) = fold16 (csum be bs)"
    using fold_twice [OF lt s1] by (simp add: unat_low)
  then show ?thesis
    by (simp add: in_cksum_def Let_def s1_def [symmetric] unat_not16)
qed

lemma csum_append: "even (length xs) \<Longrightarrow> csum be (xs @ ys) = csum be xs + csum be ys"
  by (induction be xs rule: csum.induct) auto

lemma fold16_cancel: "fold16 (n + (65535 - fold16 n)) = 65535"
proof (cases "n = 0")
  case True
  then show ?thesis
    by (simp add: fold16_def)
next
  case False
  define k where "k = (n - 1) mod 65535"
  define q where "q = (n - 1) div 65535"
  have "k < 65535" and n: "n = 65535 * q + k + 1"
    using False mult_div_mod_eq [of 65535 "n - 1"] by (simp_all add: k_def q_def)
  then have "n + (65535 - fold16 n) - 1 = 65534 + 65535 * q"
    using False by (simp add: fold16_def k_def [symmetric])
  then have "(n + (65535 - fold16 n) - 1) mod 65535 = 65534"
    by (simp only: mod_mult_self2) simp
  then show ?thesis
    using False by (simp add: fold16_def)
qed

lemma cksum_verifies:
  assumes "even (length xs)" and "length xs + length ys + 2 \<le> 2 ^ 17"
  shows "in_cksum be (xs @ half_bytes be (in_cksum be (xs @ half_bytes be 0 @ ys)) @ ys) = 0"
proof -
  obtain a b where ab: "half_bytes be (in_cksum be (xs @ half_bytes be 0 @ ys)) = [a, b]"
    using half_length [of be "in_cksum be (xs @ half_bytes be 0 @ ys)"] by (metis (no_types) length_0_conv length_Suc_conv numeral_2_eq_2)
  obtain c d where cd: "half_bytes be 0 = [c, d]"
    using half_length [of be 0] by (metis (no_types) length_0_conv length_Suc_conv numeral_2_eq_2)
  let ?S = "csum be (xs @ [c, d] @ ys)"
  have z: "half_of_bytes be [c, d] = 0"
    using half_roundtrip [of be 0] unfolding cd .
  have w: "half_of_bytes be [a, b] = in_cksum be (xs @ [c, d] @ ys)"
    using half_roundtrip [of be "in_cksum be (xs @ half_bytes be 0 @ ys)"] unfolding ab unfolding cd .
  have "unat (in_cksum be (xs @ [c, d] @ ys)) = 65535 - fold16 ?S"
    by (rule cksum_fold) (use assms(2) in simp)
  then have "csum be (xs @ [a, b] @ ys) = ?S + (65535 - fold16 ?S)"
    using w z assms(1) by (simp add: csum_append)
  moreover have "unat (in_cksum be (xs @ [a, b] @ ys)) = 65535 - fold16 (csum be (xs @ [a, b] @ ys))"
    by (rule cksum_fold) (use assms(2) in simp)
  ultimately have "unat (in_cksum be (xs @ [a, b] @ ys)) = 0"
    by (simp add: fold16_cancel)
  then show ?thesis
    by (simp add: ab unsigned_eq_0_iff)
qed

text \<open>
  C12: the checksum routine, with its two folds in 32 bits, computes the ones-complement checksum:
  on up to 131072 bytes it is 65535 minus the sum of the 16-bit words reduced modulo 65535, with
  65535 for a sum that is a positive multiple.
\<close>

theorem in_cksum_ones_complement:
  assumes "length bs \<le> 2 ^ 17"
  shows "unat (in_cksum be bs) = 65535 - fold16 (csum be bs)"
  by (rule cksum_fold [OF assms])

theorem in_cksum_ones_complement_witness:
  "unat (in_cksum False [0x45, 0, 0, 56]) = 65535 - fold16 (csum False [0x45, 0, 0, 56])"
  by (rule in_cksum_ones_complement) simp

section \<open>Pings\<close>

lemma le_bytes_length [simp]: "length (le_bytes k n) = k"
  by (induction k arbitrary: n) simp_all

lemma timeval_length [simp]: "length (timeval_bytes be t) = 16"
  by (simp add: timeval_bytes_def long_bytes_def Let_def)

lemma addr_length [simp]: "length (addr_bytes a) = 4"
  by (cases a) simp

text \<open>
  Both checksums in the frame of a ping are right: a receiver that sums the IP header, or the
  ICMP header with the time stamp, gets zero, whatever the addresses, the time, the identifier and
  the sequence number are.
\<close>

theorem ping_checksums_valid:
  "let be = te_be env; (p, s1) = set_icmp env now s in
   in_cksum be (ip_bytes be (ping_ip env src dest)) = 0 \<and> in_cksum be (take 24 (icmp_bytes be p)) = 0"
proof -
  let ?be = "te_be env"
  let ?h = "\<lparr>ip_vhl = 0x45, ip_tos = 0, ip_len = htons ?be (28 + 28), ip_id = 0, ip_off = 0, ip_ttl = 255, ip_p = 1, ip_sum = 0,
               ip_src = te_inet_addr env src, ip_dst = te_inet_addr env dest\<rparr>"
  let ?xs = "[0x45, 0] @ half_bytes ?be (htons ?be (28 + 28)) @ half_bytes ?be 0 @ half_bytes ?be 0 @ [255, 1]"
    and ?ys = "addr_bytes (te_inet_addr env src) @ addr_bytes (te_inet_addr env dest)"
  have "ip_bytes ?be ?h = ?xs @ half_bytes ?be 0 @ ?ys"
    by (simp add: ip_bytes_def)
  moreover have "ip_bytes ?be (ping_ip env src dest) = ?xs @ half_bytes ?be (in_cksum ?be (ip_bytes ?be ?h)) @ ?ys"
    by (simp add: ip_bytes_def ping_ip_def Let_def)
  ultimately have ip: "in_cksum ?be (ip_bytes ?be (ping_ip env src dest)) = 0"
    using cksum_verifies [of ?xs ?ys ?be] by simp
  let ?p = "\<lparr>icmp_type = ICMP_ECHO, icmp_code = 0, icmp_cksum = 0, icmp_id = word_of_nat (t_pid s),
               icmp_seq = ucast (t_seq s + 1), icmp_data = timeval_bytes ?be now @ replicate 4 0\<rparr>"
  let ?zs = "half_bytes ?be (word_of_nat (t_pid s)) @ half_bytes ?be (ucast (t_seq s + 1)) @ timeval_bytes ?be now"
  have "take 24 (icmp_bytes ?be ?p) = [ICMP_ECHO, 0] @ half_bytes ?be 0 @ ?zs"
    by (simp add: icmp_bytes_def)
  moreover have "take 24 (icmp_bytes ?be (fst (set_icmp env now s))) =
      [ICMP_ECHO, 0] @ half_bytes ?be (in_cksum ?be (take 24 (icmp_bytes ?be ?p))) @ ?zs"
    by (simp add: icmp_bytes_def set_icmp_def Let_def)
  ultimately have "in_cksum ?be (take 24 (icmp_bytes ?be (fst (set_icmp env now s)))) = 0"
    using cksum_verifies [of "[ICMP_ECHO, 0]" ?zs ?be] by simp
  with ip show ?thesis
    by (simp add: Let_def case_prod_unfold)
qed



lemma long_length [simp]: "length (long_bytes be i) = 8"
  by (simp add: long_bytes_def Let_def)


text \<open>
  The time difference of two normalised times is normalised and exact to the microsecond.
\<close>

theorem tv_sub_exact:
  assumes "0 \<le> tv_usec a" and "tv_usec a < 1000000" and "0 \<le> tv_usec b" and "tv_usec b < 1000000"
  shows "0 \<le> tv_usec (tv_sub a b) \<and> tv_usec (tv_sub a b) < 1000000 \<and>
    1000000 * tv_sec (tv_sub a b) + tv_usec (tv_sub a b) =
    (1000000 * tv_sec a + tv_usec a) - (1000000 * tv_sec b + tv_usec b)"
  using assms by (simp add: tv_sub_def Let_def)

theorem tv_sub_exact_witness:
  "tv_sub \<lparr>tv_sec = 10, tv_usec = 5\<rparr> \<lparr>tv_sec = 9, tv_usec = 999999\<rparr> = \<lparr>tv_sec = 0, tv_usec = 6\<rparr>"
  using tv_sub_exact [of "\<lparr>tv_sec = 10, tv_usec = 5\<rparr>" "\<lparr>tv_sec = 9, tv_usec = 999999\<rparr>"] by (simp add: tv_sub_def Let_def)

section \<open>The list of hosts to ping\<close>







lemma ip_at_some: "ip_at s i = Some x \<longleftrightarrow> i < length (t_ips_to_ping s) \<and> t_ips_to_ping s ! i = Ip x"
  by (auto simp: ip_at_def aget_nat bind_eq_Some_conv split: ip_slot.splits)














text \<open>
  The condition is needed: the first element is counted before the address is copied, and a ping
  thread that starts a round in between reads a block that nothing was copied into.
\<close>

theorem unfilled_element_read:
  assumes "t_pc s = AtWhile" and "t_keep_pinging s = 1" and "t_next_ip_index s = 0" and "0 < length (t_ips_to_ping s)"
    and "t_ips_to_ping s ! 0 = Fresh" and "length ip < 20"
  shows "add_ip_to_ping env [] ip s \<noteq> None \<and> add_ip_to_ping env [x, y, z] ip s = None"
  using assms by (simp add: add_ip_to_ping_def aget_def ping_step_def ip_at_def Let_def)

section \<open>The tour\<close>

definition route_ok :: "route \<Rightarrow> bool" where
  "route_ok r \<longleftrightarrow> length (r_ip_addr r) = MAX_ROUTE \<and> (\<forall>a \<in> set (r_ip_addr r). length a = ADDR_LEN \<and> NUL \<in> set a)"

lemma chunks_concat:
  "(\<forall>x \<in> set xss. length x = n) \<Longrightarrow> chunks (length xss) n (concat xss) = xss"
  by (induction xss) simp_all

lemma concat_length: "(\<forall>x \<in> set xss. length x = n) \<Longrightarrow> length (concat xss) = length xss * n"
  by (induction xss) simp_all

lemma route_roundtrip:
  assumes "route_ok r"
  shows "route_of_bytes be (route_bytes be r) = r" and "length (route_bytes be r) = SIZE_ROUTE"
proof -
  have l: "length (concat (r_ip_addr r)) = 320"
    using concat_length [of "r_ip_addr r" ADDR_LEN] assms by (simp add: route_ok_def)
  then show "length (route_bytes be r) = SIZE_ROUTE"
    by (simp add: route_bytes_def)
  show "route_of_bytes be (route_bytes be r) = r"
    using l chunks_concat [of "r_ip_addr r" ADDR_LEN] assms by (simp add: route_of_bytes_def route_bytes_def route_ok_def)
qed

lemma ip_bytes_length [simp]: "length (ip_bytes be h) = 20"
  by (simp add: ip_bytes_def)

lemma ip_id_read: "ip_id (ip_of_bytes be (ip_bytes be h)) = ip_id h"
  by (simp add: ip_of_bytes_def ip_bytes_def)

definition rt_packet :: "tour_env \<Rightarrow> string \<Rightarrow> string \<Rightarrow> route \<Rightarrow> u8 list" where
  "rt_packet env src dest r = ip_bytes (te_be env) (rt_ip env src dest) @ route_bytes (te_be env) r"

text \<open>A host reads from a packet the route that was sent, and advances it.\<close>

lemma recv_packet:
  assumes "route_ok r" and "te_be env' = te_be env" and "te_ident env' = te_ident env"
  shows "recv_rt env' (recv_into (rt_packet env src dest r) output) s = (s\<lparr>t_route := r\<lparr>r_index := r_index r + 1\<rparr>\<rparr>, True)"
proof -
  note rr = route_roundtrip [OF assms(1), of "te_be env"]
  have "length (rt_packet env src dest r) = 348"
    using rr(2) by (simp add: rt_packet_def)
  then obtain q where "recv_into (rt_packet env src dest r) output = rt_packet env src dest r @ q"
    by (simp add: recv_into_def)
  then have b: "recv_into (rt_packet env src dest r) output = ip_bytes (te_be env) (rt_ip env src dest) @ route_bytes (te_be env) r @ q"
    by (simp add: rt_packet_def)
  have "take 20 (recv_into (rt_packet env src dest r) output) = ip_bytes (te_be env) (rt_ip env src dest)"
    and "take SIZE_ROUTE (drop 20 (recv_into (rt_packet env src dest r) output)) = route_bytes (te_be env) r"
    unfolding b using rr(2) by simp_all
  moreover have "ip_id (rt_ip env src dest) = te_ident env"
    by (simp add: rt_ip_def)
  ultimately show ?thesis
    using assms(2,3) rr(1) by (simp add: recv_rt_def ip_id_read Let_def)
qed

text \<open>A host whose list has room: the elements that are counted hold strings, and the next one a block.\<close>

definition room :: "tour \<Rightarrow> bool" where
  "room s \<longleftrightarrow> t_next_ip_index s < length (t_ips_to_ping s) \<and> t_ips_to_ping s ! t_next_ip_index s \<noteq> Unset \<and>
     list_all (\<lambda>p. \<exists>ip. p = Ip ip) (take (t_next_ip_index s) (t_ips_to_ping s))"

text \<open>
  A host that can take part: the same byte order, identification and \<open>inet_addr\<close> as the first
  one, room in its list, and not at the end of its loop.
\<close>

fun host_ok :: "tour_env \<Rightarrow> tour_env \<times> sockaddr_in \<times> tour \<Rightarrow> bool" where
  "host_ok env (e, a, s) \<longleftrightarrow> te_be e = te_be env \<and> te_ident e = te_ident env \<and> te_inet_addr e = te_inet_addr env \<and>
     \<not> t_done s \<and> length (sock_ntop_in a) < ADDR_LEN \<and> room s"

abbreviation rt_turn :: "sockaddr_in \<Rightarrow> u8 list \<Rightarrow> tour_event" where
  "rt_turn a pkt \<equiv> MainTurn \<lparr>on_rt = Some (a, pkt), on_pg = None, on_udp = None, on_add = []\<rparr>"

text \<open>A packet handed from host to host; the result is what each host sends on.\<close>

fun travel :: "(tour_env \<times> sockaddr_in \<times> tour) list \<Rightarrow> u8 list \<Rightarrow> tour_out list option" where
  "travel [] pkt = Some []"
| "travel ((e, a, s) # hs) pkt = do {
     t \<leftarrow> tour_step e (rt_turn a pkt) s;
     xs \<leftarrow> (case last (t_out t) of RtPacket d p \<Rightarrow> travel hs p | _ \<Rightarrow> Some []);
     Some (last (t_out t) # xs)
   }"

fun rt_dest :: "tour_out \<Rightarrow> ipv4 option" where
  "rt_dest (RtPacket d p) = Some d"
| "rt_dest x = None"

lemma listed_defined: "\<forall>k \<in> set ks. \<exists>x. ip_at s k = Some x \<Longrightarrow> listed ip s ks \<noteq> None"
  by (induction ks) auto

lemma add_defined:
  assumes "room s" and "length ip < ADDR_LEN"
  shows "\<exists>t. add_ip_to_ping env [] ip s = Some t \<and> t_route t = t_route s \<and> t_src_ip t = t_src_ip s \<and> t_src_vm t = t_src_vm s"
proof -
  have "\<exists>x. ip_at s k = Some x" if "k < t_next_ip_index s" for k
    using assms(1) that by (auto simp: room_def ip_at_some list_all_length)
  then obtain b where "listed ip s [0..<t_next_ip_index s] = Some b"
    using listed_defined [of "[0..<t_next_ip_index s]" s ip] by auto
  then show ?thesis
    using assms by (simp add: add_ip_to_ping_def room_def aget_nat Let_def)
qed

lemma host_forwards:
  assumes "host_ok env (e, a, s)" and "route_ok r" and "0 \<le> sint (r_index r + 1)"
    and "sint (r_index r + 1) < sint (r_total_size r)" and "sint (r_total_size r) \<le> int MAX_ROUTE"
  defines "r' \<equiv> r\<lparr>r_index := r_index r + 1\<rparr>"
  defines "dest \<equiv> cstr (r_ip_addr r ! nat (sint (r_index r + 1)))"
  shows "\<exists>t src'. tour_step e (rt_turn a (rt_packet env src d r)) s = Some t \<and>
    last (t_out t) = RtPacket (te_inet_addr env dest) (rt_packet env src' dest r')"
proof -
  have h: "te_be e = te_be env" "te_ident e = te_ident env" "te_inet_addr e = te_inet_addr env" "\<not> t_done s"
    "length (sock_ntop_in a) < ADDR_LEN" "room s"
    using assms(1) by simp_all
  obtain s2 where s2: "add_ip_to_ping e [] (sock_ntop_in a) (s\<lparr>t_route := r'\<rparr>) = Some s2" "t_route s2 = r'"
    using add_defined [of "s\<lparr>t_route := r'\<rparr>" "sock_ntop_in a" e] h by (auto simp: room_def)
  let ?i = "nat (sint (r_index r + 1))"
  have i: "?i < length (r_ip_addr r)"
    using assms(2-5) by (simp add: route_ok_def nat_less_iff)
  then have "c_string (r_ip_addr r ! ?i) = Some dest"
    using assms(2) by (simp add: route_ok_def c_string_def dest_def)
  then have "send_rt e s2 = Some (tell (RtPacket (te_inet_addr env dest) (rt_packet env (t_src_ip s2) dest r')) s2)"
    using s2(2) assms(3) i h(1-3) by (simp add: send_rt_def aget_def r'_def rt_packet_def rt_ip_def zless_nat_conj)
  moreover have "on_route e [] a (recv_into (rt_packet env src d r) (replicate LINE 0)) s = send_rt e s2"
    using recv_packet [OF assms(2) h(1,2), of src d "replicate LINE 0" s] s2 h(5) assms(4)
    by (simp add: on_route_def r'_def)
  ultimately show ?thesis
    using h by (auto simp: main_turn_def tell_def)
qed

lemma host_ends:
  assumes "host_ok env (e, a, s)" and "route_ok r" and "sint (r_total_size r) \<le> sint (r_index r + 1)"
  shows "\<exists>t. tour_step e (rt_turn a (rt_packet env src d r)) s = Some t \<and>
    last (t_out t) = Mcast (''<<<< This is '' @ t_src_vm s @ ''. Tour has ended. Group members please identify yourselves >>>>'')"
proof -
  let ?r = "r\<lparr>r_index := r_index r + 1\<rparr>"
  have h: "te_be e = te_be env" "te_ident e = te_ident env" "\<not> t_done s"
    "length (sock_ntop_in a) < ADDR_LEN" "room s"
    using assms(1) by simp_all
  obtain s2 where s2: "add_ip_to_ping e [] (sock_ntop_in a) (s\<lparr>t_route := ?r\<rparr>) = Some s2" "t_route s2 = ?r" "t_src_vm s2 = t_src_vm s"
    using add_defined [of "s\<lparr>t_route := ?r\<rparr>" "sock_ntop_in a" e] h by (auto simp: room_def)
  have "on_route e [] a (recv_into (rt_packet env src d r) (replicate LINE 0)) s = Some (send_multicast s2)"
    using recv_packet [OF assms(2) h(1,2), of src d "replicate LINE 0" s] s2 h(4) assms(3) by (simp add: on_route_def)
  then show ?thesis
    using h s2(3) by (simp add: main_turn_def send_multicast_def tell_def)
qed

lemma sint_of_nat_small: "n \<le> MAX_ROUTE \<Longrightarrow> sint (word_of_nat n :: cint) = int n"
  using sint_small [of "word_of_nat n"] unat_of_nat32 [of n] by simp

text \<open>A packet at position \<open>i\<close> of a route of \<open>n\<close> hosts, with the hosts that are left.\<close>

lemma travel_from:
  assumes "route_ok r" and "r_index r = word_of_nat i" and "r_total_size r = word_of_nat n" and "n \<le> MAX_ROUTE"
    and "i + length hs = n" and "hs \<noteq> []" and "list_all (host_ok env) hs"
  shows "\<exists>outs. travel hs (rt_packet env src d r) = Some outs \<and> length outs = length hs \<and>
    map rt_dest (butlast outs) = map (\<lambda>k. Some (te_inet_addr env (cstr (r_ip_addr r ! k)))) [Suc i..<n] \<and>
    last outs = Mcast (''<<<< This is '' @ t_src_vm (snd (snd (last hs))) @ ''. Tour has ended. Group members please identify yourselves >>>>'')"
  using assms
proof (induction hs arbitrary: i r src d)
  case Nil
  then show ?case by simp
next
  case (Cons h hs)
  obtain e a s where h: "h = (e, a, s)"
    by (cases h)
  have ho: "host_ok env (e, a, s)"
    using Cons.prems(7) h by simp
  have w: "r_index r + 1 = word_of_nat (Suc i)"
    using Cons.prems(2) by simp
  have ix: "sint (r_index r + 1) = int (Suc i)" and n: "sint (r_total_size r) = int n"
    unfolding w Cons.prems(3) using Cons.prems(4,5) sint_of_nat_small [of "Suc i"] sint_of_nat_small [of n] by simp_all
  show ?case
  proof (cases "hs = []")
    case True
    then have "sint (r_total_size r) \<le> sint (r_index r + 1)"
      using ix n Cons.prems(5) by simp
    from host_ends [OF ho Cons.prems(1) this, of src d] show ?thesis
      using True h Cons.prems(5) by auto
  next
    case False
    let ?r = "r\<lparr>r_index := r_index r + 1\<rparr>"
    have c: "0 \<le> sint (r_index r + 1)" "sint (r_index r + 1) < sint (r_total_size r)" "sint (r_total_size r) \<le> int MAX_ROUTE"
      using ix n Cons.prems(4,5) False by (cases hs; simp)+
    have ni: "nat (sint (r_index r + 1)) = Suc i"
      unfolding ix by (rule nat_int)
    obtain t src' where t: "tour_step e (rt_turn a (rt_packet env src d r)) s = Some t"
      and o: "last (t_out t) = RtPacket (te_inet_addr env (cstr (r_ip_addr r ! Suc i))) (rt_packet env src' (cstr (r_ip_addr r ! Suc i)) ?r)"
      using host_forwards [OF ho Cons.prems(1) c, of src d] unfolding ni by blast
    obtain outs where outs: "travel hs (rt_packet env src' (cstr (r_ip_addr r ! Suc i)) ?r) = Some outs" "length outs = length hs"
      "map rt_dest (butlast outs) = map (\<lambda>k. Some (te_inet_addr env (cstr (r_ip_addr ?r ! k)))) [Suc (Suc i)..<n]"
      "last outs = Mcast (''<<<< This is '' @ t_src_vm (snd (snd (last hs))) @ ''. Tour has ended. Group members please identify yourselves >>>>'')"
      using Cons.IH [of ?r "Suc i" src' "cstr (r_ip_addr r ! Suc i)"] Cons.prems False w by (auto simp: route_ok_def)
    have ne: "outs \<noteq> []" and lt: "Suc i < n"
      using outs(2) False Cons.prems(5) by (cases hs; auto)+
    show ?thesis
      using t o outs ne False h upt_conv_Cons [OF lt] by (intro exI [of _ "last (t_out t) # outs"]) simp
  qed
qed

abbreviation addr_of :: "tour_env \<Rightarrow> string \<Rightarrow> string" where
  "addr_of env name \<equiv> get_ip_from_host (te_byname env) name []"

lemma inet_ntop_ok: "length (inet_ntop a) < ADDR_LEN" "NUL \<notin> set (inet_ntop a)"
proof -
  obtain w x y z where a: "a = (w, x, y, z)"
    by (cases a)
  show "length (inet_ntop a) < ADDR_LEN"
    unfolding a using dec_nat_short [OF unat_lt8 [of w]] dec_nat_short [OF unat_lt8 [of x]]
      dec_nat_short [OF unat_lt8 [of y]] dec_nat_short [OF unat_lt8 [of z]] by simp
  show "NUL \<notin> set (inet_ntop a)"
    unfolding a using dec_nat_digits is_digit_not(5) by fastforce
qed

lemma addr_ok: "length (addr_of env name) < ADDR_LEN" "NUL \<notin> set (addr_of env name)"
proof -
  have "fold (\<lambda>a _. inet_ntop a) as [] = (if as = [] then [] else inet_ntop (last as))" for as
    by (induction as rule: rev_induct) simp_all
  then show "length (addr_of env name) < ADDR_LEN" and "NUL \<notin> set (addr_of env name)"
    using inet_ntop_ok by (auto simp: get_ip_from_host_def split: option.splits)
qed

definition start_route :: "tour_env \<Rightarrow> string \<Rightarrow> string list \<Rightarrow> route" where
  "start_route env host args = \<lparr>r_ip_addr = map (\<lambda>i. if i \<le> length args then fixed ADDR_LEN (addr_of env ((host # args) ! i))
      else replicate ADDR_LEN NUL) [0..<MAX_ROUTE], r_index = 1, r_total_size = word_of_nat (Suc (length args))\<rparr>"

lemma start_route_ok: "route_ok (start_route env host args)"
  using addr_ok by (auto simp: route_ok_def start_route_def fixed_length less_imp_le nul_fixed)

lemma start_route_nth:
  "k \<le> length args \<Longrightarrow> k < MAX_ROUTE \<Longrightarrow> cstr (r_ip_addr (start_route env host args) ! k) = addr_of env ((host # args) ! k)"
  using addr_ok by (simp add: start_route_def cstr_fixed)

lemma tour_starts:
  assumes "args \<noteq> []" and "length args < MAX_ROUTE"
  shows "\<exists>t src. populate_route env args (tour_init env host pid) = Some t \<and>
    t_out t = [RtPacket (te_inet_addr env (addr_of env (hd args))) (rt_packet env src (addr_of env (hd args)) (start_route env host args))]"
proof -
  let ?s = "(tour_init env host pid)\<lparr>t_route := start_route env host args\<rparr>"
  have z: "t_route (tour_init env host pid) = zero_route" "t_src_vm (tour_init env host pid) = host" "r_index zero_route + 1 = 1"
    by (simp_all add: tour_init_def zero_route_def)
  have a: "map (\<lambda>i. if i \<le> length args then fixed ADDR_LEN (get_ip_from_host (te_byname env) ((host # args) ! i) (cstr (r_ip_addr zero_route ! i)))
      else r_ip_addr zero_route ! i) [0..<MAX_ROUTE] = r_ip_addr (start_route env host args)"
    unfolding start_route_def route.simps by (rule map_cong [OF refl]) (simp add: zero_route_def)
  have "populate_route env args (tour_init env host pid) = send_rt env ?s"
    unfolding populate_route_def Let_def z a if_P [OF assms(2)] by (simp add: start_route_def)
  moreover obtain h hs where "args = h # hs"
    using assms(1) by (cases args) auto
  then have "aget (r_ip_addr (start_route env host args)) 1 = Some (fixed ADDR_LEN (addr_of env (hd args)))"
    using assms(2) by (simp add: start_route_def aget_def)
  ultimately show ?thesis
    using addr_ok [of env "hd args"]
    by (auto simp: send_rt_def start_route_def [of _ _ args] c_string_def nul_fixed cstr_fixed tell_def tour_init_def rt_packet_def)
qed

text \<open>
  C5: a tour visits its hosts in the order of the command line.  The first host sends the packet to
  the first host of the list, each host passes it on to the next one, and the last host sends
  the multicast message that ends the tour.
\<close>

theorem tour_visits_in_order:
  assumes "args \<noteq> []" and "length args < MAX_ROUTE" and "length hs = length args" and "list_all (host_ok env) hs"
  shows "\<exists>t p outs. populate_route env args (tour_init env host pid) = Some t \<and>
    t_out t = [RtPacket (te_inet_addr env (addr_of env (hd args))) p] \<and> travel hs p = Some outs \<and>
    map rt_dest (butlast outs) = map (\<lambda>name. Some (te_inet_addr env (addr_of env name))) (tl args) \<and>
    last outs = Mcast (''<<<< This is '' @ t_src_vm (snd (snd (last hs))) @ ''. Tour has ended. Group members please identify yourselves >>>>'')"
proof -
  let ?r = "start_route env host args" and ?n = "Suc (length args)"
  obtain t src where t: "populate_route env args (tour_init env host pid) = Some t"
    "t_out t = [RtPacket (te_inet_addr env (addr_of env (hd args))) (rt_packet env src (addr_of env (hd args)) ?r)]"
    using tour_starts [OF assms(1,2)] by blast
  have "hs \<noteq> []"
    using assms(1,3) by auto
  then obtain outs where outs: "travel hs (rt_packet env src (addr_of env (hd args)) ?r) = Some outs"
    "map rt_dest (butlast outs) = map (\<lambda>k. Some (te_inet_addr env (cstr (r_ip_addr ?r ! k)))) [Suc 1..<?n]"
    "last outs = Mcast (''<<<< This is '' @ t_src_vm (snd (snd (last hs))) @ ''. Tour has ended. Group members please identify yourselves >>>>'')"
    using travel_from [OF start_route_ok [of env host args], of 1 ?n hs env src "addr_of env (hd args)"] assms
    by (auto simp: start_route_def)
  have "map (\<lambda>k. Some (te_inet_addr env (cstr (r_ip_addr ?r ! k)))) [Suc 1..<?n] =
      map (\<lambda>name. Some (te_inet_addr env (addr_of env name))) (tl args)"
    by (rule nth_equalityI) (use assms(2) in \<open>auto simp: start_route_nth nth_tl simp del: upt_Suc\<close>)
  then show ?thesis
    using t outs by auto
qed





section \<open>Concrete tours\<close>

definition tour_demo_env :: tour_env where
  "tour_demo_env = \<lparr>te_be = False, te_ident = 7, te_heap = replicate 1514 0,
     te_inet_addr = (\<lambda>s. case inet_pton s of None \<Rightarrow> (255, 255, 255, 255) | Some a \<Rightarrow> a),
     te_byname = (\<lambda>name. if name = ''vm1'' then Some [(130, 245, 156, 21)] else Some [(130, 245, 156, 22)]),
     te_byaddr = (\<lambda>a. Some ''vm1''), te_slots = NUM_IPS_PING\<rparr>"

text \<open>A host after the first loop of \<open>main\<close>.\<close>

definition demo_host :: "string \<Rightarrow> nat \<Rightarrow> tour" where
  "demo_host name pid = (tour_init tour_demo_env name pid)\<lparr>t_ips_to_ping := replicate NUM_IPS_PING Fresh\<rparr>"



definition from21 :: sockaddr_in where
  "from21 = \<lparr>sin_family = 2, sin_port = 0, sin_addr = (130, 245, 156, 21)\<rparr>"

lemma from21_short: "length (sock_ntop_in from21) < ADDR_LEN"
  using inet_ntop_ok(1) [of "(130, 245, 156, 21)"] by (simp add: sock_ntop_in_def from21_def)

theorem tour_visits_in_order_witness:
  "\<exists>t p outs. populate_route tour_demo_env [''vm2'', ''vm1''] (tour_init tour_demo_env ''vm1'' 1) = Some t \<and>
    t_out t = [RtPacket (te_inet_addr tour_demo_env (addr_of tour_demo_env ''vm2'')) p] \<and>
    travel [(tour_demo_env, from21, demo_host ''vm2'' 2), (tour_demo_env, from21, demo_host ''vm1'' 1)] p = Some outs \<and>
    map rt_dest (butlast outs) = [Some (te_inet_addr tour_demo_env (addr_of tour_demo_env ''vm1''))]"
proof -
  have "list_all (host_ok tour_demo_env)
      [(tour_demo_env, from21, demo_host ''vm2'' 2), (tour_demo_env, from21, demo_host ''vm1'' 1)]"
    using from21_short by (simp add: room_def demo_host_def tour_init_def)
  from tour_visits_in_order [OF _ _ _ this, of "[''vm2'', ''vm1'']" "''vm1''" 1] show ?thesis
    by auto
qed






end
