(* ===== verification/Readline.thy ===== *)
theory Readline
  imports Machine Udp
begin

text \<open>
  Reading lines: the library's \<open>readline\<close> (\<open>src/unpv13e/lib/readline.c\<close>), which keeps one static
  buffer for all descriptors of a process, and the one for threads
  (\<open>src/unpv13e/threads/readline.c\<close>), which keeps a buffer for each thread.  What the kernel
  delivers on a descriptor is a list of results of \<open>read\<close>.  The interface \<open>line_reader\<close> says
  which line a call returns in terms of the bytes that are left; both versions provide it.
\<close>

section \<open>The kernel's side\<close>

text \<open>
  \<open>RData cs\<close> is a piece of data (\<open>RData []\<close> the end of file that a terminal reports once), \<open>REnd\<close>
  a connection that its peer has closed, \<open>RIntr\<close> an interrupted call, \<open>RErr\<close> an error.
\<close>

datatype rd = RData string | REnd | RIntr | RErr

text \<open>
  One \<open>read\<close> of up to \<open>MAXLINE\<close> bytes, repeated while it is interrupted; \<open>None\<close> is a call that
  still waits.
\<close>

fun read_again :: "rd list \<Rightarrow> rd option \<times> rd list" where
  "read_again [] = (None, [])"
| "read_again (RIntr # ins) = read_again ins"
| "read_again (RErr # ins) = (Some RErr, ins)"
| "read_again (REnd # ins) = (Some (RData []), REnd # ins)"
| "read_again (RData cs # ins) =
     (if length cs \<le> MAXLINE then (Some (RData cs), ins) else (Some (RData (take MAXLINE cs)), RData (drop MAXLINE cs) # ins))"

section \<open>The version for threads\<close>

record Rline =
  rl_cnt :: int
  rl_bufptr :: nat
  rl_buf :: string

definition calloc_rline :: Rline where
  "calloc_rline = \<lparr>rl_cnt = 0, rl_bufptr = 0, rl_buf = replicate MAXLINE NUL\<rparr>"

text \<open>What \<open>my_read\<close> returns: 1 with a byte, 0, -1, or not yet.\<close>

datatype got = Byte char | NoMore | ReadErr | NotYet

definition next_byte :: "Rline \<Rightarrow> (got \<times> Rline) option" where
  "next_byte tsd = do {
     c \<leftarrow> aget (rl_buf tsd) (int (rl_bufptr tsd));
     Some (Byte c, tsd\<lparr>rl_cnt := rl_cnt tsd - 1, rl_bufptr := rl_bufptr tsd + 1\<rparr>)
   }"

definition my_read :: "rd list \<Rightarrow> Rline \<Rightarrow> (got \<times> Rline \<times> rd list) option" where
  "my_read ins tsd =
     (if rl_cnt tsd \<le> 0 then
        (case read_again ins of
           (None, ins1) \<Rightarrow> Some (NotYet, tsd, ins1)
         | (Some (RData cs), ins1) \<Rightarrow>
             if cs = [] then Some (NoMore, tsd\<lparr>rl_cnt := 0\<rparr>, ins1)
             else do {
               (b, tsd1) \<leftarrow> next_byte (tsd\<lparr>rl_cnt := int (length cs), rl_bufptr := 0, rl_buf := cs @ drop (length cs) (rl_buf tsd)\<rparr>);
               Some (b, tsd1, ins1)
             }
         | (Some _, ins1) \<Rightarrow> Some (ReadErr, tsd\<lparr>rl_cnt := -1\<rparr>, ins1))
      else do {
        (b, tsd1) \<leftarrow> next_byte tsd;
        Some (b, tsd1, ins)
      })"

text \<open>
  What \<open>readline\<close> returns: a count with the bytes stored before the terminator, -1, or not yet.
  The count can exceed the number of bytes by one, when the loop ends without a newline.
\<close>

datatype reply = Line int string | LineErr | LineWaits

abbreviation NL :: char where "NL \<equiv> CHR 0x0A"

fun readline_loop :: "nat \<Rightarrow> int \<Rightarrow> rd list \<Rightarrow> Rline \<Rightarrow> string \<Rightarrow> (reply \<times> Rline \<times> rd list) option" where
  "readline_loop 0 n ins tsd line = Some (Line n line, tsd, ins)"
| "readline_loop (Suc k) n ins tsd line = do {
     (rc, tsd1, ins1) \<leftarrow> my_read ins tsd;
     (case rc of
        Byte c \<Rightarrow> if c = NL then Some (Line n (line @ [c]), tsd1, ins1) else readline_loop k (n + 1) ins1 tsd1 (line @ [c])
      | NoMore \<Rightarrow> Some (Line (n - 1) line, tsd1, ins1)
      | ReadErr \<Rightarrow> Some (LineErr, tsd1, ins1)
      | NotYet \<Rightarrow> Some (LineWaits, tsd1, ins1))
   }"

text \<open>The thread's own buffer is made at the first call.\<close>

definition readline :: "nat \<Rightarrow> Rline option \<times> rd list \<Rightarrow> (reply \<times> Rline option \<times> rd list) option" where
  "readline maxlen = (\<lambda>(tsd, ins). do {
     (r, tsd1, ins1) \<leftarrow> readline_loop (maxlen - 1) 1 ins (case tsd of None \<Rightarrow> calloc_rline | Some t \<Rightarrow> t) [];
     Some (r, Some tsd1, ins1)
   })"

section \<open>The version of the library\<close>

text \<open>The static variables, shared by all descriptors, and what each descriptor delivers.\<close>

record lib_io =
  statics :: Rline
  fd_in :: "int \<Rightarrow> rd list"

definition lib_my_read :: "int \<Rightarrow> lib_io \<Rightarrow> (got \<times> lib_io) option" where
  "lib_my_read fd io =
     (let s = statics io in
      if rl_cnt s \<le> 0 then
        (case read_again (fd_in io fd) of
           (None, ins) \<Rightarrow> Some (NotYet, io\<lparr>fd_in := (fd_in io)(fd := ins)\<rparr>)
         | (Some (RData cs), ins) \<Rightarrow>
             if cs = [] then Some (NoMore, io\<lparr>statics := s\<lparr>rl_cnt := 0\<rparr>, fd_in := (fd_in io)(fd := ins)\<rparr>)
             else do {
               (b, s1) \<leftarrow> next_byte (s\<lparr>rl_cnt := int (length cs), rl_bufptr := 0, rl_buf := cs @ drop (length cs) (rl_buf s)\<rparr>);
               Some (b, io\<lparr>statics := s1, fd_in := (fd_in io)(fd := ins)\<rparr>)
             }
         | (Some _, ins) \<Rightarrow> Some (ReadErr, io\<lparr>statics := s\<lparr>rl_cnt := -1\<rparr>, fd_in := (fd_in io)(fd := ins)\<rparr>))
      else do {
        (b, s1) \<leftarrow> next_byte s;
        Some (b, io\<lparr>statics := s1\<rparr>)
      })"

fun lib_readline_loop :: "nat \<Rightarrow> int \<Rightarrow> int \<Rightarrow> lib_io \<Rightarrow> string \<Rightarrow> (reply \<times> lib_io) option" where
  "lib_readline_loop 0 n fd io line = Some (Line n line, io)"
| "lib_readline_loop (Suc k) n fd io line = do {
     (rc, io1) \<leftarrow> lib_my_read fd io;
     (case rc of
        Byte c \<Rightarrow> if c = NL then Some (Line n (line @ [c]), io1) else lib_readline_loop k (n + 1) fd io1 (line @ [c])
      | NoMore \<Rightarrow> Some (Line (n - 1) line, io1)
      | ReadErr \<Rightarrow> Some (LineErr, io1)
      | NotYet \<Rightarrow> Some (LineWaits, io1))
   }"

definition lib_readline :: "nat \<Rightarrow> int \<Rightarrow> lib_io \<Rightarrow> (reply \<times> lib_io) option" where
  "lib_readline maxlen fd io = lib_readline_loop (maxlen - 1) 1 fd io []"

section \<open>What a descriptor delivers\<close>

datatype stop = Open | Ended | Broken

fun stream :: "rd list \<Rightarrow> string" where
  "stream [] = []"
| "stream (RIntr # ins) = stream ins"
| "stream (RErr # ins) = []"
| "stream (REnd # ins) = []"
| "stream (RData cs # ins) = (if cs = [] then [] else cs @ stream ins)"

fun ending :: "rd list \<Rightarrow> stop" where
  "ending [] = Open"
| "ending (RIntr # ins) = ending ins"
| "ending (RErr # ins) = Broken"
| "ending (REnd # ins) = Ended"
| "ending (RData cs # ins) = (if cs = [] then Ended else ending ins)"

definition steady :: "rd list \<Rightarrow> bool" where
  "steady ins \<longleftrightarrow> RData [] \<notin> set ins"

lemma steady_simps [simp]:
  "steady []" "steady (r # ins) \<longleftrightarrow> r \<noteq> RData [] \<and> steady ins" "steady (ins @ jns) \<longleftrightarrow> steady ins \<and> steady jns"
  by (auto simp: steady_def)

lemma read_again_data:
  assumes "steady ins" and "read_again ins = (Some (RData cs), ins1)"
  shows "steady ins1 \<and> length cs \<le> MAXLINE \<and> stream ins = cs @ stream ins1 \<and> ending ins1 = ending ins \<and>
    (cs = [] \<longrightarrow> stream ins = [] \<and> ending ins = Ended)"
  using assms by (induction ins rule: read_again.induct) (auto split: if_splits)

lemma read_again_other:
  assumes "read_again ins = (r, ins1)" and "\<forall>cs. r \<noteq> Some (RData cs)"
  shows "stream ins = [] \<and> ending ins = (if r = None then Open else Broken) \<and> (r \<noteq> None \<longrightarrow> r = Some RErr) \<and> (steady ins \<longrightarrow> steady ins1)"
  using assms by (induction ins rule: read_again.induct) (auto split: if_splits)

text \<open>The bytes of the buffer that have not been handed out.\<close>

definition rl_rest :: "Rline \<Rightarrow> string" where
  "rl_rest t = take (nat (rl_cnt t)) (drop (rl_bufptr t) (rl_buf t))"

definition rl_ok :: "Rline \<Rightarrow> bool" where
  "rl_ok t \<longleftrightarrow> length (rl_buf t) = MAXLINE \<and> int (rl_bufptr t) + rl_cnt t \<le> int MAXLINE \<and> rl_bufptr t \<le> MAXLINE"

lemma calloc_ok [simp]: "rl_ok calloc_rline" "rl_rest calloc_rline = []"
  by (simp_all add: rl_ok_def rl_rest_def calloc_rline_def)

lemma next_byte_ok:
  assumes "rl_ok t" and "0 < rl_cnt t"
  shows "\<exists>c u. next_byte t = Some (Byte c, u) \<and> rl_ok u \<and> rl_rest t = c # rl_rest u"
proof -
  let ?i = "rl_bufptr t"
  have i: "?i < length (rl_buf t)"
    using assms by (simp add: rl_ok_def)
  have n: "nat (rl_cnt t) = Suc (nat (rl_cnt t - 1))"
    using assms(2) by simp
  have "rl_rest t = rl_buf t ! ?i # take (nat (rl_cnt t - 1)) (drop (Suc ?i) (rl_buf t))"
    unfolding rl_rest_def n by (simp add: Cons_nth_drop_Suc [OF i, symmetric])
  then show ?thesis
    using i assms by (simp add: next_byte_def aget_def rl_ok_def rl_rest_def)
qed

text \<open>A source is a buffer with the descriptor behind it; its text is what it can still deliver.\<close>

definition src_ok :: "Rline \<times> rd list \<Rightarrow> bool" where
  "src_ok b \<longleftrightarrow> rl_ok (fst b) \<and> steady (snd b)"

definition src_text :: "Rline \<times> rd list \<Rightarrow> string" where
  "src_text b = rl_rest (fst b) @ stream (snd b)"

lemma my_read_byte:
  assumes "src_ok (t, ins)" and "src_text (t, ins) = c # cs"
  shows "\<exists>u ins1. my_read ins t = Some (Byte c, u, ins1) \<and> src_ok (u, ins1) \<and> src_text (u, ins1) = cs \<and> ending ins1 = ending ins"
proof (cases "rl_cnt t \<le> 0")
  case True
  then have e: "rl_rest t = []"
    by (simp add: rl_rest_def)
  obtain r ins1 where r: "read_again ins = (r, ins1)"
    by (cases "read_again ins")
  obtain ds where ds: "r = Some (RData ds)"
    using read_again_other [OF r] assms(2) e by (force simp: src_text_def)
  have d: "steady ins1" "length ds \<le> MAXLINE" "stream ins = ds @ stream ins1" "ending ins1 = ending ins" "ds \<noteq> []"
    using read_again_data [of ins ds ins1] assms r ds e by (auto simp: src_ok_def src_text_def)
  let ?u = "t\<lparr>rl_cnt := int (length ds), rl_bufptr := 0, rl_buf := ds @ drop (length ds) (rl_buf t)\<rparr>"
  have u: "rl_ok ?u" "0 < rl_cnt ?u" "rl_rest ?u = ds"
    using assms(1) d(2,5) by (auto simp: src_ok_def rl_ok_def rl_rest_def)
  obtain b v where v: "next_byte ?u = Some (Byte b, v)" "rl_ok v" "rl_rest ?u = b # rl_rest v"
    using next_byte_ok [OF u(1,2)] by blast
  have "my_read ins t = Some (Byte b, v, ins1)"
    using True r ds d(5) v(1) by (simp add: my_read_def)
  then show ?thesis
    using v(2,3) u(3) d assms(2) e by (auto simp: src_ok_def src_text_def)
next
  case False
  obtain b v where v: "next_byte t = Some (Byte b, v)" "rl_ok v" "rl_rest t = b # rl_rest v"
    using next_byte_ok [of t] assms(1) False by (auto simp: src_ok_def)
  then show ?thesis
    using assms False by (auto simp: my_read_def src_ok_def src_text_def)
qed

lemma my_read_empty:
  assumes "src_ok (t, ins)" and "src_text (t, ins) = []"
  shows "\<exists>u ins1. my_read ins t =
    Some ((case ending ins of Open \<Rightarrow> NotYet | Ended \<Rightarrow> NoMore | Broken \<Rightarrow> ReadErr), u, ins1) \<and> src_ok (u, ins1) \<and>
    (ending ins = Ended \<longrightarrow> src_text (u, ins1) = [] \<and> ending ins1 = Ended)"
proof -
  have c: "rl_cnt t \<le> 0"
    using next_byte_ok [of t] assms by (force simp: src_ok_def src_text_def)
  obtain r ins1 where r: "read_again ins = (r, ins1)"
    by (cases "read_again ins")
  show ?thesis
  proof (cases "\<exists>ds. r = Some (RData ds)")
    case True
    then obtain ds where "r = Some (RData ds)"
      by blast
    then show ?thesis
      using read_again_data [of ins ds ins1] r c assms by (auto simp: my_read_def src_ok_def src_text_def rl_ok_def rl_rest_def)
  next
    case False
    then show ?thesis
      using read_again_other [OF r] r c assms by (cases r) (auto simp: my_read_def src_ok_def src_text_def rl_ok_def)
  qed
qed

section \<open>Lines\<close>

text \<open>
  The line at the front of a text: up to and with the first newline when it is among the first
  \<open>k\<close> characters, else the first \<open>k\<close> characters.
\<close>

definition line_len :: "nat \<Rightarrow> string \<Rightarrow> nat" where
  "line_len k cs = (let l = length (takeWhile (\<lambda>c. c \<noteq> NL) cs) in if l < length cs then min (Suc l) k else min l k)"

definition whole :: "nat \<Rightarrow> string \<Rightarrow> bool" where
  "whole k cs \<longleftrightarrow> (let l = length (takeWhile (\<lambda>c. c \<noteq> NL) cs) in l < k \<and> l < length cs)"

definition line_reply :: "nat \<Rightarrow> string \<Rightarrow> stop \<Rightarrow> reply" where
  "line_reply k cs e =
     (if whole k cs then Line (int (line_len k cs)) (take (line_len k cs) cs)
      else if k \<le> length cs then Line (int k + 1) (take k cs)
      else case e of Open \<Rightarrow> LineWaits | Ended \<Rightarrow> Line (int (length cs)) cs | Broken \<Rightarrow> LineErr)"

fun shift :: "int \<Rightarrow> string \<Rightarrow> reply \<Rightarrow> reply" where
  "shift n pre (Line m l) = Line (m + n) (pre @ l)"
| "shift n pre r = r"

lemma line_nil: "line_reply (Suc k) [] e = (case e of Open \<Rightarrow> LineWaits | Ended \<Rightarrow> Line 0 [] | Broken \<Rightarrow> LineErr)" "line_len k [] = 0"
  by (cases e) (simp_all add: line_reply_def whole_def line_len_def)

lemma line_newline: "line_reply (Suc k) (NL # cs) e = Line 1 [NL]" "line_len (Suc k) (NL # cs) = 1"
  by (simp_all add: line_reply_def whole_def line_len_def)

lemma line_other:
  assumes "c \<noteq> NL"
  shows "line_reply (Suc k) (c # cs) e = shift 1 [c] (line_reply k cs e)" "line_len (Suc k) (c # cs) = Suc (line_len k cs)"
proof -
  have w: "whole (Suc k) (c # cs) = whole k cs"
    using assms by (simp add: whole_def Let_def)
  show l: "line_len (Suc k) (c # cs) = Suc (line_len k cs)"
    using assms by (simp add: line_len_def Let_def)
  show "line_reply (Suc k) (c # cs) e = shift 1 [c] (line_reply k cs e)"
    unfolding line_reply_def w l by (cases e) simp_all
qed

lemma readline_loop_spec:
  assumes "src_ok (t, ins)"
  shows "\<exists>u ins1. readline_loop k n ins t pre = Some (shift (n - 1) pre (line_reply k (src_text (t, ins)) (ending ins)), u, ins1) \<and>
    src_ok (u, ins1) \<and> (\<forall>m l. line_reply k (src_text (t, ins)) (ending ins) = Line m l \<longrightarrow>
      src_text (u, ins1) = drop (line_len k (src_text (t, ins))) (src_text (t, ins)) \<and> ending ins1 = ending ins)"
  using assms
proof (induction k arbitrary: n ins t pre)
  case 0
  then show ?case
    by (simp add: line_reply_def whole_def line_len_def Let_def)
next
  case (Suc k)
  show ?case
  proof (cases "src_text (t, ins)")
    case Nil
    then obtain u ins1 where "my_read ins t = Some ((case ending ins of Open \<Rightarrow> NotYet | Ended \<Rightarrow> NoMore | Broken \<Rightarrow> ReadErr), u, ins1)"
      "src_ok (u, ins1)" "ending ins = Ended \<longrightarrow> src_text (u, ins1) = [] \<and> ending ins1 = Ended"
      using my_read_empty [OF Suc.prems] by blast
    then show ?thesis
      using Nil by (cases "ending ins") (simp_all add: line_nil)
  next
    case (Cons c cs)
    obtain u ins1 where u: "my_read ins t = Some (Byte c, u, ins1)" "src_ok (u, ins1)" "src_text (u, ins1) = cs" "ending ins1 = ending ins"
      using my_read_byte [OF Suc.prems Cons] by blast
    show ?thesis
    proof (cases "c = NL")
      case True
      then show ?thesis
        using u Cons by (simp add: line_newline)
    next
      case False
      obtain v ins2 where v: "readline_loop k (n + 1) ins1 u (pre @ [c]) = Some (shift n (pre @ [c]) (line_reply k cs (ending ins)), v, ins2)"
        "src_ok (v, ins2)" "\<forall>m l. line_reply k cs (ending ins) = Line m l \<longrightarrow>
           src_text (v, ins2) = drop (line_len k cs) cs \<and> ending ins2 = ending ins"
        using Suc.IH [OF u(2), of "n + 1" "pre @ [c]"] u(3,4) by auto
      have "shift (n - 1) pre (shift 1 [c] r) = shift n (pre @ [c]) r" for r
        by (cases r) simp_all
      then show ?thesis
        using u(1) v False Cons by (cases "line_reply k cs (ending ins)") (simp_all add: line_other)
    qed
  qed
qed

section \<open>The interface\<close>

text \<open>
  \<open>fetch\<close> is a call that reads a line of at most \<open>room\<close> bytes from a source, \<open>content\<close> the bytes
  the source can still deliver and \<open>stop_of\<close> what comes after them.
\<close>

locale line_reader =
  fixes fetch :: "'b \<Rightarrow> (reply \<times> 'b) option"
    and good :: "'b \<Rightarrow> bool"
    and content :: "'b \<Rightarrow> string"
    and stop_of :: "'b \<Rightarrow> stop"
    and room :: nat
  assumes fetch_reply: "good b \<Longrightarrow> \<exists>b1. fetch b = Some (line_reply room (content b) (stop_of b), b1) \<and> good b1 \<and>
      (\<forall>m l. line_reply room (content b) (stop_of b) = Line m l \<longrightarrow>
        content b1 = drop (line_len room (content b)) (content b) \<and> stop_of b1 = stop_of b)"
begin

lemma fetch_some:
  assumes "good b" and "fetch b = Some (r, b1)"
  shows "r = line_reply room (content b) (stop_of b)" "good b1"
    "r = Line m l \<Longrightarrow> content b1 = drop (line_len room (content b)) (content b)" "r = Line m l \<Longrightarrow> stop_of b1 = stop_of b"
  using fetch_reply [OF assms(1)] assms(2) by (auto dest: sym)

lemma fetch_line:
  assumes "good b" and "content b = l @ NL # r" and "NL \<notin> set l" and "length l < room"
  shows "\<exists>b1. fetch b = Some (Line (int (length l) + 1) (l @ [NL]), b1) \<and> good b1 \<and> content b1 = r \<and> stop_of b1 = stop_of b"
proof -
  have t: "takeWhile (\<lambda>c. c \<noteq> NL) (l @ NL # r) = l"
    using assms(3) by (subst takeWhile_append2) auto
  have w: "whole room (content b)" "line_len room (content b) = Suc (length l)"
    using assms(4) unfolding whole_def line_len_def assms(2) t by simp_all
  then have "line_reply room (content b) (stop_of b) = Line (int (length l) + 1) (l @ [NL])"
    using assms(2) by (simp add: line_reply_def)
  then show ?thesis
    using fetch_reply [OF assms(1)] w(2) assms(2) by auto
qed

lemma fetch_end:
  assumes "good b" and "content b = []" and "stop_of b = Ended" and "0 < room"
  shows "\<exists>b1. fetch b = Some (Line 0 [], b1) \<and> good b1 \<and> content b1 = [] \<and> stop_of b1 = Ended"
  using fetch_reply [OF assms(1)] line_nil(1) [of "room - 1" Ended] assms(2-4) by auto

lemma fetch_reset:
  assumes "good b" and "NL \<notin> set (content b)" and "length (content b) < room" and "stop_of b = Broken"
  shows "\<exists>b1. fetch b = Some (LineErr, b1)"
proof -
  have t: "takeWhile (\<lambda>c. c \<noteq> NL) (content b) = content b"
    using assms(2) by (auto simp: takeWhile_eq_all_conv)
  have "\<not> whole room (content b)"
    unfolding whole_def t by simp
  then show ?thesis
    using fetch_reply [OF assms(1)] assms(3,4) by (auto simp: line_reply_def)
qed

lemma fetch_long:
  assumes "good b" and "room \<le> length (content b)" and "NL \<notin> set (take room (content b))" and "0 < room"
  shows "\<exists>b1. fetch b = Some (Line (int room + 1) (take room (content b)), b1) \<and> good b1 \<and> content b1 = drop room (content b) \<and>
    stop_of b1 = stop_of b"
proof -
  let ?l = "length (takeWhile (\<lambda>c. c \<noteq> NL) (content b))"
  have "takeWhile (\<lambda>c. c \<noteq> NL) (take room (content b) @ drop room (content b)) =
      take room (content b) @ takeWhile (\<lambda>c. c \<noteq> NL) (drop room (content b))"
    using assms(3) by (intro takeWhile_append2) auto
  then have l: "room \<le> ?l"
    using assms(2) by simp
  then have "\<not> whole room (content b)" "line_len room (content b) = room"
    by (auto simp: whole_def line_len_def Let_def)
  then show ?thesis
    using fetch_reply [OF assms(1)] assms(2) by (auto simp: line_reply_def)
qed

end

definition tsd_src :: "Rline option \<times> rd list \<Rightarrow> Rline \<times> rd list" where
  "tsd_src b = (case fst b of None \<Rightarrow> calloc_rline | Some t \<Rightarrow> t, snd b)"

lemma tsd_src_simps [simp]: "tsd_src (None, ins) = (calloc_rline, ins)" "tsd_src (Some t, ins) = (t, ins)"
  by (simp_all add: tsd_src_def)

lemma shift_none [simp]: "shift 0 [] r = r"
  by (cases r) simp_all

interpretation thr: line_reader "readline maxlen" "\<lambda>b. src_ok (tsd_src b)" "\<lambda>b. src_text (tsd_src b)" "\<lambda>b. ending (snd b)" "maxlen - 1"
  for maxlen
proof
  fix b :: "Rline option \<times> rd list"
  assume g: "src_ok (tsd_src b)"
  obtain t ins where b: "tsd_src b = (t, ins)" "snd b = ins"
    by (cases b) (simp add: tsd_src_def)
  have "readline maxlen b = Option.bind (readline_loop (maxlen - 1) 1 ins t []) (\<lambda>(r, u, ins1). Some (r, Some u, ins1))"
    using b by (cases b) (simp add: readline_def tsd_src_def)
  then show "\<exists>b1. readline maxlen b = Some (line_reply (maxlen - 1) (src_text (tsd_src b)) (ending (snd b)), b1) \<and> src_ok (tsd_src b1) \<and>
      (\<forall>m l. line_reply (maxlen - 1) (src_text (tsd_src b)) (ending (snd b)) = Line m l \<longrightarrow>
        src_text (tsd_src b1) = drop (line_len (maxlen - 1) (src_text (tsd_src b))) (src_text (tsd_src b)) \<and> ending (snd b1) = ending (snd b))"
    using readline_loop_spec [of t ins "maxlen - 1" 1 "[]"] g unfolding b by fastforce
qed

definition lib_put :: "int \<Rightarrow> lib_io \<Rightarrow> 'r \<times> Rline \<times> rd list \<Rightarrow> 'r \<times> lib_io" where
  "lib_put fd io = (\<lambda>(r, t, ins). (r, io\<lparr>statics := t, fd_in := (fd_in io)(fd := ins)\<rparr>))"

lemma lib_my_read_eq: "lib_my_read fd io = map_option (lib_put fd io) (my_read (fd_in io fd) (statics io))"
  by (cases "read_again (fd_in io fd)")
    (auto simp: lib_my_read_def my_read_def lib_put_def Let_def next_byte_def bind_map_option map_option_bind o_def
      split: option.splits rd.splits)

lemma lib_loop_eq:
  "lib_readline_loop k n fd io pre = map_option (lib_put fd io) (readline_loop k n (fd_in io fd) (statics io) pre)"
proof (induction k arbitrary: n io pre)
  case 0
  then show ?case
    by (simp add: lib_put_def)
next
  case (Suc k)
  show ?case
  proof (cases "my_read (fd_in io fd) (statics io)")
    case None
    then show ?thesis
      by (simp add: lib_my_read_eq)
  next
    case (Some p)
    obtain g t ins where p: "p = (g, t, ins)"
      by (cases p)
    show ?thesis
      using Some Suc.IH [of "n + 1" "io\<lparr>statics := t, fd_in := (fd_in io)(fd := ins)\<rparr>"]
      unfolding p by (cases g) (simp_all add: lib_my_read_eq lib_put_def)
  qed
qed

interpretation lib: line_reader "lib_readline maxlen fd" "\<lambda>io. src_ok (statics io, fd_in io fd)"
  "\<lambda>io. src_text (statics io, fd_in io fd)" "\<lambda>io. ending (fd_in io fd)" "maxlen - 1"
  for maxlen fd
proof
  fix io :: lib_io
  assume "src_ok (statics io, fd_in io fd)"
  from readline_loop_spec [OF this, of "maxlen - 1" 1 "[]"]
  show "\<exists>io1. lib_readline maxlen fd io = Some (line_reply (maxlen - 1) (src_text (statics io, fd_in io fd)) (ending (fd_in io fd)), io1) \<and>
      src_ok (statics io1, fd_in io1 fd) \<and>
      (\<forall>m l. line_reply (maxlen - 1) (src_text (statics io, fd_in io fd)) (ending (fd_in io fd)) = Line m l \<longrightarrow>
        src_text (statics io1, fd_in io1 fd) = drop (line_len (maxlen - 1) (src_text (statics io, fd_in io fd))) (src_text (statics io, fd_in io fd)) \<and>
        ending (fd_in io1 fd) = ending (fd_in io fd))"
    unfolding lib_readline_def lib_loop_eq by (auto simp: lib_put_def)
qed

section \<open>A line that is already buffered\<close>

lemma my_read_buffered:
  assumes "rl_ok t" and "rl_rest t = c # cs"
  shows "\<exists>u. my_read ins t = Some (Byte c, u, ins) \<and> rl_ok u \<and> rl_rest u = cs"
proof -
  have "0 < rl_cnt t"
    using assms(2) by (cases "0 < rl_cnt t") (simp_all add: rl_rest_def)
  then show ?thesis
    using next_byte_ok [OF assms(1)] assms(2) by (auto simp: my_read_def)
qed

lemma loop_buffered:
  assumes "rl_ok t" and "rl_rest t = l @ NL # r" and "NL \<notin> set l" and "length l < k"
  shows "\<exists>u. readline_loop k n ins t pre = Some (Line (n + int (length l)) (pre @ l @ [NL]), u, ins) \<and> rl_ok u \<and> rl_rest u = r"
  using assms
proof (induction l arbitrary: k n t pre)
  case Nil
  obtain k' where "k = Suc k'"
    using Nil.prems(4) by (cases k) auto
  then show ?case
    using my_read_buffered [OF Nil.prems(1), of NL r ins] Nil.prems(2) by auto
next
  case (Cons c l)
  obtain k' where k: "k = Suc k'"
    using Cons.prems(4) by (cases k) auto
  obtain u where u: "my_read ins t = Some (Byte c, u, ins)" "rl_ok u" "rl_rest u = l @ NL # r"
    using my_read_buffered [OF Cons.prems(1), of c "l @ NL # r" ins] Cons.prems(2) by auto
  then show ?case
    using Cons.IH [OF u(2,3), of k' "n + 1" "pre @ [c]"] Cons.prems(3,4) k by (auto simp: algebra_simps)
qed

text \<open>The first call after the buffer was emptied takes in everything that one \<open>read\<close> returns.\<close>

definition filled :: "string \<Rightarrow> Rline \<Rightarrow> Rline" where
  "filled cs t = t\<lparr>rl_cnt := int (length cs), rl_bufptr := 0, rl_buf := cs @ drop (length cs) (rl_buf t)\<rparr>"

lemma filled_facts:
  assumes "rl_ok t" and "length cs \<le> MAXLINE"
  shows "rl_ok (filled cs t)" "rl_rest (filled cs t) = cs"
  using assms by (auto simp: filled_def rl_ok_def rl_rest_def)

lemma loop_fills:
  assumes "rl_ok t" and "rl_rest t = []" and "read_again ins = (Some (RData cs), ins1)" and "cs \<noteq> []"
  shows "readline_loop (Suc k) n ins t pre = readline_loop (Suc k) n ins1 (filled cs t) pre"
proof -
  have "rl_cnt t \<le> 0"
    using next_byte_ok [OF assms(1)] assms(2) by fastforce
  then have "my_read ins t = my_read ins1 (filled cs t)"
    using assms(3,4) by (simp add: my_read_def filled_def)
  then show ?thesis
    by simp
qed

section \<open>The contract of \<open>readline\<close>\<close>

text \<open>
  C13: \<open>readline\<close> never reads outside its buffer and returns the line at the front of what the
  descriptor delivers, into whatever pieces the network cuts it and however often the calls are
  interrupted; the version of the library gives the same answer on the same source, and both
  leave the rest for the next call.
\<close>

theorem readline_next_line:
  assumes "rl_ok t" and "steady (fd_in io fd)" and "statics io = t"
    and "cs = rl_rest t @ stream (fd_in io fd)" and "r = line_reply (maxlen - 1) cs (ending (fd_in io fd))"
  shows "\<exists>u ins. readline maxlen (Some t, fd_in io fd) = Some (r, Some u, ins) \<and>
    lib_readline maxlen fd io = Some (r, io\<lparr>statics := u, fd_in := (fd_in io)(fd := ins)\<rparr>) \<and> rl_ok u \<and> steady ins \<and>
    (\<forall>n l. r = Line n l \<longrightarrow> rl_rest u @ stream ins = drop (line_len (maxlen - 1) cs) cs \<and> ending ins = ending (fd_in io fd))"
  using readline_loop_spec [of t "fd_in io fd" "maxlen - 1" 1 "[]"] assms
  by (auto simp: src_ok_def src_text_def readline_def lib_readline_def lib_loop_eq lib_put_def)

theorem readline_next_line_witness:
  "\<exists>u ins. readline 10 (Some calloc_rline, [RData ''he'', RIntr, RData (''y'' @ [NL] @ ''x'')]) = Some (Line 4 (''hey'' @ [NL]), Some u, ins) \<and>
     rl_rest u @ stream ins = ''x''"
proof -
  let ?io = "\<lparr>statics = calloc_rline, fd_in = (\<lambda>_. [RData ''he'', RIntr, RData (''y'' @ [NL] @ ''x'')])\<rparr>"
  have r: "Line 4 (''hey'' @ [NL]) = line_reply (10 - 1) (''hey'' @ [NL] @ ''x'') (ending (fd_in ?io 0))"
    by code_simp
  have l: "drop (line_len (10 - 1) (''hey'' @ [NL] @ ''x'')) (''hey'' @ [NL] @ ''x'') = ''x''"
    by code_simp
  have "steady (fd_in ?io 0)" "''hey'' @ [NL] @ ''x'' = rl_rest calloc_rline @ stream (fd_in ?io 0)"
    by simp_all
  from readline_next_line [OF calloc_ok(1) this(1) _ this(2) r] l show ?thesis
    by auto
qed

end
