(* ===== verification/Echo_Server.thy ===== *)
theory Echo_Server
  imports Readline "HOL-Library.Sublist"
begin

text \<open>
  The echo and time server, \<open>src/Assignment1/code/tcpechotimesrv.c\<close>: the main thread accepts
  connections on two ports and starts a thread for each; a thread finds its descriptor through a
  pointer to the variable of the main thread that the next connection overwrites.  A run is a
  sequence of turns of the main loop and of the threads.  Messages for the operator are left out.
\<close>

section \<open>State\<close>

text \<open>
  The result of a \<open>write\<close>: everything, a part, an error, or an error with the signal \<open>SIGPIPE\<close>.
\<close>

datatype wr = WAll | WSome nat | WFail | WPipe

text \<open>\<open>EchoStarts\<close> and \<open>TimeStarts\<close> are threads that have not read their argument yet.\<close>

datatype thread = EchoStarts | TimeStarts | EchoRuns cint "Rline option" | TimeRuns cint string | Finished

text \<open>
  \<open>echo_connfd\<close> and \<open>time_connfd\<close> are the two local variables \<open>connfd\<close> of the main loop;
  \<open>conn_in\<close> is what a descriptor delivers and \<open>conn_out\<close> what was written to it.
\<close>

record srv =
  echo_connfd :: cint
  time_connfd :: cint
  threads :: "thread list"
  conn_in :: "cint \<Rightarrow> rd list"
  conn_out :: "cint \<Rightarrow> string"
  fd_flags :: "cint \<Rightarrow> cint"
  closed :: "cint list"
  exited :: bool

text \<open>
  What the kernel does for a connection request: the descriptor of \<open>accept\<close> (-1 on failure), the
  results of the two \<open>fcntl\<close> calls and of \<open>pthread_create\<close>, and what the peer sends.
\<close>

record accepted =
  ac_fd :: cint
  ac_getfl :: cint
  ac_setfl :: cint
  ac_create :: cint
  ac_in :: "rd list"

abbreviation FNDELAY :: cint where "FNDELAY \<equiv> 0x800"

section \<open>The main thread\<close>

text \<open>
  The source assigns the result of the comparison with -1, so the flags are 0 whatever they were.
\<close>

definition set_flags :: "(cint \<Rightarrow> cint) \<Rightarrow> cint \<Rightarrow> cint \<Rightarrow> cint \<Rightarrow> srv \<Rightarrow> srv" where
  "set_flags change fd getfl setfl s =
     (let fileflags = (if getfl = -1 then 1 else 0) in
      if fileflags \<noteq> 0 then s\<lparr>exited := True\<rparr>
      else if setfl = -1 then s\<lparr>exited := True\<rparr>
      else s\<lparr>fd_flags := (fd_flags s)(fd := change fileflags)\<rparr>)"

definition new_conn :: "thread \<Rightarrow> accepted \<Rightarrow> srv \<Rightarrow> srv" where
  "new_conn th a s =
     (let s1 = set_flags (\<lambda>f. and f (not FNDELAY)) (ac_fd a) (ac_getfl a) (ac_setfl a)
                 (s\<lparr>conn_in := (conn_in s)(ac_fd a := ac_in a), conn_out := (conn_out s)(ac_fd a := [])\<rparr>) in
      if exited s1 then s1
      else if ac_create a \<noteq> 0 then s1\<lparr>exited := True\<rparr>
      else s1\<lparr>threads := threads s1 @ [th]\<rparr>)"

text \<open>The flag is \<open>continue\<close>: a failure on the time port skips the echo port in this turn.\<close>

definition accept_time :: "accepted \<Rightarrow> srv \<Rightarrow> bool \<times> srv" where
  "accept_time a s =
     (let s1 = s\<lparr>time_connfd := ac_fd a\<rparr> in
      if ac_fd a = -1 then (True, s1) else (False, new_conn TimeStarts a s1))"

definition accept_echo :: "accepted \<Rightarrow> srv \<Rightarrow> srv" where
  "accept_echo a s =
     (let s1 = s\<lparr>echo_connfd := ac_fd a\<rparr> in
      if ac_fd a = -1 then s1 else new_conn EchoStarts a s1)"

definition srv_turn :: "accepted option \<Rightarrow> accepted option \<Rightarrow> srv \<Rightarrow> srv" where
  "srv_turn on_time on_echo s =
     (let (continue, s1) = (case on_time of None \<Rightarrow> (False, s) | Some a \<Rightarrow> accept_time a s) in
      if continue \<or> exited s1 then s1
      else case on_echo of None \<Rightarrow> s1 | Some a \<Rightarrow> accept_echo a s1)"

section \<open>The threads\<close>

definition put :: "cint \<Rightarrow> wr \<Rightarrow> string \<Rightarrow> srv \<Rightarrow> srv" where
  "put fd w bs s =
     (case w of
        WAll \<Rightarrow> s\<lparr>conn_out := (conn_out s)(fd := conn_out s fd @ bs)\<rparr>
      | WSome k \<Rightarrow> s\<lparr>conn_out := (conn_out s)(fd := conn_out s fd @ take k bs)\<rparr>
      | _ \<Rightarrow> s)"

definition set_thread :: "nat \<Rightarrow> thread \<Rightarrow> srv \<Rightarrow> srv" where
  "set_thread i th s = s\<lparr>threads := (threads s)[i := th]\<rparr>"

text \<open>A descriptor that was closed fails on the next \<open>read\<close>.\<close>

definition close_conn :: "nat \<Rightarrow> cint \<Rightarrow> srv \<Rightarrow> srv" where
  "close_conn i fd s = set_thread i Finished (s\<lparr>closed := closed s @ [fd], conn_in := (conn_in s)(fd := [RErr])\<rparr>)"

text \<open>The handler of \<open>SIGPIPE\<close> ends the thread and leaves the descriptor open.\<close>

definition sig_pipe :: "nat \<Rightarrow> srv \<Rightarrow> srv" where
  "sig_pipe i s = set_thread i Finished s"

text \<open>
  One turn of the loop of the echo thread.  \<open>Readline\<close> ends the whole process when the read fails;
  \<open>None\<close> is a thread that waits in \<open>Readline\<close>.
\<close>

definition echo_turn :: "nat \<Rightarrow> cint \<Rightarrow> Rline option \<Rightarrow> wr \<Rightarrow> srv \<Rightarrow> srv option" where
  "echo_turn i fd tsd w s = do {
     (r, tsd1, ins) \<leftarrow> readline MAXLINE (tsd, conn_in s fd);
     let s1 = s\<lparr>conn_in := (conn_in s)(fd := ins)\<rparr>;
     (case r of
        LineWaits \<Rightarrow> None
      | LineErr \<Rightarrow> Some (s1\<lparr>exited := True\<rparr>)
      | Line nread line \<Rightarrow>
          Some (if nread > 0 then
                  (if w = WPipe then sig_pipe i s1
                   else set_thread i (EchoRuns fd tsd1) (put fd w (take (nat nread) (line @ [NUL])) s1))
                else close_conn i fd s1))
   }"

text \<open>One turn of the loop of the time thread, \<open>now\<close> the text that \<open>ctime\<close> returns.\<close>

definition time_text :: "string \<Rightarrow> string" where
  "time_text now = take 24 now @ [CHR 0x0D, NL]"

definition time_turn :: "nat \<Rightarrow> cint \<Rightarrow> string \<Rightarrow> string \<Rightarrow> wr \<Rightarrow> srv \<Rightarrow> srv" where
  "time_turn i fd buf now w s =
     (let buf1 = time_text now @ NUL # drop (Suc (length (time_text now))) buf in
      case w of
        WPipe \<Rightarrow> sig_pipe i s
      | WFail \<Rightarrow> close_conn i fd s
      | WSome 0 \<Rightarrow> close_conn i fd s
      | _ \<Rightarrow> set_thread i (TimeRuns fd buf1) (put fd w buf1 s))"

text \<open>A thread reads its argument when it runs for the first time.\<close>

definition thread_turn :: "nat \<Rightarrow> string \<Rightarrow> wr \<Rightarrow> srv \<Rightarrow> srv option" where
  "thread_turn i now w s =
     (if i < length (threads s) then
        (case threads s ! i of
           EchoStarts \<Rightarrow> Some (set_thread i (EchoRuns (echo_connfd s) None) s)
         | TimeStarts \<Rightarrow> Some (set_thread i (TimeRuns (time_connfd s) (replicate MAXLINE NUL)) s)
         | EchoRuns fd tsd \<Rightarrow> echo_turn i fd tsd w s
         | TimeRuns fd buf \<Rightarrow> Some (time_turn i fd buf now w s)
         | Finished \<Rightarrow> None)
      else None)"

section \<open>The server\<close>

datatype srv_event = Turn "accepted option" "accepted option" | Thread nat string wr

definition srv_step :: "srv_event \<Rightarrow> srv \<Rightarrow> srv option" where
  "srv_step e s =
     (if exited s then None
      else case e of
        Turn on_time on_echo \<Rightarrow> Some (srv_turn on_time on_echo s)
      | Thread i now w \<Rightarrow> thread_turn i now w s)"

text \<open>
  \<open>echo_fl\<close> and \<open>time_fl\<close> are the listening descriptors with the results of the \<open>fcntl\<close> calls on
  them; \<open>junk\<close> is what the two local variables hold before the first connection.
\<close>

definition srv_main :: "cint \<times> cint \<times> cint \<Rightarrow> cint \<times> cint \<times> cint \<Rightarrow> cint \<times> cint \<Rightarrow> srv_event list \<Rightarrow> srv option" where
  "srv_main echo_fl time_fl junk events =
     (let s0 = \<lparr>echo_connfd = fst junk, time_connfd = snd junk, threads = [], conn_in = (\<lambda>_. [RErr]), conn_out = (\<lambda>_. []),
               fd_flags = (\<lambda>_. 0), closed = [], exited = False\<rparr>;
          s1 = (case echo_fl of (fd, g, f) \<Rightarrow> set_flags (\<lambda>x. or x FNDELAY) fd g f s0) in
      if exited s1 then Some s1
      else let s2 = (case time_fl of (fd, g, f) \<Rightarrow> set_flags (\<lambda>x. or x FNDELAY) fd g f s1) in
           if exited s2 then Some s2 else orun srv_step events s2)"

section \<open>What an echo is\<close>

text \<open>
  The bytes the echo thread writes for a text: its lines one after the other, with a terminator
  after each piece that fills the buffer without a newline.
\<close>

abbreviation ROOM :: nat where "ROOM \<equiv> 4095"

definition cut :: "string \<Rightarrow> bool" where
  "cut cs \<longleftrightarrow> \<not> whole ROOM cs \<and> ROOM \<le> length cs"

lemma line_len_pos: "cs \<noteq> [] \<Longrightarrow> 0 < line_len ROOM cs"
  by (cases cs) (auto simp: line_len_def Let_def)

lemma line_len_le: "line_len k cs \<le> length cs"
  using length_takeWhile_le [of "\<lambda>c. c \<noteq> NL" cs] by (auto simp: line_len_def Let_def)

function echo_text :: "string \<Rightarrow> string" where
  "echo_text cs =
     (if cs = [] then [] else take (line_len ROOM cs) cs @ (if cut cs then [NUL] else []) @ echo_text (drop (line_len ROOM cs) cs))"
  by pat_completeness auto

termination
  by (relation "measure length") (use line_len_pos in auto)

declare echo_text.simps [simp del]

lemma echo_text_nil [simp]: "echo_text [] = []"
  by (simp add: echo_text.simps)

text \<open>No stretch of \<open>ROOM\<close> characters without a newline.\<close>

definition short_lines :: "string \<Rightarrow> bool" where
  "short_lines cs \<longleftrightarrow> (\<forall>pre l suf. cs = pre @ l @ suf \<longrightarrow> NL \<notin> set l \<longrightarrow> length l < ROOM)"

lemma short_drop: "short_lines cs \<Longrightarrow> short_lines (drop k cs)"
  unfolding short_lines_def by (metis append.assoc append_take_drop_id)

lemma short_not_cut:
  assumes "short_lines cs"
  shows "\<not> cut cs"
proof
  let ?l = "takeWhile (\<lambda>c. c \<noteq> NL) cs"
  assume c: "cut cs"
  have l: "ROOM \<le> length ?l"
  proof (cases "length ?l < length cs")
    case False
    then show ?thesis
      using c by (simp add: cut_def)
  qed (use c in \<open>auto simp: cut_def whole_def Let_def\<close>)
  have "cs = [] @ ?l @ dropWhile (\<lambda>c. c \<noteq> NL) cs"
    by simp
  moreover have "NL \<notin> set ?l"
    by (auto dest: set_takeWhileD)
  ultimately have "length ?l < ROOM"
    using assms unfolding short_lines_def by blast
  with l show False
    by simp
qed

lemma short_if_length: "length cs < ROOM \<Longrightarrow> short_lines cs"
  by (auto simp: short_lines_def)

lemma echo_text_short: "short_lines cs \<Longrightarrow> echo_text cs = cs"
proof (induction cs rule: echo_text.induct)
  case (1 cs)
  show ?case
  proof (cases "cs = []")
    case False
    have "echo_text (drop (line_len ROOM cs) cs) = drop (line_len ROOM cs) cs"
      using "1.IH" [OF False] short_drop [OF "1.prems"] by blast
    then show ?thesis
      using short_not_cut [OF "1.prems"] False by (simp add: echo_text.simps [of cs])
  qed simp
qed

text \<open>The reply of \<open>readline\<close> to a call of the thread, and the bytes the thread writes for it.\<close>

lemma reply_written:
  assumes "line_reply ROOM cs e = Line n l" and "0 < n"
  shows "cs \<noteq> []" "take (nat n) (l @ [NUL]) = take (line_len ROOM cs) cs @ (if cut cs then [NUL] else [])"
proof -
  have len: "length (takeWhile (\<lambda>c. c \<noteq> NL) cs) \<le> length cs"
    by (rule length_takeWhile_le)
  show "cs \<noteq> []"
    using assms line_nil(1) [of 4094 e] by (cases e) auto
  consider (whole) "whole ROOM cs" | (cut) "cut cs" | (rest) "\<not> whole ROOM cs" "length cs < ROOM"
    unfolding cut_def by linarith
  then show "take (nat n) (l @ [NUL]) = take (line_len ROOM cs) cs @ (if cut cs then [NUL] else [])"
  proof cases
    case whole
    then show ?thesis
      using assms line_len_le [of ROOM cs] by (auto simp: line_reply_def cut_def)
  next
    case cut
    then have n: "n = 4096" "l = take ROOM cs" "ROOM \<le> length cs" "line_len ROOM cs = ROOM"
      using assms len by (auto simp: line_reply_def cut_def line_len_def whole_def Let_def)
    then show ?thesis
      using cut by simp
  next
    case rest
    then have "e = Ended" "n = int (length cs)" "l = cs" "line_len ROOM cs = length cs"
      using assms len by (auto simp: line_reply_def line_len_def whole_def Let_def split: stop.splits)
    then show ?thesis
      using rest by (simp add: cut_def)
  qed
qed

lemma reply_zero: "line_reply ROOM cs e = Line n l \<Longrightarrow> \<not> 0 < n \<Longrightarrow> cs = [] \<and> e = Ended"
  using line_len_pos [of cs] line_nil(1) [of 4094 e] by (cases "cs = []") (auto simp: line_reply_def split: if_splits stop.splits)

section \<open>A connection among others\<close>

fun thread_fd :: "thread \<Rightarrow> cint option" where
  "thread_fd (EchoRuns fd tsd) = Some fd"
| "thread_fd (TimeRuns fd buf) = Some fd"
| "thread_fd _ = None"

text \<open>No other thread uses the descriptor or is about to pick it up.\<close>

definition alone :: "nat \<Rightarrow> cint \<Rightarrow> srv \<Rightarrow> bool" where
  "alone i fd s \<longleftrightarrow> (\<forall>j < length (threads s). j \<noteq> i \<longrightarrow> thread_fd (threads s ! j) \<noteq> Some fd \<and>
     (threads s ! j = EchoStarts \<longrightarrow> echo_connfd s \<noteq> fd) \<and> (threads s ! j = TimeStarts \<longrightarrow> time_connfd s \<noteq> fd))"

definition src_of :: "cint \<Rightarrow> Rline option \<Rightarrow> srv \<Rightarrow> Rline \<times> rd list" where
  "src_of fd tsd s = tsd_src (tsd, conn_in s fd)"

text \<open>Thread \<open>i\<close> has written a part of \<open>G\<close>, and what it has not read yet accounts for the rest.\<close>

definition progress :: "nat \<Rightarrow> cint \<Rightarrow> string \<Rightarrow> srv \<Rightarrow> bool" where
  "progress i fd G s \<longleftrightarrow>
     (case threads s ! i of
        EchoRuns g tsd \<Rightarrow> g = fd \<and> src_ok (src_of fd tsd s) \<and> conn_out s fd @ echo_text (src_text (src_of fd tsd s)) = G
      | Finished \<Rightarrow> conn_out s fd = G \<and> fd \<in> set (closed s)
      | _ \<Rightarrow> False)"

definition serving :: "nat \<Rightarrow> cint \<Rightarrow> string \<Rightarrow> srv \<Rightarrow> bool" where
  "serving i fd G s \<longleftrightarrow> exited s \<or> i < length (threads s) \<and> alone i fd s \<and> progress i fd G s"

text \<open>Events that leave the connection alone: no new one with its descriptor, no failing write.\<close>

fun ev_ok :: "nat \<Rightarrow> cint \<Rightarrow> srv_event \<Rightarrow> bool" where
  "ev_ok i fd (Turn t e) \<longleftrightarrow> (\<forall>a. t = Some a \<or> e = Some a \<longrightarrow> ac_fd a \<noteq> fd)"
| "ev_ok i fd (Thread j now w) \<longleftrightarrow> (j = i \<longrightarrow> w = WAll)"

lemma progress_cong:
  assumes "threads t ! i = threads s ! i" and "conn_in t fd = conn_in s fd" and "conn_out t fd = conn_out s fd" and "set (closed s) \<subseteq> set (closed t)"
  shows "progress i fd G s \<Longrightarrow> progress i fd G t"
  using assms by (auto simp: progress_def src_of_def split: thread.splits)

lemma new_conn_effect:
  assumes "\<not> exited (new_conn th a s)"
  shows "threads (new_conn th a s) = threads s @ [th]" "echo_connfd (new_conn th a s) = echo_connfd s"
    "time_connfd (new_conn th a s) = time_connfd s" "closed (new_conn th a s) = closed s"
    "conn_in (new_conn th a s) = (conn_in s)(ac_fd a := ac_in a)" "conn_out (new_conn th a s) = (conn_out s)(ac_fd a := [])"
  using assms by (auto simp: new_conn_def set_flags_def Let_def split: if_splits)

lemma new_conn_serving:
  assumes "i < length (threads s)" and "alone i fd s" and "progress i fd G s" and "ac_fd a \<noteq> fd"
    and "th = EchoStarts \<and> echo_connfd s \<noteq> fd \<or> th = TimeStarts \<and> time_connfd s \<noteq> fd"
  shows "serving i fd G (new_conn th a s)"
proof (cases "exited (new_conn th a s)")
  case False
  note n = new_conn_effect [OF this]
  have "progress i fd G (new_conn th a s)"
    using assms(1,4) by (intro progress_cong [OF _ _ _ _ assms(3)]) (simp_all add: n nth_append)
  moreover have "alone i fd (new_conn th a s)"
    using assms(2,5) unfolding alone_def n by (auto simp: nth_append less_Suc_eq)
  ultimately show ?thesis
    using assms(1) by (simp add: serving_def n)
qed (simp add: serving_def)

lemma slot_serving:
  assumes "i < length (threads s)" and "alone i fd s" and "progress i fd G s" and "g \<noteq> fd"
  shows "alone i fd (s\<lparr>echo_connfd := g\<rparr>)" "progress i fd G (s\<lparr>echo_connfd := g\<rparr>)"
    "alone i fd (s\<lparr>time_connfd := g\<rparr>)" "progress i fd G (s\<lparr>time_connfd := g\<rparr>)"
  using assms(2,4) by (auto simp: alone_def intro: progress_cong [OF _ _ _ _ assms(3)])

lemma accept_echo_serving:
  assumes "serving i fd G s" and "\<not> exited s" and "ac_fd a \<noteq> fd"
  shows "serving i fd G (accept_echo a s)"
proof -
  have s: "i < length (threads s)" "alone i fd s" "progress i fd G s"
    using assms(1,2) by (auto simp: serving_def)
  note slot_serving(1,2) [OF s assms(3)]
  then have "serving i fd G (new_conn EchoStarts a (s\<lparr>echo_connfd := ac_fd a\<rparr>))" "serving i fd G (s\<lparr>echo_connfd := ac_fd a\<rparr>)"
    using s(1) assms(3) by (simp_all add: new_conn_serving serving_def [where s = "s\<lparr>echo_connfd := ac_fd a\<rparr>"])
  then show ?thesis
    by (cases "ac_fd a = -1") (simp_all add: accept_echo_def Let_def)
qed

lemma accept_time_serving:
  assumes "serving i fd G s" and "\<not> exited s" and "ac_fd a \<noteq> fd"
  shows "serving i fd G (snd (accept_time a s))"
proof -
  have s: "i < length (threads s)" "alone i fd s" "progress i fd G s"
    using assms(1,2) by (auto simp: serving_def)
  note slot_serving(3,4) [OF s assms(3)]
  then have "serving i fd G (new_conn TimeStarts a (s\<lparr>time_connfd := ac_fd a\<rparr>))" "serving i fd G (s\<lparr>time_connfd := ac_fd a\<rparr>)"
    using s(1) assms(3) by (simp_all add: new_conn_serving serving_def [where s = "s\<lparr>time_connfd := ac_fd a\<rparr>"])
  then show ?thesis
    by (cases "ac_fd a = -1") (simp_all add: accept_time_def Let_def)
qed

lemma turn_serving:
  assumes "serving i fd G s" and "\<not> exited s" and "ev_ok i fd (Turn t e)"
  shows "serving i fd G (srv_turn t e s)"
proof -
  let ?p = "case t of None \<Rightarrow> (False, s) | Some a \<Rightarrow> accept_time a s"
  have p: "serving i fd G (snd ?p)"
    using assms accept_time_serving by (cases t) auto
  then show ?thesis
    using accept_echo_serving [OF p] assms(3) by (cases ?p; cases e) (auto simp: srv_turn_def)
qed

lemma other_serving:
  assumes "i < length (threads s)" and "alone i fd s" and "progress i fd G s" and "j \<noteq> i" and "threads t = (threads s)[j := th]" and "j < length (threads s)"
    and "thread_fd th \<noteq> Some fd" and "th \<noteq> EchoStarts" and "th \<noteq> TimeStarts" and "echo_connfd t = echo_connfd s" and "time_connfd t = time_connfd s"
    and "conn_in t fd = conn_in s fd" and "conn_out t fd = conn_out s fd" and "set (closed s) \<subseteq> set (closed t)"
  shows "serving i fd G t"
proof -
  have "progress i fd G t"
    using assms(4,5,12-14) by (intro progress_cong [OF _ _ _ _ assms(3)]) simp_all
  moreover have "alone i fd t"
    using assms(2,6-9) unfolding alone_def assms(5,10,11) by (auto simp: nth_list_update)
  ultimately show ?thesis
    using assms(1,5) by (simp add: serving_def)
qed

lemmas turn_defs = echo_turn_def time_turn_def put_def close_conn_def sig_pipe_def set_thread_def

lemma other_turn:
  assumes "serving i fd G s" and "\<not> exited s" and "j \<noteq> i" and "thread_turn j now w s = Some t"
  shows "serving i fd G t"
proof -
  have s: "i < length (threads s)" "alone i fd s" "progress i fd G s"
    using assms(1,2) by (auto simp: serving_def)
  have j: "j < length (threads s)"
    using assms(4) by (simp add: thread_turn_def split: if_splits)
  note o = other_serving [OF s assms(3) _ j]
  have a: "thread_fd (threads s ! j) \<noteq> Some fd" "threads s ! j = EchoStarts \<longrightarrow> echo_connfd s \<noteq> fd" "threads s ! j = TimeStarts \<longrightarrow> time_connfd s \<noteq> fd"
    using s(2) j assms(3) by (auto simp: alone_def)
  show ?thesis
  proof (cases "threads s ! j")
    case (EchoRuns g tsd)
    obtain r b ins where r: "readline MAXLINE (tsd, conn_in s g) = Some (r, b, ins)"
      using assms(4) EchoRuns j by (auto simp: thread_turn_def echo_turn_def bind_eq_Some_conv)
    have g: "g \<noteq> fd"
      using a(1) EchoRuns by simp
    show ?thesis
    proof (cases r)
      case LineErr
      then show ?thesis
        using assms(4) EchoRuns j r by (auto simp: thread_turn_def echo_turn_def serving_def)
    next
      case LineWaits
      then show ?thesis
        using assms(4) EchoRuns j r by (simp add: thread_turn_def echo_turn_def)
    next
      case (Line n l)
      have "threads t = (threads s)[j := Finished] \<or> threads t = (threads s)[j := EchoRuns g b]"
        "echo_connfd t = echo_connfd s" "time_connfd t = time_connfd s" "conn_in t fd = conn_in s fd" "conn_out t fd = conn_out s fd"
        "set (closed s) \<subseteq> set (closed t)"
        using assms(4) EchoRuns j r Line g by (auto simp: thread_turn_def turn_defs Let_def split: if_splits wr.splits)
      then show ?thesis
        using o [of t Finished] o [of t "EchoRuns g b"] g by auto
    qed
  next
    case (TimeRuns g buf)
    have g: "g \<noteq> fd"
      using a(1) TimeRuns by simp
    have t: "t = time_turn j g buf now w s"
      using assms(4) TimeRuns j by (simp add: thread_turn_def)
    have "threads t = (threads s)[j := Finished] \<or> (\<exists>buf1. threads t = (threads s)[j := TimeRuns g buf1])"
      "echo_connfd t = echo_connfd s" "time_connfd t = time_connfd s" "conn_in t fd = conn_in s fd" "conn_out t fd = conn_out s fd"
      "set (closed s) \<subseteq> set (closed t)"
      unfolding t using g by (auto simp: turn_defs Let_def split: wr.splits nat.splits)
    then show ?thesis
      using o [of t Finished] o [of t "TimeRuns g _"] g by auto
  next
    case EchoStarts
    then show ?thesis
      using assms(4) j a(2) by (intro o [of t "EchoRuns (echo_connfd s) None"]) (auto simp: thread_turn_def set_thread_def)
  next
    case TimeStarts
    then show ?thesis
      using assms(4) j a(3) by (intro o [of t "TimeRuns (time_connfd s) (replicate MAXLINE NUL)"]) (auto simp: thread_turn_def set_thread_def)
  next
    case Finished
    then show ?thesis
      using assms(4) j by (simp add: thread_turn_def)
  qed
qed

text \<open>The turn of the thread itself, with what \<open>readline\<close> promises.\<close>

lemma own_turn_line:
  assumes "threads s ! i = EchoRuns fd tsd" and "i < length (threads s)" and "src_ok (src_of fd tsd s)"
    and "line_reply ROOM (src_text (src_of fd tsd s)) (ending (conn_in s fd)) = Line n l" and "0 < n"
  shows "\<exists>t tsd1. thread_turn i now WAll s = Some t \<and> threads t = (threads s)[i := EchoRuns fd tsd1] \<and> src_ok (src_of fd tsd1 t) \<and>
    src_text (src_of fd tsd1 t) = drop (line_len ROOM (src_text (src_of fd tsd s))) (src_text (src_of fd tsd s)) \<and>
    ending (conn_in t fd) = ending (conn_in s fd) \<and> conn_out t fd = conn_out s fd @ take (nat n) (l @ [NUL]) \<and>
    echo_connfd t = echo_connfd s \<and> time_connfd t = time_connfd s \<and> closed t = closed s \<and> exited t = exited s"
proof -
  obtain b where b: "readline MAXLINE (tsd, conn_in s fd) = Some (Line n l, b)" "src_ok (tsd_src b)"
    "src_text (tsd_src b) = drop (line_len ROOM (src_text (src_of fd tsd s))) (src_text (src_of fd tsd s))" "ending (snd b) = ending (conn_in s fd)"
    using thr.fetch_reply [of "(tsd, conn_in s fd)" MAXLINE] assms(3,4) by (auto simp: src_of_def)
  obtain tsd1 ins where "b = (tsd1, ins)"
    by (cases b)
  then show ?thesis
    using b assms(1,2,5)
    by (intro exI [of _ "set_thread i (EchoRuns fd tsd1) (put fd WAll (take (nat n) (l @ [NUL])) (s\<lparr>conn_in := (conn_in s)(fd := ins)\<rparr>))"] exI [of _ tsd1])
      (simp add: thread_turn_def echo_turn_def set_thread_def put_def src_of_def)
qed

lemma own_turn_end:
  assumes "threads s ! i = EchoRuns fd tsd" and "i < length (threads s)" and "src_ok (src_of fd tsd s)"
    and "line_reply ROOM (src_text (src_of fd tsd s)) (ending (conn_in s fd)) = Line n l" and "\<not> 0 < n"
  shows "\<exists>t. thread_turn i now w s = Some t \<and> threads t = (threads s)[i := Finished] \<and> conn_out t fd = conn_out s fd \<and>
    closed t = closed s @ [fd] \<and> echo_connfd t = echo_connfd s \<and> time_connfd t = time_connfd s \<and> exited t = exited s"
proof -
  obtain b where b: "readline MAXLINE (tsd, conn_in s fd) = Some (Line n l, b)"
    using thr.fetch_reply [of "(tsd, conn_in s fd)" MAXLINE] assms(3,4) by (auto simp: src_of_def)
  obtain tsd1 ins where "b = (tsd1, ins)"
    by (cases b)
  then show ?thesis
    using b assms(1,2,5) by (simp add: thread_turn_def echo_turn_def set_thread_def close_conn_def)
qed

lemma own_turn_fails:
  assumes "threads s ! i = EchoRuns fd tsd" and "i < length (threads s)" and "src_ok (src_of fd tsd s)"
    and "line_reply ROOM (src_text (src_of fd tsd s)) (ending (conn_in s fd)) = r"
  shows "r = LineErr \<Longrightarrow> \<exists>t. thread_turn i now w s = Some t \<and> exited t" "r = LineWaits \<Longrightarrow> thread_turn i now w s = None"
proof -
  obtain b where b: "readline MAXLINE (tsd, conn_in s fd) = Some (r, b)"
    using thr.fetch_reply [of "(tsd, conn_in s fd)" MAXLINE] assms(3,4) by (auto simp: src_of_def)
  show "r = LineErr \<Longrightarrow> \<exists>t. thread_turn i now w s = Some t \<and> exited t" "r = LineWaits \<Longrightarrow> thread_turn i now w s = None"
    using b assms(1,2) by (cases b; simp add: thread_turn_def echo_turn_def)+
qed

lemma alone_update: "alone i fd s \<Longrightarrow> threads t = (threads s)[i := th] \<Longrightarrow> echo_connfd t = echo_connfd s \<Longrightarrow> time_connfd t = time_connfd s \<Longrightarrow> alone i fd t"
  by (simp add: alone_def)

lemma line_progress:
  assumes "threads s ! i = EchoRuns fd tsd" and "i < length (threads s)" and "progress i fd G s"
    and "line_reply ROOM (src_text (src_of fd tsd s)) (ending (conn_in s fd)) = Line n l" and "0 < n"
    and "threads t = (threads s)[i := EchoRuns fd tsd1]" and "src_ok (src_of fd tsd1 t)"
    and "src_text (src_of fd tsd1 t) = drop (line_len ROOM (src_text (src_of fd tsd s))) (src_text (src_of fd tsd s))"
    and "conn_out t fd = conn_out s fd @ take (nat n) (l @ [NUL])"
  shows "progress i fd G t"
proof -
  let ?cs = "src_text (src_of fd tsd s)"
  have "conn_out s fd @ echo_text ?cs = G"
    using assms(1,3) by (simp add: progress_def)
  then have "conn_out t fd @ echo_text (drop (line_len ROOM ?cs) ?cs) = G"
    unfolding assms(9) reply_written(2) [OF assms(4,5)] using reply_written(1) [OF assms(4,5)] by (simp add: echo_text.simps [of ?cs])
  then show ?thesis
    using assms(2,6-8) by (simp add: progress_def)
qed

lemma own_turn:
  assumes "serving i fd G s" and "\<not> exited s" and "thread_turn i now WAll s = Some t"
  shows "serving i fd G t"
proof -
  have s: "i < length (threads s)" "alone i fd s" "progress i fd G s"
    using assms(1,2) by (auto simp: serving_def)
  have "threads s ! i \<noteq> Finished"
    using assms(3) s(1) by (auto simp: thread_turn_def)
  then obtain tsd where tsd: "threads s ! i = EchoRuns fd tsd" "src_ok (src_of fd tsd s)"
    using s(3) by (auto simp: progress_def split: thread.splits)
  let ?r = "line_reply ROOM (src_text (src_of fd tsd s)) (ending (conn_in s fd))"
  show ?thesis
  proof (cases ?r)
    case (Line n l)
    show ?thesis
    proof (cases "0 < n")
      case True
      obtain u tsd1 where u: "thread_turn i now WAll s = Some u" "threads u = (threads s)[i := EchoRuns fd tsd1]" "src_ok (src_of fd tsd1 u)"
        "src_text (src_of fd tsd1 u) = drop (line_len ROOM (src_text (src_of fd tsd s))) (src_text (src_of fd tsd s))"
        "conn_out u fd = conn_out s fd @ take (nat n) (l @ [NUL])" "echo_connfd u = echo_connfd s" "time_connfd u = time_connfd s"
        using own_turn_line [OF tsd(1) s(1) tsd(2) Line True] by blast
      then show ?thesis
        using line_progress [OF tsd(1) s(1,3) Line True u(2-5)] alone_update [OF s(2) u(2,6,7)] s(1) assms(3) by (simp add: serving_def)
    next
      case False
      obtain u where u: "thread_turn i now WAll s = Some u" "threads u = (threads s)[i := Finished]" "conn_out u fd = conn_out s fd"
        "closed u = closed s @ [fd]" "echo_connfd u = echo_connfd s" "time_connfd u = time_connfd s"
        using own_turn_end [OF tsd(1) s(1) tsd(2) Line False] by blast
      have "conn_out s fd = G"
        using s(3) tsd(1) reply_zero [OF Line False] by (simp add: progress_def)
      then show ?thesis
        using u alone_update [OF s(2) u(2,5,6)] s(1) assms(3) by (simp add: serving_def progress_def)
    qed
  next
    case LineErr
    then show ?thesis
      using own_turn_fails(1) [OF tsd(1) s(1) tsd(2) refl, of now WAll] assms(3) by (auto simp: serving_def)
  next
    case LineWaits
    then show ?thesis
      using own_turn_fails(2) [OF tsd(1) s(1) tsd(2) refl] assms(3) by simp
  qed
qed

interpretation conn: guarded_machine srv_step "ev_ok i fd" "serving i fd G" for i fd G
proof
  show "serving i fd G t" if a: "serving i fd G s" "ev_ok i fd e" "srv_step e s = Some t" for s e t
  proof (cases e)
    case (Turn on_time on_echo)
    then show ?thesis
      using turn_serving [OF a(1), of on_time on_echo] a(2,3) by (simp add: srv_step_def split: if_splits)
  next
    case (Thread j now w)
    then have "\<not> exited s" "thread_turn j now w s = Some t"
      using a(3) by (simp_all add: srv_step_def split: if_splits)
    then show ?thesis
      using own_turn [OF a(1), of now t] other_turn [OF a(1), of j now w t] a(2) Thread by (cases "j = i") simp_all
  qed
qed

text \<open>
  A descriptor no thread uses, while no thread of the echo port is still on its way to its argument.
\<close>

definition fresh :: "cint \<Rightarrow> srv \<Rightarrow> bool" where
  "fresh fd s \<longleftrightarrow> fd \<noteq> -1 \<and> EchoStarts \<notin> set (threads s) \<and> (TimeStarts \<in> set (threads s) \<longrightarrow> time_connfd s \<noteq> fd) \<and>
     (\<forall>th \<in> set (threads s). thread_fd th \<noteq> Some fd)"

definition granted :: "accepted \<Rightarrow> bool" where
  "granted a \<longleftrightarrow> ac_getfl a \<noteq> -1 \<and> ac_setfl a \<noteq> -1 \<and> ac_create a = 0"

lemma conn_starts:
  assumes "\<not> exited s" and "fresh (ac_fd a) s" and "granted a" and "steady (ac_in a)"
  shows "\<exists>t. orun srv_step [Turn None (Some a), Thread (length (threads s)) now w] s = Some t \<and>
    threads t = threads s @ [EchoRuns (ac_fd a) None] \<and> conn_in t (ac_fd a) = ac_in a \<and> conn_out t (ac_fd a) = [] \<and> \<not> exited t \<and>
    serving (length (threads s)) (ac_fd a) (echo_text (stream (ac_in a))) t"
proof -
  let ?n = "length (threads s)" and ?fd = "ac_fd a"
  let ?s1 = "srv_turn None (Some a) s"
  let ?t = "set_thread ?n (EchoRuns ?fd None) ?s1"
  have f: "?fd \<noteq> -1"
    using assms(2) by (simp add: fresh_def)
  then have s1: "threads ?s1 = threads s @ [EchoStarts]" "echo_connfd ?s1 = ?fd" "time_connfd ?s1 = time_connfd s" "conn_in ?s1 = (conn_in s)(?fd := ac_in a)"
    "conn_out ?s1 = (conn_out s)(?fd := [])" "\<not> exited ?s1"
    using assms(1,3) by (simp_all add: srv_turn_def accept_echo_def new_conn_def set_flags_def granted_def)
  have r: "orun srv_step [Turn None (Some a), Thread ?n now w] s = Some ?t"
    using assms(1) s1 by (simp add: srv_step_def thread_turn_def)
  have t: "threads ?t = threads s @ [EchoRuns ?fd None]" "conn_in ?t ?fd = ac_in a" "conn_out ?t ?fd = []" "\<not> exited ?t" "time_connfd ?t = time_connfd s"
    using s1 by (simp_all add: set_thread_def)
  have "thread_fd (threads s ! j) \<noteq> Some ?fd \<and> threads s ! j \<noteq> EchoStarts \<and> (threads s ! j = TimeStarts \<longrightarrow> time_connfd s \<noteq> ?fd)"
    if "j < ?n" for j
    using assms(2) nth_mem [OF that] unfolding fresh_def by metis
  then have "alone ?n ?fd ?t"
    unfolding alone_def t(1,5) by (auto simp: nth_append less_Suc_eq)
  moreover have "progress ?n ?fd (echo_text (stream (ac_in a))) ?t"
    using assms(4) t by (simp add: progress_def src_of_def src_ok_def src_text_def)
  ultimately show ?thesis
    using r t by (auto simp: serving_def)
qed

lemma ended_reply: "\<exists>n l. line_reply ROOM cs Ended = Line n l"
  by (simp add: line_reply_def)

text \<open>A thread whose peer has closed its side comes to its end in turns of its own.\<close>

lemma thread_completes:
  assumes "\<not> exited s" and "i < length (threads s)" and "threads s ! i = EchoRuns fd tsd" and "src_ok (src_of fd tsd s)"
    and "ending (conn_in s fd) = Ended"
  shows "\<exists>k t. orun srv_step (replicate k (Thread i now WAll)) s = Some t \<and> threads t ! i = Finished \<and> \<not> exited t"
  using assms
proof (induction "length (src_text (src_of fd tsd s))" arbitrary: s tsd rule: less_induct)
  case less
  let ?cs = "src_text (src_of fd tsd s)"
  obtain n l where r: "line_reply ROOM ?cs (ending (conn_in s fd)) = Line n l"
    using ended_reply less.prems(5) by metis
  show ?case
  proof (cases "0 < n")
    case True
    obtain u tsd1 where u: "thread_turn i now WAll s = Some u" "threads u = (threads s)[i := EchoRuns fd tsd1]" "src_ok (src_of fd tsd1 u)"
      "src_text (src_of fd tsd1 u) = drop (line_len ROOM ?cs) ?cs" "ending (conn_in u fd) = Ended" "exited u = exited s"
      using own_turn_line [OF less.prems(3,2,4) r True, of now] unfolding less.prems(5) by blast
    have "length (src_text (src_of fd tsd1 u)) < length ?cs"
      using line_len_pos [of ?cs] reply_written(1) [OF r True] unfolding u(4) by simp
    then obtain k t where "orun srv_step (replicate k (Thread i now WAll)) u = Some t" "threads t ! i = Finished" "\<not> exited t"
      using less.hyps [of tsd1 u] less.prems(1,2) u by auto
    then show ?thesis
      using u(1) less.prems(1) by (intro exI [of _ "Suc k"]) (simp add: srv_step_def)
  next
    case False
    obtain u where "thread_turn i now WAll s = Some u" "threads u = (threads s)[i := Finished]" "exited u = exited s"
      using own_turn_end [OF less.prems(3,2,4) r False, of now WAll] by blast
    then show ?thesis
      using less.prems(1,2) by (intro exI [of _ 1]) (simp add: srv_step_def)
  qed
qed

section \<open>The service\<close>


lemma set_thread_sel [simp]:
  "conn_in (set_thread i th s) = conn_in s" "conn_out (set_thread i th s) = conn_out s" "exited (set_thread i th s) = exited s"
  "echo_connfd (set_thread i th s) = echo_connfd s" "time_connfd (set_thread i th s) = time_connfd s" "closed (set_thread i th s) = closed s"
  "threads (set_thread i th s) = (threads s)[i := th]"
  by (simp_all add: set_thread_def)








text \<open>
  C29: when the client closes its side, its thread ends, with everything written and the
  descriptor closed, after finitely many turns.
\<close>

theorem echo_completes:
  assumes "\<not> exited s" and "fresh (ac_fd a) s" and "granted a" and "steady (ac_in a)" and "short_lines (stream (ac_in a))"
    and "ending (ac_in a) = Ended"
  shows "\<exists>k t. orun srv_step (Turn None (Some a) # Thread (length (threads s)) now w # replicate k (Thread (length (threads s)) now WAll)) s = Some t \<and>
    \<not> exited t \<and> threads t ! length (threads s) = Finished \<and> conn_out t (ac_fd a) = stream (ac_in a) \<and> ac_fd a \<in> set (closed t)"
proof -
  let ?n = "length (threads s)"
  obtain u where u: "orun srv_step [Turn None (Some a), Thread ?n now w] s = Some u" "threads u = threads s @ [EchoRuns (ac_fd a) None]"
    "conn_in u (ac_fd a) = ac_in a" "\<not> exited u" "serving ?n (ac_fd a) (echo_text (stream (ac_in a))) u"
    using conn_starts [OF assms(1-4)] by blast
  then have "src_ok (src_of (ac_fd a) None u)" "ending (conn_in u (ac_fd a)) = Ended"
    using assms(4,6) by (simp_all add: src_of_def src_ok_def)
  then obtain k t where t: "orun srv_step (replicate k (Thread ?n now WAll)) u = Some t" "threads t ! ?n = Finished" "\<not> exited t"
    using thread_completes [of u ?n "ac_fd a" None now] u(2,4) by auto
  have "\<forall>e \<in> set (replicate k (Thread ?n now WAll)). ev_ok ?n (ac_fd a) e"
    by simp
  from conn.run_inv [OF u(5) this t(1)] have "conn_out t (ac_fd a) = stream (ac_in a) \<and> ac_fd a \<in> set (closed t)"
    using t(2,3) echo_text_short [OF assms(5)] by (simp add: serving_def progress_def)
  then show ?thesis
    using t u(1) orun_append [of srv_step "[Turn None (Some a), Thread ?n now w]" "replicate k (Thread ?n now WAll)" s] by auto
qed

text \<open>
  A line that fills the buffer is not echoed as it came: \<open>readline\<close> counts the terminator, so
  the thread writes a zero byte after the first 4095 bytes.
\<close>

theorem long_line_gets_zero:
  assumes "\<not> exited s" and "i < length (threads s)" and "threads s ! i = EchoRuns fd tsd" and "src_ok (src_of fd tsd s)"
    and "src_text (src_of fd tsd s) = l @ r" and "length l = ROOM" and "NL \<notin> set l"
  shows "\<exists>t. srv_step (Thread i now WAll) s = Some t \<and> conn_out t fd = conn_out s fd @ l @ [NUL]"
proof -
  have "takeWhile (\<lambda>c. c \<noteq> NL) (l @ r) = l @ takeWhile (\<lambda>c. c \<noteq> NL) r"
    using assms(7) by (intro takeWhile_append2) auto
  then have "line_reply ROOM (l @ r) (ending (conn_in s fd)) = Line 4096 l"
    using assms(6) by (simp add: line_reply_def whole_def)
  then obtain t where "thread_turn i now WAll s = Some t" "conn_out t fd = conn_out s fd @ take (nat 4096) (l @ [NUL])"
    using own_turn_line [OF assms(3,2,4), of 4096 l now] unfolding assms(5) by auto
  then show ?thesis
    using assms(1,6) by (simp add: srv_step_def)
qed

text \<open>
  One client that resets its connection ends the service for all: the failing read in
  \<open>Readline\<close> exits the process, after which nothing happens any more.
\<close>

theorem reset_ends_server:
  assumes "\<not> exited s" and "i < length (threads s)" and "threads s ! i = EchoRuns fd tsd" and "src_ok (src_of fd tsd s)"
    and "NL \<notin> set (src_text (src_of fd tsd s))" and "length (src_text (src_of fd tsd s)) < ROOM" and "ending (conn_in s fd) = Broken"
  shows "\<exists>t. srv_step (Thread i now w) s = Some t \<and> exited t \<and> (\<forall>e. srv_step e t = None)"
proof -
  have "line_reply ROOM (src_text (src_of fd tsd s)) (ending (conn_in s fd)) = LineErr"
    using thr.fetch_reset [of "(tsd, conn_in s fd)" MAXLINE] thr.fetch_reply [of "(tsd, conn_in s fd)" MAXLINE] assms(4-7)
    by (auto simp: src_of_def)
  then obtain t where "thread_turn i now w s = Some t" "exited t"
    using own_turn_fails(1) [OF assms(3,2,4) refl, of now w] by blast
  then show ?thesis
    using assms(1) by (auto simp: srv_step_def)
qed

text \<open>
  Two connections that are accepted before the thread of the first has read its argument: both
  threads serve the second connection, and none the first.
\<close>

theorem accept_race:
  assumes "\<not> exited s" and "fresh (ac_fd a) s" and "granted a" and "granted b" and "ac_fd b \<noteq> -1" and "ac_fd b \<noteq> ac_fd a"
  shows "\<exists>t. orun srv_step [Turn None (Some a), Turn None (Some b), Thread (length (threads s)) now w, Thread (Suc (length (threads s))) now w] s = Some t \<and>
    threads t = threads s @ [EchoRuns (ac_fd b) None, EchoRuns (ac_fd b) None] \<and>
    (\<forall>th \<in> set (threads t). thread_fd th \<noteq> Some (ac_fd a)) \<and> echo_connfd t \<noteq> ac_fd a"
proof -
  let ?n = "length (threads s)" and ?s1 = "srv_turn None (Some a) s"
  let ?s2 = "srv_turn None (Some b) ?s1"
  have a: "ac_fd a \<noteq> -1"
    using assms(2) by (simp add: fresh_def)
  have s1: "threads ?s1 = threads s @ [EchoStarts]" "\<not> exited ?s1"
    using assms(1,3) a by (simp_all add: srv_turn_def accept_echo_def new_conn_def set_flags_def granted_def)
  have s2: "threads ?s2 = threads s @ [EchoStarts, EchoStarts]" "echo_connfd ?s2 = ac_fd b" "\<not> exited ?s2"
    using s1 assms(4,5) by (simp_all add: srv_turn_def accept_echo_def new_conn_def set_flags_def granted_def)
  let ?t = "set_thread (Suc ?n) (EchoRuns (ac_fd b) None) (set_thread ?n (EchoRuns (ac_fd b) None) ?s2)"
  have "orun srv_step [Turn None (Some a), Turn None (Some b), Thread ?n now w, Thread (Suc ?n) now w] s = Some ?t"
    using assms(1) s1 s2 by (simp add: srv_step_def thread_turn_def set_thread_def nth_append)
  moreover have "threads ?t = threads s @ [EchoRuns (ac_fd b) None, EchoRuns (ac_fd b) None]" "echo_connfd ?t = ac_fd b"
    using s2 by (simp_all add: set_thread_def list_update_append)
  ultimately show ?thesis
    using assms(2,6) by (auto simp: fresh_def)
qed

section \<open>Concrete runs\<close>

definition idle_srv :: srv where
  "idle_srv = \<lparr>echo_connfd = 0, time_connfd = 0, threads = [], conn_in = (\<lambda>_. [RErr]), conn_out = (\<lambda>_. []), fd_flags = (\<lambda>_. 0),
     closed = [], exited = False\<rparr>"

definition caller :: "cint \<Rightarrow> rd list \<Rightarrow> accepted" where
  "caller fd ins = \<lparr>ac_fd = fd, ac_getfl = 2, ac_setfl = 0, ac_create = 0, ac_in = ins\<rparr>"

definition one_line :: "rd list" where
  "one_line = [RData ''he'', RIntr, RData (''y'' @ [NL]), REnd]"

lemma one_line_facts: "steady one_line" "stream one_line = ''hey'' @ [NL]" "ending one_line = Ended"
  by (simp_all add: one_line_def)

lemma idle_facts: "\<not> exited idle_srv" "threads idle_srv = []" "fresh (ac_fd (caller 5 ins)) idle_srv" "granted (caller fd ins)"
    "ac_in (caller fd ins) = ins" "ac_fd (caller fd ins) = fd"
  by (simp_all add: idle_srv_def caller_def fresh_def granted_def)

lemma caller_facts: "steady (ac_in (caller 5 one_line))" "short_lines (stream (ac_in (caller 5 one_line)))" "ending (ac_in (caller 5 one_line)) = Ended"
  using one_line_facts short_if_length [of "stream one_line"] by (simp_all add: idle_facts)

theorem echo_completes_witness:
  "\<exists>k t. orun srv_step (Turn None (Some (caller 5 one_line)) # Thread 0 [] WAll # replicate k (Thread 0 [] WAll)) idle_srv = Some t \<and>
     threads t ! 0 = Finished \<and> conn_out t 5 = ''hey'' @ [NL]"
  using echo_completes [OF idle_facts(1,3,4) caller_facts, of "[]" WAll] unfolding idle_facts one_line_facts list.size by blast


definition alone_srv :: "rd list \<Rightarrow> srv" where
  "alone_srv ins = idle_srv\<lparr>threads := [EchoRuns 5 None], conn_in := (\<lambda>_. ins)\<rparr>"

lemma alone_facts: "\<not> exited (alone_srv ins)" "threads (alone_srv ins) = [EchoRuns 5 None]" "src_of 5 None (alone_srv ins) = (calloc_rline, ins)"
    "conn_in (alone_srv ins) fd = ins" "conn_out (alone_srv ins) fd = []"
  by (simp_all add: alone_srv_def idle_srv_def src_of_def)

theorem long_line_gets_zero_witness:
  "\<exists>t. srv_step (Thread 0 [] WAll) (alone_srv [RData (replicate 4095 CHR ''x'')]) = Some t \<and>
     conn_out t 5 = replicate 4095 CHR ''x'' @ [NUL]"
  using long_line_gets_zero [of "alone_srv [RData (replicate 4095 CHR ''x'')]" 0 5 None "replicate 4095 CHR ''x''" "[]" "[]"]
  by (auto simp: alone_facts src_ok_def src_text_def)

theorem reset_ends_server_witness:
  "\<exists>t. srv_step (Thread 0 [] WAll) (alone_srv [RData ''he'', RErr]) = Some t \<and> exited t"
  using reset_ends_server [of "alone_srv [RData ''he'', RErr]" 0 5 None "[]" WAll] by (auto simp: alone_facts src_ok_def src_text_def)

theorem accept_race_witness:
  "\<exists>t. orun srv_step [Turn None (Some (caller 5 one_line)), Turn None (Some (caller 6 one_line)), Thread 0 [] WAll, Thread 1 [] WAll] idle_srv = Some t \<and>
     threads t = [EchoRuns 6 None, EchoRuns 6 None]"
  using accept_race [OF idle_facts(1,3,4) idle_facts(4) [of 6 one_line], where now = "[]" and w = WAll and ins1 = one_line] by (auto simp: idle_facts)

end
