(* ===== verification/Echo_Clients.thy ===== *)
theory Echo_Clients
  imports Echo_Server "HOL-Library.Sublist"
begin

text \<open>
  The clients of the echo and time service: \<open>src/Assignment1/code/echo_cli.c\<close>,
  \<open>src/Assignment1/code/time_cli.c\<close> and the menu \<open>src/Assignment1/code/tcpechotimecli.c\<close> that
  starts them in a terminal of their own and shows what they report through a pipe.  A turn of a
  loop is an event that says what arrives before \<open>select\<close> returns.
\<close>

datatype status = Running | Returned | Killed

abbreviation STDIN :: int where "STDIN \<equiv> 0"

text \<open>\<open>select\<close> looks at the descriptors, not at the buffer of \<open>readline\<close>.\<close>

definition ready :: "int \<Rightarrow> lib_io \<Rightarrow> bool" where
  "ready fd io \<longleftrightarrow> (\<exists>r \<in> set (fd_in io fd). r \<noteq> RIntr)"

definition arrive :: "int \<Rightarrow> rd list \<Rightarrow> lib_io \<Rightarrow> lib_io" where
  "arrive fd rs io = io\<lparr>fd_in := (fd_in io)(fd := fd_in io fd @ rs)\<rparr>"

section \<open>The echo client\<close>

record echo_cli =
  e_io :: lib_io
  e_feedback :: "string list"
  e_screen :: "string list"
  e_sent :: string
  e_status :: status

definition feedback :: "string \<Rightarrow> echo_cli \<Rightarrow> echo_cli" where
  "feedback msg s = s\<lparr>e_feedback := e_feedback s @ [msg]\<rparr>"

text \<open>\<open>None\<close> is a call of \<open>Readline\<close> that waits for the rest of a line.\<close>

definition from_server :: "int \<Rightarrow> echo_cli \<Rightarrow> echo_cli option" where
  "from_server sockfd s = do {
     (r, io) \<leftarrow> lib_readline MAXLINE sockfd (e_io s);
     let s1 = s\<lparr>e_io := io\<rparr>;
     (case r of
        LineWaits \<Rightarrow> None
      | LineErr \<Rightarrow> Some (s1\<lparr>e_status := Killed\<rparr>)
      | Line nread buf \<Rightarrow>
          Some (if nread = 0 then (feedback (''[Feedback][Echo][Client]: Server Terminated Prematurely'' @ [NL]) s1)\<lparr>e_status := Returned\<rparr>
                else (feedback (''[Feedback][Echo][Client]: Data received from server of size '' @ dec_int nread @ '' bytes!'' @ [NL]) s1)
                  \<lparr>e_screen := e_screen s1 @ [''[Echo][Client] Data received from server : '' @ cstr buf]\<rparr>))
   }"

definition from_user :: "int \<Rightarrow> wr \<Rightarrow> echo_cli \<Rightarrow> echo_cli option" where
  "from_user sockfd w s = do {
     (r, io) \<leftarrow> lib_readline MAXLINE STDIN (e_io s);
     let s1 = s\<lparr>e_io := io\<rparr>;
     (case r of
        LineWaits \<Rightarrow> None
      | LineErr \<Rightarrow> Some (s1\<lparr>e_status := Killed\<rparr>)
      | Line nread buf \<Rightarrow>
          Some (if nread = 0 then (feedback (''[Feedback][Echo][Client]: ^D found. Client is done executing'' @ [NL]) s1)\<lparr>e_status := Returned\<rparr>
                else let s2 = feedback (''[Feedback][Echo][Client]: Data sent to server!'' @ [NL]) s1; bs = take (nat nread) (buf @ [NUL]) in
                  (case w of
                     WAll \<Rightarrow> s2\<lparr>e_sent := e_sent s2 @ bs\<rparr>
                   | WSome k \<Rightarrow> s2\<lparr>e_sent := e_sent s2 @ take k bs\<rparr>
                   | WFail \<Rightarrow> s2
                   | WPipe \<Rightarrow> s2\<lparr>e_status := Killed\<rparr>)))
   }"

text \<open>
  A turn of the loop of \<open>echo_server\<close>: what arrives on the socket and from the terminal, and the
  result of writing to the socket.  \<open>None\<close> also stands for a \<open>select\<close> that waits.
\<close>

type_synonym echo_event = "rd list \<times> rd list \<times> wr"

definition cli_turn :: "int \<Rightarrow> echo_event \<Rightarrow> echo_cli \<Rightarrow> echo_cli option" where
  "cli_turn sockfd = (\<lambda>(net, tty, w) s.
     (if e_status s \<noteq> Running then None
      else let io = arrive STDIN tty (arrive sockfd net (e_io s)); s1 = s\<lparr>e_io := io\<rparr> in
        if \<not> ready sockfd io \<and> \<not> ready STDIN io then None
        else do {
          s2 \<leftarrow> (if ready sockfd io then from_server sockfd s1 else Some s1);
          (if e_status s2 = Running \<and> ready STDIN io then from_user sockfd w s2 else Some s2)
        }))"

definition lib_start :: lib_io where
  "lib_start = \<lparr>statics = calloc_rline, fd_in = (\<lambda>_. [])\<rparr>"

definition echo_cli_start :: echo_cli where
  "echo_cli_start = \<lparr>e_io = lib_start, e_feedback = [], e_screen = [], e_sent = [], e_status = Running\<rparr>"

definition echo_cli_main :: "(string \<Rightarrow> bool) \<Rightarrow> string \<Rightarrow> int \<Rightarrow> cint \<Rightarrow> echo_event list \<Rightarrow> echo_cli option" where
  "echo_cli_main pton arg sockfd confd events =
     (if \<not> pton arg then Some (echo_cli_start\<lparr>e_status := Killed\<rparr>)
      else if sint confd < 0 then Some ((feedback (''Server could not be reached'' @ [NL]) echo_cli_start)\<lparr>e_status := Returned\<rparr>)
      else orun (cli_turn sockfd) events echo_cli_start)"

section \<open>The time client\<close>

record time_cli =
  t_feedback :: "string list"
  t_screen :: string
  t_status :: status

text \<open>
  A result of \<open>Read\<close> in the inner loop, which ends the process on every error.  The assignment in
  the condition keeps the result of the comparison, so after the loop it is 0 and the branch for
  errors is never taken.  \<open>None\<close>: more bytes than were asked for, or a text without terminator.
\<close>

definition time_read :: "rd \<Rightarrow> time_cli \<Rightarrow> time_cli option" where
  "time_read r s =
     (if t_status s \<noteq> Running then None
      else case r of
        RData cs \<Rightarrow>
          if cs = [] then
            Some (s\<lparr>t_feedback := t_feedback s @ [''[Client][Time] Server: Server Terminated Prematurely'' @ [NL]], t_status := Returned\<rparr>)
          else if length cs \<le> MAXLINE then do {
            txt \<leftarrow> c_string (fixed MAXLINE cs);
            Some (s\<lparr>t_screen := t_screen s @ ''[Client][Time]: '' @ txt,
                    t_feedback := t_feedback s @ [''[Client][Time][Feedback] Data received from server'' @ [NL]]\<rparr>)
          }
          else None
      | REnd \<Rightarrow> Some (s\<lparr>t_feedback := t_feedback s @ [''[Client][Time] Server: Server Terminated Prematurely'' @ [NL]], t_status := Returned\<rparr>)
      | _ \<Rightarrow> Some (s\<lparr>t_status := Killed\<rparr>))"

definition time_cli_start :: time_cli where
  "time_cli_start = \<lparr>t_feedback = [], t_screen = [], t_status = Running\<rparr>"

definition time_cli_main :: "(string \<Rightarrow> bool) \<Rightarrow> string \<Rightarrow> cint \<Rightarrow> rd list \<Rightarrow> time_cli option" where
  "time_cli_main pton arg confd reads =
     (if \<not> pton arg then Some (time_cli_start\<lparr>t_status := Killed\<rparr>)
      else if sint confd < 0 then
        Some (time_cli_start\<lparr>t_feedback := [''[Client][Time]Server could not be reached'' @ [NL]], t_status := Returned\<rparr>)
      else orun time_read reads time_cli_start)"

section \<open>The menu\<close>

text \<open>\<open>strncmp\<close> compares at most \<open>n\<close> characters, the terminator included.\<close>

definition strncmp_eq :: "string \<Rightarrow> string \<Rightarrow> nat \<Rightarrow> bool" where
  "strncmp_eq a b n \<longleftrightarrow> take n (a @ [NUL]) = take n (b @ [NUL])"

text \<open>The subtraction is one of \<open>size_t\<close>: for an empty input it is the greatest number.\<close>

definition is_cmd :: "string \<Rightarrow> string \<Rightarrow> bool" where
  "is_cmd input cmd \<longleftrightarrow> strncmp_eq input cmd (if input = [] then 2 ^ 64 - 1 else length input - 1)"

datatype menu_out = Exec string string | ChildExits | Relay string | ClientTerminates | Terminating

record menu =
  m_io :: lib_io
  m_str :: string
  m_out :: "menu_out list"
  m_status :: status

definition say :: "menu_out list \<Rightarrow> menu \<Rightarrow> menu" where
  "say xs s = s\<lparr>m_out := m_out s @ xs\<rparr>"

text \<open>What the child does after \<open>fork\<close>, when \<open>execlp\<close> succeeds.\<close>

definition child :: "string \<Rightarrow> string \<Rightarrow> menu_out" where
  "child input str =
     (if is_cmd input ''echo'' then Exec ''./echo_cli'' str
      else if is_cmd input ''time'' then Exec ''./time_cli'' str
      else ChildExits)"

text \<open>
  What the parent shows of the child's reports: each one in a block of \<open>MAXLINE\<close> bytes, whatever
  its length.  \<open>pipe\<close> is the list of the texts that \<open>read\<close> returns until the end of the pipe.
\<close>

definition relay :: "string list \<Rightarrow> menu_out list" where
  "relay pipe = map (\<lambda>cs. Relay (fixed MAXLINE cs)) pipe @ [ClientTerminates]"

text \<open>
  A turn of the menu: what is typed before \<open>select\<close> returns and what the child reports.  A
  \<open>select\<close> that \<open>SIGCHLD\<close> interrupts ends the process, as its wrapper takes that for an error.
\<close>

datatype menu_event = Typed "rd list" "string list" | SelectIntr

definition menu_turn :: "menu_event \<Rightarrow> menu \<Rightarrow> menu option" where
  "menu_turn e s =
     (if m_status s \<noteq> Running then None
      else case e of
        SelectIntr \<Rightarrow> Some (s\<lparr>m_status := Killed\<rparr>)
      | Typed tty pipe \<Rightarrow>
          let io = arrive STDIN tty (m_io s) in
          if \<not> ready STDIN io then None
          else do {
            (r, io1) \<leftarrow> lib_readline MAXLINE STDIN io;
            let s1 = s\<lparr>m_io := io1\<rparr>;
            (case r of
               LineWaits \<Rightarrow> None
             | LineErr \<Rightarrow> Some (s1\<lparr>m_status := Killed\<rparr>)
             | Line n buf \<Rightarrow>
                 let input = cstr buf in
                 Some (if is_cmd input ''quit'' then (say [Terminating] s1)\<lparr>m_status := Returned\<rparr>
                       else say (child input (m_str s1) # relay pipe) s1))
          })"

text \<open>
  The address the clients are started with: the argument when it is an address that has a name,
  else the last address of the host with that name.  \<open>Inl ()\<close> is a message and \<open>exit\<close>; \<open>None\<close> is
  a host without addresses, for which the string is never written.
\<close>

definition menu_address :: "(ipv4 \<Rightarrow> string option) \<Rightarrow> (string \<Rightarrow> ipv4 list option) \<Rightarrow> string \<Rightarrow> (unit + string) option" where
  "menu_address byaddr byname arg =
     (case inet_pton arg of
        Some a \<Rightarrow> Some (case byaddr a of None \<Rightarrow> Inl () | Some _ \<Rightarrow> Inr arg)
      | None \<Rightarrow>
          (case byname arg of
             None \<Rightarrow> Some (Inl ())
           | Some as \<Rightarrow> if as = [] then None else Some (Inr (inet_ntop (last as)))))"

definition menu_main ::
  "(ipv4 \<Rightarrow> string option) \<Rightarrow> (string \<Rightarrow> ipv4 list option) \<Rightarrow> string list \<Rightarrow> menu_event list \<Rightarrow> menu option" where
  "menu_main byaddr byname args events =
     (case args of
        [] \<Rightarrow> Some \<lparr>m_io = lib_start, m_str = [], m_out = [], m_status = Returned\<rparr>
      | arg # _ \<Rightarrow> do {
          r \<leftarrow> menu_address byaddr byname arg;
          (case r of
             Inl _ \<Rightarrow> Some \<lparr>m_io = lib_start, m_str = [], m_out = [], m_status = Returned\<rparr>
           | Inr str \<Rightarrow> orun menu_turn events \<lparr>m_io = lib_start, m_str = str, m_out = [], m_status = Running\<rparr>)
        })"

section \<open>The echo client between two lines\<close>

lemma lib_frame: "lib_readline m fd io = Some (r, io1) \<Longrightarrow> g \<noteq> fd \<Longrightarrow> fd_in io1 g = fd_in io g"
  by (auto simp: lib_readline_def lib_loop_eq lib_put_def)

definition silent :: "rd list \<Rightarrow> bool" where
  "silent ins \<longleftrightarrow> set ins \<subseteq> {RIntr}"

lemma silent_append: "silent ins \<Longrightarrow> steady ins \<and> stream (ins @ rs) = stream rs \<and> ending (ins @ rs) = ending rs"
  by (induction ins) (auto simp: silent_def)

lemma silent_if: "steady ins \<Longrightarrow> stream ins = [] \<Longrightarrow> ending ins = Open \<Longrightarrow> silent ins"
  by (induction ins rule: stream.induct) (auto simp: silent_def split: if_splits)

lemma read_silent: "silent ins \<Longrightarrow> length cs \<le> MAXLINE \<Longrightarrow> read_again (ins @ [RData cs]) = (Some (RData cs), [])"
  by (induction ins) (auto simp: silent_def)

lemma ready_silent: "silent (fd_in io fd) \<Longrightarrow> \<not> ready fd io"
  by (auto simp: ready_def silent_def)

text \<open>Nothing is buffered and nothing waits on the two descriptors.\<close>

definition quiet :: "int \<Rightarrow> echo_cli \<Rightarrow> bool" where
  "quiet sockfd s \<longleftrightarrow> e_status s = Running \<and> rl_ok (statics (e_io s)) \<and> rl_rest (statics (e_io s)) = [] \<and>
     silent (fd_in (e_io s) STDIN) \<and> silent (fd_in (e_io s) sockfd)"

abbreviation line :: "string \<Rightarrow> rd list" where
  "line l \<equiv> [RData (l @ [NL])]"

text \<open>One line arrives on a descriptor of which nothing is buffered.\<close>

lemma read_line:
  assumes "rl_ok (statics io)" and "rl_rest (statics io) = []" and "silent (fd_in io fd)" and "NL \<notin> set l" and "length l < ROOM"
  shows "\<exists>io1. lib_readline MAXLINE fd (arrive fd (line l) io) = Some (Line (int (length l) + 1) (l @ [NL]), io1) \<and>
    rl_ok (statics io1) \<and> rl_rest (statics io1) = [] \<and> silent (fd_in io1 fd) \<and> (\<forall>g. g \<noteq> fd \<longrightarrow> fd_in io1 g = fd_in io g)"
proof -
  let ?io = "arrive fd (line l) io"
  have io: "statics ?io = statics io" "fd_in ?io fd = fd_in io fd @ line l" "\<And>g. g \<noteq> fd \<Longrightarrow> fd_in ?io g = fd_in io g"
    by (simp_all add: arrive_def)
  have s: "src_ok (statics ?io, fd_in ?io fd)" "src_text (statics ?io, fd_in ?io fd) = l @ NL # []" "ending (fd_in ?io fd) = Open"
    using assms(1,2) silent_append [OF assms(3), of "line l"] by (simp_all add: io src_ok_def src_text_def)
  have "length l < MAXLINE - 1"
    using assms(5) by simp
  from lib.fetch_line [OF s(1,2) assms(4) this]
  obtain io1 where io1: "lib_readline MAXLINE fd ?io = Some (Line (int (length l) + 1) (l @ [NL]), io1)" "src_ok (statics io1, fd_in io1 fd)"
    "src_text (statics io1, fd_in io1 fd) = []" "ending (fd_in io1 fd) = Open"
    using s(3) by auto
  moreover have "silent (fd_in io1 fd)"
    using io1(2-4) by (auto simp: src_ok_def src_text_def intro: silent_if)
  ultimately show ?thesis
    using lib_frame [OF io1(1)] io(3) by (auto simp: src_ok_def src_text_def)
qed

lemma arrive_nil [simp]: "arrive fd [] io = io"
  by (simp add: arrive_def)

lemma ready_line: "ready fd (arrive fd (line l) io)"
  by (simp add: ready_def arrive_def)

lemma ready_other: "g \<noteq> fd \<Longrightarrow> ready g (arrive fd rs io) = ready g io"
  by (simp add: ready_def arrive_def)

lemma typed_line:
  assumes "quiet sockfd s" and "sockfd \<noteq> STDIN" and "NL \<notin> set l" and "length l < ROOM"
  shows "\<exists>t. cli_turn sockfd ([], line l, WAll) s = Some t \<and> quiet sockfd t \<and> e_sent t = e_sent s @ l @ [NL] \<and> e_screen t = e_screen s"
proof -
  let ?io = "arrive STDIN (line l) (e_io s)"
  have q: "e_status s = Running" "rl_ok (statics (e_io s))" "rl_rest (statics (e_io s)) = []" "silent (fd_in (e_io s) STDIN)" "silent (fd_in (e_io s) sockfd)"
    using assms(1) by (simp_all add: quiet_def)
  obtain io1 where io1: "lib_readline MAXLINE STDIN ?io = Some (Line (int (length l) + 1) (l @ [NL]), io1)"
    "rl_ok (statics io1)" "rl_rest (statics io1) = []" "silent (fd_in io1 STDIN)" "fd_in io1 sockfd = fd_in (e_io s) sockfd"
    using read_line [OF q(2-4) assms(3,4)] assms(2) by auto
  have n: "nat (int (length l) + 1) = Suc (length l)"
    by simp
  have "\<not> ready sockfd ?io" "ready STDIN ?io"
    using ready_silent [OF q(5)] ready_line ready_other assms(2) by auto
  then show ?thesis
    using q io1 by (simp add: cli_turn_def from_user_def feedback_def quiet_def n)
qed

lemma answered_line:
  assumes "quiet sockfd s" and "sockfd \<noteq> STDIN" and "NL \<notin> set l" and "length l < ROOM"
  shows "\<exists>t. cli_turn sockfd (line l, [], WAll) s = Some t \<and> quiet sockfd t \<and> e_sent t = e_sent s \<and>
    e_screen t = e_screen s @ [''[Echo][Client] Data received from server : '' @ cstr (l @ [NL])]"
proof -
  let ?io = "arrive sockfd (line l) (e_io s)"
  have q: "e_status s = Running" "rl_ok (statics (e_io s))" "rl_rest (statics (e_io s)) = []" "silent (fd_in (e_io s) STDIN)" "silent (fd_in (e_io s) sockfd)"
    using assms(1) by (simp_all add: quiet_def)
  obtain io1 where io1: "lib_readline MAXLINE sockfd ?io = Some (Line (int (length l) + 1) (l @ [NL]), io1)"
    "rl_ok (statics io1)" "rl_rest (statics io1) = []" "silent (fd_in io1 sockfd)" "fd_in io1 STDIN = fd_in (e_io s) STDIN"
    using read_line [OF q(2,3,5) assms(3,4)] assms(2) by auto
  have n: "int (length l) + 1 \<noteq> 0"
    by simp
  have "ready sockfd ?io" "\<not> ready STDIN ?io"
    using ready_silent [OF q(4)] ready_line ready_other assms(2) by auto
  then show ?thesis
    using q io1 n by (simp add: cli_turn_def from_server_def feedback_def quiet_def)
qed

text \<open>A line of the terminal followed by the server's answer to it.\<close>

definition exchange :: "string \<Rightarrow> echo_event list" where
  "exchange l = [([], line l, WAll), ([RData (echo_text (l @ [NL]))], [], WAll)]"

lemma line_short:
  assumes "NL \<notin> set l" and "length l < ROOM"
  shows "short_lines (l @ [NL])"
  unfolding short_lines_def
proof (intro allI impI)
  fix pre m suf
  assume a: "l @ [NL] = pre @ m @ suf" and "NL \<notin> set m"
  then have "m \<noteq> l @ [NL]"
    by auto
  then have "pre @ suf \<noteq> []"
    using a by auto
  moreover have "length l + 1 = length (pre @ suf) + length m"
    using arg_cong [OF a, of length] by simp
  ultimately show "length m < ROOM"
    using assms(2) by (cases "pre @ suf") auto
qed

text \<open>
  C34: a user who waits for each answer sees what they typed: every line goes to the server once, and
  the echo of the server is shown after it, in the order of the lines.
\<close>

theorem echo_session:
  assumes "sockfd \<noteq> STDIN" and "\<forall>l \<in> set ls. NL \<notin> set l \<and> NUL \<notin> set l \<and> length l < ROOM" and "pton arg"
  shows "\<exists>t. echo_cli_main pton arg sockfd 0 (concat (map exchange ls)) = Some t \<and>
    e_sent t = concat (map (\<lambda>l. l @ [NL]) ls) \<and>
    e_screen t = map (\<lambda>l. ''[Echo][Client] Data received from server : '' @ l @ [NL]) ls \<and> e_status t = Running"
proof -
  have run: "\<exists>t. orun (cli_turn sockfd) (concat (map exchange ls)) s = Some t \<and> quiet sockfd t \<and> e_sent t = e_sent s @ concat (map (\<lambda>l. l @ [NL]) ls) \<and>
      e_screen t = e_screen s @ map (\<lambda>l. ''[Echo][Client] Data received from server : '' @ l @ [NL]) ls"
    if "quiet sockfd s" "\<forall>l \<in> set ls. NL \<notin> set l \<and> NUL \<notin> set l \<and> length l < ROOM" for s ls
    using that
  proof (induction ls arbitrary: s)
    case Nil
    then show ?case
      by simp
  next
    case (Cons l ls)
    have l: "NL \<notin> set l" "NUL \<notin> set l" "length l < ROOM"
      using Cons.prems(2) by auto
    obtain u where u: "cli_turn sockfd ([], line l, WAll) s = Some u" "quiet sockfd u" "e_sent u = e_sent s @ l @ [NL]" "e_screen u = e_screen s"
      using typed_line [OF Cons.prems(1) assms(1) l(1,3)] by blast
    obtain v where v: "cli_turn sockfd (line l, [], WAll) u = Some v" "quiet sockfd v" "e_sent v = e_sent u"
      "e_screen v = e_screen u @ [''[Echo][Client] Data received from server : '' @ cstr (l @ [NL])]"
      using answered_line [OF u(2) assms(1) l(1,3)] by blast
    have c: "cstr (l @ [NL]) = l @ [NL]"
      using l(2) by (intro cstr_id) auto
    show ?case
      using Cons.IH [OF v(2)] Cons.prems(2) u v c echo_text_short [OF line_short [OF l(1,3)]] by (auto simp: exchange_def)
  qed
  have "quiet sockfd echo_cli_start"
    by (simp add: quiet_def echo_cli_start_def lib_start_def silent_def)
  from run [OF this assms(2)] assms(3) show ?thesis
    by (auto simp: echo_cli_main_def echo_cli_start_def quiet_def)
qed

theorem echo_session_witness:
  "\<exists>t. echo_cli_main (\<lambda>_. True) ''127.0.0.1'' 3 0 (concat (map exchange [''one'', ''two''])) = Some t \<and>
     e_sent t = ''one'' @ [NL] @ ''two'' @ [NL]"
  using echo_session [of 3 "[''one'', ''two'']" "\<lambda>_. True" "''127.0.0.1''"] by auto

text \<open>
  A user who types ahead is shown their own text as the server's: when two lines come from the
  terminal at once, the buffer that all descriptors share keeps the second, and the next
  readable event of the socket hands it out as data of the server; the second line is not sent.
\<close>

theorem typed_ahead_taken_for_answer:
  assumes "quiet sockfd s" and "sockfd \<noteq> STDIN" and "NL \<notin> set l" and "NL \<notin> set m" and "NUL \<notin> set m"
    and "length l + length m + 2 \<le> ROOM" and "\<not> silent rs"
  shows "\<exists>t. orun (cli_turn sockfd) [([], [RData (l @ NL # m @ [NL])], WAll), (rs, [], WAll)] s = Some t \<and>
    e_sent t = e_sent s @ l @ [NL] \<and> e_screen t = e_screen s @ [''[Echo][Client] Data received from server : '' @ m @ [NL]]"
proof -
  let ?cs = "l @ NL # m @ [NL]"
  let ?io = "arrive STDIN [RData ?cs] (e_io s)"
  have q: "e_status s = Running" "rl_ok (statics (e_io s))" "rl_rest (statics (e_io s)) = []" "silent (fd_in (e_io s) STDIN)" "silent (fd_in (e_io s) sockfd)"
    using assms(1) by (simp_all add: quiet_def)
  have again: "read_again (fd_in (e_io s) STDIN @ [RData ?cs]) = (Some (RData ?cs), [])"
    using assms(6) by (intro read_silent [OF q(4)]) simp
  have f: "rl_ok (filled ?cs (statics (e_io s)))" "rl_rest (filled ?cs (statics (e_io s))) = l @ NL # (m @ [NL])"
    using filled_facts [OF q(2), of ?cs] assms(6) by simp_all
  have l: "length l < 4095" "length m < 4095"
    using assms(6) by simp_all
  obtain u where u: "readline_loop 4095 1 [] (filled ?cs (statics (e_io s))) [] = Some (Line (1 + int (length l)) ([] @ l @ [NL]), u, [])"
    "rl_ok u" "rl_rest u = m @ NL # []"
    using loop_buffered [OF f assms(3) l(1), of 1 "[]" "[]"] by auto
  let ?io1 = "(e_io s)\<lparr>statics := u, fd_in := (fd_in (e_io s))(STDIN := [])\<rparr>"
  have r1: "lib_readline MAXLINE STDIN ?io = Some (Line (1 + int (length l)) (l @ [NL]), ?io1)"
    using loop_fills [OF q(2,3) again, of 4094 1 "[]"] u(1) by (simp add: lib_readline_def lib_loop_eq arrive_def lib_put_def)
  let ?s1 = "(feedback (''[Feedback][Echo][Client]: Data sent to server!'' @ [NL]) (s\<lparr>e_io := ?io1\<rparr>))\<lparr>e_sent := e_sent s @ l @ [NL]\<rparr>"
  have n: "nat (1 + int (length l)) = Suc (length l)"
    by simp
  have "ready STDIN ?io" "\<not> ready sockfd ?io"
    using ready_silent [OF q(5)] ready_other [OF assms(2)] by (auto simp: ready_def arrive_def)
  then have t1: "cli_turn sockfd ([], [RData ?cs], WAll) s = Some ?s1"
    using q(1) r1 by (simp add: cli_turn_def from_user_def feedback_def n)
  let ?io2 = "arrive sockfd rs ?io1"
  have rd: "ready sockfd ?io2" "\<not> ready STDIN ?io2"
    using assms(2,7) by (auto simp: ready_def arrive_def silent_def)
  obtain v where "readline_loop 4095 1 (fd_in ?io2 sockfd) u [] = Some (Line (1 + int (length m)) ([] @ m @ [NL]), v, fd_in ?io2 sockfd)"
    using loop_buffered [OF u(2,3) assms(4) l(2), of 1 "fd_in ?io2 sockfd" "[]"] by auto
  then have r2: "lib_readline MAXLINE sockfd ?io2 = Some (Line (1 + int (length m)) (m @ [NL]), ?io2\<lparr>statics := v, fd_in := fd_in ?io2\<rparr>)"
    by (simp add: lib_readline_def lib_loop_eq lib_put_def arrive_def)
  have "cstr (m @ [NL]) = m @ [NL]"
    using assms(5) by (intro cstr_id) auto
  then have "\<exists>t. cli_turn sockfd (rs, [], WAll) ?s1 = Some t \<and> e_sent t = e_sent s @ l @ [NL] \<and>
      e_screen t = e_screen s @ [''[Echo][Client] Data received from server : '' @ m @ [NL]]"
    using q(1) rd r2 by (simp add: cli_turn_def from_server_def feedback_def)
  then show ?thesis
    using t1 by auto
qed

theorem typed_ahead_taken_for_answer_witness:
  "\<exists>t. orun (cli_turn 3) [([], [RData (''a'' @ NL # ''b'' @ [NL])], WAll), (line ''a'', [], WAll)] echo_cli_start = Some t \<and>
     e_sent t = ''a'' @ [NL] \<and> e_screen t = [''[Echo][Client] Data received from server : b'' @ [NL]]"
proof -
  have "quiet 3 echo_cli_start"
    by (simp add: quiet_def echo_cli_start_def lib_start_def silent_def)
  moreover have "\<not> silent (line ''a'')"
    by (simp add: silent_def)
  moreover have "e_sent echo_cli_start = []" "e_screen echo_cli_start = []"
    by (simp_all add: echo_cli_start_def)
  ultimately show ?thesis
    using typed_ahead_taken_for_answer [of 3 echo_cli_start "''a''" "''b''" "line ''a''"] by simp
qed

section \<open>The time service\<close>

definition message :: "string \<Rightarrow> string" where
  "message now = fixed MAXLINE (time_text now)"

text \<open>What \<open>ctime\<close> returns: at least 24 characters before the terminator.\<close>

definition date :: "string \<Rightarrow> bool" where
  "date now \<longleftrightarrow> 24 \<le> length now \<and> NUL \<notin> set now"

lemma time_text_facts:
  assumes "date now"
  shows "length (time_text now) = 26" "NUL \<notin> set (time_text now)"
  using assms by (auto simp: date_def time_text_def dest: in_set_takeD)

lemma message_split: "date now \<Longrightarrow> message now = time_text now @ NUL # replicate 4069 NUL"
  using time_text_facts(1) [of now] replicate_Suc [of 4069 NUL] by (simp add: message_def fixed_def)

lemma message_length: "date now \<Longrightarrow> length (message now) = MAXLINE"
  using message_split [of now] time_text_facts(1) [of now] by simp

definition zeros_from :: "nat \<Rightarrow> string \<Rightarrow> bool" where
  "zeros_from k buf \<longleftrightarrow> length buf = MAXLINE \<and> drop k buf = replicate (MAXLINE - k) NUL"

lemma message_written:
  assumes "date now" and "zeros_from 27 buf"
  shows "time_text now @ NUL # drop (Suc (length (time_text now))) buf = message now" "zeros_from 27 (message now)"
  using assms time_text_facts(1) [OF assms(1)] message_split [OF assms(1)] by (simp_all add: zeros_from_def)

lemma time_thread_runs:
  assumes "\<not> exited s" and "i < length (threads s)" and "threads s ! i = TimeRuns fd buf" and "zeros_from 27 buf" and "\<forall>now \<in> set nows. date now"
  shows "\<exists>t. orun srv_step (map (\<lambda>now. Thread i now WAll) nows) s = Some t \<and> conn_out t fd = conn_out s fd @ concat (map message nows)"
  using assms
proof (induction nows arbitrary: s buf)
  case Nil
  then show ?case
    by simp
next
  case (Cons now nows)
  have d: "date now"
    using Cons.prems(5) by simp
  let ?s1 = "set_thread i (TimeRuns fd (message now)) (put fd WAll (message now) s)"
  have "srv_step (Thread i now WAll) s = Some ?s1"
    using Cons.prems(1-3) message_written(1) [OF d Cons.prems(4)] by (simp add: srv_step_def thread_turn_def time_turn_def Let_def)
  moreover have "\<exists>t. orun srv_step (map (\<lambda>now. Thread i now WAll) nows) ?s1 = Some t \<and> conn_out t fd = conn_out ?s1 fd @ concat (map message nows)"
    using Cons.prems by (intro Cons.IH [OF _ _ _ message_written(2) [OF d Cons.prems(4)]]) (simp_all add: set_thread_def put_def)
  ultimately show ?case
    by (auto simp: set_thread_def put_def)
qed

text \<open>What the pieces of a message show.\<close>

lemma cstr_pieces:
  assumes "concat cs = w @ replicate k NUL" and "NUL \<notin> set w"
  shows "concat (map cstr cs) = w"
  using assms
proof (induction cs arbitrary: w k)
  case Nil
  then show ?case
    by simp
next
  case (Cons c cs)
  show ?case
  proof (cases "length c \<le> length w")
    case True
    then obtain v where w: "w = c @ v"
      using Cons.prems(1) by (metis append_eq_append_conv_if append_take_drop_id concat.simps(2))
    then show ?thesis
      using Cons.IH [of v k] Cons.prems by (simp add: cstr_id)
  next
    case False
    then obtain v where v: "c = w @ v" "v @ concat cs = replicate k NUL"
      using Cons.prems(1) by (auto simp: append_eq_append_conv2)
    have "set (v @ concat cs) \<subseteq> {NUL}"
      unfolding v(2) by auto
    then have z: "set v \<subseteq> {NUL}" "set (concat cs) \<subseteq> {NUL}"
      by auto
    have e: "cstr x = []" if "set x \<subseteq> {NUL}" for x
      using that by (cases x) (simp_all add: cstr_def)
    have "cstr x = []" if "x \<in> set cs" for x
      using z(2) that by (intro e) auto
    then have "concat (map cstr cs) = []"
      by simp
    moreover obtain v' where "v = NUL # v'"
      using False v(1) z(1) by (cases v) auto
    ultimately show ?thesis
      using v(1) Cons.prems(2) by (simp add: cstr_append_nul)
  qed
qed

abbreviation shown_time :: "string \<Rightarrow> string" where
  "shown_time c \<equiv> ''[Client][Time]: '' @ cstr c"

text \<open>Pieces that \<open>read\<close> can return and that the program can print.\<close>

definition printable :: "string \<Rightarrow> bool" where
  "printable c \<longleftrightarrow> c \<noteq> [] \<and> length c \<le> MAXLINE \<and> (length c = MAXLINE \<longrightarrow> NUL \<in> set c)"

lemma cstr_fixed_cstr: "cstr (fixed n c) = cstr c"
proof (cases "NUL \<in> set c")
  case True
  then show ?thesis
    by (simp add: fixed_def cstr_def)
next
  case False
  then show ?thesis
    by (simp add: cstr_fixed cstr_id)
qed

lemma time_reads:
  assumes "\<forall>c \<in> set cs. printable c" and "t_status s = Running"
  shows "\<exists>t. orun time_read (map RData cs) s = Some t \<and> t_screen t = t_screen s @ concat (map shown_time cs) \<and> t_status t = Running"
  using assms
proof (induction cs arbitrary: s)
  case Nil
  then show ?case
    by simp
next
  case (Cons c cs)
  have "NUL \<in> set (fixed MAXLINE c)"
    using Cons.prems(1) nul_fixed [of c MAXLINE] by (cases "length c = MAXLINE") (auto simp: printable_def fixed_def)
  then have "time_read (RData c) s = Some (s\<lparr>t_screen := t_screen s @ shown_time c, t_feedback := t_feedback s @ [''[Client][Time][Feedback] Data received from server'' @ [NL]]\<rparr>)"
    using Cons.prems by (simp add: time_read_def printable_def c_string_def cstr_fixed_cstr)
  then show ?case
    using Cons.IH [of "s\<lparr>t_screen := t_screen s @ shown_time c, t_feedback := t_feedback s @ [''[Client][Time][Feedback] Data received from server'' @ [NL]]\<rparr>"]
      Cons.prems by auto
qed

lemma pieces_printable:
  assumes "concat cs = message now" and "[] \<notin> set cs" and "date now" and "c \<in> set cs"
  shows "printable c"
proof -
  obtain a b where cs: "cs = a @ c # b"
    using assms(4) by (meson split_list)
  then have l: "length c + length (concat (a @ b)) = MAXLINE"
    using arg_cong [OF assms(1), of length] message_length [OF assms(3)] by simp
  moreover have "NUL \<in> set c" if "length c = MAXLINE"
  proof -
    have "concat a = []" "concat b = []"
      using l that by simp_all
    then have "c = message now"
      using assms(1) cs by (simp del: concat_eq_Nil_conv)
    then show ?thesis
      using message_split [OF assms(3)] by simp
  qed
  ultimately show ?thesis
    using assms(2,4) by (auto simp: printable_def)
qed

text \<open>
  C11: the time service from end to end.  The server writes one message for each time; when no
  \<open>read\<close> of the client returns bytes of two messages, the client shows every time, complete and in
  order, into however many pieces the network cuts the messages.
\<close>

theorem time_service:
  assumes "\<not> exited s" and "i < length (threads s)" and "threads s ! i = TimeRuns fd (replicate MAXLINE NUL)" and "conn_out s fd = []"
    and "\<forall>now \<in> set nows. date now" and "list_all2 (\<lambda>now cs. concat cs = message now \<and> [] \<notin> set cs) nows css" and "pton arg"
  shows "\<exists>t u. orun srv_step (map (\<lambda>now. Thread i now WAll) nows) s = Some t \<and> conn_out t fd = concat (concat css) \<and>
    time_cli_main pton arg 0 (map RData (concat css)) = Some u \<and> t_screen u = concat (map shown_time (concat css)) \<and>
    concat (map cstr (concat css)) = concat (map time_text nows)"
proof -
  have z: "zeros_from 27 (replicate MAXLINE NUL)"
    by (simp add: zeros_from_def)
  obtain t where t: "orun srv_step (map (\<lambda>now. Thread i now WAll) nows) s = Some t" "conn_out t fd = concat (map message nows)"
    using time_thread_runs [OF assms(1-3) z assms(5)] assms(4) by auto
  have one: "concat (map cstr cs) = time_text now" "c \<in> set cs \<Longrightarrow> printable c" if "date now" "concat cs = message now" "[] \<notin> set cs" for now cs c
    using cstr_pieces [of cs "time_text now" 4070] time_text_facts(2) [OF that(1)] message_split [OF that(1)] that(2) replicate_Suc [of 4069 NUL]
      pieces_printable [OF that(2,3,1)] by simp_all
  have all: "concat (concat css) = concat (map message nows) \<and> concat (map cstr (concat css)) = concat (map time_text nows) \<and>
      (\<forall>c \<in> set (concat css). printable c)"
    using assms(6,5)
  proof (induction rule: list_all2_induct)
    case (Cons now nows cs css)
    then show ?case
      using one [of now cs] by auto
  qed simp
  then obtain u where "orun time_read (map RData (concat css)) time_cli_start = Some u" "t_screen u = t_screen time_cli_start @ concat (map shown_time (concat css))"
    using time_reads [of "concat css" time_cli_start] by (auto simp: time_cli_start_def)
  then show ?thesis
    using t all assms(7) by (auto simp: time_cli_main_def time_cli_start_def)
qed

text \<open>
  A time is lost when a \<open>read\<close> returns the end of one message and the beginning of the next:
  the padding of the first one ends the text that is printed.
\<close>

theorem time_lost:
  assumes "date now" and "date later" and "26 \<le> j" and "j \<le> k" and "k < MAXLINE" and "t_status s = Running"
  shows "\<exists>t. orun time_read [RData (take k (message now)), RData (drop k (message now) @ take j (message later)), RData (drop j (message later))] s = Some t \<and>
    t_screen t = t_screen s @ ''[Client][Time]: '' @ time_text now @ ''[Client][Time]: [Client][Time]: ''"
proof -
  have m: "message n = time_text n @ replicate 4070 NUL" "length (time_text n) = 26" "NUL \<notin> set (time_text n)" if "date n" for n
    using message_split [OF that] time_text_facts [OF that] replicate_Suc [of 4069 NUL] by simp_all
  have d: "drop x (message n) = replicate (4096 - x) NUL" if "date n" "26 \<le> x" for n x
    using m(1,2) [OF that(1)] that(2) by simp
  have t: "take x (message n) = time_text n @ replicate (x - 26) NUL" if "date n" "26 \<le> x" "x < 4096" for n x
    using m(1,2) [OF that(1)] that(2,3) by simp
  have z: "cstr (replicate x NUL @ y) = []" if "0 < x" for x y
    using that by (cases x) (simp_all add: cstr_def)
  have tz: "cstr (w @ replicate x NUL) = w" if "NUL \<notin> set w" for w x
    using that cstr_fixed [of w "length w + x"] by (simp add: fixed_def)
  let ?a = "take k (message now)" and ?b = "drop k (message now) @ take j (message later)" and ?c = "drop j (message later)"
  have k: "26 \<le> k" "k < 4096" "j < 4096"
    using assms(3-5) by simp_all
  have ab: "cstr ?a = time_text now" "cstr ?b = []" "cstr ?c = []"
    using tz [OF m(3) [OF assms(1)]] z [of "4096 - k" "take j (message later)"] z [of "4096 - j" "[]"] k assms(3)
    by (simp_all add: t [OF assms(1)] d [OF assms(1)] d [OF assms(2)])
  have "length ?a = k" "length ?b = 4096 - k + j" "length ?c = 4096 - j"
    using message_length [OF assms(1)] message_length [OF assms(2)] k by simp_all
  moreover have "NUL \<in> set ?b"
    using d [OF assms(1) k(1)] k(2) by simp
  ultimately have "\<forall>c \<in> set [?a, ?b, ?c]. printable c"
    using k assms(3,4) by (auto simp: printable_def)
  from time_reads [OF this assms(6)] ab show ?thesis
    by auto
qed

definition noon :: string where "noon = ''Mon Sep 22 12:00:00 2014''"
definition later5 :: string where "later5 = ''Mon Sep 22 12:00:05 2014''"

lemma dates: "date noon" "date later5" "time_text noon = noon @ [CHR 0x0D, NL]"
  by (simp_all add: date_def noon_def later5_def time_text_def)

definition time_srv :: srv where
  "time_srv = idle_srv\<lparr>threads := [TimeRuns 5 (replicate MAXLINE NUL)]\<rparr>"

theorem time_service_witness:
  "\<exists>t u. orun srv_step (map (\<lambda>now. Thread 0 now WAll) [noon, later5]) time_srv = Some t \<and>
     time_cli_main (\<lambda>_. True) [] 0 (map RData (concat [[take 9 (message noon), drop 9 (message noon)], [message later5]])) = Some u \<and>
     conn_out t 5 = concat [message noon, message later5]"
proof -
  have s: "\<not> exited time_srv" "0 < length (threads time_srv)" "threads time_srv ! 0 = TimeRuns 5 (replicate MAXLINE NUL)" "conn_out time_srv 5 = []"
    by (simp_all add: time_srv_def idle_srv_def)
  have "length (message noon) = 4096" "length (message later5) = 4096"
    using message_length dates(1,2) by simp_all
  then have "[] \<notin> set [take 9 (message noon), drop 9 (message noon)]" "[] \<notin> set [message later5]"
    by auto
  then have l: "list_all2 (\<lambda>now cs. concat cs = message now \<and> [] \<notin> set cs) [noon, later5] [[take 9 (message noon), drop 9 (message noon)], [message later5]]"
    by simp
  have d: "\<forall>now \<in> set [noon, later5]. date now"
    using dates by simp
  have c: "concat (concat [[take 9 (message noon), drop 9 (message noon)], [message later5]]) = concat [message noon, message later5]"
    by simp
  show ?thesis
    using time_service [OF s d l, of "\<lambda>_. True" "[]"] unfolding c by blast
qed

theorem time_lost_witness:
  "\<exists>t. orun time_read [RData (take 2000 (message noon)), RData (drop 2000 (message noon) @ take 1000 (message later5)), RData (drop 1000 (message later5))]
      time_cli_start = Some t \<and> t_screen t = ''[Client][Time]: '' @ noon @ [CHR 0x0D, NL] @ ''[Client][Time]: [Client][Time]: ''"
  using time_lost [OF dates(1,2), of 1000 2000 time_cli_start] dates(3) by (simp add: time_cli_start_def)

section \<open>The commands of the menu\<close>

lemma cmd_line:
  assumes "NUL \<notin> set l"
  shows "is_cmd (l @ [NL]) cmd \<longleftrightarrow> prefix l cmd"
proof -
  have "is_cmd (l @ [NL]) cmd \<longleftrightarrow> l = take (length l) (cmd @ [NUL])"
    by (simp add: is_cmd_def strncmp_eq_def)
  also have "\<dots> \<longleftrightarrow> prefix l (cmd @ [NUL])"
    by (metis append_eq_conv_conj prefix_def)
  also have "\<dots> \<longleftrightarrow> prefix l cmd"
    using assms by (auto simp: prefix_snoc)
  finally show ?thesis .
qed

lemma cmd_nothing: "\<not> is_cmd [] ''quit''" "\<not> is_cmd [] ''echo''" "\<not> is_cmd [] ''time''"
  by (simp_all add: is_cmd_def strncmp_eq_def)

text \<open>Nothing is buffered and nothing waits on the terminal.\<close>

definition menu_quiet :: "menu \<Rightarrow> bool" where
  "menu_quiet s \<longleftrightarrow> m_status s = Running \<and> rl_ok (statics (m_io s)) \<and> rl_rest (statics (m_io s)) = [] \<and> silent (fd_in (m_io s) STDIN)"

text \<open>
  What the menu does with a line: every beginning of "quit", the empty line included, ends it;
  else every beginning of "echo" or "time" starts that client with the address, and any other
  line starts nothing; in each of these cases the reports of the child are shown and the menu
  goes on.
\<close>

theorem menu_commands:
  assumes "menu_quiet s" and "NL \<notin> set l" and "NUL \<notin> set l" and "length l < ROOM"
  shows "\<exists>t. menu_turn (Typed (line l) pipe) s = Some t \<and>
    (if prefix l ''quit'' then m_out t = m_out s @ [Terminating] \<and> m_status t = Returned
     else menu_quiet t \<and> m_out t = m_out s @
       (if prefix l ''echo'' then Exec ''./echo_cli'' (m_str s) else if prefix l ''time'' then Exec ''./time_cli'' (m_str s) else ChildExits) # relay pipe)"
proof -
  have q: "m_status s = Running" "rl_ok (statics (m_io s))" "rl_rest (statics (m_io s)) = []" "silent (fd_in (m_io s) STDIN)"
    using assms(1) by (simp_all add: menu_quiet_def)
  obtain io1 where io1: "lib_readline MAXLINE STDIN (arrive STDIN (line l) (m_io s)) = Some (Line (int (length l) + 1) (l @ [NL]), io1)"
    "rl_ok (statics io1)" "rl_rest (statics io1) = []" "silent (fd_in io1 STDIN)"
    using read_line [OF q(2-4) assms(2,4)] by auto
  have "cstr (l @ [NL]) = l @ [NL]"
    using assms(3) by (intro cstr_id) auto
  then show ?thesis
    using q io1 ready_line [of STDIN l "m_io s"]
    by (cases "prefix l ''quit''"; cases "prefix l ''echo''"; cases "prefix l ''time''") (simp_all add: menu_turn_def say_def child_def cmd_line [OF assms(3)] menu_quiet_def)
qed

theorem menu_commands_witness:
  "\<exists>t. menu_turn (Typed (line ''ec'') [''ok'']) \<lparr>m_io = lib_start, m_str = ''127.0.0.1'', m_out = [], m_status = Running\<rparr> = Some t \<and>
     m_out t = Exec ''./echo_cli'' ''127.0.0.1'' # relay [''ok'']"
proof -
  have "menu_quiet \<lparr>m_io = lib_start, m_str = ''127.0.0.1'', m_out = [], m_status = Running\<rparr>"
    by (simp add: menu_quiet_def lib_start_def silent_def)
  from menu_commands [OF this, of "''ec''" "[''ok'']"] show ?thesis
    by auto
qed

text \<open>The terminal is at its end.\<close>

definition at_eof :: "menu \<Rightarrow> bool" where
  "at_eof s \<longleftrightarrow> m_status s = Running \<and> src_ok (statics (m_io s), fd_in (m_io s) STDIN) \<and>
     src_text (statics (m_io s), fd_in (m_io s) STDIN) = [] \<and> ending (fd_in (m_io s) STDIN) = Ended"

lemma ended_ready: "ending (fd_in io fd) = Ended \<Longrightarrow> ready fd io"
proof -
  have "ending ins = Ended \<Longrightarrow> \<exists>r \<in> set ins. r \<noteq> RIntr" for ins
    by (induction ins rule: ending.induct) auto
  then show "ending (fd_in io fd) = Ended \<Longrightarrow> ready fd io"
    by (simp add: ready_def)
qed

text \<open>
  A menu whose terminal has reached its end never stops: each turn starts a process that exits
  at once, and goes on.
\<close>

theorem menu_eof_spins:
  assumes "at_eof s"
  shows "\<exists>t. orun menu_turn (replicate k (Typed [] [])) s = Some t \<and> at_eof t \<and>
    m_out t = m_out s @ concat (replicate k [ChildExits, ClientTerminates])"
  using assms
proof (induction k arbitrary: s)
  case 0
  then show ?case
    by simp
next
  case (Suc k)
  have q: "m_status s = Running" "src_ok (statics (m_io s), fd_in (m_io s) STDIN)" "src_text (statics (m_io s), fd_in (m_io s) STDIN) = []"
    "ending (fd_in (m_io s) STDIN) = Ended"
    using Suc.prems by (simp_all add: at_eof_def)
  obtain io1 where io1: "lib_readline MAXLINE STDIN (m_io s) = Some (Line 0 [], io1)" "src_ok (statics io1, fd_in io1 STDIN)"
    "src_text (statics io1, fd_in io1 STDIN) = []" "ending (fd_in io1 STDIN) = Ended"
    using lib.fetch_end [OF q(2-4), of MAXLINE] by auto
  let ?t = "say [ChildExits, ClientTerminates] (s\<lparr>m_io := io1\<rparr>)"
  have "menu_turn (Typed [] []) s = Some ?t"
    using q(1) io1(1) ended_ready [OF q(4)] cmd_nothing by (simp add: menu_turn_def child_def relay_def cstr_def)
  moreover have "at_eof ?t" "m_out ?t = m_out s @ [ChildExits, ClientTerminates]"
    using q(1) io1(2-4) by (simp_all add: at_eof_def say_def)
  ultimately show ?case
    using Suc.IH [of ?t] by auto
qed

theorem menu_eof_spins_witness:
  "\<exists>t. orun menu_turn (replicate 3 (Typed [] [])) \<lparr>m_io = lib_start\<lparr>fd_in := (\<lambda>_. [REnd])\<rparr>, m_str = [], m_out = [], m_status = Running\<rparr> = Some t \<and>
     m_out t = [ChildExits, ClientTerminates, ChildExits, ClientTerminates, ChildExits, ClientTerminates]"
proof -
  have "at_eof \<lparr>m_io = lib_start\<lparr>fd_in := (\<lambda>_. [REnd])\<rparr>, m_str = [], m_out = [], m_status = Running\<rparr>"
    by (simp add: at_eof_def lib_start_def src_ok_def src_text_def)
  from menu_eof_spins [OF this, of 3] show ?thesis
    by (simp add: numeral_3_eq_3) blast
qed

end
