(* ===== verification/Kd_Apps.thy ===== *)
theory Kd_Apps
  imports Machine Udp
begin

text \<open>
  The exercise with domain sockets under \<open>src/hw3/kdhw3\<close>: a client that asks for the time and a
  server that answers, through \<open>msg_send\<close> and \<open>msg_recv\<close> of \<open>src/hw3/kdhw3/common.h\<close>.  The data
  base of hosts is a parameter, and so are the contents of the arrays that the programs do not
  initialise.
\<close>

section \<open>Messages\<close>

abbreviation PORT_LEN :: nat where "PORT_LEN \<equiv> 100"
abbreviation INET_LEN :: nat where "INET_LEN \<equiv> 16"
abbreviation KD_MSG_LEN :: nat where "KD_MSG_LEN \<equiv> 50"
abbreviation VM_LEN :: nat where "VM_LEN \<equiv> 10"
abbreviation KD_SIZE :: nat where "KD_SIZE \<equiv> 292"

definition KD_SOCK_PATH :: string where "KD_SOCK_PATH = ''/tmp/deva_kau''"

text \<open>The packed structure, each array with all its characters.\<close>

record kd_peer =
  k_dest_port :: string
  k_dest_ip :: string
  k_src_port :: string
  k_src_ip :: string
  k_msg :: string
  k_source_vm :: string

definition kd_bytes :: "kd_peer \<Rightarrow> string" where
  "kd_bytes p = k_dest_port p @ k_dest_ip p @ k_src_port p @ k_src_ip p @ k_msg p @ k_source_vm p"

text \<open>\<open>strncpy\<close> to a cleared array: at most \<open>n\<close> characters, and no terminator when it is full.\<close>

definition strncpy :: "nat \<Rightarrow> string \<Rightarrow> string" where
  "strncpy n s = fixed n (take n s)"

text \<open>
  The address of a host, from what \<open>gethostbyname\<close> knows; a host that is not known is a null
  pointer that the code follows.
\<close>

definition kd_set_ip :: "(string \<Rightarrow> ipv4 list option) \<Rightarrow> string \<Rightarrow> string option" where
  "kd_set_ip byname host = do {
     as \<leftarrow> byname host;
     (if as = [] then None else Some (inet_ntop (hd as)))
   }"

definition kd_set_this_ip :: "(string \<Rightarrow> ipv4 list option) \<Rightarrow> string \<Rightarrow> string option" where
  "kd_set_this_ip byname hostname = kd_set_ip byname hostname"

text \<open>
  The datagram that \<open>msg_send\<close> sends: \<open>strlen\<close> of the structure counts the characters before its
  first zero byte.
\<close>

definition kd_msg_send :: "string \<Rightarrow> string \<Rightarrow> string \<Rightarrow> string \<Rightarrow> string \<Rightarrow> string \<Rightarrow> string option" where
  "kd_msg_send hostname dest_ip dest_port src_ip src_port msg = do {
     dport \<leftarrow> strcpy PORT_LEN dest_port;
     sport \<leftarrow> strcpy PORT_LEN src_port;
     sip \<leftarrow> strcpy INET_LEN src_ip;
     m \<leftarrow> strcpy KD_MSG_LEN msg;
     Some (cstr (kd_bytes \<lparr>k_dest_port = dport, k_dest_ip = strncpy INET_LEN dest_ip, k_src_port = sport, k_src_ip = sip,
       k_msg = m, k_source_vm = strncpy VM_LEN hostname\<rparr>))
   }"

text \<open>
  \<open>msg_recv\<close>, \<open>junk\<close> the contents of its array \<open>recvline\<close>, \<open>cap\<close> the size of the array the message
  is copied to; the result is the message, the source address and the source port.  A
  \<open>strcpy\<close> from an array of the structure reads on to the next zero byte.
\<close>

definition kd_field :: "nat \<Rightarrow> nat \<Rightarrow> string \<Rightarrow> string option" where
  "kd_field off cap bytes = do {
     s \<leftarrow> c_string (drop off bytes);
     (if length s < cap then Some s else None)
   }"

definition kd_msg_recv :: "nat \<Rightarrow> string \<Rightarrow> string \<Rightarrow> (string \<times> string \<times> string) option" where
  "kd_msg_recv cap junk datagram =
     (if length datagram \<le> KD_SIZE then
        (let recvline = datagram @ drop (length datagram) junk in
         do {
           msg \<leftarrow> kd_field 232 cap recvline;
           src_ip \<leftarrow> kd_field 216 100 recvline;
           src_port \<leftarrow> kd_field 116 100 recvline;
           Some (msg, src_ip, src_port)
         })
      else None)"

section \<open>The programs\<close>

record kd_client =
  kc_sent :: "string list"
  kc_shown :: "string list"

text \<open>A turn of the client: the word the user types, the answer, and the array it is read into.\<close>

definition kd_client_turn ::
  "(string \<Rightarrow> ipv4 list option) \<Rightarrow> string \<Rightarrow> string \<Rightarrow> string \<Rightarrow> string \<times> string \<times> string \<Rightarrow> kd_client \<Rightarrow> kd_client option" where
  "kd_client_turn byname hostname this_ip tempfile = (\<lambda>(word, reply, junk) s.
     if length word < 20 then do {
       ip \<leftarrow> kd_set_ip byname (take 4 word);
       d \<leftarrow> kd_msg_send hostname ip KD_SOCK_PATH this_ip tempfile ''GetMeTime'';
       (msg, src_ip, src_port) \<leftarrow> kd_msg_recv 30 junk reply;
       Some (s\<lparr>kc_sent := kc_sent s @ [d], kc_shown := kc_shown s @ [msg]\<rparr>)
     }
     else None)"

text \<open>Before its loop the client sends a first message to the address "ip".\<close>

definition kd_client_main ::
  "(string \<Rightarrow> ipv4 list option) \<Rightarrow> string \<Rightarrow> string \<Rightarrow> (string \<times> string \<times> string) list \<Rightarrow> kd_client option" where
  "kd_client_main byname hostname tempfile turns = do {
     this_ip \<leftarrow> kd_set_this_ip byname hostname;
     d \<leftarrow> kd_msg_send hostname ''ip'' KD_SOCK_PATH this_ip tempfile ''GetMeTime'';
     orun (kd_client_turn byname hostname this_ip tempfile) turns \<lparr>kc_sent = [d], kc_shown = []\<rparr>
   }"

text \<open>
  A turn of the server: the request, the array it is read into, and the text of \<open>ctime\<close>.  The
  answers go to an address that the program never sets.
\<close>

definition kd_respond :: "string \<Rightarrow> string \<Rightarrow> string \<times> string \<times> string \<Rightarrow> string list \<Rightarrow> string list option" where
  "kd_respond hostname this_ip = (\<lambda>(request, junk, now) sent. do {
     (msg, client_ip, client_port) \<leftarrow> kd_msg_recv 1000 junk request;
     d \<leftarrow> kd_msg_send hostname client_ip client_port this_ip KD_SOCK_PATH (take 24 now);
     Some (sent @ [d])
   })"

definition kd_server_main :: "(string \<Rightarrow> ipv4 list option) \<Rightarrow> string \<Rightarrow> (string \<times> string \<times> string) list \<Rightarrow> string list option" where
  "kd_server_main byname hostname turns = do {
     this_ip \<leftarrow> kd_set_this_ip byname hostname;
     orun (kd_respond hostname this_ip) turns []
   }"

section \<open>What arrives\<close>

lemma kd_wire:
  assumes "kd_msg_send hostname dest_ip dest_port src_ip src_port msg = Some d" and "NUL \<notin> set dest_port"
  shows "d = dest_port" "length dest_port < PORT_LEN"
proof -
  have l: "length dest_port < PORT_LEN"
    using assms(1) by (auto simp: kd_msg_send_def strcpy_def bind_eq_Some_conv split: if_splits)
  obtain p where "d = cstr (fixed PORT_LEN dest_port @ p)"
    using assms(1) by (auto simp: kd_msg_send_def strcpy_def kd_bytes_def bind_eq_Some_conv split: if_splits)
  moreover obtain k where "PORT_LEN - length dest_port = Suc k"
    using l by (cases "PORT_LEN - length dest_port") auto
  ultimately show "d = dest_port"
    using assms(2) by (simp add: fixed_def cstr_append_nul)
  show "length dest_port < PORT_LEN"
    by (rule l)
qed

lemma kd_recv_junk:
  assumes "length datagram \<le> PORT_LEN" and "length junk = KD_SIZE"
  shows "kd_msg_recv cap junk datagram = kd_msg_recv cap junk []"
  using assms by (simp add: kd_msg_recv_def kd_field_def)

text \<open>
  No message ever arrives.  What the server sends is only the name of the client's port, whatever
  the time is, and what the client shows is what its array held before.
\<close>

theorem kd_answer_lost:
  assumes "kd_respond hostname this_ip (request, junk, now) sent = Some (sent @ [d])"
    and "length word < 20" and "kd_set_ip byname (take 4 word) = Some ip"
    and "kd_msg_send vm ip KD_SOCK_PATH my_ip tempfile ''GetMeTime'' = Some q" and "length junk2 = KD_SIZE"
    and "kd_field 232 30 junk2 = Some old" and "kd_field 216 100 junk2 = Some a" and "kd_field 116 100 junk2 = Some b"
  shows "(\<forall>now2. kd_respond hostname this_ip (request, junk, now2) sent = Some (sent @ [d])) \<and>
    kd_client_turn byname vm my_ip tempfile (word, d, junk2) s = Some (s\<lparr>kc_sent := kc_sent s @ [KD_SOCK_PATH], kc_shown := kc_shown s @ [old]\<rparr>)"
proof -
  obtain msg cip port where r: "kd_msg_recv 1000 junk request = Some (msg, cip, port)"
    and d: "kd_msg_send hostname cip port this_ip KD_SOCK_PATH (take 24 now) = Some d"
    using assms(1) by (auto simp: kd_respond_def bind_eq_Some_conv)
  have port: "NUL \<notin> set port"
    using r by (auto simp: kd_msg_recv_def kd_field_def c_string_def Let_def bind_eq_Some_conv split: if_splits)
  note w = kd_wire [OF d port]
  have "kd_msg_send hostname cip port this_ip KD_SOCK_PATH (take 24 now2) = Some port" for now2
  proof -
    have "min (length now2) 24 < KD_MSG_LEN"
      by simp
    then obtain d2 where "kd_msg_send hostname cip port this_ip KD_SOCK_PATH (take 24 now2) = Some d2"
      using d by (auto simp: kd_msg_send_def strcpy_def bind_eq_Some_conv split: if_splits)
    then show ?thesis
      using kd_wire(1) [OF _ port] by metis
  qed
  then have "kd_respond hostname this_ip (request, junk, now2) sent = Some (sent @ [d])" for now2
    using r w(1) by (simp add: kd_respond_def)
  moreover have "q = KD_SOCK_PATH"
    by (rule kd_wire(1) [OF assms(4)]) (simp add: KD_SOCK_PATH_def)
  moreover have "kd_msg_recv 30 junk2 d = Some (old, a, b)"
    using kd_recv_junk [OF _ assms(5), of d 30] w assms(6-8) by (simp add: kd_msg_recv_def)
  ultimately show ?thesis
    using assms(2-4) by (simp add: kd_client_turn_def)
qed

definition kd_junk :: string where
  "kd_junk = replicate 116 NUL @ fixed 100 ''/tmp/dk_1'' @ fixed 16 ''10.0.0.1'' @ fixed 60 ''old''"

lemma kd_junk_fields: "kd_field 232 30 kd_junk = Some ''old''" "kd_field 216 100 kd_junk = Some ''10.0.0.1''" "kd_field 116 100 kd_junk = Some ''/tmp/dk_1''"
    "length kd_junk = KD_SIZE"
  by code_simp+

theorem kd_answer_lost_witness:
  "kd_client_turn (\<lambda>_. Some [(10, 0, 0, 1)]) ''vm1'' ''10.0.0.1'' ''/tmp/dk_1'' (''vm2'', ''/tmp/dk_1'', kd_junk) \<lparr>kc_sent = [], kc_shown = []\<rparr> =
    Some \<lparr>kc_sent = [KD_SOCK_PATH], kc_shown = [''old'']\<rparr>"
proof -
  have r: "kd_respond ''vm2'' ''10.0.0.2'' (KD_SOCK_PATH, kd_junk, ''Mon'') [] = Some ([] @ [''/tmp/dk_1''])"
    by code_simp
  have s: "kd_set_ip (\<lambda>_. Some [(10, 0, 0, 1)]) (take 4 ''vm2'') = Some ''10.0.0.1''"
    by code_simp
  have q: "kd_msg_send ''vm1'' ''10.0.0.1'' KD_SOCK_PATH ''10.0.0.1'' ''/tmp/dk_1'' ''GetMeTime'' = Some KD_SOCK_PATH"
    by code_simp
  show ?thesis
    using kd_answer_lost [OF r _ s q kd_junk_fields(4,1-3), of "\<lparr>kc_sent = [], kc_shown = []\<rparr>"] by simp
qed

end
