(* ===== verification/Lib_Io.thy ===== *)
theory Lib_Io
  imports Readline "HOL-Library.Sublist"
begin

text \<open>
  The input and output functions of the library: \<open>readn\<close> and \<open>writen\<close> (\<open>src/unpv13e/lib/readn.c\<close>,
  \<open>src/unpv13e/lib/writen.c\<close>), the echo server and client built on them
  (\<open>src/unpv13e/lib/str_echo.c\<close>, \<open>src/unpv13e/lib/str_cli.c\<close>), and the functions on socket addresses
  (\<open>src/unpv13e/lib/sock_cmp_addr.c\<close> and the files beside it).
\<close>

section \<open>Reading and writing a number of bytes\<close>

text \<open>
  The number \<open>readn\<close> returns, \<open>None\<close> when a \<open>read\<close> waits, with the bytes it has stored and what the
  descriptor still delivers.
\<close>

fun readn_loop :: "rd list \<Rightarrow> nat \<Rightarrow> nat \<Rightarrow> string \<Rightarrow> int option \<times> string \<times> rd list" where
  "readn_loop [] n nleft ptr = (if nleft = 0 then (Some (int (n - nleft)), ptr, []) else (None, ptr, []))"
| "readn_loop (r # ins) n nleft ptr =
     (if nleft = 0 then (Some (int (n - nleft)), ptr, r # ins)
      else case r of
        RIntr \<Rightarrow> readn_loop ins n nleft ptr
      | RErr \<Rightarrow> (Some (-1), ptr, ins)
      | REnd \<Rightarrow> (Some (int (n - nleft)), ptr, REnd # ins)
      | RData cs \<Rightarrow>
          if cs = [] then (Some (int (n - nleft)), ptr, ins)
          else if length cs \<le> nleft then readn_loop ins n (nleft - length cs) (ptr @ cs)
          else (Some (int n), ptr @ take nleft cs, RData (drop nleft cs) # ins))"

definition readn :: "rd list \<Rightarrow> nat \<Rightarrow> int option \<times> string \<times> rd list" where
  "readn ins n = readn_loop ins n n []"

text \<open>\<open>err_sys\<close> ends the process: \<open>None\<close>.\<close>

definition Readn :: "rd list \<Rightarrow> nat \<Rightarrow> (int option \<times> string \<times> rd list) option" where
  "Readn ins nbytes =
     (case readn ins nbytes of
        (Some n, buf, ins1) \<Rightarrow> if n < 0 then None else Some (Some n, buf, ins1)
      | r \<Rightarrow> Some r)"

text \<open>
  The results of \<open>write\<close>: \<open>WTook k\<close> is a call that takes up to \<open>k\<close> bytes, \<open>WIntr\<close> one that is
  interrupted, \<open>WError\<close> one that fails.
\<close>

datatype wres = WTook nat | WIntr | WError

text \<open>The result, \<open>None\<close> when a \<open>write\<close> waits, the bytes taken, and the results left.\<close>

fun writen_loop :: "wres list \<Rightarrow> nat \<Rightarrow> string \<Rightarrow> string \<Rightarrow> int option \<times> string \<times> wres list" where
  "writen_loop [] n ptr out = (if ptr = [] then (Some (int n), out, []) else (None, out, []))"
| "writen_loop (w # ws) n ptr out =
     (if ptr = [] then (Some (int n), out, w # ws)
      else case w of
        WTook k \<Rightarrow>
          if k = 0 then (Some (-1), out, ws)
          else writen_loop ws n (drop k ptr) (out @ take k ptr)
      | WIntr \<Rightarrow> writen_loop ws n ptr out
      | WError \<Rightarrow> (Some (-1), out, ws))"

definition writen :: "wres list \<Rightarrow> string \<Rightarrow> int option \<times> string \<times> wres list" where
  "writen ws bs = writen_loop ws (length bs) bs []"

section \<open>The echo server\<close>

datatype served = Returns | Exits | Waits

text \<open>How much the descriptor still delivers, for the termination of the loop.\<close>

fun load :: "rd list \<Rightarrow> nat" where
  "load [] = 0"
| "load (RData cs # ins) = Suc (length cs) + load ins"
| "load (_ # ins) = Suc (load ins)"

lemma read_again_load: "read_again ins = (Some (RData cs), ins1) \<Longrightarrow> cs \<noteq> [] \<Longrightarrow> load ins1 < load ins"
  by (induction ins rule: read_again.induct) (auto split: if_splits)

function (sequential) str_echo :: "rd list \<Rightarrow> wres list \<Rightarrow> served \<times> string" where
  "str_echo ins ws =
     (case read_again ins of
        (None, _) \<Rightarrow> (Waits, [])
      | (Some (RData cs), ins1) \<Rightarrow>
          if cs = [] then (Returns, [])
          else (case writen ws cs of
              (rc, out, ws1) \<Rightarrow>
                if rc = None then (Waits, out)
                else if rc \<noteq> Some (int (length cs)) then (Exits, out)
                else (case str_echo ins1 ws1 of (e, rest) \<Rightarrow> (e, out @ rest)))
      | (Some _, _) \<Rightarrow> (Exits, []))"
  by pat_completeness auto
termination
  by (relation "measure (\<lambda>(ins, ws). load ins)") (auto dest!: sym [of _ "read_again _"] intro: read_again_load)

declare str_echo.simps [simp del]

section \<open>The echo client\<close>

text \<open>\<open>fgets\<close> takes a line, or as much as fits with the terminator; \<open>None\<close> is the null pointer.\<close>

definition fgets :: "nat \<Rightarrow> string \<Rightarrow> (string \<times> string) option" where
  "fgets n inp = (if inp = [] then None else let k = line_len (n - 1) inp in Some (take k inp, drop k inp))"

record str_cli_state =
  sc_io :: lib_io
  sc_sent :: string
  sc_shown :: string

text \<open>
  Each turn of the loop meets the results of \<open>write\<close> and what has arrived on the socket when
  \<open>Readline\<close> is called; the argument \<open>inp\<close> is what is left of the file \<open>fp\<close>.  \<open>None\<close> is an access
  outside the buffer of \<open>readline\<close>.
\<close>

definition sock_in :: "int \<Rightarrow> rd list \<Rightarrow> lib_io \<Rightarrow> lib_io" where
  "sock_in fd net io = io\<lparr>fd_in := (fd_in io)(fd := fd_in io fd @ net)\<rparr>"

fun str_cli :: "int \<Rightarrow> (wres list \<times> rd list) list \<Rightarrow> string \<Rightarrow> str_cli_state \<Rightarrow> (served \<times> str_cli_state) option" where
  "str_cli sockfd [] inp s = (case fgets MAXLINE inp of None \<Rightarrow> Some (Returns, s) | Some _ \<Rightarrow> Some (Waits, s))"
| "str_cli sockfd ((ws, net) # evs) inp s =
     (case fgets MAXLINE inp of
        None \<Rightarrow> Some (Returns, s)
      | Some (sendline, inp1) \<Rightarrow>
          (case writen ws (cstr sendline) of
             (rc, out, _) \<Rightarrow>
               let s1 = s\<lparr>sc_sent := sc_sent s @ out\<rparr> in
               if rc = None then Some (Waits, s1)
               else if rc \<noteq> Some (int (length (cstr sendline))) then Some (Exits, s1)
               else do {
                 (r, io) \<leftarrow> lib_readline MAXLINE sockfd (sock_in sockfd net (sc_io s1));
                 let s2 = s1\<lparr>sc_io := io\<rparr>;
                 (case r of
                    Line n recvline \<Rightarrow>
                      if n = 0 then Some (Exits, s2)
                      else str_cli sockfd evs inp1 (s2\<lparr>sc_shown := sc_shown s2 @ cstr recvline\<rparr>)
                  | LineErr \<Rightarrow> Some (Exits, s2)
                  | LineWaits \<Rightarrow> Some (Waits, s2))
               }))"

section \<open>Socket addresses\<close>

record sockaddr_in6 =
  sin6_port :: u16
  sin6_addr :: "u8 list"

text \<open>
  A socket address with what its family makes of the bytes after it; \<open>SUnknown\<close> is one of a
  family the functions do not name.
\<close>

datatype sockaddr = SIn sockaddr_in | SIn6 sockaddr_in6 | SUn string | SUnknown nat

abbreviation AF_UNIX :: nat where "AF_UNIX \<equiv> 1"
abbreviation (input) AF_INET6 :: nat where "AF_INET6 \<equiv> 26"

fun sa_family :: "sockaddr \<Rightarrow> nat" where
  "sa_family (SIn a) = AF_INET"
| "sa_family (SIn6 a) = AF_INET6"
| "sa_family (SUn p) = AF_UNIX"
| "sa_family (SUnknown f) = f"

text \<open>The sign of \<open>memcmp\<close> and \<open>strcmp\<close>, which compare unsigned bytes.\<close>

fun memcmp :: "nat list \<Rightarrow> nat list \<Rightarrow> int" where
  "memcmp (x # xs) (y # ys) = (if x < y then -1 else if y < x then 1 else memcmp xs ys)"
| "memcmp [] [] = 0"
| "memcmp [] ys = -1"
| "memcmp xs [] = 1"

fun ipv4_bytes :: "ipv4 \<Rightarrow> u8 list" where
  "ipv4_bytes (a, b, c, d) = [a, b, c, d]"

definition sock_cmp_addr :: "sockaddr \<Rightarrow> sockaddr \<Rightarrow> int" where
  "sock_cmp_addr sa1 sa2 =
     (if sa_family sa1 \<noteq> sa_family sa2 then -1
      else case (sa1, sa2) of
        (SIn a, SIn b) \<Rightarrow> memcmp (map unat (ipv4_bytes (sin_addr a))) (map unat (ipv4_bytes (sin_addr b)))
      | (SIn6 a, SIn6 b) \<Rightarrow> memcmp (map unat (sin6_addr a)) (map unat (sin6_addr b))
      | (SUn p, SUn q) \<Rightarrow> memcmp (map of_char (cstr p)) (map of_char (cstr q))
      | _ \<Rightarrow> -1)"

definition sock_cmp_port :: "sockaddr \<Rightarrow> sockaddr \<Rightarrow> int" where
  "sock_cmp_port sa1 sa2 =
     (if sa_family sa1 \<noteq> sa_family sa2 then -1
      else case (sa1, sa2) of
        (SIn a, SIn b) \<Rightarrow> (if sin_port a = sin_port b then 1 else 0)
      | (SIn6 a, SIn6 b) \<Rightarrow> (if sin6_port a = sin6_port b then 1 else 0)
      | _ \<Rightarrow> -1)"

fun sock_get_port :: "sockaddr \<Rightarrow> int" where
  "sock_get_port (SIn a) = uint (sin_port a)"
| "sock_get_port (SIn6 a) = uint (sin6_port a)"
| "sock_get_port _ = -1"

fun sock_set_port :: "sockaddr \<Rightarrow> cint \<Rightarrow> sockaddr" where
  "sock_set_port (SIn a) port = SIn (a\<lparr>sin_port := ucast port\<rparr>)"
| "sock_set_port (SIn6 a) port = SIn6 (a\<lparr>sin6_port := ucast port\<rparr>)"
| "sock_set_port sa port = sa"

text \<open>\<open>None\<close> is a read past the bytes that the pointer \<open>addr\<close> points to.\<close>

fun sock_set_addr :: "sockaddr \<Rightarrow> u8 list \<Rightarrow> sockaddr option" where
  "sock_set_addr (SIn a) addr = (case addr of w # x # y # z # _ \<Rightarrow> Some (SIn (a\<lparr>sin_addr := (w, x, y, z)\<rparr>)) | _ \<Rightarrow> None)"
| "sock_set_addr (SIn6 a) addr = (if length addr < 16 then None else Some (SIn6 (a\<lparr>sin6_addr := take 16 addr\<rparr>)))"
| "sock_set_addr sa addr = Some sa"

fun sock_set_wild :: "sockaddr \<Rightarrow> sockaddr option" where
  "sock_set_wild (SIn a) = sock_set_addr (SIn a) [0, 0, 0, 0]"
| "sock_set_wild (SIn6 a) = sock_set_addr (SIn6 a) (replicate 16 0)"
| "sock_set_wild sa = Some sa"

section \<open>What readn and writen do\<close>

lemma readn_loop_spec:
  assumes "nleft \<le> n"
  shows "if nleft \<le> length (stream ins)
    then \<exists>ins1. readn_loop ins n nleft ptr = (Some (int n), ptr @ take nleft (stream ins), ins1) \<and>
      stream ins1 = drop nleft (stream ins) \<and> ending ins1 = ending ins
    else \<exists>ins1. readn_loop ins n nleft ptr =
      ((case ending ins of Open \<Rightarrow> None | Ended \<Rightarrow> Some (int (n - nleft + length (stream ins))) | Broken \<Rightarrow> Some (-1)), ptr @ stream ins, ins1)"
  using assms
proof (induction ins n nleft ptr rule: readn_loop.induct)
  case (2 r ins n nleft ptr)
  show ?case
  proof (cases r)
    case (RData cs)
    show ?thesis
    proof (cases "nleft = 0 \<or> cs = [] \<or> nleft < length cs")
      case True
      then show ?thesis
        using RData "2.prems" by (auto split: if_splits)
    next
      case False
      then have IH: "if nleft - length cs \<le> length (stream ins)
          then \<exists>ins1. readn_loop ins n (nleft - length cs) (ptr @ cs) = (Some (int n), (ptr @ cs) @ take (nleft - length cs) (stream ins), ins1) \<and>
            stream ins1 = drop (nleft - length cs) (stream ins) \<and> ending ins1 = ending ins
          else \<exists>ins1. readn_loop ins n (nleft - length cs) (ptr @ cs) =
            ((case ending ins of Open \<Rightarrow> None | Ended \<Rightarrow> Some (int (n - (nleft - length cs) + length (stream ins))) | Broken \<Rightarrow> Some (-1)),
              (ptr @ cs) @ stream ins, ins1)"
        using "2.prems" by (intro "2.IH"(1) [OF _ RData]) auto
      have n: "n - (nleft - length cs) + length (stream ins) = n - nleft + length (cs @ stream ins)"
        using False "2.prems" by simp
      have s: "stream (r # ins) = cs @ stream ins" "ending (r # ins) = ending ins"
        using RData False by simp_all
      from IH False RData show ?thesis
        unfolding n s by (cases "nleft - length cs \<le> length (stream ins)") auto
    qed
  qed (use 2 in \<open>auto split: stop.splits\<close>)
qed simp

lemma readn_spec:
  "n \<le> length (stream ins) \<Longrightarrow> \<exists>ins1. readn ins n = (Some (int n), take n (stream ins), ins1) \<and> stream ins1 = drop n (stream ins) \<and> ending ins1 = ending ins"
  "length (stream ins) < n \<Longrightarrow> \<exists>ins1. readn ins n =
     ((case ending ins of Open \<Rightarrow> None | Ended \<Rightarrow> Some (int (length (stream ins))) | Broken \<Rightarrow> Some (-1)), stream ins, ins1)"
  using readn_loop_spec [of n n ins "[]"] by (auto simp: readn_def split: stop.splits)

lemma writen_loop_spec:
  assumes "writen_loop ws n ptr out = (rc, out1, ws1)"
  shows "\<exists>done left. out1 = out @ done \<and> ptr = done @ left \<and> (rc = Some (int n) \<longleftrightarrow> left = []) \<and> (left \<noteq> [] \<longrightarrow> rc = None \<or> rc = Some (-1)) \<and>
    set ws1 \<subseteq> set ws"
  using assms
proof (induction ws n ptr out rule: writen_loop.induct)
  case (2 w ws n ptr out)
  show ?case
  proof (cases "\<exists>k. w = WTook k \<and> 0 < k \<and> ptr \<noteq> []")
    case True
    then obtain k where k: "w = WTook k" "0 < k" "ptr \<noteq> []"
      by blast
    then obtain d l where "out1 = (out @ take k ptr) @ d" "drop k ptr = d @ l" "rc = Some (int n) \<longleftrightarrow> l = []" "l \<noteq> [] \<longrightarrow> rc = None \<or> rc = Some (-1)"
      "set ws1 \<subseteq> set ws"
      using "2.IH"(1) [OF k(3,1)] "2.prems" by auto
    then show ?thesis
      using append_take_drop_id [of k ptr] by (intro exI [of _ "take k ptr @ d"] exI [of _ l]) auto
  next
    case False
    with 2 show ?thesis
      by (cases w) (auto split: if_splits)
  qed
qed (auto split: if_splits)

definition flowing :: "wres list \<Rightarrow> bool" where
  "flowing ws \<longleftrightarrow> (\<forall>w \<in> set ws. w = WIntr \<or> (\<exists>k > 0. w = WTook k))"

definition turns :: "wres list \<Rightarrow> nat" where
  "turns ws = length (filter (\<lambda>w. w \<noteq> WIntr) ws)"

lemma writen_loop_done:
  assumes "flowing ws" and "length ptr \<le> turns ws"
  shows "\<exists>ws1. writen_loop ws n ptr out = (Some (int n), out @ ptr, ws1) \<and> flowing ws1 \<and> turns ws - length ptr \<le> turns ws1"
  using assms
proof (induction ws n ptr out rule: writen_loop.induct)
  case (2 w ws n ptr out)
  have f: "flowing ws"
    using "2.prems" by (simp add: flowing_def)
  show ?case
  proof (cases "ptr = [] \<or> w = WIntr")
    case True
    then show ?thesis
      using 2 f by (auto simp: turns_def)
  next
    case False
    then obtain k where k: "w = WTook k" "0 < k"
      using "2.prems" by (auto simp: flowing_def)
    then have t: "length (drop k ptr) \<le> turns ws" "turns (w # ws) = Suc (turns ws)"
      using "2.prems" by (simp_all add: turns_def)
    obtain ws1 where "writen_loop ws n (drop k ptr) (out @ take k ptr) = (Some (int n), (out @ take k ptr) @ drop k ptr, ws1)" "flowing ws1"
      "turns ws - length (drop k ptr) \<le> turns ws1"
      using "2.IH"(1) [OF _ k(1) _ f t(1)] False k(2) by auto
    then show ?thesis
      using False k t(2) by (cases ptr) (auto simp del: length_drop simp add: length_drop)
  qed
qed (auto simp: turns_def)

lemma writen_prefix: "writen ws bs = (rc, out, ws1) \<Longrightarrow> prefix out bs \<and> (rc = Some (int (length bs)) \<longleftrightarrow> out = bs)"
  using writen_loop_spec [of ws "length bs" bs "[]" rc out ws1] by (auto simp: writen_def)

text \<open>
  Bytes that \<open>writen\<close> reports as written, in however many pieces the kernel took them, are what \<open>readn\<close>
  returns for the same number at the other end, however they are cut and interrupted there, and what
  was written after them stays for the next call; when \<open>writen\<close> fails or waits a proper beginning of
  them was taken.
\<close>

theorem writen_readn:
  assumes "writen ws bs = (rc, out, ws1)" and "stream ins = out @ later"
  shows "if rc = Some (int (length bs)) then \<exists>ins1. readn ins (length bs) = (Some (int (length bs)), bs, ins1) \<and> stream ins1 = later
    else strict_prefix out bs"
  using writen_prefix [OF assms(1)] readn_spec(1) [of "length bs" ins] assms(2) by auto

theorem writen_readn_witness:
  "writen [WTook 2, WIntr, WTook 5] ''hello'' = (Some 5, ''hello'', []) \<and>
   (\<exists>ins1. readn [RData ''h'', RIntr, RData ''ello!''] 5 = (Some 5, ''hello'', ins1) \<and> stream ins1 = ''!'')"
proof -
  have w: "writen [WTook 2, WIntr, WTook 5] ''hello'' = (Some 5, ''hello'', [])"
    by (simp add: writen_def)
  have "stream [RData ''h'', RIntr, RData ''ello!''] = ''hello'' @ ''!''"
    by simp
  from writen_readn [OF w this] w show ?thesis
    by (simp add: eval_nat_numeral)
qed

section \<open>What the echo server does\<close>

lemma str_echo_other:
  assumes "read_again ins = (r, ins1)" and "\<forall>cs. r \<noteq> Some (RData cs)"
  shows "str_echo ins ws = (if r = None then Waits else Exits, [])"
  using assms read_again_other [OF assms] by (auto simp: str_echo.simps [of ins] split: rd.splits option.splits)

lemma str_echo_data:
  assumes "read_again ins = (Some (RData cs), ins1)" and "cs \<noteq> []" and "writen ws cs = (rc, out, ws1)"
  shows "str_echo ins ws =
    (if rc = None then (Waits, out)
     else if rc \<noteq> Some (int (length cs)) then (Exits, out)
     else (fst (str_echo ins1 ws1), out @ snd (str_echo ins1 ws1)))"
  using assms by (simp add: str_echo.simps [of ins] split: prod.splits)

lemma str_echo_stop: "read_again ins = (Some (RData []), ins1) \<Longrightarrow> str_echo ins ws = (Returns, [])"
  by (simp add: str_echo.simps [of ins])

lemma str_echo_safe:
  assumes "steady ins"
  shows "prefix (snd (str_echo ins ws)) (stream ins) \<and>
    (fst (str_echo ins ws) = Returns \<longrightarrow> snd (str_echo ins ws) = stream ins \<and> ending ins = Ended)"
  using assms
proof (induction ins arbitrary: ws rule: measure_induct_rule [of load])
  case (less ins)
  obtain r ins1 where ra: "read_again ins = (r, ins1)"
    by fastforce
  show ?case
  proof (cases "\<exists>cs. r = Some (RData cs)")
    case False
    then show ?thesis
      using str_echo_other [OF ra] by simp
  next
    case True
    then obtain cs where cs: "r = Some (RData cs)"
      by blast
    note d = read_again_data [OF less.prems ra [unfolded cs]]
    obtain rc out ws1 where w: "writen ws cs = (rc, out, ws1)"
      by (metis prod_cases3)
    show ?thesis
    proof (cases "cs = []")
      case True
      then show ?thesis
        using str_echo_stop [of ins ins1 ws] ra cs d by auto
    next
      case False
      have "prefix (snd (str_echo ins1 ws1)) (stream ins1) \<and>
          (fst (str_echo ins1 ws1) = Returns \<longrightarrow> snd (str_echo ins1 ws1) = stream ins1 \<and> ending ins1 = Ended)"
        using less.IH [of ins1 ws1] read_again_load [OF ra [unfolded cs] False] d by blast
      then show ?thesis
        using str_echo_data [OF ra [unfolded cs] False w] writen_prefix [OF w] d by auto
    qed
  qed
qed

lemma str_echo_live:
  assumes "steady ins" and "flowing ws" and "length (stream ins) \<le> turns ws"
  shows "str_echo ins ws = (case ending ins of Open \<Rightarrow> Waits | Ended \<Rightarrow> Returns | Broken \<Rightarrow> Exits, stream ins)"
  using assms
proof (induction ins arbitrary: ws rule: measure_induct_rule [of load])
  case (less ins)
  obtain r ins1 where ra: "read_again ins = (r, ins1)"
    by fastforce
  show ?case
  proof (cases "\<exists>cs. r = Some (RData cs)")
    case False
    then show ?thesis
      using str_echo_other [OF ra] read_again_other [OF ra] by simp
  next
    case True
    then obtain cs where cs: "r = Some (RData cs)"
      by blast
    note d = read_again_data [OF less.prems(1) ra [unfolded cs]]
    show ?thesis
    proof (cases "cs = []")
      case True
      then show ?thesis
        using str_echo_stop [of ins ins1 ws] ra cs d by auto
    next
      case False
      obtain ws1 where w: "writen ws cs = (Some (int (length cs)), cs, ws1)" "flowing ws1" "turns ws - length cs \<le> turns ws1"
        using writen_loop_done [OF less.prems(2), of cs "length cs" "[]"] less.prems(3) d by (auto simp: writen_def)
      have "length (stream ins1) \<le> turns ws1"
        using w(3) less.prems(3) d by simp
      with less.IH [of ins1 ws1] read_again_load [OF ra [unfolded cs] False] d w(2)
      have "str_echo ins1 ws1 = (case ending ins of Open \<Rightarrow> Waits | Ended \<Rightarrow> Returns | Broken \<Rightarrow> Exits, stream ins1)"
        by simp
      then show ?thesis
        using str_echo_data [OF ra [unfolded cs] False w(1)] d by simp
    qed
  qed
qed

text \<open>
  C39: the echo server of the library sends back a beginning of what it receives on every sequence of
  results of \<open>read\<close> and \<open>write\<close>, the whole of it when it returns; and it returns, with everything sent
  back, when the client closes its side and the kernel takes at least a byte with each \<open>write\<close> that
  is not interrupted.  Lines of any length are echoed.
\<close>

theorem str_echo_echoes:
  assumes "steady ins"
  shows "prefix (snd (str_echo ins ws)) (stream ins) \<and>
    (fst (str_echo ins ws) = Returns \<longrightarrow> snd (str_echo ins ws) = stream ins) \<and>
    (flowing ws \<and> length (stream ins) \<le> turns ws \<and> ending ins = Ended \<longrightarrow> str_echo ins ws = (Returns, stream ins))"
  using str_echo_safe [OF assms, of ws] str_echo_live [OF assms, of ws] by simp

theorem str_echo_echoes_witness:
  "str_echo [RData ''ab'', RIntr, RData ''c'', REnd] [WTook 1, WIntr, WTook 4, WTook 9] = (Returns, ''abc'')"
  using str_echo_echoes [of "[RData ''ab'', RIntr, RData ''c'', REnd]" "[WTook 1, WIntr, WTook 4, WTook 9]"]
  by (simp add: flowing_def turns_def)

section \<open>What the echo client does\<close>

lemma stream_append: "ending ins = Open \<Longrightarrow> stream (ins @ net) = stream ins @ stream net \<and> ending (ins @ net) = ending net"
  by (induction ins rule: stream.induct) (auto split: if_splits)

text \<open>Nothing is left over from an earlier line, and the connection is open.\<close>

definition idle :: "int \<Rightarrow> lib_io \<Rightarrow> bool" where
  "idle fd io \<longleftrightarrow> src_ok (statics io, fd_in io fd) \<and> src_text (statics io, fd_in io fd) = [] \<and> ending (fd_in io fd) = Open"

definition text_line :: "string \<Rightarrow> bool" where
  "text_line l \<longleftrightarrow> NL \<notin> set l \<and> NUL \<notin> set l \<and> Suc (length l) < MAXLINE"

definition answered :: "string \<Rightarrow> wres list \<times> rd list \<Rightarrow> bool" where
  "answered l = (\<lambda>(ws, net). flowing ws \<and> length l < turns ws \<and> steady net \<and> stream net = l @ [NL] \<and> ending net = Open)"

lemma fgets_line:
  assumes "text_line l"
  shows "fgets MAXLINE ((l @ [NL]) @ rest) = Some (l @ [NL], rest)"
proof -
  have "takeWhile (\<lambda>c. c \<noteq> NL) ((l @ [NL]) @ rest) = l"
    using assms by (subst append_assoc, subst takeWhile_append2) (auto simp: text_line_def)
  then have "line_len (MAXLINE - 1) ((l @ [NL]) @ rest) = Suc (length l)"
    using assms unfolding line_len_def by (simp add: text_line_def Let_def)
  then show ?thesis
    unfolding fgets_def by (simp add: Let_def)
qed

lemma read_answer:
  assumes "idle fd io" and "text_line l" and "steady net" and "stream net = l @ [NL]" and "ending net = Open"
  shows "\<exists>io1. lib_readline MAXLINE fd (sock_in fd net io) = Some (Line (int (length l) + 1) (l @ [NL]), io1) \<and> idle fd io1"
proof -
  let ?io = "sock_in fd net io"
  have "src_ok (statics ?io, fd_in ?io fd)" "src_text (statics ?io, fd_in ?io fd) = l @ NL # []" "ending (fd_in ?io fd) = Open"
    using assms stream_append [of "fd_in io fd" net] by (simp_all add: idle_def sock_in_def src_ok_def src_text_def)
  from lib.fetch_line [OF this(1,2), of MAXLINE] this(3) assms(2) show ?thesis
    by (fastforce simp: idle_def text_line_def)
qed

lemma str_cli_turn:
  assumes "idle sockfd (sc_io s)" and "text_line l" and "answered l ev"
  shows "\<exists>io1. idle sockfd io1 \<and> str_cli sockfd (ev # evs) ((l @ [NL]) @ rest) s =
    str_cli sockfd evs rest (s\<lparr>sc_sent := sc_sent s @ l @ [NL], sc_io := io1, sc_shown := sc_shown s @ l @ [NL]\<rparr>)"
proof -
  obtain ws net where ev: "ev = (ws, net)"
    by (cases ev)
  have a: "flowing ws" "length (l @ [NL]) \<le> turns ws" "steady net" "stream net = l @ [NL]" "ending net = Open"
    using assms(3) by (simp_all add: answered_def ev)
  obtain ws1 where w: "writen ws (l @ [NL]) = (Some (int (length (l @ [NL]))), l @ [NL], ws1)"
    using writen_loop_done [OF a(1,2), of "length (l @ [NL])" "[]"] by (auto simp: writen_def)
  obtain io1 where r: "lib_readline MAXLINE sockfd (sock_in sockfd net (sc_io s)) = Some (Line (int (length l) + 1) (l @ [NL]), io1)" "idle sockfd io1"
    using read_answer [OF assms(1,2) a(3-5)] by blast
  have c: "cstr (l @ [NL]) = l @ [NL]"
    using assms(2) by (simp add: cstr_id text_line_def)
  show ?thesis
    using fgets_line [OF assms(2), of rest] w r unfolding ev by (intro exI [of _ io1]) (simp add: c)
qed

text \<open>
  The echo client of the library sends every line of its file and shows every answer, in order, and
  returns at the end of the file, when the server echoes each line, however the kernel cuts what is
  sent and received.
\<close>

theorem str_cli_session:
  assumes "idle sockfd (sc_io s)" and "list_all text_line ls" and "list_all2 answered ls evs"
  shows "\<exists>t. str_cli sockfd evs (concat (map (\<lambda>l. l @ [NL]) ls)) s = Some (Returns, t) \<and>
    sc_sent t = sc_sent s @ concat (map (\<lambda>l. l @ [NL]) ls) \<and> sc_shown t = sc_shown s @ concat (map (\<lambda>l. l @ [NL]) ls)"
  using assms(3,1,2)
proof (induction ls evs arbitrary: s rule: list_all2_induct)
  case Nil
  then show ?case
    by (simp add: fgets_def)
next
  case (Cons l ls ev evs)
  let ?rest = "concat (map (\<lambda>l. l @ [NL]) ls)"
  obtain io1 where io1: "idle sockfd io1" "str_cli sockfd (ev # evs) ((l @ [NL]) @ ?rest) s =
      str_cli sockfd evs ?rest (s\<lparr>sc_sent := sc_sent s @ l @ [NL], sc_io := io1, sc_shown := sc_shown s @ l @ [NL]\<rparr>)"
    using str_cli_turn [of sockfd s l ev evs ?rest] Cons by auto
  then show ?case
    using Cons.IH [of "s\<lparr>sc_sent := sc_sent s @ l @ [NL], sc_io := io1, sc_shown := sc_shown s @ l @ [NL]\<rparr>"] Cons.prems by simp
qed

theorem str_cli_session_witness:
  "\<exists>t. str_cli 3 [([WTook 2, WTook 9, WTook 1], [RData ''h'', RIntr, RData (''i'' @ [NL])]), ([WTook 1], [RData [NL]])]
      (''hi'' @ [NL] @ [NL]) \<lparr>sc_io = \<lparr>statics = calloc_rline, fd_in = (\<lambda>_. [])\<rparr>, sc_sent = [], sc_shown = []\<rparr> = Some (Returns, t) \<and>
    sc_sent t = ''hi'' @ [NL] @ [NL] \<and> sc_shown t = ''hi'' @ [NL] @ [NL]"
  using str_cli_session [of 3 "\<lparr>sc_io = \<lparr>statics = calloc_rline, fd_in = (\<lambda>_. [])\<rparr>, sc_sent = [], sc_shown = []\<rparr>" "[''hi'', []]"
      "[([WTook 2, WTook 9, WTook 1], [RData ''h'', RIntr, RData (''i'' @ [NL])]), ([WTook 1], [RData [NL]])]"]
  by (simp add: idle_def src_ok_def src_text_def text_line_def answered_def flowing_def turns_def del: str_cli.simps)

section \<open>What the functions on addresses do\<close>

lemma memcmp_zero: "memcmp xs ys = 0 \<longleftrightarrow> xs = ys"
  by (induction xs ys rule: memcmp.induct) auto

lemma map_unat_inj: "map (unat :: u8 \<Rightarrow> nat) xs = map unat ys \<longleftrightarrow> xs = ys"
  by (rule inj_map_eq_map) (simp add: inj_def word_unat_eq_iff)

lemma ipv4_bytes_inj: "ipv4_bytes a = ipv4_bytes b \<longleftrightarrow> a = b"
  by (cases a; cases b) auto

text \<open>The two comparisons use opposite results for equality.\<close>

lemma sock_cmp_addr_in: "sock_cmp_addr (SIn a) (SIn b) = 0 \<longleftrightarrow> sin_addr a = sin_addr b"
  by (simp add: sock_cmp_addr_def memcmp_zero map_unat_inj ipv4_bytes_inj)

lemma sock_cmp_addr_in6: "sock_cmp_addr (SIn6 a) (SIn6 b) = 0 \<longleftrightarrow> sin6_addr a = sin6_addr b"
  by (simp add: sock_cmp_addr_def memcmp_zero map_unat_inj)

lemma sock_cmp_addr_un: "sock_cmp_addr (SUn p) (SUn q) = 0 \<longleftrightarrow> cstr p = cstr q"
  by (simp add: sock_cmp_addr_def memcmp_zero inj_map_eq_map [OF inj_of_char])

lemma sock_cmp_port_in: "sock_cmp_port (SIn a) (SIn b) = 0 \<longleftrightarrow> sin_port a \<noteq> sin_port b"
  by (simp add: sock_cmp_port_def)

lemma sock_port_roundtrip:
  assumes "sock_get_port sa \<noteq> -1"
  shows "sock_get_port (sock_set_port sa port) = uint port mod 2 ^ 16 \<and> (\<forall>sb. sock_cmp_addr (sock_set_port sa port) sb = sock_cmp_addr sa sb)"
  using assms by (cases sa) (auto simp: unsigned_ucast_eq take_bit_eq_mod sock_cmp_addr_def split: sockaddr.splits)

lemma sock_set_wild_port: "sock_set_wild sa = Some sb \<Longrightarrow> sock_get_port sb = sock_get_port sa \<and> sa_family sb = sa_family sa"
  by (cases sa) auto

end
