(* ===== verification/Inet_Text.thy ===== *)
theory Inet_Text
  imports Udp
begin

text \<open>
  The conversions between addresses and their text of the library: \<open>src/unpv13e/libfree/inet_pton.c\<close>
  and \<open>src/unpv13e/libfree/inet_ntop.c\<close> for IPv4 and IPv6, \<open>src/unpv13e/libfree/inet_aton.c\<close>, and the
  versions of \<open>inet_pton\<close> and \<open>inet_ntop\<close> for hosts without IPv6
  (\<open>src/unpv13e/libfree/inet_pton_ipv4.c\<close>, \<open>src/unpv13e/libfree/inet_ntop_ipv4.c\<close>).  A text is a C string
  without its terminator.
\<close>

section \<open>Parsing\<close>

text \<open>
  The array \<open>tmp\<close> is the list of the octets before the one \<open>tp\<close> points to, and that one.
\<close>

fun pton4_loop :: "string \<Rightarrow> bool \<Rightarrow> nat \<Rightarrow> nat list \<Rightarrow> nat \<Rightarrow> nat list option" where
  "pton4_loop [] saw_digit cnt tmp tp = (if cnt < 4 then None else Some (tmp @ [tp]))"
| "pton4_loop (ch # src) saw_digit cnt tmp tp =
     (if is_digit ch then
        (let new = tp * 10 + digit_val ch in
         if new > 255 then None
         else if \<not> saw_digit then (if cnt + 1 > 4 then None else pton4_loop src True (cnt + 1) tmp new)
         else pton4_loop src saw_digit cnt tmp new)
      else if ch = CHR ''.'' \<and> saw_digit then (if cnt = 4 then None else pton4_loop src False cnt (tmp @ [tp]) 0)
      else None)"

definition inet_pton4 :: "string \<Rightarrow> u8 list option" where
  "inet_pton4 src = map_option (map word_of_nat) (pton4_loop src False 0 [] 0)"

abbreviation XDIGITS_L :: string where "XDIGITS_L \<equiv> ''0123456789abcdef''"
abbreviation XDIGITS_U :: string where "XDIGITS_U \<equiv> ''0123456789ABCDEF''"

definition strchr :: "string \<Rightarrow> char \<Rightarrow> nat option" where
  "strchr s c = (let i = first_idx (\<lambda>x. x = c) s in if i < length s then Some i else None)"

definition xdigit :: "char \<Rightarrow> nat option" where
  "xdigit ch = (case strchr XDIGITS_L ch of None \<Rightarrow> strchr XDIGITS_U ch | Some d \<Rightarrow> Some d)"

text \<open>The two bytes that a group of hexadecimal digits stands for.\<close>

definition hextet :: "nat \<Rightarrow> u8 list" where
  "hextet val = [word_of_nat (val div 256), word_of_nat (val mod 256)]"

text \<open>
  The loop of \<open>inet_pton6\<close>: \<open>tmp\<close> is the part of the array before \<open>tp\<close>, the rest being zero,
  \<open>colonp\<close> an index.  A group is at most 0xffff before each shift, so the shifts lose no bits.
\<close>

fun pton6_loop :: "string \<Rightarrow> string \<Rightarrow> bool \<Rightarrow> nat \<Rightarrow> u8 list \<Rightarrow> nat option \<Rightarrow> (u8 list \<times> nat option \<times> bool \<times> nat) option" where
  "pton6_loop [] curtok saw_xdigit val tmp colonp = Some (tmp, colonp, saw_xdigit, val)"
| "pton6_loop (ch # src) curtok saw_xdigit val tmp colonp =
     (case xdigit ch of
        Some d \<Rightarrow> let val1 = val * 16 + d in if val1 > 0xffff then None else pton6_loop src curtok True val1 tmp colonp
      | None \<Rightarrow>
          if ch = CHR '':'' then
            (if \<not> saw_xdigit then
               (if colonp \<noteq> None then None else pton6_loop src src saw_xdigit val tmp (Some (length tmp)))
             else if length tmp + 2 > 16 then None
             else pton6_loop src src False 0 (tmp @ hextet val) colonp)
          else if ch = CHR ''.'' \<and> length tmp + 4 \<le> 16 then
            (case inet_pton4 curtok of None \<Rightarrow> None | Some a \<Rightarrow> Some (tmp @ a, colonp, False, val))
          else None)"

text \<open>
  The loop that moves the bytes after the double colon to the end of the array and clears where
  they were.
\<close>

definition shift6 :: "nat \<Rightarrow> nat \<Rightarrow> u8 list \<Rightarrow> u8 list" where
  "shift6 colonp n arr = fold (\<lambda>i arr. (arr[16 - i := arr ! (colonp + n - i)])[colonp + n - i := 0]) [1..<Suc n] arr"

definition finish6 :: "u8 list \<times> nat option \<times> bool \<times> nat \<Rightarrow> u8 list option" where
  "finish6 = (\<lambda>(tmp, colonp, saw_xdigit, val). do {
     tmp1 \<leftarrow> (if saw_xdigit then (if length tmp + 2 > 16 then None else Some (tmp @ hextet val)) else Some tmp);
     (case colonp of
        None \<Rightarrow> if length tmp1 \<noteq> 16 then None else Some tmp1
      | Some c \<Rightarrow> Some (shift6 c (length tmp1 - c) (tmp1 @ replicate (16 - length tmp1) 0)))
   })"

definition inet_pton6 :: "string \<Rightarrow> u8 list option" where
  "inet_pton6 src =
     (if src \<noteq> [] \<and> hd src = CHR '':'' then
        (if tl src = [] \<or> hd (tl src) \<noteq> CHR '':'' then None
         else Option.bind (pton6_loop (tl src) (tl src) False 0 [] None) finish6)
      else Option.bind (pton6_loop src src False 0 [] None) finish6)"

abbreviation (input) AF_INET6 :: nat where "AF_INET6 \<equiv> 26"

text \<open>The result 1 with an address, 0 or -1.\<close>

definition free_inet_pton :: "nat \<Rightarrow> string \<Rightarrow> int \<times> u8 list option" where
  "free_inet_pton af src =
     (if af = AF_INET then (case inet_pton4 src of None \<Rightarrow> (0, None) | Some a \<Rightarrow> (1, Some a))
      else if af = AF_INET6 then (case inet_pton6 src of None \<Rightarrow> (0, None) | Some a \<Rightarrow> (1, Some a))
      else (-1, None))"

section \<open>Printing\<close>

definition text4 :: "u8 list \<Rightarrow> string" where
  "text4 src = dec_nat (unat (src ! 0)) @ ''.'' @ dec_nat (unat (src ! 1)) @ ''.'' @ dec_nat (unat (src ! 2)) @ ''.'' @ dec_nat (unat (src ! 3))"

text \<open>
  \<open>Some None\<close> is the null pointer with \<open>ENOSPC\<close>; \<open>None\<close> a terminator written past the end of the
  array of \<open>room\<close> characters, which the test allows when the text fills the array.
\<close>

definition inet_ntop4 :: "u8 list \<Rightarrow> nat \<Rightarrow> string option option" where
  "inet_ntop4 src room =
     (let tmp = text4 src in
      if length tmp > room then Some None
      else if length tmp < room then Some (Some tmp) else None)"

definition words6 :: "u8 list \<Rightarrow> nat list" where
  "words6 src = map (\<lambda>i. unat (src ! (2 * i)) * 256 + unat (src ! (2 * i + 1))) [0..<8]"

text \<open>The longest run of zero words; the base -1 of the source is \<open>None\<close>.\<close>

definition better :: "(nat \<times> nat) option \<Rightarrow> (nat \<times> nat) option \<Rightarrow> (nat \<times> nat) option" where
  "better best cur =
     (case cur of
        None \<Rightarrow> best
      | Some (b, n) \<Rightarrow> (case best of None \<Rightarrow> cur | Some (b1, n1) \<Rightarrow> if n > n1 then cur else best))"

fun runs6 :: "nat list \<Rightarrow> nat \<Rightarrow> (nat \<times> nat) option \<Rightarrow> (nat \<times> nat) option \<Rightarrow> (nat \<times> nat) option" where
  "runs6 [] i best cur = better best cur"
| "runs6 (w # ws) i best cur =
     (if w = 0 then runs6 ws (Suc i) best (Some (case cur of None \<Rightarrow> (i, 1) | Some (b, n) \<Rightarrow> (b, n + 1)))
      else runs6 ws (Suc i) (better best cur) None)"

definition best6 :: "nat list \<Rightarrow> (nat \<times> nat) option" where
  "best6 ws = (case runs6 ws 0 None None of None \<Rightarrow> None | Some (b, n) \<Rightarrow> if n < 2 then None else Some (b, n))"

fun hex_nat :: "nat \<Rightarrow> string" where
  "hex_nat n = (if n < 16 then [XDIGITS_L ! n] else hex_nat (n div 16) @ [XDIGITS_L ! (n mod 16)])"

declare hex_nat.simps [simp del]

definition in_run :: "(nat \<times> nat) option \<Rightarrow> nat \<Rightarrow> bool" where
  "in_run best i \<longleftrightarrow> (case best of None \<Rightarrow> False | Some (b, n) \<Rightarrow> b \<le> i \<and> i < b + n)"

definition v4_tail :: "(nat \<times> nat) option \<Rightarrow> nat list \<Rightarrow> nat \<Rightarrow> bool" where
  "v4_tail best ws i \<longleftrightarrow> i = 6 \<and> (best = Some (0, 6) \<or> best = Some (0, 5) \<and> ws ! 5 = 0xffff)"

text \<open>
  An IPv4 part starts at position 2 or 7 of the 46 characters of \<open>tmp\<close>, so \<open>inet_ntop4\<close> has room for
  its at most 15 characters and never returns the null pointer there.
\<close>

fun fmt6 :: "(nat \<times> nat) option \<Rightarrow> u8 list \<Rightarrow> nat list \<Rightarrow> nat list \<Rightarrow> string" where
  "fmt6 best src ws [] = []"
| "fmt6 best src ws (i # is) =
     (if in_run best i then (if Some i = map_option fst best then '':'' else []) @ fmt6 best src ws is
      else (if i \<noteq> 0 then '':'' else []) @
        (if v4_tail best ws i then text4 (drop 12 src) else hex_nat (ws ! i) @ fmt6 best src ws is))"

definition text6 :: "u8 list \<Rightarrow> string" where
  "text6 src =
     (let ws = words6 src; best = best6 ws in
      fmt6 best src ws [0..<8] @ (case best of Some (b, n) \<Rightarrow> if b + n = 8 then '':'' else [] | None \<Rightarrow> []))"

definition inet_ntop6 :: "u8 list \<Rightarrow> nat \<Rightarrow> string option" where
  "inet_ntop6 src room = (if length (text6 src) + 1 > room then None else Some (text6 src))"

definition free_inet_ntop :: "nat \<Rightarrow> u8 list \<Rightarrow> nat \<Rightarrow> string option option" where
  "free_inet_ntop af src room =
     (if af = AF_INET then inet_ntop4 src room
      else if af = AF_INET6 then Some (inet_ntop6 src room)
      else Some None)"

section \<open>The versions without IPv6\<close>

text \<open>
  \<open>inet_aton\<close>: \<open>acc\<close> and \<open>addr\<close> are of type \<open>unsigned long\<close>, 64 bits wide; the zero byte that ends the
  text is the last character of the loop.
\<close>

fun aton_loop :: "string \<Rightarrow> nat \<Rightarrow> 64 word \<Rightarrow> 64 word \<Rightarrow> (nat \<times> 64 word) option" where
  "aton_loop [] dots acc addr = (if acc > 255 then None else Some (dots, or (push_bit 8 addr) acc))"
| "aton_loop (cc # cp) dots acc addr =
     (if is_digit cc then aton_loop cp dots (acc * 10 + word_of_nat (digit_val cc)) addr
      else if cc = CHR ''.'' then
        (if dots + 1 > 3 then None
         else if acc > 255 then None
         else aton_loop cp (dots + 1) 0 (or (push_bit 8 addr) acc))
      else None)"

text \<open>The address as the four bytes that \<open>htonl\<close> makes of it.\<close>

definition inet_aton :: "string \<Rightarrow> u8 list option" where
  "inet_aton cp = do {
     (dots, addr) \<leftarrow> aton_loop cp 0 0 0;
     let addr1 = (if dots < 3 then push_bit (8 * (3 - dots)) addr else addr);
     Some (map (\<lambda>k. ucast (drop_bit (8 * k) addr1)) [3, 2, 1, 0])
   }"

definition ipv4_inet_pton :: "nat \<Rightarrow> string \<Rightarrow> int \<times> u8 list option" where
  "ipv4_inet_pton family strptr =
     (if family = AF_INET then (case inet_aton strptr of None \<Rightarrow> (0, None) | Some a \<Rightarrow> (1, Some a)) else (-1, None))"

definition ipv4_inet_ntop :: "nat \<Rightarrow> u8 list \<Rightarrow> nat \<Rightarrow> string option" where
  "ipv4_inet_ntop family src len =
     (if family = AF_INET then (if length (text4 src) \<ge> len then None else Some (text4 src)) else None)"

section \<open>Dotted quads\<close>

text \<open>What a dotted quad is: four numbers up to 255, with leading zeros as the user likes.\<close>

definition quad_part :: "string \<Rightarrow> bool" where
  "quad_part w \<longleftrightarrow> w \<noteq> [] \<and> list_all is_digit w \<and> digits_val 0 w \<le> 255"

definition quad :: "string \<Rightarrow> u8 list option" where
  "quad s =
     (let ws = split_on (CHR ''.'') s in
      if length ws = 4 \<and> list_all quad_part ws then Some (map (\<lambda>w. word_of_nat (digits_val 0 w)) ws) else None)"

lemma digits_val_mono: "acc \<le> digits_val acc w"
proof (induction w arbitrary: acc)
  case (Cons c w)
  show ?case
    using Cons.IH [of "10 * acc + digit_val c"] by simp
qed simp

lemma split_on_cons: "\<exists>w ws. split_on d s = w # ws"
  by (induction s) (auto split: list.splits)

lemma dot_not_digit: "\<not> is_digit (CHR ''.'')"
  by (simp add: is_digit_def)

definition quad_from :: "bool \<Rightarrow> nat list \<Rightarrow> nat \<Rightarrow> string list \<Rightarrow> nat list option" where
  "quad_from saw tmp tp ws =
     (if (saw \<or> hd ws \<noteq> []) \<and> list_all is_digit (hd ws) \<and> digits_val tp (hd ws) \<le> 255 \<and> list_all quad_part (tl ws) \<and> length tmp + length ws = 4
      then Some (tmp @ digits_val tp (hd ws) # map (digits_val 0) (tl ws)) else None)"

lemma pton4_loop_spec:
  assumes "tp \<le> 255" and "\<not> saw \<longrightarrow> tp = 0" and "length tmp \<le> 3" and "cnt = length tmp + (if saw then 1 else 0)"
  shows "pton4_loop s saw cnt tmp tp = quad_from saw tmp tp (split_on (CHR ''.'') s)"
  using assms
proof (induction s arbitrary: saw cnt tmp tp)
  case Nil
  then show ?case
    by (auto simp: quad_from_def)
next
  case (Cons ch s)
  obtain w ws where s: "split_on (CHR ''.'') s = w # ws"
    using split_on_cons by blast
  show ?case
  proof (cases "is_digit ch")
    case True
    then have ch: "ch \<noteq> CHR ''.''"
      using dot_not_digit by auto
    let ?new = "tp * 10 + digit_val ch"
    have e: "quad_from saw tmp tp (split_on (CHR ''.'') (ch # s)) = (if ?new > 255 then None else quad_from True tmp ?new (w # ws))"
      using s ch True digits_val_mono [of ?new w] by (auto simp: quad_from_def algebra_simps)
    show ?thesis
    proof (cases "?new > 255")
      case True
      then show ?thesis
        using e \<open>is_digit ch\<close> by (simp add: Let_def)
    next
      case False
      have "pton4_loop s True (length tmp + 1) tmp ?new = quad_from True tmp ?new (w # ws)"
        using Cons.IH [of ?new True tmp "length tmp + 1"] False Cons.prems(3) s by simp
      then show ?thesis
        using e \<open>is_digit ch\<close> False Cons.prems(3,4) by (cases saw) (simp_all add: Let_def)
    qed
  next
    case False
    show ?thesis
    proof (cases "ch = CHR ''.'' \<and> saw")
      case True
      have e: "quad_from saw tmp tp (split_on (CHR ''.'') (ch # s)) = (if length tmp = 3 then None else quad_from False (tmp @ [tp]) 0 (w # ws))"
        using s True Cons.prems(1,3) by (auto simp: quad_from_def quad_part_def)
      show ?thesis
      proof (cases "length tmp = 3")
        case True
        then show ?thesis
          using e False \<open>ch = CHR ''.'' \<and> saw\<close> Cons.prems(4) by simp
      next
        case False
        have "pton4_loop s False (length tmp + 1) (tmp @ [tp]) 0 = quad_from False (tmp @ [tp]) 0 (w # ws)"
          using Cons.IH [of 0 False "tmp @ [tp]" "length tmp + 1"] False Cons.prems(3) s by simp
        then show ?thesis
          using e False \<open>\<not> is_digit ch\<close> \<open>ch = CHR ''.'' \<and> saw\<close> Cons.prems(4) by simp
      qed
    next
      case no: False
      then show ?thesis
        using False s by (cases "ch = CHR ''.''") (simp_all add: quad_from_def)
    qed
  qed
qed

lemma pton4_quad: "inet_pton4 s = quad s"
proof -
  obtain w ws where s: "split_on (CHR ''.'') s = w # ws"
    using split_on_cons by blast
  have "pton4_loop s False 0 [] 0 = quad_from False [] 0 (w # ws)"
    using pton4_loop_spec [of 0 False "[]" 0 s] s by simp
  then show ?thesis
    by (auto simp: inet_pton4_def quad_def quad_from_def quad_part_def s Let_def)
qed

text \<open>
  The character loop of \<open>inet_pton4\<close> accepts exactly the dotted quads and returns their four
  numbers.
\<close>

theorem inet_pton4_quad: "inet_pton4 s = quad s"
  by (rule pton4_quad)

text \<open>It agrees with the system's \<open>inet_pton\<close> where that accepts a text.\<close>

lemma octet_part: "octet w = Some b \<Longrightarrow> quad_part w \<and> b = word_of_nat (digits_val 0 w)"
  by (auto simp: octet_def quad_part_def split: if_splits)

lemma inet_pton_extended:
  assumes "inet_pton s = Some (a, b, c, d)"
  shows "quad s = Some [a, b, c, d]"
proof -
  obtain p q r t where "split_on (CHR ''.'') s = [p, q, r, t]"
    using assms by (auto simp: inet_pton_def elim: octets.elims)
  then show ?thesis
    using assms octet_part by (auto simp: inet_pton_def quad_def bind_eq_Some_conv)
qed

lemma text4_ntop: "text4 (a # b # c # d # rest) = inet_ntop (a, b, c, d)"
  by (simp add: text4_def)

lemma pton4_text4: "4 \<le> length src \<Longrightarrow> quad (text4 src) = Some (take 4 src)"
proof -
  assume "4 \<le> length src"
  then obtain a b c d rest where s: "src = a # b # c # d # rest"
    by (auto simp: numeral_eq_Suc Suc_le_length_iff)
  show ?thesis
    unfolding s text4_ntop using inet_pton_extended [OF inet_roundtrip] by simp
qed

section \<open>The run of zeros\<close>

text \<open>A run of \<open>n\<close> zero words from \<open>b\<close> within the first \<open>k\<close> words.\<close>

definition zero_run :: "nat list \<Rightarrow> nat \<Rightarrow> nat \<times> nat \<Rightarrow> bool" where
  "zero_run ws k = (\<lambda>(b, n). b + n \<le> k \<and> (\<forall>i. b \<le> i \<longrightarrow> i < b + n \<longrightarrow> ws ! i = 0))"

lemma better_cases: "better best cur = best \<or> better best cur = cur"
  by (auto simp: better_def split: option.splits)

lemma runs6_run:
  assumes "\<forall>r. best = Some r \<longrightarrow> zero_run ws i r" and "\<forall>b n. cur = Some (b, n) \<longrightarrow> zero_run ws i (b, n) \<and> b + n = i"
    and "runs6 vs i best cur = Some r" and "drop i ws = vs" and "i \<le> length ws"
  shows "zero_run ws (length ws) r"
  using assms
proof (induction vs arbitrary: i best cur)
  case Nil
  then show ?case
    using better_cases [of best cur] by (cases r) (auto simp: zero_run_def)
next
  case (Cons v vs)
  have l: "i < length ws"
    using Cons.prems(4) by (cases "i < length ws") auto
  then have i: "i < length ws" "ws ! i = v" "drop (Suc i) ws = vs"
    using Cons_nth_drop_Suc [OF l] Cons.prems(4) by auto
  have up: "zero_run ws (Suc i) x" if "zero_run ws i x" for x
    using that by (cases x) (auto simp: zero_run_def)
  show ?case
  proof (cases "v = 0")
    case True
    let ?cur = "Some (case cur of None \<Rightarrow> (i, 1) | Some (b, n) \<Rightarrow> (b, n + 1))"
    have "\<forall>b n. ?cur = Some (b, n) \<longrightarrow> zero_run ws (Suc i) (b, n) \<and> b + n = Suc i"
      using Cons.prems(2) i(2) True by (auto simp: zero_run_def less_Suc_eq split: option.splits)
    then show ?thesis
      using Cons.IH [of best "Suc i" ?cur] Cons.prems(1,3) i True up by auto
  next
    case False
    have "\<forall>x. better best cur = Some x \<longrightarrow> zero_run ws (Suc i) x"
      using better_cases [of best cur] Cons.prems(1,2) up by auto
    then show ?thesis
      using Cons.IH [of "better best cur" "Suc i" None] Cons.prems(3) i False by simp
  qed
qed

lemma best6_run:
  assumes "best6 ws = Some (b, n)"
  shows "2 \<le> n" "b + n \<le> length ws" "b \<le> i \<Longrightarrow> i < b + n \<Longrightarrow> ws ! i = 0"
proof -
  have r: "runs6 ws 0 None None = Some (b, n)" "2 \<le> n"
    using assms by (auto simp: best6_def split: option.splits if_splits)
  have "zero_run ws (length ws) (b, n)"
    by (rule runs6_run [OF _ _ r(1)]) simp_all
  then show "2 \<le> n" "b + n \<le> length ws" "b \<le> i \<Longrightarrow> i < b + n \<Longrightarrow> ws ! i = 0"
    using r(2) by (auto simp: zero_run_def)
qed

section \<open>The shift\<close>

lemma shift_step:
  assumes "length bs = c + n" and "c + n + Suc z = 16" and "i < n"
  shows "((take (c + n - i) bs @ replicate (Suc z) 0 @ drop (c + n - i) bs)
      [16 - Suc i := (take (c + n - i) bs @ replicate (Suc z) 0 @ drop (c + n - i) bs) ! (c + n - Suc i)])[c + n - Suc i := 0] =
    take (c + n - Suc i) bs @ replicate (Suc z) 0 @ drop (c + n - Suc i) (bs :: u8 list)"
proof -
  define m where "m = c + n - Suc i"
  have m: "c + n - i = Suc m" "m < length bs" "16 - Suc i = m + Suc z"
    using assms by (auto simp: m_def)
  have t: "take (Suc m) bs = take m bs @ [bs ! m]" "drop m bs = bs ! m # drop (Suc m) bs"
    using m(2) by (simp_all add: take_Suc_conv_app_nth Cons_nth_drop_Suc)
  have r: "replicate (Suc z) (0 :: u8) = replicate z 0 @ [0]"
    by (metis replicate_Suc replicate_append_same)
  have l: "length (take m bs) = m"
    using m(2) by simp
  show ?thesis
    unfolding m_def [symmetric] m(1,3) t r using l by (simp add: list_update_append nth_append)
      (metis replicate_append_same append_Cons append_Nil)
qed

lemma shift6_moves:
  assumes "length bs = c + n" and "c + n < 16"
  shows "shift6 c n (bs @ replicate (16 - length bs) 0) = take c bs @ replicate (16 - length bs) 0 @ drop c bs"
proof -
  define z where "z = 16 - (c + n) - 1"
  have z: "c + n + Suc z = 16" "16 - length bs = Suc z"
    using assms by (auto simp: z_def)
  let ?f = "\<lambda>i arr. (arr[16 - i := arr ! (c + n - i)])[c + n - i := 0]"
  have "fold ?f [1..<Suc j] (bs @ replicate (Suc z) 0) = take (c + n - j) bs @ replicate (Suc z) 0 @ drop (c + n - j) bs" if "j \<le> n" for j
    using that
  proof (induction j)
    case 0
    then show ?case
      using assms(1) by simp
  next
    case (Suc j)
    have "[1..<Suc (Suc j)] = [1..<Suc j] @ [Suc j]"
      by simp
    then show ?case
      using Suc shift_step [OF assms(1) z(1), of j] by (simp only: fold_append fold_simps o_apply id_apply)
  qed
  from this [of n] show ?thesis
    unfolding shift6_def z(2) by simp
qed

text \<open>When no byte is missing, the loop clears what it should have kept.\<close>

lemma shift6_clears:
  assumes "length bs = 16" and "c + n = 16"
  shows "shift6 c n bs = take c bs @ replicate n 0"
proof -
  let ?f = "\<lambda>i arr. (arr[16 - i := arr ! (c + n - i)])[c + n - i := 0]"
  have f: "fold ?f [1..<Suc j] bs = take (16 - j) bs @ replicate j 0" if "j \<le> n" for j
    using that
  proof (induction j)
    case 0
    then show ?case
      using assms by simp
  next
    case (Suc j)
    have j: "Suc (15 - j) = 16 - j" "15 - j < length bs"
      using Suc.prems assms by auto
    then have t: "take (16 - j) bs = take (15 - j) bs @ [bs ! (15 - j)]"
      using take_Suc_conv_app_nth [OF j(2)] by simp
    have "[1..<Suc (Suc j)] = [1..<Suc j] @ [Suc j]"
      by simp
    moreover have "fold ?f [1..<Suc j] bs = take (15 - j) bs @ bs ! (15 - j) # replicate j 0"
      using Suc t by simp
    moreover have "length (take (15 - j) bs) = 15 - j"
      using assms(1) by simp
    ultimately show ?case
      unfolding assms(2) by (simp only: fold_append fold_simps o_apply id_apply) (simp add: list_update_append)
  qed
  have c: "16 - n = c"
    using assms(2) by simp
  show ?thesis
    unfolding shift6_def f [OF order_refl] c ..
qed

section \<open>Groups\<close>

lemma xdigit_val: "d < 16 \<Longrightarrow> xdigit (XDIGITS_L ! d) = Some d"
proof -
  have "\<forall>d \<in> set [0..<16]. xdigit (XDIGITS_L ! d) = Some d"
    by code_simp
  then show "d < 16 \<Longrightarrow> xdigit (XDIGITS_L ! d) = Some d"
    by simp
qed

lemma xdigit_sep: "xdigit (CHR '':'') = None" "xdigit (CHR ''.'') = None"
  by code_simp+

lemma loop_hex:
  assumes "w \<le> 0xffff"
  shows "pton6_loop (hex_nat w @ s) cur saw 0 tmp cp = pton6_loop s cur True w tmp cp"
  using assms
proof (induction w arbitrary: s saw rule: hex_nat.induct)
  case (1 w)
  show ?case
  proof (cases "w < 16")
    case True
    then show ?thesis
      using xdigit_val [of w] by (subst hex_nat.simps) simp
  next
    case False
    have "pton6_loop (hex_nat (w div 16) @ (XDIGITS_L ! (w mod 16)) # s) cur saw 0 tmp cp =
        pton6_loop ((XDIGITS_L ! (w mod 16)) # s) cur True (w div 16) tmp cp"
      using "1.IH" [OF False, of "(XDIGITS_L ! (w mod 16)) # s" saw] "1.prems" by (simp add: div_le_dividend le_trans)
    then show ?thesis
      using False xdigit_val [of "w mod 16"] "1.prems" by (subst hex_nat.simps) (simp add: Let_def)
  qed
qed

lemma loop_colon: "length tmp + 2 \<le> 16 \<Longrightarrow> pton6_loop (CHR '':'' # s) cur True v tmp cp = pton6_loop s s False 0 (tmp @ hextet v) cp"
  by (simp add: xdigit_sep)

lemma hextet_length [simp]: "length (hextet v) = 2"
  by (simp add: hextet_def)

abbreviation groups :: "nat list \<Rightarrow> u8 list" where
  "groups ws \<equiv> concat (map hextet ws)"

lemma groups_length [simp]: "length (groups ws) = 2 * length ws"
  by (induction ws) simp_all

abbreviation tail_text :: "nat list \<Rightarrow> string" where
  "tail_text ws \<equiv> concat (map (\<lambda>w. CHR '':'' # hex_nat w) ws)"

lemma loop_tail:
  assumes "\<forall>w \<in> set ws. w \<le> 0xffff" and "length tmp + 2 * length ws \<le> 16"
  shows "\<exists>cur1 tmp1 v1. pton6_loop (tail_text ws @ s) cur True v tmp cp = pton6_loop s cur1 True v1 tmp1 cp \<and>
    tmp1 @ hextet v1 = tmp @ hextet v @ groups ws"
  using assms
proof (induction ws arbitrary: cur v tmp)
  case Nil
  show ?case
    by (intro exI [of _ cur] exI [of _ tmp] exI [of _ v]) simp
next
  case (Cons w ws)
  let ?s = "hex_nat w @ tail_text ws @ s"
  have "pton6_loop (tail_text (w # ws) @ s) cur True v tmp cp = pton6_loop (tail_text ws @ s) ?s True w (tmp @ hextet v) cp"
    using Cons.prems loop_colon [of tmp ?s cur v cp] loop_hex [of w "tail_text ws @ s"] by simp
  then show ?case
    using Cons.IH [of "tmp @ hextet v" ?s w] Cons.prems by simp
qed

text \<open>A nonempty list of groups, as it stands at the front of a text or after the double colon.\<close>

lemma loop_groups:
  assumes "\<forall>w \<in> set (w # ws). w \<le> 0xffff" and "length tmp + 2 * length ws \<le> 16"
  shows "\<exists>cur1 tmp1 v1. pton6_loop (hex_nat w @ tail_text ws @ s) cur False 0 tmp cp = pton6_loop s cur1 True v1 tmp1 cp \<and>
    tmp1 @ hextet v1 = tmp @ groups (w # ws)"
  using loop_tail [of ws tmp s cur w cp] loop_hex [of w "tail_text ws @ s" cur False tmp cp] assms by auto

section \<open>The text of an IPv6 address\<close>

lemma words6_length [simp]: "length (words6 src) = 8"
  by (simp add: words6_def)

lemma words6_bound: "w \<in> set (words6 src) \<Longrightarrow> w \<le> 0xffff"
proof -
  assume "w \<in> set (words6 src)"
  then obtain i where w: "w = unat (src ! (2 * i)) * 256 + unat (src ! (2 * i + 1))"
    by (auto simp: words6_def)
  have "unat (src ! (2 * i)) < 256" "unat (src ! (2 * i + 1)) < 256"
    by (rule unat_lt8)+
  then show "w \<le> 0xffff"
    unfolding w by simp
qed

lemma hextet_bytes: "hextet (unat (a :: u8) * 256 + unat (b :: u8)) = [a, b]"
  using unat_lt8 [of b] by (simp add: hextet_def)

lemma groups_pairs: "length src = 2 * n \<Longrightarrow> groups (map (\<lambda>i. unat (src ! (2 * i)) * 256 + unat (src ! (2 * i + 1))) [0..<n]) = src"
proof (induction n arbitrary: src)
  case (Suc n)
  then obtain a b rest where s: "src = a # b # rest" "length rest = 2 * n"
    by (auto simp: length_Suc_conv numeral_2_eq_2)
  have "[0..<Suc n] = 0 # map Suc [0..<n]"
    by (metis map_Suc_upt upt_conv_Cons zero_less_Suc)
  then show ?case
    using Suc.IH [OF s(2)] unfolding s(1) by (simp add: hextet_bytes o_def del: upt_Suc)
qed simp

lemma groups_words6: "length src = 16 \<Longrightarrow> groups (words6 src) = src"
  using groups_pairs [of src 8] by (simp add: words6_def del: upt_Suc)

lemma groups_take: "take (2 * k) (groups ws) = groups (take k ws)"
proof (induction ws arbitrary: k)
  case (Cons w ws)
  then show ?case
    by (cases k) (simp_all add: hextet_def)
qed simp

lemma groups_drop: "drop (2 * k) (groups ws) = groups (drop k ws)"
proof (induction ws arbitrary: k)
  case (Cons w ws)
  then show ?case
    by (cases k) (simp_all add: hextet_def)
qed simp

lemma groups_zero: "\<forall>w \<in> set ws. w = 0 \<Longrightarrow> groups ws = replicate (2 * length ws) 0"
  by (induction ws) (simp_all add: hextet_def)

lemma fmt6_plain:
  assumes "\<forall>i \<in> set is. \<not> in_run best i \<and> i \<noteq> 0 \<and> \<not> v4_tail best ws i"
  shows "fmt6 best src ws (is @ js) = tail_text (map ((!) ws) is) @ fmt6 best src ws js"
  using assms by (induction "is") simp_all

lemma fmt6_inside: "\<forall>i \<in> set is. in_run best i \<and> Some i \<noteq> map_option fst best \<Longrightarrow> fmt6 best src ws (is @ js) = fmt6 best src ws js"
  by (induction "is") simp_all

lemma fmt6_run:
  assumes "0 < n"
  shows "fmt6 (Some (b, n)) src ws ([b..<b + n] @ js) = CHR '':'' # fmt6 (Some (b, n)) src ws js"
proof -
  have "[b..<b + n] = b # [Suc b..<b + n]"
    using assms by (simp add: upt_conv_Cons)
  then show ?thesis
    using assms fmt6_inside [of "[Suc b..<b + n]" "Some (b, n)" src ws js] by (simp add: in_run_def)
qed

lemma map_nth_upt: "i \<le> j \<Longrightarrow> j \<le> length ws \<Longrightarrow> map ((!) ws) [i..<j] = take (j - i) (drop i ws)"
  by (intro nth_equalityI) auto

text \<open>The part before the run.\<close>

lemma front6:
  assumes "0 < b" and "b \<le> 8" and "length ws = 8" and "\<forall>i < b. \<not> in_run best i \<and> \<not> v4_tail best ws i"
  shows "fmt6 best src ws ([0..<b] @ js) = hex_nat (ws ! 0) @ tail_text (take (b - 1) (drop 1 ws)) @ fmt6 best src ws js"
proof -
  have "[0..<b] = 0 # [1..<b]"
    using assms(1) by (simp add: upt_conv_Cons)
  moreover have "fmt6 best src ws ([1..<b] @ js) = tail_text (take (b - 1) (drop 1 ws)) @ fmt6 best src ws js"
    using fmt6_plain [of "[1..<b]" best ws src js] map_nth_upt [of 1 b ws] assms by (simp del: map_map)
  ultimately show ?thesis
    using assms(1,4) by simp
qed

section \<open>Parsing what was printed\<close>

lemma dec_xdigit: "is_digit c \<Longrightarrow> \<exists>d < 10. xdigit c = Some d"
proof -
  assume "is_digit c"
  then have "of_char c \<in> set [48..<58 :: nat]"
    unfolding set_upt by (simp add: is_digit_def)
  moreover have "\<forall>k \<in> set [48..<58 :: nat]. \<exists>d < 10. xdigit (char_of k) = Some d"
    by code_simp
  ultimately show ?thesis
    by (metis char_of_char)
qed

text \<open>The first number of a dotted quad is read as a group before the dot shows what it is.\<close>

lemma loop_decimal:
  assumes "\<forall>c \<in> set w. is_digit c" and "(v + 1) * 16 ^ length w \<le> 0x10000"
  shows "\<exists>saw1 v1. pton6_loop (w @ s) cur saw v tmp cp = pton6_loop s cur saw1 v1 tmp cp"
  using assms
proof (induction w arbitrary: saw v)
  case (Cons c w)
  obtain d where d: "d < 10" "xdigit c = Some d"
    using dec_xdigit Cons.prems(1) by auto
  have "(v * 16 + d + 1) * 16 ^ length w \<le> (v + 1) * 16 * 16 ^ length w"
    using d(1) by (intro mult_right_mono) auto
  also have "\<dots> = (v + 1) * 16 ^ length (c # w)"
    by (simp add: algebra_simps)
  finally have b: "(v * 16 + d + 1) * 16 ^ length w \<le> 0x10000"
    using Cons.prems(2) by linarith
  have "v * 16 + d + 1 \<le> (v * 16 + d + 1) * 16 ^ length w"
    using mult_le_mono2 [of 1 "16 ^ length w" "v * 16 + d + 1"] by (simp only: mult_1_right one_le_power)
  then have "v * 16 + d \<le> 0xffff"
    using b by linarith
  then show ?case
    using Cons.IH [of "v * 16 + d" True] Cons.prems(1) b d(2) by (simp add: Let_def)
qed auto

lemma loop_quad:
  assumes "length src = 4" and "length tmp + 4 \<le> 16"
  shows "\<exists>v. pton6_loop (text4 src) (text4 src) False 0 tmp cp = Some (tmp @ src, cp, False, v)"
proof -
  let ?w = "dec_nat (unat (src ! 0))"
  obtain rest where t: "text4 src = ?w @ CHR ''.'' # rest"
    by (simp add: text4_def)
  have "length ?w \<le> 3"
    by (rule dec_nat_short [OF unat_lt8])
  then have "(0 + 1) * 16 ^ length ?w \<le> (16 :: nat) ^ 3"
    using power_increasing [of "length ?w" 3 "16 :: nat"] by simp
  then obtain saw1 v1 where "pton6_loop (?w @ CHR ''.'' # rest) (text4 src) False 0 tmp cp = pton6_loop (CHR ''.'' # rest) (text4 src) saw1 v1 tmp cp"
    using loop_decimal [of ?w 0 "CHR ''.'' # rest" "text4 src" False tmp cp] dec_nat_digits [of "unat (src ! 0)"] by auto
  moreover have "inet_pton4 (text4 src) = Some src"
    unfolding pton4_quad using pton4_text4 [of src] assms(1) by simp
  ultimately show ?thesis
    using assms(2) t by (auto simp: xdigit_sep)
qed

abbreviation parse6 :: "string \<Rightarrow> string \<Rightarrow> u8 list \<Rightarrow> nat option \<Rightarrow> u8 list option" where
  "parse6 s cur tmp cp \<equiv> Option.bind (pton6_loop s cur False 0 tmp cp) finish6"

definition placed :: "nat \<Rightarrow> u8 list \<Rightarrow> u8 list" where
  "placed c bs = shift6 c (length bs - c) (bs @ replicate (16 - length bs) 0)"

text \<open>What follows the double colon.\<close>

lemma parse_groups:
  assumes "\<forall>w \<in> set ws. w \<le> 0xffff" and "ws \<noteq> []" and "length tmp + 2 * length ws \<le> 16"
  shows "parse6 (hex_nat (hd ws) @ tail_text (tl ws)) cur tmp (Some c) = Some (placed c (tmp @ groups ws))"
proof -
  obtain w vs where ws: "ws = w # vs"
    using assms(2) by (cases ws) auto
  obtain cur1 tmp1 v1 where l: "pton6_loop (hex_nat w @ tail_text vs @ []) cur False 0 tmp (Some c) = pton6_loop [] cur1 True v1 tmp1 (Some c)"
    "tmp1 @ hextet v1 = tmp @ groups ws"
    using loop_groups [of w vs tmp "[]" cur "Some c"] assms(1,3) unfolding ws by auto
  have "length tmp1 + 2 \<le> 16"
    using arg_cong [OF l(2), of length] assms(3) by simp
  then have "finish6 (tmp1, Some c, True, v1) = Some (placed c (tmp1 @ hextet v1))"
    by (simp add: finish6_def placed_def)
  then show ?thesis
    using l(1) ws unfolding l(2) by simp
qed

lemma parse_end: "parse6 [] cur tmp (Some c) = Some (placed c tmp)"
  by (simp add: finish6_def placed_def)

lemma parse_quad:
  assumes "length src = 4" and "length tmp + 4 \<le> 16"
  shows "parse6 (text4 src) (text4 src) tmp (Some c) = Some (placed c (tmp @ src))"
  using loop_quad [OF assms, of "Some c"] by (auto simp: finish6_def placed_def)

lemma parse_group_quad:
  assumes "length src = 4" and "w \<le> 0xffff" and "length tmp + 6 \<le> 16"
  shows "parse6 (hex_nat w @ CHR '':'' # text4 src) cur tmp (Some c) = Some (placed c (tmp @ hextet w @ src))"
  using loop_hex [OF assms(2), of "CHR '':'' # text4 src" cur False tmp "Some c"] loop_colon [of tmp "text4 src" cur w "Some c"]
    parse_quad [OF assms(1), of "tmp @ hextet w" c] assms(3) by simp

lemma back6:
  assumes "length src = 16" and "ws = words6 src" and "best6 ws = Some (b, n)" and "length tmp = 2 * b"
  shows "\<exists>back. fmt6 (Some (b, n)) src ws [b + n..<8] @ (if b + n = 8 then '':'' else []) = CHR '':'' # back \<and>
    parse6 back back tmp (Some c) = Some (placed c (tmp @ drop (2 * (b + n)) src))"
proof -
  have r: "2 \<le> n" "b + n \<le> 8"
    using best6_run(1,2) [OF assms(3)] assms(2) by simp_all
  have ws: "length ws = 8" "\<forall>w \<in> set ws. w \<le> 0xffff" "groups (drop k ws) = drop (2 * k) src" for k
    using words6_bound groups_words6 [OF assms(1)] groups_drop [of k ws] by (auto simp: assms(2))
  consider (all) "b + n = 8" | (quad) "b = 0" "n = 6" | (mapped) "b = 0" "n = 5" "ws ! 5 = 0xffff"
    | (plain) "b + n < 8" "\<not> v4_tail (Some (b, n)) ws 6"
    using r(2) unfolding v4_tail_def by fastforce
  then show ?thesis
  proof cases
    case all
    then show ?thesis
      using parse_end [of "[]" tmp c] assms(1) by simp
  next
    case quad
    have "fmt6 (Some (b, n)) src ws [b + n..<8] = CHR '':'' # text4 (drop 12 src)"
      unfolding quad by (simp add: upt_rec in_run_def v4_tail_def)
    then show ?thesis
      using parse_quad [of "drop 12 src" tmp c] assms(1,4) quad by simp
  next
    case mapped
    have "fmt6 (Some (b, n)) src ws [b + n..<8] = CHR '':'' # hex_nat 0xffff @ CHR '':'' # text4 (drop 12 src)"
      unfolding mapped(1,2) using mapped(3) by (simp add: upt_rec in_run_def v4_tail_def)
    moreover have "drop 5 ws = 0xffff # drop 6 ws"
      using Cons_nth_drop_Suc [of 5 ws] ws(1) mapped(3) by simp
    then have "hextet 0xffff @ drop 12 src = drop 10 src"
      using ws(3) [of 5] ws(3) [of 6] by simp
    ultimately show ?thesis
      using parse_group_quad [where src = "drop 12 src" and w = "0xffff" and tmp = tmp and c = c] assms(1,4) mapped by simp
  next
    case plain
    let ?vs = "drop (b + n) ws"
    have p: "\<forall>i \<in> set [b + n..<8]. \<not> in_run (Some (b, n)) i \<and> i \<noteq> 0 \<and> \<not> v4_tail (Some (b, n)) ws i"
      using r plain(2) by (auto simp: in_run_def v4_tail_def)
    have "map ((!) ws) [b + n..<8] = ?vs"
      using map_nth_upt [of "b + n" 8 ws] r(2) ws(1) by simp
    then have f: "fmt6 (Some (b, n)) src ws [b + n..<8] = tail_text ?vs"
      using fmt6_plain [OF p, of src "[]"] by (simp del: map_map)
    obtain v vs where v: "?vs = v # vs"
      using plain(1) ws(1) by (cases ?vs) auto
    have "parse6 (hex_nat (hd ?vs) @ tail_text (tl ?vs)) cur tmp (Some c) = Some (placed c (tmp @ groups ?vs))" for cur
    proof (rule parse_groups)
      show "\<forall>w \<in> set ?vs. w \<le> 0xffff"
        using ws(2) by (auto dest: in_set_dropD)
      show "?vs \<noteq> []"
        using v by simp
      show "length tmp + 2 * length ?vs \<le> 16"
        using assms(4) ws(1) r by simp
    qed
    then show ?thesis
      using f v ws(3) [of "b + n"] plain(1) by simp
  qed
qed

lemma placed_back:
  assumes "length src = 16" and "best6 (words6 src) = Some (b, n)"
  shows "placed (2 * b) (take (2 * b) src @ drop (2 * (b + n)) src) = src"
proof -
  let ?ws = "words6 src"
  have r: "2 \<le> n" "b + n \<le> 8" "\<And>i. b \<le> i \<Longrightarrow> i < b + n \<Longrightarrow> ?ws ! i = 0"
    using best6_run [OF assms(2)] by simp_all
  let ?bs = "take (2 * b) src @ drop (2 * (b + n)) src"
  have l: "length ?bs = 2 * b + (16 - 2 * (b + n))" "16 - length ?bs = 2 * n"
    using assms(1) r(2) by simp_all
  have "\<forall>w \<in> set (take n (drop b ?ws)). w = 0"
    using r(2,3) by (auto simp: in_set_conv_nth)
  then have "groups (take n (drop b ?ws)) = replicate (2 * n) 0"
    using groups_zero [of "take n (drop b ?ws)"] r(2) by simp
  then have z: "take (2 * n) (drop (2 * b) src) = replicate (2 * n) 0"
    using groups_take [of n "drop b ?ws"] groups_drop [of b ?ws] groups_words6 [OF assms(1)] by simp
  have "placed (2 * b) ?bs = take (2 * b) ?bs @ replicate (16 - length ?bs) 0 @ drop (2 * b) ?bs"
    unfolding placed_def using l r(1,2) by (intro shift6_moves) simp_all
  also have "\<dots> = take (2 * b) src @ take (2 * n) (drop (2 * b) src) @ drop (2 * (b + n)) src"
    unfolding l(2) z using assms(1) r(2) by simp
  also have "\<dots> = src"
    by (metis add.commute append_take_drop_id distrib_left drop_drop)
  finally show ?thesis .
qed

lemma hex_not_colon: "\<exists>c cs. hex_nat w = c # cs \<and> c \<noteq> CHR '':''"
proof (induction w rule: hex_nat.induct)
  case (1 w)
  have "\<forall>d \<in> set [0..<16]. XDIGITS_L ! d \<noteq> CHR '':''"
    by code_simp
  then have "XDIGITS_L ! d \<noteq> CHR '':''" if "d < 16" for d
    using that unfolding set_upt by simp
  then show ?case
    using "1.IH" by (subst hex_nat.simps) auto
qed

lemma loop_double: "pton6_loop (CHR '':'' # s) cur False 0 tmp None = pton6_loop s s False 0 tmp (Some (length tmp))"
  by (simp add: xdigit_sep)

lemma parse_full:
  assumes "length ws = 8" and "\<forall>w \<in> set ws. w \<le> 0xffff"
  shows "parse6 (hex_nat (ws ! 0) @ tail_text (drop 1 ws)) cur [] None = Some (groups ws)"
proof -
  have ws: "ws = ws ! 0 # drop 1 ws"
    using Cons_nth_drop_Suc [of 0 ws] assms(1) by simp
  have b: "\<forall>w \<in> set (ws ! 0 # drop 1 ws). w \<le> 0xffff"
    using assms(2) ws by metis
  obtain cur1 tmp1 v1 where l: "pton6_loop (hex_nat (ws ! 0) @ tail_text (drop 1 ws) @ []) cur False 0 [] None = pton6_loop [] cur1 True v1 tmp1 None"
    "tmp1 @ hextet v1 = [] @ groups (ws ! 0 # drop 1 ws)"
    using loop_groups [OF b, of "[]" "[]" cur None] assms(1) by auto
  then have e: "tmp1 @ hextet v1 = groups ws"
    unfolding ws [symmetric] by simp
  have "length tmp1 + 2 = 16"
    using arg_cong [OF e, of length] assms(1) by simp
  then have "finish6 (tmp1, None, True, v1) = Some (tmp1 @ hextet v1)"
    by (simp add: finish6_def)
  then show ?thesis
    using l(1) e by simp
qed

lemma parse_front:
  assumes "length ws = 8" and "\<forall>w \<in> set ws. w \<le> 0xffff" and "0 < b" and "b \<le> 7"
  shows "parse6 (hex_nat (ws ! 0) @ tail_text (take (b - 1) (drop 1 ws)) @ CHR '':'' # CHR '':'' # back) cur [] None =
    parse6 back back (groups (take b ws)) (Some (2 * b))"
proof -
  let ?vs = "take (b - 1) (drop 1 ws)" and ?s = "CHR '':'' # CHR '':'' # back"
  have ws: "take b ws = ws ! 0 # ?vs"
    using assms(1,3) by (cases ws; cases b) auto
  have b: "\<forall>w \<in> set (ws ! 0 # ?vs). w \<le> 0xffff"
    using assms(2) unfolding ws [symmetric] by (auto dest: in_set_takeD)
  have n0: "length ([] :: u8 list) + 2 * length ?vs \<le> 16"
    using assms(1,4) by simp
  obtain cur1 tmp1 v1 where l: "pton6_loop (hex_nat (ws ! 0) @ tail_text ?vs @ ?s) cur False 0 [] None = pton6_loop ?s cur1 True v1 tmp1 None"
    "tmp1 @ hextet v1 = [] @ groups (ws ! 0 # ?vs)"
    using loop_groups [OF b n0, where s = ?s and cur = cur and cp = None] by blast
  have e: "tmp1 @ hextet v1 = groups (take b ws)"
    unfolding ws using l(2) by simp
  have n: "length tmp1 + 2 \<le> 16" "length (groups (take b ws)) = 2 * b"
    using arg_cong [OF e, of length] assms(1,4) by simp_all
  show ?thesis
    unfolding l(1) loop_colon [OF n(1)] e loop_double n(2) ..
qed

lemma text6_parses:
  assumes "length src = 16"
  shows "inet_pton6 (text6 src) = Some src"
proof -
  let ?ws = "words6 src"
  have ws: "length ?ws = 8" "\<forall>w \<in> set ?ws. w \<le> 0xffff" "groups ?ws = src"
    using words6_bound groups_words6 [OF assms] by auto
  have nc: "inet_pton6 (hex_nat w @ s) = parse6 (hex_nat w @ s) (hex_nat w @ s) [] None" for w s
    using hex_not_colon [of w] by (auto simp: inet_pton6_def)
  show ?thesis
  proof (cases "best6 ?ws")
    case None
    have "fmt6 None src ?ws ([0..<8] @ []) = hex_nat (?ws ! 0) @ tail_text (take (8 - 1) (drop 1 ?ws)) @ fmt6 None src ?ws []"
      by (rule front6) (simp_all add: in_run_def v4_tail_def)
    then have "text6 src = hex_nat (?ws ! 0) @ tail_text (drop 1 ?ws)"
      using None by (simp add: text6_def Let_def)
    then show ?thesis
      using nc parse_full [OF ws(1,2)] ws(3) by simp
  next
    case (Some r)
    obtain b n where r: "r = (b, n)"
      by (cases r)
    have run: "2 \<le> n" "b + n \<le> 8"
      using best6_run(1,2) [of ?ws b n] Some r by simp_all
    have t: "groups (take b ?ws) = take (2 * b) src"
      using groups_take [of b ?ws] ws(3) by simp
    obtain rest where rest: "fmt6 (Some (b, n)) src ?ws [b + n..<8] @ (if b + n = 8 then '':'' else []) = CHR '':'' # rest"
      "parse6 rest rest (take (2 * b) src) (Some (2 * b)) = Some (placed (2 * b) (take (2 * b) src @ drop (2 * (b + n)) src))"
      using back6 [OF assms refl, of b n "take (2 * b) src" "2 * b"] Some r run(2) assms by auto
    have idx: "[0..<8] = [0..<b] @ [b..<b + n] @ [b + n..<8]"
      using run(2) by (metis append_assoc le_add_diff_inverse le0 upt_add_eq_append)
    have run_text: "fmt6 (Some (b, n)) src ?ws ([b..<b + n] @ [b + n..<8]) = CHR '':'' # fmt6 (Some (b, n)) src ?ws [b + n..<8]"
      using run(1) by (intro fmt6_run) simp
    show ?thesis
    proof (cases "b = 0")
      case True
      then have "text6 src = CHR '':'' # CHR '':'' # rest"
        using Some r run_text rest(1) idx by (simp add: text6_def Let_def)
      then show ?thesis
        using rest(2) placed_back [OF assms, of b n] Some r True loop_double [of rest "CHR '':'' # rest" "[]"] by (simp add: inet_pton6_def)
    next
      case False
      have "\<forall>i < b. \<not> in_run (Some (b, n)) i \<and> \<not> v4_tail (Some (b, n)) ?ws i"
        using False by (auto simp: in_run_def v4_tail_def)
      then have "fmt6 (Some (b, n)) src ?ws [0..<8] = hex_nat (?ws ! 0) @ tail_text (take (b - 1) (drop 1 ?ws)) @ CHR '':'' # fmt6 (Some (b, n)) src ?ws [b + n..<8]"
        unfolding idx using front6 [of b ?ws "Some (b, n)" src] run_text False run by simp
      then have "text6 src = hex_nat (?ws ! 0) @ tail_text (take (b - 1) (drop 1 ?ws)) @ CHR '':'' # CHR '':'' # rest"
        using Some r rest(1) by (simp add: text6_def Let_def)
      then show ?thesis
        using nc parse_front [OF ws(1,2), of b rest] False run t rest(2) placed_back [OF assms, of b n] Some r by simp
    qed
  qed
qed

lemma hex_nat_length: "w \<le> 0xffff \<Longrightarrow> length (hex_nat w) \<le> 4"
proof -
  have step: "length (hex_nat w) \<le> Suc n" if "\<And>v. v < 16 ^ n \<Longrightarrow> length (hex_nat v) \<le> n" "w < 16 ^ Suc n" "0 < n" for n w
    using that hex_nat.simps [of w] by (cases "w < 16") (simp_all add: div_less_iff_less_mult algebra_simps)
  have "length (hex_nat v) \<le> 1" if "v < 16 ^ 1" for v
    using that by (simp add: hex_nat.simps [of v])
  from step [OF this] have "length (hex_nat v) \<le> 2" if "v < 16 ^ 2" for v
    using that by (simp add: numeral_2_eq_2)
  from step [OF this] have "length (hex_nat v) \<le> 3" if "v < 16 ^ 3" for v
    using that by (simp add: numeral_3_eq_3 numeral_2_eq_2)
  from step [OF this] show "w \<le> 0xffff \<Longrightarrow> length (hex_nat w) \<le> 4"
    by simp
qed

lemma dec_byte_length: "length (dec_nat (unat (b :: u8))) \<le> 3"
proof -
  have b: "unat b < 256"
    using unsigned_less [of b] by simp
  have "length (dec_nat n) \<le> 3" if "n < 1000" for n
    using that by (simp add: dec_nat.simps [of n] dec_nat.simps [of "n div 10"] dec_nat.simps [of "n div 10 div 10"])
  from this [of "unat b"] b show ?thesis
    by simp
qed

lemma text4_length: "length (text4 src) \<le> 15"
  using dec_byte_length [of "src ! 0"] dec_byte_length [of "src ! 1"] dec_byte_length [of "src ! 2"] dec_byte_length [of "src ! 3"]
  by (simp add: text4_def)

lemma fmt6_length:
  assumes "\<forall>i. \<not> v4_tail best ws i" and "\<forall>i \<in> set is. ws ! i \<le> 0xffff"
  shows "length (fmt6 best src ws is) \<le> 5 * length is"
  using assms(2)
proof (induction "is")
  case (Cons i "is")
  then show ?case
    using hex_nat_length [of "ws ! i"] assms(1) by (cases "i = 0") simp_all
qed simp

lemma text6_length: "length (text6 src) \<le> 45"
proof -
  let ?ws = "words6 src" and ?best = "best6 (words6 src)"
  have h: "ws_i \<le> 0xffff" if "ws_i \<in> set ?ws" for ws_i
    using words6_bound [OF that] .
  show ?thesis
  proof (cases "?best = Some (0, 6) \<or> ?best = Some (0, 5) \<and> ?ws ! 5 = 0xffff")
    case True
    have u: "[0..<8] = [0, 1, 2, 3, 4, 5, 6, 7 :: nat]"
      by code_simp
    have hex: "length (hex_nat 0xffff) \<le> 4"
      by (rule hex_nat_length) simp
    from True show ?thesis
    proof
      assume "?best = Some (0, 6)"
      then show ?thesis
        using text4_length [of "drop 12 src"] by (simp add: text6_def Let_def u in_run_def v4_tail_def)
    next
      assume "?best = Some (0, 5) \<and> ?ws ! 5 = 0xffff"
      then show ?thesis
        using text4_length [of "drop 12 src"] hex by (simp add: text6_def Let_def u in_run_def v4_tail_def)
    qed
  next
    case False
    then have "length (fmt6 ?best src ?ws [0..<8]) \<le> 5 * 8"
      using fmt6_length [of ?best ?ws "[0..<8]" src] h by (auto simp: v4_tail_def)
    then show ?thesis
      by (auto simp: text6_def Let_def split: option.splits)
  qed
qed

text \<open>
  C14: whatever \<open>inet_ntop\<close> prints for an IPv6 address is parsed back to it by \<open>inet_pton\<close>, whatever run
  of zeros is abbreviated and whether or not the last four bytes are printed as a dotted quad; and an
  array of 46 characters has room for every address.
\<close>

theorem inet6_roundtrip:
  assumes "length src = 16"
  shows "(free_inet_ntop AF_INET6 src room = Some (Some s) \<longrightarrow> free_inet_pton AF_INET6 s = (1, Some src)) \<and>
    (46 \<le> room \<longrightarrow> (\<exists>s. free_inet_ntop AF_INET6 src room = Some (Some s)))"
  using text6_parses [OF assms] text6_length [of src] by (auto simp: free_inet_ntop_def free_inet_pton_def inet_ntop6_def)

definition local6 :: "u8 list" where
  "local6 = replicate 15 0 @ [1]"

theorem inet6_roundtrip_witness: "free_inet_ntop AF_INET6 local6 46 = Some (Some ''::1'') \<and> free_inet_pton AF_INET6 ''::1'' = (1, Some local6)"
proof -
  have "free_inet_ntop AF_INET6 local6 46 = Some (Some ''::1'')"
    by code_simp
  moreover have "length local6 = 16"
    by (simp add: local6_def)
  ultimately show ?thesis
    using inet6_roundtrip [of local6 46 "''::1''"] by blast
qed

text \<open>
  A double colon in a text that already has all eight groups is not ignored, as the comment on
  \<open>inet_pton6\<close> says: the loop that should move the bytes after it clears them.
\<close>

theorem full_text_cleared:
  assumes "length ws = 8" and "\<forall>w \<in> set ws. w \<le> 0xffff" and "0 < b" and "b \<le> 7"
    and "s = hex_nat (ws ! 0) @ tail_text (take (b - 1) (drop 1 ws)) @ '':'' @ tail_text (drop b ws)"
  shows "free_inet_pton AF_INET6 s = (1, Some (groups (take b ws) @ replicate (16 - 2 * b) 0))"
proof -
  let ?vs = "drop b ws"
  obtain v vs where v: "?vs = v # vs"
    using assms(1,4) by (cases ?vs) auto
  let ?rest = "hex_nat (hd ?vs) @ tail_text (tl ?vs)"
  have s: "s = hex_nat (ws ! 0) @ tail_text (take (b - 1) (drop 1 ws)) @ CHR '':'' # CHR '':'' # ?rest"
    unfolding assms(5) v by simp
  have "parse6 ?rest ?rest (groups (take b ws)) (Some (2 * b)) = Some (placed (2 * b) (groups (take b ws) @ groups ?vs))"
  proof (rule parse_groups)
    show "\<forall>w \<in> set ?vs. w \<le> 0xffff"
      using assms(2) by (auto dest: in_set_dropD)
    show "?vs \<noteq> []"
      using v by simp
    show "length (groups (take b ws)) + 2 * length ?vs \<le> 16"
      using assms(1,4) by simp
  qed
  moreover have "groups (take b ws) @ groups ?vs = groups ws"
    by (metis append_take_drop_id concat_append map_append)
  moreover have "placed (2 * b) (groups ws) = groups (take b ws) @ replicate (16 - 2 * b) 0"
    unfolding placed_def using shift6_clears [of "groups ws" "2 * b" "16 - 2 * b"] groups_take [of b ws] assms(1,4) by simp
  moreover have "inet_pton6 s = parse6 s s [] None"
    using hex_not_colon [of "ws ! 0"] unfolding s by (auto simp: inet_pton6_def)
  ultimately show ?thesis
    using parse_front [OF assms(1-4), of ?rest s] s by (simp add: free_inet_pton_def)
qed

theorem full_text_cleared_witness:
  "free_inet_pton AF_INET6 ''1:2:3:4:5:6:7::8'' = (1, Some [0, 1, 0, 2, 0, 3, 0, 4, 0, 5, 0, 6, 0, 7, 0, 0])"
proof -
  have s: "''1:2:3:4:5:6:7::8'' = hex_nat ([1, 2, 3, 4, 5, 6, 7, 8] ! 0) @ tail_text (take (7 - 1) (drop 1 [1, 2, 3, 4, 5, 6, 7, 8])) @ '':'' @
      tail_text (drop 7 [1, 2, 3, 4, 5, 6, 7, 8])"
    by code_simp
  have g: "groups (take 7 [1, 2, 3, 4, 5, 6, 7, 8]) @ replicate (16 - 2 * 7) 0 = [0, 1, 0, 2, 0, 3, 0, 4, 0, 5, 0, 6, 0, 7, 0, 0]"
    by code_simp
  show ?thesis
    using full_text_cleared [OF _ _ _ _ s] unfolding g by simp
qed

section \<open>\<open>inet_aton\<close>\<close>

lemma or_byte: "or (push_bit 8 x) y = x * 256 + y" if "y \<le> 255" for x y :: "64 word"
proof -
  have "and (push_bit 8 x) y = 0"
  proof (rule bit_word_eqI)
    fix n
    have "y = take_bit 8 y"
      using that by (simp add: word_unat_eq_iff unsigned_take_bit_eq take_bit_nat_eq_self word_le_nat_alt)
    then have "\<not> bit y n" if "8 \<le> n"
      by (metis bit_take_bit_iff that not_le)
    then show "bit (and (push_bit 8 x) y) n \<longleftrightarrow> bit 0 n"
      by (auto simp: bit_and_iff bit_push_bit_iff)
  qed
  then show ?thesis
    by (simp add: disjunctive_add_eq_or [symmetric] push_bit_eq_mult)
qed

lemma aton_digits:
  assumes "list_all is_digit w" and "digits_val n w \<le> 255"
  shows "aton_loop (w @ s) dots (word_of_nat n) addr = aton_loop s dots (word_of_nat (digits_val n w)) addr"
  using assms
proof (induction w arbitrary: n)
  case (Cons c w)
  then show ?case
    using Cons.IH [of "10 * n + digit_val c"] by (simp add: mult.commute)
qed simp

lemma byte_of_nat: "n \<le> 255 \<Longrightarrow> \<not> (255 :: 64 word) < word_of_nat n"
  by (simp add: word_less_nat_alt unat_of_nat take_bit_nat_eq_self)

lemma byte_le: "n \<le> 255 \<Longrightarrow> word_of_nat n \<le> (255 :: 64 word)"
  using byte_of_nat [of n] by (simp add: not_less)

lemma split_join: "split_on d s = w # ws \<Longrightarrow> s = w @ concat (map (\<lambda>v. d # v) ws)"
proof (induction s arbitrary: w ws)
  case (Cons c s)
  obtain v vs where v: "split_on d s = v # vs"
    using split_on_cons by blast
  have s: "s = v @ concat (map (\<lambda>v. d # v) vs)"
    by (rule Cons.IH [OF v])
  show ?case
  proof (cases "c = d")
    case True
    then have "w = []" "ws = v # vs"
      using Cons.prems v by simp_all
    then show ?thesis
      using True s by simp
  next
    case False
    then have "w = c # v" "ws = vs"
      using Cons.prems v by simp_all
    then show ?thesis
      using s by simp
  qed
qed simp

lemma aton_part:
  assumes "quad_part w" and "dots < 3"
  shows "aton_loop (w @ CHR ''.'' # s) dots 0 addr = aton_loop s (Suc dots) 0 (addr * 256 + word_of_nat (digits_val 0 w))"
  using aton_digits [of w 0 "CHR ''.'' # s" dots addr] or_byte [OF byte_le] byte_of_nat assms dot_not_digit by (simp add: quad_part_def)

lemma aton_last:
  assumes "quad_part w"
  shows "aton_loop w dots 0 addr = Some (dots, addr * 256 + word_of_nat (digits_val 0 w))"
  using aton_digits [of w 0 "[]" dots addr] or_byte [OF byte_le] byte_of_nat assms by (simp add: quad_part_def)

lemma byte_at:
  assumes "n < 2 ^ 64"
  shows "(ucast (drop_bit k (word_of_nat n :: 64 word)) :: u8) = word_of_nat (n div 2 ^ k)"
proof -
  have "unat (drop_bit k (word_of_nat n :: 64 word)) = n div 2 ^ k"
    unfolding unat_drop_bit_eq using assms by (simp add: unsigned_of_nat take_bit_nat_eq_self drop_bit_eq_div)
  then show ?thesis
    by (simp only: word_unat_eq_iff unsigned_ucast_eq unsigned_of_nat of_nat_id)
qed

text \<open>
  \<open>inet_aton\<close> reads every dotted quad as \<open>inet_pton\<close> does.
\<close>

theorem aton_reads_quads:
  assumes "free_inet_pton AF_INET s = (1, Some bs)"
  shows "ipv4_inet_pton AF_INET s = (1, Some bs)"
proof -
  have q: "quad s = Some bs"
    using assms by (simp add: free_inet_pton_def pton4_quad split: option.splits)
  then obtain ws where ws: "split_on (CHR ''.'') s = ws" "length ws = 4" "list_all quad_part ws" "bs = map (\<lambda>w. word_of_nat (digits_val 0 w)) ws"
    by (auto simp: quad_def Let_def split: if_splits)
  then obtain a b c d where abcd: "ws = [a, b, c, d]"
    by (auto simp: numeral_eq_Suc length_Suc_conv)
  have s: "s = a @ CHR ''.'' # b @ CHR ''.'' # c @ CHR ''.'' # d"
    using split_join [OF ws(1) [unfolded abcd]] by simp
  have p: "quad_part a" "quad_part b" "quad_part c" "quad_part d"
    using ws(3) unfolding abcd by simp_all
  define n where "n = ((digits_val 0 a * 256 + digits_val 0 b) * 256 + digits_val 0 c) * 256 + digits_val 0 d"
  have "aton_loop s 0 0 0 = Some (3, word_of_nat n)"
    unfolding s n_def using p by (simp add: aton_part aton_last numeral_3_eq_3)
  moreover have v: "digits_val 0 a \<le> 255" "digits_val 0 b \<le> 255" "digits_val 0 c \<le> 255" "digits_val 0 d \<le> 255"
    using p by (simp_all add: quad_part_def)
  then have "n < 2 ^ 64"
    by (simp add: n_def)
  ultimately have "inet_aton s = Some (map (\<lambda>k. word_of_nat (n div 2 ^ (8 * k))) [3, 2, 1, 0])"
    using byte_at [of n 0] by (simp add: inet_aton_def byte_at)
  moreover have "n div 2 ^ 24 = digits_val 0 a" "n div 2 ^ 16 = digits_val 0 a * 256 + digits_val 0 b"
    "n div 2 ^ 8 = (digits_val 0 a * 256 + digits_val 0 b) * 256 + digits_val 0 c"
    using v by (simp_all add: n_def)
  moreover have z: "x * 256 = 0" "65536 * x = 0" "16777216 * x = 0" for x :: u8
    by (simp_all add: word_unat_eq_iff unat_word_ariths)
  ultimately have "inet_aton s = Some bs"
    unfolding ws(4) abcd by (simp add: n_def z)
  then show ?thesis
    by (simp add: ipv4_inet_pton_def)
qed

theorem aton_reads_quads_witness: "ipv4_inet_pton AF_INET ''130.245.156.21'' = (1, Some [130, 245, 156, 21])"
proof -
  have "free_inet_pton AF_INET ''130.245.156.21'' = (1, Some [130, 245, 156, 21])"
    by code_simp
  then show ?thesis
    by (rule aton_reads_quads)
qed

text \<open>
  It also accepts the empty text, abbreviations that it fills up on the right, and a number that
  wraps around to a small one.
\<close>

lemma aton_accepts:
  "inet_aton [] = Some [0, 0, 0, 0]" "inet_aton ''127.1'' = Some [127, 1, 0, 0]" "inet_aton ''18446744073709551617'' = Some [1, 0, 0, 0]"
  by code_simp+

end
