(* ===== verification/Gai.thy ===== *)
theory Gai
  imports Inet_Text Lib_Io
begin

text \<open>
  Names and addresses: \<open>getaddrinfo\<close>, \<open>freeaddrinfo\<close> and \<open>getnameinfo\<close> of \<open>src/unpv13e/libgai\<close>.  The data
  bases of hosts and services, the name of the host and its byte order are parameters (\<open>resolver\<close>);
  the conversions of text are those of \<open>Inet_Text\<close>.  A linked list of structures is a list.  The
  heap counts the blocks that are allocated and those that can still be had: the functions give up
  at the first allocation that fails, so the number of successful ones decides everything.
  The results are in an \<open>option\<close>: \<open>None\<close> is \<open>err_quit\<close>, or an access outside an object.
\<close>

section \<open>The environment\<close>

datatype h_error = HOST_NOT_FOUND | TRY_AGAIN | NO_RECOVERY | NO_DATA | OTHER_ERROR

record hostent =
  h_name :: string
  h_addrtype :: nat
  h_addr_list :: "u8 list list"

text \<open>
  The flag of \<open>gethostbyname\<close> is the option \<open>RES_USE_INET6\<close> of the resolver.  Ports are in network
  order.
\<close>

record resolver =
  gethostbyname2 :: "string \<Rightarrow> nat \<Rightarrow> h_error + hostent"
  gethostbyname :: "bool \<Rightarrow> string \<Rightarrow> h_error + hostent"
  gethostbyaddr :: "u8 list \<Rightarrow> nat \<Rightarrow> string option"
  getservbyname :: "string \<Rightarrow> string \<Rightarrow> u16 option"
  getservbyport :: "u16 \<Rightarrow> string option \<Rightarrow> string option"
  uname :: "string option"
  big_endian :: bool

definition swap16 :: "bool \<Rightarrow> u16 \<Rightarrow> u16" where
  "swap16 be w = (if be then w else word_of_nat (unat w mod 256 * 256 + unat w div 256))"

section \<open>Data\<close>

abbreviation (input) AF_UNSPEC :: nat where "AF_UNSPEC \<equiv> 0"
abbreviation (input) AF_LOCAL :: nat where "AF_LOCAL \<equiv> 1"
abbreviation (input) AF_INET6 :: nat where "AF_INET6 \<equiv> 26"

abbreviation SOCK_DGRAM :: int where "SOCK_DGRAM \<equiv> 1"
abbreviation SOCK_STREAM :: int where "SOCK_STREAM \<equiv> 2"
abbreviation SOCK_RAW :: int where "SOCK_RAW \<equiv> 4"

abbreviation AI_PASSIVE :: cint where "AI_PASSIVE \<equiv> 1"
abbreviation AI_CANONNAME :: cint where "AI_CANONNAME \<equiv> 2"
abbreviation AI_CLONE :: cint where "AI_CLONE \<equiv> 4"

definition flag :: "cint \<Rightarrow> cint \<Rightarrow> bool" where
  "flag flags f \<longleftrightarrow> and flags f \<noteq> 0"

datatype eai = EAI_ADDRFAMILY | EAI_AGAIN | EAI_BADFLAGS | EAI_FAIL | EAI_FAMILY | EAI_MEMORY | EAI_NODATA | EAI_NONAME
  | EAI_SERVICE | EAI_SOCKTYPE | EAI_SYSTEM

record addrinfo =
  ai_flags :: cint
  ai_family :: nat
  ai_socktype :: int
  ai_protocol :: int
  ai_addrlen :: nat
  ai_canonname :: "string option"
  ai_addr :: "sockaddr option"

record search =
  host :: string
  family :: nat

fun gai_code :: "eai \<Rightarrow> int" where
  "gai_code EAI_ADDRFAMILY = 1"
| "gai_code EAI_AGAIN = 2"
| "gai_code EAI_BADFLAGS = 3"
| "gai_code EAI_FAIL = 4"
| "gai_code EAI_FAMILY = 5"
| "gai_code EAI_MEMORY = 6"
| "gai_code EAI_NODATA = 7"
| "gai_code EAI_NONAME = 8"
| "gai_code EAI_SERVICE = 9"
| "gai_code EAI_SOCKTYPE = 10"
| "gai_code EAI_SYSTEM = 11"

definition gai_strerror :: "int \<Rightarrow> string" where
  "gai_strerror err =
     (if err = gai_code EAI_ADDRFAMILY then ''address family for host not supported''
      else if err = gai_code EAI_AGAIN then ''temporary failure in name resolution''
      else if err = gai_code EAI_BADFLAGS then ''invalid flags value''
      else if err = gai_code EAI_FAIL then ''non-recoverable failure in name resolution''
      else if err = gai_code EAI_FAMILY then ''address family not supported''
      else if err = gai_code EAI_MEMORY then ''memory allocation failure''
      else if err = gai_code EAI_NODATA then ''no address associated with host''
      else if err = gai_code EAI_NONAME then ''host nor service provided, or not known''
      else if err = gai_code EAI_SERVICE then ''service not supported for socket type''
      else if err = gai_code EAI_SOCKTYPE then ''socket type not supported''
      else if err = gai_code EAI_SYSTEM then ''system error''
      else ''unknown getaddrinfo() error'')"

text \<open>\<open>h_unlinked\<close> are the paths that were removed.\<close>

record heap =
  h_left :: nat
  h_live :: nat
  h_unlinked :: "string list"

text \<open>An allocation; \<open>None\<close> is the null pointer.\<close>

definition alloc :: "heap \<Rightarrow> heap option" where
  "alloc h = (if h_left h = 0 then None else Some (h\<lparr>h_left := h_left h - 1, h_live := Suc (h_live h)\<rparr>))"

definition free :: "heap \<Rightarrow> heap" where
  "free h = h\<lparr>h_live := h_live h - 1\<rparr>"

section \<open>Checking and searching\<close>

text \<open>A pointer that is not null, to a text that is not empty.\<close>

fun given :: "string option \<Rightarrow> bool" where
  "given None = False"
| "given (Some s) \<longleftrightarrow> s \<noteq> []"

definition ga_echeck :: "string option \<Rightarrow> string option \<Rightarrow> cint \<Rightarrow> nat \<Rightarrow> int \<Rightarrow> int \<Rightarrow> eai option" where
  "ga_echeck hostname servname flags fam socktype protocol =
     (if flag flags (not (or AI_PASSIVE AI_CANONNAME)) then Some EAI_BADFLAGS
      else if \<not> given hostname \<and> \<not> given servname then Some EAI_NONAME
      else if fam = AF_UNSPEC then None
      else if fam = AF_INET \<or> fam = AF_INET6 then
        (if socktype \<noteq> 0 \<and> socktype \<noteq> SOCK_STREAM \<and> socktype \<noteq> SOCK_DGRAM \<and> socktype \<noteq> SOCK_RAW then Some EAI_SOCKTYPE else None)
      else if fam = AF_LOCAL then
        (if socktype \<noteq> 0 \<and> socktype \<noteq> SOCK_STREAM \<and> socktype \<noteq> SOCK_DGRAM then Some EAI_SOCKTYPE else None)
      else Some EAI_FAMILY)"

text \<open>What to look up; \<open>None\<close> is \<open>err_quit\<close>.\<close>

definition ga_nsearch :: "string option \<Rightarrow> addrinfo \<Rightarrow> search list option" where
  "ga_nsearch hostname hints =
     (let fam = ai_family hints;
          both = (\<lambda>h4 h6.
            if fam = AF_INET then [\<lparr>host = h4, family = AF_INET\<rparr>]
            else if fam = AF_INET6 then [\<lparr>host = h6, family = AF_INET6\<rparr>]
            else if fam = AF_UNSPEC then [\<lparr>host = h6, family = AF_INET6\<rparr>, \<lparr>host = h4, family = AF_INET\<rparr>]
            else []);
          search =
            (case hostname of
               Some h \<Rightarrow>
                 if h \<noteq> [] then both h h
                 else if flag (ai_flags hints) AI_PASSIVE then both ''0.0.0.0'' ''0::0'' else both ''localhost'' ''0::1''
             | None \<Rightarrow> if flag (ai_flags hints) AI_PASSIVE then both ''0.0.0.0'' ''0::0'' else both ''localhost'' ''0::1'')
      in if length search < 1 \<or> length search > 2 then None else Some search)"

section \<open>Making structures\<close>

abbreviation SUN_PATH :: nat where "SUN_PATH \<equiv> 108"

definition chars :: "u8 list \<Rightarrow> string" where
  "chars bs = map (\<lambda>b. char_of (unat b)) bs"

definition octs :: "string \<Rightarrow> u8 list" where
  "octs s = map of_char s"

text \<open>
  Links a new structure to the end of the list and fills it in.  The result is an error or none,
  the list and the heap.  The pointer \<open>addr\<close> is what it points to: the bytes of an address, or the
  characters of a path.
\<close>

definition ga_aistruct :: "addrinfo \<Rightarrow> u8 list \<Rightarrow> nat \<Rightarrow> addrinfo list \<times> heap \<Rightarrow> (eai option \<times> addrinfo list \<times> heap) option" where
  "ga_aistruct hints addr fam = (\<lambda>(ais, h).
     case alloc h of
       None \<Rightarrow> Some (Some EAI_MEMORY, ais, h)
     | Some h1 \<Rightarrow>
         let ai = \<lparr>ai_flags = (if ai_socktype hints = 0 then AI_CLONE else 0), ai_family = fam, ai_socktype = ai_socktype hints,
                   ai_protocol = ai_protocol hints, ai_addrlen = 0, ai_canonname = None, ai_addr = None\<rparr> in
         if fam = AF_INET then
           (case alloc h1 of
              None \<Rightarrow> Some (Some EAI_MEMORY, ais @ [ai], h1)
            | Some h2 \<Rightarrow>
                (case addr of
                   a # b # c # d # _ \<Rightarrow>
                     Some (None, ais @ [ai\<lparr>ai_addrlen := 16, ai_addr := Some (SIn \<lparr>sin_family = AF_INET, sin_port = 0, sin_addr = (a, b, c, d)\<rparr>)\<rparr>], h2)
                 | _ \<Rightarrow> None))
         else if fam = AF_INET6 then
           (case alloc h1 of
              None \<Rightarrow> Some (Some EAI_MEMORY, ais @ [ai], h1)
            | Some h2 \<Rightarrow>
                if length addr < 16 then None
                else Some (None, ais @ [ai\<lparr>ai_addrlen := 32, ai_addr := Some (SIn6 \<lparr>sin6_port = 0, sin6_addr = take 16 addr\<rparr>)\<rparr>], h2))
         else if fam = AF_LOCAL then
           (if length addr \<ge> SUN_PATH then Some (Some EAI_SERVICE, ais @ [ai], h1)
            else case alloc h1 of
              None \<Rightarrow> Some (Some EAI_MEMORY, ais @ [ai], h1)
            | Some h2 \<Rightarrow>
                Some (None, ais @ [ai\<lparr>ai_addrlen := 2 + SUN_PATH, ai_addr := Some (SUn (chars addr))\<rparr>],
                  if flag (ai_flags hints) AI_PASSIVE then h2\<lparr>h_unlinked := h_unlinked h2 @ [chars addr]\<rparr> else h2))
         else Some (None, ais @ [ai], h1))"

text \<open>
  A copy without \<open>AI_CLONE\<close>.  The second component of the result is the list of structures linked
  behind the original: none, one without an address when the second allocation fails, or the copy.
  The original has an address: structures without one come only from a data base that returns
  addresses of a family other than the two it was asked for.
\<close>

definition ga_clone :: "addrinfo \<Rightarrow> heap \<Rightarrow> bool \<times> addrinfo list \<times> heap" where
  "ga_clone ai h =
     (case alloc h of
        None \<Rightarrow> (False, [], h)
      | Some h1 \<Rightarrow>
          (case alloc h1 of
             None \<Rightarrow> (False, [ai\<lparr>ai_flags := 0, ai_canonname := None, ai_addr := None\<rparr>], h1)
           | Some h2 \<Rightarrow> (True, [ai\<lparr>ai_flags := 0, ai_canonname := None\<rparr>], h2)))"

text \<open>
  The socket type and the port of one structure, and how many addresses got a port.  \<open>None\<close> is an
  address that is a null pointer or of another family.
\<close>

definition set_service :: "u16 \<Rightarrow> int \<Rightarrow> addrinfo \<Rightarrow> (addrinfo \<times> nat) option" where
  "set_service port socktype ai =
     (let ai1 = ai\<lparr>ai_socktype := socktype\<rparr> in
      if ai_family ai = AF_INET then
        (case ai_addr ai of Some (SIn a) \<Rightarrow> Some (ai1\<lparr>ai_addr := Some (SIn (a\<lparr>sin_port := port\<rparr>))\<rparr>, 1) | _ \<Rightarrow> None)
      else if ai_family ai = AF_INET6 then
        (case ai_addr ai of Some (SIn6 a) \<Rightarrow> Some (ai1\<lparr>ai_addr := Some (SIn6 (a\<lparr>sin6_port := port\<rparr>))\<rparr>, 1) | _ \<Rightarrow> None)
      else Some (ai1, 0))"

text \<open>
  One turn of the loop of \<open>ga_port\<close>: how many addresses got a port, \<open>None\<close> when memory runs out, and
  the structures that are now in place of the one looked at.
\<close>

definition ga_port1 :: "u16 \<Rightarrow> int \<Rightarrow> addrinfo \<Rightarrow> heap \<Rightarrow> (nat option \<times> addrinfo list \<times> heap) option" where
  "ga_port1 port socktype ai h =
     (if flag (ai_flags ai) AI_CLONE then
        (if ai_socktype ai \<noteq> 0 then
           (case ga_clone ai h of
              (ok, news, h1) \<Rightarrow>
                if \<not> ok then Some (None, ai # news, h1)
                else do { (new1, k) \<leftarrow> set_service port socktype (hd news); Some (Some k, [ai, new1], h1) })
         else do { (ai1, k) \<leftarrow> set_service port socktype ai; Some (Some k, [ai1], h) })
      else if ai_socktype ai \<noteq> socktype then Some (Some 0, [ai], h)
      else do { (ai1, k) \<leftarrow> set_service port socktype ai; Some (Some k, [ai1], h) })"

text \<open>The number found, \<open>None\<close> for -1, with the list and the heap.\<close>

fun ga_port :: "u16 \<Rightarrow> int \<Rightarrow> addrinfo list \<Rightarrow> heap \<Rightarrow> (nat option \<times> addrinfo list \<times> heap) option" where
  "ga_port port socktype [] h = Some (Some 0, [], h)"
| "ga_port port socktype (ai # ais) h = do {
     (rc, xs, h1) \<leftarrow> ga_port1 port socktype ai h;
     (case rc of
        None \<Rightarrow> Some (None, xs @ ais, h1)
      | Some k \<Rightarrow> do {
          (n, ais1, h2) \<leftarrow> ga_port port socktype ais h1;
          Some (map_option ((+) k) n, xs @ ais1, h2)
        })
   }"

text \<open>The calls that \<open>ga_serv\<close> makes: the socket types with their ports, in order.\<close>

definition ga_calls :: "resolver \<Rightarrow> addrinfo \<Rightarrow> string \<Rightarrow> (int \<times> u16) list" where
  "ga_calls env hints serv =
     (if serv \<noteq> [] \<and> is_digit (hd serv) then
        (let port = swap16 (big_endian env) (word_of_int (atoi serv)) in
         if ai_socktype hints \<noteq> 0 then [(ai_socktype hints, port)] else [(SOCK_STREAM, port), (SOCK_DGRAM, port)])
      else
        (if ai_socktype hints = 0 \<or> ai_socktype hints = SOCK_STREAM
         then (case getservbyname env serv ''tcp'' of None \<Rightarrow> [] | Some p \<Rightarrow> [(SOCK_STREAM, p)]) else []) @
        (if ai_socktype hints = 0 \<or> ai_socktype hints = SOCK_DGRAM
         then (case getservbyname env serv ''udp'' of None \<Rightarrow> [] | Some p \<Rightarrow> [(SOCK_DGRAM, p)]) else []))"

fun ga_ports :: "(int \<times> u16) list \<Rightarrow> nat \<Rightarrow> addrinfo list \<Rightarrow> heap \<Rightarrow> (nat option \<times> addrinfo list \<times> heap) option" where
  "ga_ports [] nfound ais h = Some (Some nfound, ais, h)"
| "ga_ports ((socktype, port) # calls) nfound ais h = do {
     (rc, ais1, h1) \<leftarrow> ga_port port socktype ais h;
     (case rc of
        None \<Rightarrow> Some (None, ais1, h1)
      | Some n \<Rightarrow> ga_ports calls (nfound + n) ais1 h1)
   }"

definition ga_serv :: "resolver \<Rightarrow> addrinfo \<Rightarrow> string \<Rightarrow> addrinfo list \<Rightarrow> heap \<Rightarrow> (eai option \<times> addrinfo list \<times> heap) option" where
  "ga_serv env hints serv ais h = do {
     (found, ais1, h1) \<leftarrow> ga_ports (ga_calls env hints serv) 0 ais h;
     (case found of
        None \<Rightarrow> Some (Some EAI_MEMORY, ais1, h1)
      | Some n \<Rightarrow>
          if n = 0 then Some (Some (if ai_socktype hints = 0 then EAI_NONAME else EAI_SERVICE), ais1, h1)
          else Some (None, ais1, h1))
   }"

section \<open>Local names\<close>

definition freeaddrinfo1 :: "addrinfo \<Rightarrow> heap \<Rightarrow> heap" where
  "freeaddrinfo1 ai h =
     (let h1 = (if ai_addr ai \<noteq> None then free h else h);
          h2 = (if ai_canonname ai \<noteq> None then free h1 else h1)
      in free h2)"

definition freeaddrinfo :: "addrinfo list \<Rightarrow> heap \<Rightarrow> heap" where
  "freeaddrinfo ais h = fold freeaddrinfo1 ais h"

text \<open>The canonical name of the first structure; with no structure, a write through the null pointer.\<close>

fun set_canon :: "string \<Rightarrow> addrinfo list \<Rightarrow> addrinfo list option" where
  "set_canon c [] = None"
| "set_canon c (ai # ais) = Some (ai\<lparr>ai_canonname := Some c\<rparr> # ais)"

text \<open>An early return leaves the structures that were made allocated.\<close>

definition ga_unix :: "resolver \<Rightarrow> string \<Rightarrow> addrinfo \<Rightarrow> heap \<Rightarrow> ((eai + addrinfo list) \<times> heap) option" where
  "ga_unix env path hints h =
     (if ai_family hints \<noteq> AF_UNSPEC \<and> ai_family hints \<noteq> AF_LOCAL then Some (Inl EAI_ADDRFAMILY, h)
      else do {
        (rc, ais, h1) \<leftarrow>
          (if ai_socktype hints = 0 then ga_aistruct (hints\<lparr>ai_socktype := SOCK_STREAM\<rparr>) (octs path) AF_LOCAL ([], h)
           else Some (None, [], h));
        (case rc of
           Some e \<Rightarrow> Some (Inl e, h1)
         | None \<Rightarrow> do {
             (rc2, ais2, h2) \<leftarrow> ga_aistruct (if ai_socktype hints = 0 then hints\<lparr>ai_socktype := SOCK_DGRAM\<rparr> else hints) (octs path) AF_LOCAL (ais, h1);
             (case rc2 of
                Some e \<Rightarrow> Some (Inl e, h2)
              | None \<Rightarrow>
                  if flag (ai_flags hints) AI_CANONNAME then
                    (case uname env of
                       None \<Rightarrow> Some (Inl EAI_SYSTEM, h2)
                     | Some nodename \<Rightarrow>
                         (case alloc h2 of
                            None \<Rightarrow> Some (Inl EAI_MEMORY, h2)
                          | Some h3 \<Rightarrow> do { ais3 \<leftarrow> set_canon nodename ais2; Some (Inr ais3, h3) }))
                  else Some (Inr ais2, h2))
           })
      })"

section \<open>getaddrinfo\<close>

text \<open>The list built so far, the canonical name and the heap.\<close>

type_synonym ga_state = "addrinfo list \<times> string option \<times> heap"

definition is_xdigit :: "char \<Rightarrow> bool" where
  "is_xdigit c \<longleftrightarrow> xdigit c \<noteq> None"

fun ga_each :: "addrinfo \<Rightarrow> nat \<Rightarrow> u8 list list \<Rightarrow> addrinfo list \<times> heap \<Rightarrow> (eai option \<times> addrinfo list \<times> heap) option" where
  "ga_each hints fam [] s = Some (None, fst s, snd s)"
| "ga_each hints fam (a # as) s = do {
     (rc, ais, h) \<leftarrow> ga_aistruct hints a fam s;
     (case rc of Some e \<Rightarrow> Some (Some e, ais, h) | None \<Rightarrow> ga_each hints fam as (ais, h))
   }"

fun eai_of :: "h_error \<Rightarrow> eai" where
  "eai_of HOST_NOT_FOUND = EAI_NONAME"
| "eai_of TRY_AGAIN = EAI_AGAIN"
| "eai_of NO_RECOVERY = EAI_FAIL"
| "eai_of NO_DATA = EAI_NODATA"
| "eai_of OTHER_ERROR = EAI_NONAME"

text \<open>Looking up a host that is not an address.\<close>

definition ga_lookup :: "resolver \<Rightarrow> string option \<Rightarrow> addrinfo \<Rightarrow> nat \<Rightarrow> search \<Rightarrow> ga_state \<Rightarrow> (eai option \<times> ga_state) option" where
  "ga_lookup env hostname hints nsearch sp = (\<lambda>(ais, canon, h).
     (case (if nsearch = 2 then gethostbyname2 env (host sp) (family sp) else gethostbyname env (family sp = AF_INET6) (host sp)) of
        Inl herr \<Rightarrow> if nsearch = 2 then Some (None, ais, canon, h) else Some (Some (eai_of herr), ais, canon, h)
      | Inr hptr \<Rightarrow>
          if ai_family hints \<noteq> AF_UNSPEC \<and> ai_family hints \<noteq> h_addrtype hptr then Some (Some EAI_ADDRFAMILY, ais, canon, h)
          else
            let dup = (given hostname \<and> flag (ai_flags hints) AI_CANONNAME \<and> canon = None) in
            if dup \<and> alloc h = None then Some (Some EAI_MEMORY, ais, canon, h)
            else do {
              let canon1 = (if dup then Some (h_name hptr) else canon);
              let h1 = (if dup then the (alloc h) else h);
              (rc, ais1, h2) \<leftarrow> ga_each hints (h_addrtype hptr) (h_addr_list hptr) (ais, h1);
              Some (rc, ais1, canon1, h2)
            }))"

text \<open>The address a text stands for, with its family.\<close>

definition literal :: "string \<Rightarrow> (nat \<times> u8 list) option" where
  "literal s =
     (case (if s \<noteq> [] \<and> is_digit (hd s) then snd (free_inet_pton AF_INET s) else None) of
        Some a \<Rightarrow> Some (AF_INET, a)
      | None \<Rightarrow>
          (case (if s \<noteq> [] \<and> (is_xdigit (hd s) \<or> hd s = CHR '':'') \<and> CHR '':'' \<in> set s then snd (free_inet_pton AF_INET6 s) else None) of
             Some a \<Rightarrow> Some (AF_INET6, a)
           | None \<Rightarrow> None))"

definition ga_host :: "resolver \<Rightarrow> string option \<Rightarrow> addrinfo \<Rightarrow> nat \<Rightarrow> search \<Rightarrow> ga_state \<Rightarrow> (eai option \<times> ga_state) option" where
  "ga_host env hostname hints nsearch sp = (\<lambda>(ais, canon, h).
     (case literal (host sp) of
        Some (fam, a) \<Rightarrow>
          if ai_family hints \<noteq> AF_UNSPEC \<and> ai_family hints \<noteq> fam then Some (Some EAI_ADDRFAMILY, ais, canon, h)
          else if family sp \<noteq> fam then Some (None, ais, canon, h)
          else do { (rc, ais1, h1) \<leftarrow> ga_aistruct hints a fam (ais, h); Some (rc, ais1, canon, h1) }
      | None \<Rightarrow> ga_lookup env hostname hints nsearch sp (ais, canon, h)))"

fun ga_hosts :: "resolver \<Rightarrow> string option \<Rightarrow> addrinfo \<Rightarrow> nat \<Rightarrow> search list \<Rightarrow> ga_state \<Rightarrow> (eai option \<times> ga_state) option" where
  "ga_hosts env hostname hints nsearch [] s = Some (None, s)"
| "ga_hosts env hostname hints nsearch (sp # sps) s = do {
     (rc, s1) \<leftarrow> ga_host env hostname hints nsearch sp s;
     (case rc of Some e \<Rightarrow> Some (Some e, s1) | None \<Rightarrow> ga_hosts env hostname hints nsearch sps s1)
   }"

text \<open>The code at the label \<open>bad\<close>.\<close>

definition bad :: "eai \<Rightarrow> addrinfo list \<Rightarrow> heap \<Rightarrow> ((eai + addrinfo list) \<times> heap) option" where
  "bad e ais h = Some (Inl e, freeaddrinfo ais h)"

text \<open>The service name, and the return.\<close>

definition ga_finish :: "resolver \<Rightarrow> string option \<Rightarrow> addrinfo \<Rightarrow> addrinfo list \<Rightarrow> heap \<Rightarrow> ((eai + addrinfo list) \<times> heap) option" where
  "ga_finish env servname hints ais h =
     (case servname of
        Some serv \<Rightarrow>
          if serv \<noteq> [] then do {
            (rc, ais1, h1) \<leftarrow> ga_serv env hints serv ais h;
            (case rc of Some e \<Rightarrow> bad e ais1 h1 | None \<Rightarrow> Some (Inr ais1, h1))
          }
          else Some (Inr ais, h)
      | None \<Rightarrow> Some (Inr ais, h))"

definition ga_inet :: "resolver \<Rightarrow> string option \<Rightarrow> string option \<Rightarrow> addrinfo \<Rightarrow> heap \<Rightarrow> ((eai + addrinfo list) \<times> heap) option" where
  "ga_inet env hostname servname hints h = do {
     search \<leftarrow> ga_nsearch hostname hints;
     (rc, ais, canon, h1) \<leftarrow> ga_hosts env hostname hints (length search) search ([], None, h);
     (case rc of
        Some e \<Rightarrow> bad e ais h1
      | None \<Rightarrow>
          if ais = [] then bad EAI_NONAME ais h1
          else if given hostname \<and> flag (ai_flags hints) AI_CANONNAME then
            (case canon of
               Some c \<Rightarrow> do { ais1 \<leftarrow> set_canon c ais; ga_finish env servname hints ais1 h1 }
             | None \<Rightarrow>
                 (case alloc h1 of
                    None \<Rightarrow> bad EAI_MEMORY ais h1
                  | Some h2 \<Rightarrow> do { ais1 \<leftarrow> set_canon (host (hd search)) ais; ga_finish env servname hints ais1 h2 }))
          else ga_finish env servname hints ais h1)
   }"

definition zero_hints :: addrinfo where
  "zero_hints = \<lparr>ai_flags = 0, ai_family = AF_UNSPEC, ai_socktype = 0, ai_protocol = 0, ai_addrlen = 0, ai_canonname = None, ai_addr = None\<rparr>"

definition getaddrinfo :: "resolver \<Rightarrow> string option \<Rightarrow> string option \<Rightarrow> addrinfo option \<Rightarrow> heap \<Rightarrow> ((eai + addrinfo list) \<times> heap) option" where
  "getaddrinfo env hostname servname hintsp h =
     (let hints = (case hintsp of None \<Rightarrow> zero_hints | Some hi \<Rightarrow> hi) in
      case ga_echeck hostname servname (ai_flags hints) (ai_family hints) (ai_socktype hints) (ai_protocol hints) of
        Some e \<Rightarrow> bad e [] h
      | None \<Rightarrow>
          (case (hostname, servname) of
             (Some hn, Some sn) \<Rightarrow>
               if (hn = ''/local'' \<or> hn = ''/unix'') \<and> sn \<noteq> [] \<and> hd sn = CHR ''/'' then ga_unix env sn hints h
               else ga_inet env hostname servname hints h
           | _ \<Rightarrow> ga_inet env hostname servname hints h))"

section \<open>getnameinfo\<close>

abbreviation NI_NOFQDN :: cint where "NI_NOFQDN \<equiv> 1"
abbreviation NI_NUMERICHOST :: cint where "NI_NUMERICHOST \<equiv> 2"
abbreviation NI_NAMEREQD :: cint where "NI_NAMEREQD \<equiv> 4"
abbreviation NI_NUMERICSERV :: cint where "NI_NUMERICSERV \<equiv> 8"
abbreviation NI_DGRAM :: cint where "NI_DGRAM \<equiv> 16"

text \<open>What \<open>snprintf\<close> stores in an array of \<open>n\<close> characters.\<close>

definition snprintf_s :: "nat \<Rightarrow> string \<Rightarrow> string" where
  "snprintf_s n s = take (n - 1) s"

text \<open>
  The text of the host: \<open>Some None\<close> is the return value 1.  An array of no characters is left alone.
\<close>

definition gn_host :: "resolver \<Rightarrow> nat \<Rightarrow> u8 list \<Rightarrow> nat \<Rightarrow> cint \<Rightarrow> string option option" where
  "gn_host env hostlen aptr fam flags =
     (if flag flags NI_NUMERICHOST then free_inet_ntop fam aptr hostlen
      else case gethostbyaddr env aptr fam of
        Some name \<Rightarrow> Some (Some (snprintf_s hostlen (if flag flags NI_NOFQDN then takeWhile (\<lambda>c. c \<noteq> CHR ''.'') name else name)))
      | None \<Rightarrow> if flag flags NI_NAMEREQD then Some None else free_inet_ntop fam aptr hostlen)"

definition gn_serv :: "resolver \<Rightarrow> nat \<Rightarrow> u16 \<Rightarrow> cint \<Rightarrow> string" where
  "gn_serv env servlen port flags =
     (let number = dec_nat (unat (swap16 (big_endian env) port)) in
      snprintf_s servlen
        (if flag flags NI_NUMERICSERV then number
         else case getservbyport env port (if flag flags NI_DGRAM then Some ''udp'' else None) of Some s \<Rightarrow> s | None \<Rightarrow> number))"

text \<open>The return value, and the texts stored in the two arrays.\<close>

definition gn_ipv46 :: "resolver \<Rightarrow> nat \<Rightarrow> nat \<Rightarrow> u8 list \<Rightarrow> nat \<Rightarrow> u16 \<Rightarrow> cint \<Rightarrow> (int \<times> string option \<times> string option) option" where
  "gn_ipv46 env hostlen servlen aptr fam port flags = do {
     hn \<leftarrow> (if hostlen > 0 then map_option Some (gn_host env hostlen aptr fam flags) else Some None);
     (if hn = Some None then Some (1, None, None)
      else Some (0, Option.bind hn id, if servlen > 0 then Some (gn_serv env servlen port flags) else None))
   }"

definition getnameinfo :: "resolver \<Rightarrow> sockaddr \<Rightarrow> nat \<Rightarrow> nat \<Rightarrow> cint \<Rightarrow> (int \<times> string option \<times> string option) option" where
  "getnameinfo env sa hostlen servlen flags =
     (case sa of
        SIn a \<Rightarrow> gn_ipv46 env hostlen servlen (ipv4_bytes (sin_addr a)) AF_INET (sin_port a) flags
      | SIn6 a \<Rightarrow> gn_ipv46 env hostlen servlen (sin6_addr a) AF_INET6 (sin6_port a) flags
      | SUn path \<Rightarrow>
          Some (0, if hostlen > 0 then Some (snprintf_s hostlen ''/local'') else None,
                if servlen > 0 then Some (snprintf_s servlen (cstr path)) else None)
      | SUnknown f \<Rightarrow> Some (1, None, None))"

section \<open>Memory\<close>

text \<open>The blocks that a list of structures holds.\<close>

definition cells :: "addrinfo \<Rightarrow> nat" where
  "cells ai = 1 + (if ai_addr ai \<noteq> None then 1 else 0) + (if ai_canonname ai \<noteq> None then 1 else 0)"

definition blocks :: "addrinfo list \<Rightarrow> nat" where
  "blocks ais = sum_list (map cells ais)"

lemma blocks_simps [simp]:
  "blocks [] = 0" "blocks (ai # ais) = cells ai + blocks ais" "blocks (ais @ bis) = blocks ais + blocks bis"
  by (simp_all add: blocks_def)

lemma alloc_live: "alloc h = Some h1 \<Longrightarrow> h_live h1 = Suc (h_live h) \<and> h_unlinked h1 = h_unlinked h"
  by (auto simp: alloc_def split: if_splits)

lemma the_alloc_live: "alloc h \<noteq> None \<Longrightarrow> h_live (the (alloc h)) = Suc (h_live h)"
  by (auto dest: alloc_live)

lemma alloc_left: "alloc h = None \<longleftrightarrow> h_left h = 0"
  by (simp add: alloc_def)

lemma freeaddrinfo_live: "h_live (freeaddrinfo ais h) = h_live h - blocks ais"
proof (induction ais arbitrary: h)
  case Nil
  then show ?case
    by (simp add: freeaddrinfo_def)
next
  case (Cons ai ais)
  have "h_live (freeaddrinfo1 ai h) = h_live h - cells ai"
    by (simp add: freeaddrinfo1_def free_def cells_def Let_def)
  with Cons [of "freeaddrinfo1 ai h"] show ?case
    by (simp add: freeaddrinfo_def)
qed

text \<open>What a list holds beyond what was live before.\<close>

definition holds :: "nat \<Rightarrow> addrinfo list \<Rightarrow> heap \<Rightarrow> bool" where
  "holds n ais h \<longleftrightarrow> h_live h = n + blocks ais"

lemma ga_aistruct_holds:
  assumes "holds n ais h" and "ga_aistruct hints addr fam (ais, h) = Some (rc, ais1, h1)"
  shows "holds n ais1 h1"
  using assms unfolding ga_aistruct_def holds_def
  by (auto simp: Let_def cells_def dest!: alloc_live split: option.splits if_splits list.splits)

lemma ga_each_holds:
  assumes "holds n ais h" and "ga_each hints fam as (ais, h) = Some (rc, ais1, h1)"
  shows "holds n ais1 h1"
  using assms
proof (induction as arbitrary: ais h)
  case Nil
  then show ?case
    by simp
next
  case (Cons a as)
  then obtain rc2 ais2 h2 where s: "ga_aistruct hints a fam (ais, h) = Some (rc2, ais2, h2)"
    by (auto simp: bind_eq_Some_conv)
  then have "holds n ais2 h2"
    using ga_aistruct_holds Cons.prems(1) by blast
  then show ?case
    using s Cons by (auto split: option.splits)
qed

lemma set_service_cells:
  "set_service port socktype ai = Some (ai1, k) \<Longrightarrow> cells ai1 = cells ai \<and> (ai_addr ai1 = None \<longleftrightarrow> ai_addr ai = None)"
  by (auto simp: set_service_def cells_def Let_def split: option.splits if_splits sockaddr.splits)

definition addressed :: "addrinfo list \<Rightarrow> bool" where
  "addressed ais \<longleftrightarrow> (\<forall>ai \<in> set ais. ai_addr ai \<noteq> None)"

lemma ga_port1_holds:
  assumes "ga_port1 port socktype ai h = Some (rc, xs, h1)" and "ai_addr ai \<noteq> None"
  shows "h_live h1 + cells ai = h_live h + blocks xs \<and> (rc \<noteq> None \<longrightarrow> addressed xs)"
proof (cases "flag (ai_flags ai) AI_CLONE \<and> ai_socktype ai \<noteq> 0")
  case True
  then show ?thesis
    using assms
    by (auto simp: ga_port1_def ga_clone_def addressed_def cells_def bind_eq_Some_conv
        dest!: alloc_live set_service_cells split: option.splits if_splits)
next
  case False
  then show ?thesis
    using assms by (auto simp: ga_port1_def addressed_def bind_eq_Some_conv dest!: set_service_cells split: if_splits)
qed

lemma ga_port_holds:
  assumes "ga_port port socktype ais h = Some (rc, ais1, h1)" and "addressed ais"
  shows "h_live h1 + blocks ais = h_live h + blocks ais1 \<and> (rc \<noteq> None \<longrightarrow> addressed ais1)"
  using assms
proof (induction ais arbitrary: rc ais1 h h1)
  case Nil
  then show ?case
    by (simp add: addressed_def)
next
  case (Cons ai ais)
  obtain k xs h2 where s: "ga_port1 port socktype ai h = Some (k, xs, h2)"
    using Cons.prems(1) by (auto simp: bind_eq_Some_conv)
  have a: "ai_addr ai \<noteq> None" "addressed ais"
    using Cons.prems(2) by (simp_all add: addressed_def)
  note one = ga_port1_holds [OF s a(1)]
  show ?case
  proof (cases k)
    case None
    then show ?thesis
      using one s Cons.prems(1) by auto
  next
    case (Some m)
    then obtain n ais2 h3 where r: "ga_port port socktype ais h2 = Some (n, ais2, h3)" "rc = map_option ((+) m) n" "ais1 = xs @ ais2" "h1 = h3"
      using s Cons.prems(1) by (auto simp: bind_eq_Some_conv)
    show ?thesis
      using Cons.IH [OF r(1) a(2)] one r Some by (auto simp: addressed_def)
  qed
qed

lemma ga_ports_holds:
  assumes "ga_ports calls nfound ais h = Some (rc, ais1, h1)" and "addressed ais" and "holds n ais h"
  shows "holds n ais1 h1"
  using assms
proof (induction calls nfound ais h rule: ga_ports.induct)
  case (1 nfound ais h)
  then show ?case
    by simp
next
  case (2 socktype port calls nfound ais h)
  then obtain k ais2 h2 where p: "ga_port port socktype ais h = Some (k, ais2, h2)"
    by (auto simp: bind_eq_Some_conv)
  note q = ga_port_holds [OF p "2.prems"(2)]
  have h: "holds n ais2 h2"
    using q "2.prems"(3) by (simp add: holds_def)
  show ?case
  proof (cases k)
    case None
    then show ?thesis
      using p "2.prems"(1) h by simp
  next
    case (Some m)
    show ?thesis
      by (rule "2.IH" [OF p refl refl Some]) (use p "2.prems"(1) Some q h in auto)
  qed
qed

text \<open>Structures of the search: with an address and without a canonical name.\<close>

definition found :: "addrinfo list \<Rightarrow> bool" where
  "found ais \<longleftrightarrow> (\<forall>ai \<in> set ais. ai_addr ai \<noteq> None \<and> ai_canonname ai = None)"

lemma ga_aistruct_found:
  assumes "found ais" and "ga_aistruct hints addr fam (ais, h) = Some (rc, ais1, h1)" and "fam = AF_INET \<or> fam = AF_INET6"
  shows "(rc = None \<longrightarrow> found ais1) \<and> (ais \<noteq> [] \<longrightarrow> ais1 \<noteq> [])"
  using assms unfolding ga_aistruct_def found_def
  by (auto simp: Let_def split: option.splits if_splits list.splits)

lemma ga_each_found:
  assumes "found ais" and "ga_each hints fam as (ais, h) = Some (None, ais1, h1)" and "fam = AF_INET \<or> fam = AF_INET6"
  shows "found ais1"
  using assms
proof (induction as arbitrary: ais h)
  case Nil
  then show ?case
    by simp
next
  case (Cons a as)
  then obtain rc2 ais2 h2 where s: "ga_aistruct hints a fam (ais, h) = Some (rc2, ais2, h2)"
    by (auto simp: bind_eq_Some_conv)
  then have "rc2 = None" "found ais2"
    using ga_aistruct_found [OF Cons.prems(1) s Cons.prems(3)] Cons.prems(2) by (auto split: option.splits)
  then show ?case
    using s Cons by simp
qed

text \<open>A data base of hosts that knows addresses of the two families only.\<close>

definition inet_only :: "resolver \<Rightarrow> bool" where
  "inet_only env \<longleftrightarrow>
     (\<forall>s f hp. gethostbyname2 env s f = Inr hp \<longrightarrow> h_addrtype hp = AF_INET \<or> h_addrtype hp = AF_INET6) \<and>
     (\<forall>b s hp. gethostbyname env b s = Inr hp \<longrightarrow> h_addrtype hp = AF_INET \<or> h_addrtype hp = AF_INET6)"

fun ga_inv :: "bool \<Rightarrow> nat \<Rightarrow> eai option \<times> ga_state \<Rightarrow> bool" where
  "ga_inv cn n (rc, ais, canon, h) \<longleftrightarrow>
     h_live h = n + blocks ais + (if canon = None then 0 else 1) \<and> (\<not> cn \<longrightarrow> canon = None) \<and> (rc = None \<longrightarrow> found ais)"

lemma literal_family: "literal s = Some (fam, a) \<Longrightarrow> fam = AF_INET \<or> fam = AF_INET6"
  by (auto simp: literal_def split: option.splits)

lemma ga_lookup_inv:
  assumes "inet_only env" and "ga_inv (given hostname \<and> flag (ai_flags hints) AI_CANONNAME) n (None, s)" and "ga_lookup env hostname hints k sp s = Some r"
  shows "ga_inv (given hostname \<and> flag (ai_flags hints) AI_CANONNAME) n r"
proof -
  obtain ais canon h where s: "s = (ais, canon, h)"
    by (cases s) auto
  let ?cn = "flag (ai_flags hints) AI_CANONNAME"
  define q where "q = (if k = 2 then gethostbyname2 env (host sp) (family sp) else gethostbyname env (family sp = AF_INET6) (host sp))"
  show ?thesis
  proof (cases q)
    case (Inl herr)
    then show ?thesis
      using assms(2,3) s q_def by (auto simp: ga_lookup_def split: if_splits)
  next
    case (Inr hp)
    have fam: "h_addrtype hp = AF_INET \<or> h_addrtype hp = AF_INET6"
      using assms(1) Inr q_def unfolding inet_only_def by (metis (full_types))
    let ?dup = "given hostname \<and> ?cn \<and> canon = None"
    show ?thesis
    proof (cases "ai_family hints \<noteq> AF_UNSPEC \<and> ai_family hints \<noteq> h_addrtype hp \<or> ?dup \<and> alloc h = None")
      case True
      then have "snd r = s \<and> fst r \<noteq> None"
        using assms(3) Inr s q_def by (auto simp: ga_lookup_def Let_def split: if_splits)
      then show ?thesis
        using assms(2) s by (cases r) auto
    next
      case False
      define canon1 where "canon1 = (if ?dup then Some (h_name hp) else canon)"
      define h1 where "h1 = (if ?dup then the (alloc h) else h)"
      obtain rc ais1 h2 where e: "ga_each hints (h_addrtype hp) (h_addr_list hp) (ais, h1) = Some (rc, ais1, h2)" "r = (rc, ais1, canon1, h2)"
        using assms(3) False Inr s q_def by (auto simp: ga_lookup_def Let_def canon1_def h1_def bind_eq_Some_conv split: if_splits)
      have l: "h_live h1 = n + blocks ais + (if canon1 = None then 0 else 1)" "\<not> (given hostname \<and> ?cn) \<longrightarrow> canon1 = None"
        using assms(2) s False the_alloc_live [of h] by (auto simp: canon1_def h1_def)
      have "holds (n + (if canon1 = None then 0 else 1)) ais1 h2"
        by (rule ga_each_holds [OF _ e(1)]) (use l in \<open>simp add: holds_def\<close>)
      then show ?thesis
        using e l ga_each_found [of ais hints _ _ h1 ais1 h2, OF _ _ fam] assms(2) s by (auto simp: holds_def)
    qed
  qed
qed

lemma ga_host_inv:
  assumes "inet_only env" and "ga_inv (given hostname \<and> flag (ai_flags hints) AI_CANONNAME) n (None, s)" and "ga_host env hostname hints k sp s = Some r"
  shows "ga_inv (given hostname \<and> flag (ai_flags hints) AI_CANONNAME) n r"
proof -
  obtain ais canon h where s: "s = (ais, canon, h)"
    by (cases s) auto
  show ?thesis
  proof (cases "literal (host sp)")
    case None
    then show ?thesis
      using ga_lookup_inv [OF assms(1,2), of k sp] assms(3) s by (simp add: ga_host_def)
  next
    case (Some fa)
    obtain fam a where fa: "fa = (fam, a)"
      by (cases fa)
    note fam = literal_family [OF Some [unfolded fa]]
    show ?thesis
    proof (cases "ai_family hints \<noteq> AF_UNSPEC \<and> ai_family hints \<noteq> fam \<or> family sp \<noteq> fam")
      case True
      then show ?thesis
        using assms(2,3) Some fa s by (auto simp: ga_host_def split: if_splits)
    next
      case False
      then obtain rc ais1 h1 where e: "ga_aistruct hints a fam (ais, h) = Some (rc, ais1, h1)" "r = (rc, ais1, canon, h1)"
        using assms(3) Some fa s by (auto simp: ga_host_def bind_eq_Some_conv split: if_splits)
      have "holds (n + (if canon = None then 0 else 1)) ais1 h1"
        by (rule ga_aistruct_holds [OF _ e(1)]) (use assms(2) s in \<open>simp add: holds_def\<close>)
      then show ?thesis
        using e(2) ga_aistruct_found [OF _ e(1) fam] assms(2) s by (auto simp: holds_def)
    qed
  qed
qed

lemma ga_hosts_inv:
  assumes "inet_only env" and "ga_inv (given hostname \<and> flag (ai_flags hints) AI_CANONNAME) n (None, s)" and "ga_hosts env hostname hints k sps s = Some r"
  shows "ga_inv (given hostname \<and> flag (ai_flags hints) AI_CANONNAME) n r"
  using assms(2,3)
proof (induction sps arbitrary: s)
  case Nil
  then show ?case
    by auto
next
  case (Cons sp sps)
  then obtain rc s1 where h: "ga_host env hostname hints k sp s = Some (rc, s1)"
    by (auto simp: bind_eq_Some_conv)
  note i = ga_host_inv [OF assms(1) Cons.prems(1) h]
  show ?case
    using Cons.IH [of s1] Cons.prems(2) h i by (cases rc) auto
qed

lemma found_addressed: "found ais \<Longrightarrow> addressed ais"
  by (auto simp: found_def addressed_def)

lemma set_canon_blocks:
  assumes "found ais" and "set_canon c ais = Some ais1"
  shows "blocks ais1 = Suc (blocks ais) \<and> addressed ais1"
  using assms by (cases ais) (auto simp: found_def addressed_def cells_def)

text \<open>The blocks of a result: those of the list it returns, none when it is an error.\<close>

fun owned :: "eai + addrinfo list \<Rightarrow> nat" where
  "owned (Inl e) = 0"
| "owned (Inr ais) = blocks ais"

lemma bad_owned: "holds n ais h \<Longrightarrow> bad e ais h = Some (r, h1) \<Longrightarrow> h_live h1 = n + owned r"
  by (auto simp: bad_def holds_def freeaddrinfo_live)

lemma ga_finish_owned:
  assumes "holds n ais h" and "addressed ais" and "ga_finish env servname hints ais h = Some (r, h1)"
  shows "h_live h1 = n + owned r"
proof (cases "given servname")
  case False
  then show ?thesis
    using assms by (cases servname) (auto simp: ga_finish_def holds_def)
next
  case True
  then obtain serv where serv: "servname = Some serv" "serv \<noteq> []"
    by (cases servname) auto
  then obtain rc ais1 h2 where s: "ga_serv env hints serv ais h = Some (rc, ais1, h2)"
      and f: "(case rc of Some e \<Rightarrow> bad e ais1 h2 | None \<Rightarrow> Some (Inr ais1, h2)) = Some (r, h1)"
    using assms(3) by (auto simp: ga_finish_def bind_eq_Some_conv)
  obtain rc2 where p: "ga_ports (ga_calls env hints serv) 0 ais h = Some (rc2, ais1, h2)"
    using s by (auto simp: ga_serv_def bind_eq_Some_conv split: option.splits if_splits)
  have h: "holds n ais1 h2"
    by (rule ga_ports_holds [OF p assms(2,1)])
  show ?thesis
    using f bad_owned [OF h] h by (auto simp: holds_def split: option.splits)
qed

lemma ga_inet_owned:
  assumes "inet_only env" and "ga_inet env hostname servname hints h = Some (r, h1)"
  shows "h_live h1 = h_live h + owned r \<or> flag (ai_flags hints) AI_CANONNAME \<and> isl r \<and> h_live h1 = h_live h + 1"
proof -
  let ?cn = "flag (ai_flags hints) AI_CANONNAME"
  obtain sps rc ais canon h2 where g: "ga_nsearch hostname hints = Some sps" "ga_hosts env hostname hints (length sps) sps ([], None, h) = Some (rc, ais, canon, h2)"
    using assms(2) by (auto simp: ga_inet_def bind_eq_Some_conv)
  have "ga_inv (given hostname \<and> ?cn) (h_live h) (None, [], None, h)"
    by (simp add: found_def)
  from ga_hosts_inv [OF assms(1) this g(2)] have i: "h_live h2 = h_live h + blocks ais + (if canon = None then 0 else 1)"
    "\<not> (given hostname \<and> ?cn) \<longrightarrow> canon = None" "rc = None \<longrightarrow> found ais"
    by simp_all
  show ?thesis
  proof (cases "rc \<noteq> None \<or> ais = []")
    case True
    then obtain e where b: "bad e ais h2 = Some (r, h1)"
      using assms(2) g by (cases rc) (auto simp: ga_inet_def)
    have "holds (h_live h + (if canon = None then 0 else 1)) ais h2"
      using i by (simp add: holds_def)
    from bad_owned [OF this b] b i show ?thesis
      by (auto simp: bad_def split: if_splits)
  next
    case False
    then have f: "found ais" "rc = None" "ais \<noteq> []"
      using i(3) by auto
    consider (plain) "\<not> (given hostname \<and> ?cn)" | (saved) c where "given hostname \<and> ?cn" "canon = Some c" | (none) "given hostname \<and> ?cn" "canon = None"
      by (cases canon) auto
    then show ?thesis
    proof cases
      case plain
      then have "canon = None" "ga_finish env servname hints ais h2 = Some (r, h1)"
        using assms(2) g f i(2) by (auto simp: ga_inet_def)
      then show ?thesis
        using ga_finish_owned [of "h_live h" ais h2] i(1) found_addressed [OF f(1)] by (auto simp: holds_def)
    next
      case saved
      then obtain ais1 where a: "set_canon c ais = Some ais1" "ga_finish env servname hints ais1 h2 = Some (r, h1)"
        using assms(2) g f by (auto simp: ga_inet_def bind_eq_Some_conv)
      have "holds (h_live h) ais1 h2"
        using set_canon_blocks [OF f(1) a(1)] i(1) saved by (simp add: holds_def)
      then show ?thesis
        using ga_finish_owned [OF _ _ a(2)] set_canon_blocks [OF f(1) a(1)] by blast
    next
      case none
      show ?thesis
      proof (cases "alloc h2")
        case None
        then have "bad EAI_MEMORY ais h2 = Some (r, h1)"
          using assms(2) g f none by (auto simp: ga_inet_def)
        then show ?thesis
          using bad_owned [of "h_live h" ais h2] i(1) none by (simp add: holds_def)
      next
        case (Some h3)
        then obtain ais1 where a: "set_canon (host (hd sps)) ais = Some ais1" "ga_finish env servname hints ais1 h3 = Some (r, h1)"
          using assms(2) g f none by (auto simp: ga_inet_def bind_eq_Some_conv)
        have "holds (h_live h) ais1 h3"
          using set_canon_blocks [OF f(1) a(1)] i(1) none alloc_live [OF Some] by (simp add: holds_def)
        then show ?thesis
          using ga_finish_owned [OF _ _ a(2)] set_canon_blocks [OF f(1) a(1)] by blast
      qed
    qed
  qed
qed

text \<open>
  C17: \<open>getaddrinfo\<close> on a host name other than \<open>/local\<close> and \<open>/unix\<close>, with a resolver that answers with
  addresses of the two internet families: what it has allocated when it returns is exactly the list
  it returns, so that \<open>freeaddrinfo\<close> gives everything back, and an error leaves nothing allocated,
  whichever allocation fails, or one block when the canonical name was asked for.  On the two
  excluded names \<open>ga_unix\<close> can return early and leave what it has made.
\<close>

theorem getaddrinfo_no_leak:
  assumes "getaddrinfo env hostname servname hintsp h = Some (r, h1)" and "inet_only env"
    and "hostname \<noteq> Some ''/local''" and "hostname \<noteq> Some ''/unix''"
  shows "case r of
      Inr ais \<Rightarrow> h_live (freeaddrinfo ais h1) = h_live h
    | Inl e \<Rightarrow> h_live h1 = h_live h \<or> (\<exists>hints. hintsp = Some hints \<and> flag (ai_flags hints) AI_CANONNAME \<and> h_live h1 = h_live h + 1)"
proof -
  let ?hints = "case hintsp of None \<Rightarrow> zero_hints | Some hi \<Rightarrow> hi"
  show ?thesis
  proof (cases "ga_echeck hostname servname (ai_flags ?hints) (ai_family ?hints) (ai_socktype ?hints) (ai_protocol ?hints)")
    case (Some e)
    then have "bad e [] h = Some (r, h1)"
      using assms(1) by (simp add: getaddrinfo_def Let_def)
    then show ?thesis
      by (auto simp: bad_def freeaddrinfo_live)
  next
    case None
    then have "ga_inet env hostname servname ?hints h = Some (r, h1)"
      using assms(1,3,4) by (auto simp: getaddrinfo_def Let_def split: option.splits)
    from ga_inet_owned [OF assms(2) this] show ?thesis
      by (cases r; cases hintsp) (auto simp: freeaddrinfo_live flag_def zero_hints_def)
  qed
qed

section \<open>What getaddrinfo returns\<close>

lemma inet_pton4_length: "inet_pton4 s = Some a \<Longrightarrow> length a = 4"
  by (auto simp: pton4_quad quad_def Let_def split: if_splits)

lemma pton6_loop_length:
  "pton6_loop s cur saw val tmp cp = Some (tmp1, cp1, saw1, val1) \<Longrightarrow> length tmp \<le> 16 \<Longrightarrow> length tmp1 \<le> 16"
proof (induction s cur saw val tmp cp rule: pton6_loop.induct)
  case (2 ch src cur saw val tmp cp)
  then show ?case
    by (auto simp: Let_def hextet_def split: option.splits if_splits dest: inet_pton4_length)
qed simp

lemma shift6_length: "length (shift6 c n arr) = length arr"
proof -
  have "length (fold (\<lambda>i arr. (arr[16 - i := arr ! (c + n - i)])[c + n - i := 0]) is arr) = length arr" for "is" and arr :: "u8 list"
    by (induction "is" arbitrary: arr) simp_all
  then show ?thesis
    by (simp add: shift6_def)
qed

lemma finish6_length: "finish6 (tmp, cp, saw, val) = Some a \<Longrightarrow> length tmp \<le> 16 \<Longrightarrow> length a = 16"
  by (auto simp: finish6_def shift6_length hextet_def bind_eq_Some_conv split: option.splits if_splits)

lemma inet_pton6_length: "inet_pton6 s = Some a \<Longrightarrow> length a = 16"
  by (auto simp: inet_pton6_def bind_eq_Some_conv split: if_splits dest!: pton6_loop_length finish6_length)

text \<open>The socket address of an address and a port.\<close>

definition sized :: "nat \<times> u8 list \<Rightarrow> bool" where
  "sized = (\<lambda>(fam, a). fam = AF_INET \<and> length a = 4 \<or> fam = AF_INET6 \<and> length a = 16)"

definition sock_of :: "nat \<times> u8 list \<Rightarrow> u16 \<Rightarrow> sockaddr" where
  "sock_of = (\<lambda>(fam, a) p.
     if fam = AF_INET then SIn \<lparr>sin_family = AF_INET, sin_port = p, sin_addr = (a ! 0, a ! 1, a ! 2, a ! 3)\<rparr>
     else SIn6 \<lparr>sin6_port = p, sin6_addr = a\<rparr>)"

lemma literal_sized: "literal s = Some fa \<Longrightarrow> sized fa"
  by (auto simp: literal_def free_inet_pton_def sized_def split: option.splits if_splits dest: inet_pton4_length inet_pton6_length)

text \<open>A structure of the search: what \<open>ga_aistruct\<close> makes of an address.\<close>

definition fresh :: "addrinfo \<Rightarrow> nat \<times> u8 list \<Rightarrow> addrinfo" where
  "fresh hints fa =
     \<lparr>ai_flags = (if ai_socktype hints = 0 then AI_CLONE else 0), ai_family = fst fa, ai_socktype = ai_socktype hints,
      ai_protocol = ai_protocol hints, ai_addrlen = (if fst fa = AF_INET then 16 else 32), ai_canonname = None, ai_addr = Some (sock_of fa 0)\<rparr>"

lemma four: "length a = 4 \<Longrightarrow> \<exists>w x y z. a = [w, x, y, z]"
  by (auto simp: numeral_eq_Suc length_Suc_conv)

text \<open>The heap after \<open>k\<close> successful allocations.\<close>

definition took :: "nat \<Rightarrow> heap \<Rightarrow> heap" where
  "took k h = h\<lparr>h_left := h_left h - k, h_live := h_live h + k\<rparr>"

lemma took_simps [simp]: "took 0 h = h" "h_left (took k h) = h_left h - k" "took j (took k h) = took (j + k) h"
  by (simp_all add: took_def)

lemma alloc_took: "0 < h_left h \<Longrightarrow> alloc h = Some (took 1 h)"
  by (simp add: alloc_def took_def)

lemma ga_aistruct_fresh:
  assumes "sized fa" and "2 \<le> h_left h"
  shows "ga_aistruct hints (snd fa) (fst fa) (ais, h) = Some (None, ais @ [fresh hints fa], took 2 h)"
proof -
  have a: "alloc h = Some (took 1 h)" "alloc (took 1 h) = Some (took 2 h)"
    using assms(2) alloc_took [of h] alloc_took [of "took 1 h"] by (simp_all add: numeral_2_eq_2)
  obtain fam a where fa: "fa = (fam, a)"
    by (cases fa)
  show ?thesis
  proof (cases "fam = AF_INET")
    case True
    then obtain w x y z where "a = [w, x, y, z]"
      using assms(1) four [of a] by (auto simp: sized_def fa)
    then show ?thesis
      using True a by (simp add: ga_aistruct_def fa fresh_def sock_of_def Let_def)
  next
    case False
    then show ?thesis
      using assms(1) a by (simp add: ga_aistruct_def fa fresh_def sock_of_def sized_def Let_def)
  qed
qed

lemma ga_each_fresh:
  assumes "\<forall>a \<in> set as. sized (fam, a)" and "2 * length as \<le> h_left h"
  shows "ga_each hints fam as (ais, h) = Some (None, ais @ map (\<lambda>a. fresh hints (fam, a)) as, took (2 * length as) h)"
  using assms
proof (induction as arbitrary: ais h)
  case Nil
  then show ?case
    by simp
next
  case (Cons a as)
  have "ga_aistruct hints a fam (ais, h) = Some (None, ais @ [fresh hints (fam, a)], took 2 h)"
    using ga_aistruct_fresh [of "(fam, a)" h hints ais] Cons.prems by simp
  then show ?case
    using Cons.IH [of "took 2 h" "ais @ [fresh hints (fam, a)]"] Cons.prems by (simp add: add.commute)
qed

text \<open>The addresses that a search finds when failures of the data base are passed over.\<close>

definition addrs_of :: "resolver \<Rightarrow> search \<Rightarrow> (nat \<times> u8 list) list" where
  "addrs_of env sp =
     (case literal (host sp) of
        Some fa \<Rightarrow> if fst fa = family sp then [fa] else []
      | None \<Rightarrow>
          (case gethostbyname2 env (host sp) (family sp) of
             Inl _ \<Rightarrow> []
           | Inr hp \<Rightarrow> map (Pair (h_addrtype hp)) (h_addr_list hp)))"

definition sized_hosts :: "resolver \<Rightarrow> bool" where
  "sized_hosts env \<longleftrightarrow>
     (\<forall>s f hp. gethostbyname2 env s f = Inr hp \<longrightarrow> (\<forall>a \<in> set (h_addr_list hp). sized (h_addrtype hp, a)))"

lemma addrs_of_sized: "sized_hosts env \<Longrightarrow> fa \<in> set (addrs_of env sp) \<Longrightarrow> sized fa"
  by (auto simp: addrs_of_def sized_hosts_def split: option.splits sum.splits if_splits dest: literal_sized)

lemma ga_host_fresh:
  assumes "sized_hosts env" and "ai_family hints = AF_UNSPEC" and "\<not> flag (ai_flags hints) AI_CANONNAME"
    and "2 * length (addrs_of env sp) \<le> h_left h"
  shows "ga_host env hostname hints 2 sp (ais, None, h) =
    Some (None, ais @ map (fresh hints) (addrs_of env sp), None, took (2 * length (addrs_of env sp)) h)"
proof (cases "literal (host sp)")
  case (Some fa)
  then show ?thesis
    using ga_aistruct_fresh [OF literal_sized [OF Some], of h hints ais] assms(2,4) by (cases fa) (auto simp: ga_host_def addrs_of_def)
next
  case None
  show ?thesis
  proof (cases "gethostbyname2 env (host sp) (family sp)")
    case (Inl e)
    then show ?thesis
      using None by (simp add: ga_host_def ga_lookup_def addrs_of_def)
  next
    case (Inr hp)
    then have "\<forall>a \<in> set (h_addr_list hp). sized (h_addrtype hp, a)"
      using assms(1) by (auto simp: sized_hosts_def)
    moreover have n: "length (addrs_of env sp) = length (h_addr_list hp)"
      using None Inr by (simp add: addrs_of_def)
    ultimately show ?thesis
      using ga_each_fresh [of "h_addr_list hp" "h_addrtype hp" h hints ais] None Inr assms(2-4)
      by (simp add: ga_host_def ga_lookup_def addrs_of_def Let_def comp_def)
  qed
qed

lemma ga_hosts_fresh:
  assumes "sized_hosts env" and "ai_family hints = AF_UNSPEC" and "\<not> flag (ai_flags hints) AI_CANONNAME"
    and "2 * length (concat (map (addrs_of env) sps)) \<le> h_left h"
  shows "ga_hosts env hostname hints 2 sps (ais, None, h) =
    Some (None, ais @ map (fresh hints) (concat (map (addrs_of env) sps)), None, took (2 * length (concat (map (addrs_of env) sps))) h)"
  using assms(4)
proof (induction sps arbitrary: ais h)
  case Nil
  then show ?case
    by simp
next
  case (Cons sp sps)
  then show ?case
    using ga_host_fresh [OF assms(1-3), of sp h hostname ais]
    by (simp add: add.commute)
qed

text \<open>A structure of the search with a socket type and a port.\<close>

definition serviced :: "addrinfo \<Rightarrow> int \<times> u16 \<Rightarrow> nat \<times> u8 list \<Rightarrow> addrinfo" where
  "serviced hints = (\<lambda>(st, p) fa. (fresh hints fa)\<lparr>ai_socktype := st, ai_addr := Some (sock_of fa p)\<rparr>)"

lemma set_service_sized:
  assumes "sized fa" and "ai_family ai = fst fa" and "ai_addr ai = Some (sock_of fa q)"
  shows "set_service p st ai = Some (ai\<lparr>ai_socktype := st, ai_addr := Some (sock_of fa p)\<rparr>, 1)"
  using assms by (cases fa) (auto simp: set_service_def sized_def sock_of_def Let_def)

lemma flag_clone [simp]: "flag AI_CLONE AI_CLONE" "\<not> flag 0 f"
  by (simp_all add: flag_def)

lemma ga_port_first:
  assumes "\<forall>fa \<in> set fas. sized fa" and "ai_socktype hints = 0 \<or> ai_socktype hints = st"
  shows "ga_port p st (map (fresh hints) fas) h = Some (Some (length fas), map (serviced hints (st, p)) fas, h)"
  using assms(1)
proof (induction fas)
  case Nil
  then show ?case
    by simp
next
  case (Cons fa fas)
  have "set_service p st (fresh hints fa) = Some (serviced hints (st, p) fa, 1)"
    using set_service_sized [of fa "fresh hints fa" 0 p st] Cons.prems by (simp add: fresh_def serviced_def)
  then have "ga_port1 p st (fresh hints fa) h = Some (Some 1, [serviced hints (st, p) fa], h)"
    using assms(2) by (auto simp: ga_port1_def fresh_def)
  then show ?case
    using Cons by simp
qed

definition cloned :: "addrinfo \<Rightarrow> int \<times> u16 \<Rightarrow> nat \<times> u8 list \<Rightarrow> addrinfo" where
  "cloned hints c fa = (serviced hints c fa)\<lparr>ai_flags := 0\<rparr>"

lemma ga_port_second:
  assumes "\<forall>fa \<in> set fas. sized fa" and "ai_socktype hints = 0" and "st1 \<noteq> 0" and "2 * length fas \<le> h_left h"
  shows "ga_port p st (map (serviced hints (st1, p1)) fas) h =
    Some (Some (length fas), concat (map (\<lambda>fa. [serviced hints (st1, p1) fa, cloned hints (st, p) fa]) fas), took (2 * length fas) h)"
  using assms(1,4)
proof (induction fas arbitrary: h)
  case Nil
  then show ?case
    by simp
next
  case (Cons fa fas)
  let ?ai = "serviced hints (st1, p1) fa"
  have "alloc h = Some (took 1 h)" "alloc (took 1 h) = Some (took 2 h)"
    using Cons.prems(2) alloc_took [of h] alloc_took [of "took 1 h"] by (simp_all add: numeral_2_eq_2)
  then have "ga_clone ?ai h = (True, [?ai\<lparr>ai_flags := 0\<rparr>], took 2 h)"
    by (simp add: ga_clone_def serviced_def fresh_def)
  moreover have "set_service p st (?ai\<lparr>ai_flags := 0\<rparr>) = Some (cloned hints (st, p) fa, 1)"
    using set_service_sized [of fa "?ai\<lparr>ai_flags := 0\<rparr>" p1 p st] Cons.prems by (simp add: fresh_def serviced_def cloned_def)
  moreover have "flag (ai_flags ?ai) AI_CLONE" "ai_socktype ?ai \<noteq> 0"
    using assms(2,3) by (simp_all add: serviced_def fresh_def)
  ultimately have "ga_port1 p st ?ai h = Some (Some 1, [?ai, cloned hints (st, p) fa], took 2 h)"
    by (simp add: ga_port1_def)
  then show ?case
    using Cons.IH [of "took 2 h"] Cons.prems by (simp add: add.commute)
qed

lemma ga_calls_cases:
  "ga_calls env hints sn = [] \<or>
   (\<exists>st p. ga_calls env hints sn = [(st, p)] \<and> (ai_socktype hints = 0 \<or> ai_socktype hints = st)) \<or>
   (\<exists>p q. ga_calls env hints sn = [(SOCK_STREAM, p), (SOCK_DGRAM, q)] \<and> ai_socktype hints = 0)"
proof (cases "sn \<noteq> [] \<and> is_digit (hd sn)")
  case True
  then show ?thesis
    by (auto simp: ga_calls_def Let_def)
next
  case False
  then show ?thesis
    by (auto simp: ga_calls_def split: option.splits)
qed

lemma ga_calls_shape:
  obtains (none) "ga_calls env hints sn = []"
  | (one) st p where "ga_calls env hints sn = [(st, p)]" "ai_socktype hints = 0 \<or> ai_socktype hints = st"
  | (two) p q where "ga_calls env hints sn = [(SOCK_STREAM, p), (SOCK_DGRAM, q)]" "ai_socktype hints = 0"
  using ga_calls_cases [of env hints sn] by blast

text \<open>What a caller sees of a structure.\<close>

definition view :: "addrinfo \<Rightarrow> int \<times> sockaddr option" where
  "view ai = (ai_socktype ai, ai_addr ai)"

definition pairs :: "(nat \<times> u8 list) list \<Rightarrow> (int \<times> u16) list \<Rightarrow> (int \<times> sockaddr option) list" where
  "pairs fas calls = concat (map (\<lambda>fa. map (\<lambda>(st, p). (st, Some (sock_of fa p))) calls) fas)"

lemma ga_serv_pairs:
  assumes "\<forall>fa \<in> set fas. sized fa" and "fas \<noteq> []" and "2 * length fas \<le> h_left h"
  shows "\<exists>ais h1. ga_serv env hints sn (map (fresh hints) fas) h =
    Some (if ga_calls env hints sn = [] then Some (if ai_socktype hints = 0 then EAI_NONAME else EAI_SERVICE) else None, ais, h1) \<and>
    (ga_calls env hints sn \<noteq> [] \<longrightarrow> map view ais = pairs fas (ga_calls env hints sn))"
proof (cases rule: ga_calls_shape [of env hints sn])
  case none
  then show ?thesis
    by (simp add: ga_serv_def)
next
  case (one st p)
  then show ?thesis
    using ga_port_first [OF assms(1) one(2), of p h] assms(2)
    by (simp add: ga_serv_def pairs_def view_def serviced_def concat_map_singleton)
next
  case (two p q)
  let ?m = "\<lambda>fa. [serviced hints (SOCK_STREAM, p) fa, cloned hints (SOCK_DGRAM, q) fa]"
  have "map view (concat (map ?m fas)) = pairs fas [(SOCK_STREAM, p), (SOCK_DGRAM, q)]"
    by (simp add: pairs_def map_concat comp_def view_def cloned_def serviced_def)
  then show ?thesis
    using two ga_port_first [OF assms(1), of hints SOCK_STREAM p h] ga_port_second [OF assms(1) two(2) _ assms(3), of SOCK_STREAM q SOCK_DGRAM p] assms(2)
    by (simp add: ga_serv_def)
qed

lemma gai_pairs:
  assumes "hn \<noteq> []" and "hn \<noteq> ''/local''" and "hn \<noteq> ''/unix''" and "sn \<noteq> []" and "sized_hosts env"
    and "ai_family hints = AF_UNSPEC" and "ai_flags hints = 0"
    and "fas = addrs_of env \<lparr>host = hn, family = AF_INET6\<rparr> @ addrs_of env \<lparr>host = hn, family = AF_INET\<rparr>" and "4 * length fas \<le> h_left h"
  shows "\<exists>r h1. getaddrinfo env (Some hn) (Some sn) (Some hints) h = Some (r, h1) \<and>
    (if fas = [] then r = Inl EAI_NONAME
     else if ga_calls env hints sn = [] then r = Inl (if ai_socktype hints = 0 then EAI_NONAME else EAI_SERVICE)
     else \<exists>ais. r = Inr ais \<and> map view ais = pairs fas (ga_calls env hints sn))"
proof -
  let ?sps = "[\<lparr>host = hn, family = AF_INET6\<rparr>, \<lparr>host = hn, family = AF_INET\<rparr>]"
  have fas: "concat (map (addrs_of env) ?sps) = fas"
    using assms(8) by simp
  have sz: "\<forall>fa \<in> set fas. sized fa"
    using addrs_of_sized [OF assms(5)] assms(8) by auto
  have g: "getaddrinfo env (Some hn) (Some sn) (Some hints) h = ga_inet env (Some hn) (Some sn) hints h"
    using assms by (simp add: getaddrinfo_def ga_echeck_def)
  have n: "ga_nsearch (Some hn) hints = Some ?sps"
    using assms(1,6) by (simp add: ga_nsearch_def)
  have c: "\<not> flag (ai_flags hints) AI_CANONNAME"
    using assms(7) by simp
  have l: "length ?sps = 2"
    by simp
  have hs: "ga_hosts env (Some hn) hints (length ?sps) ?sps ([], None, h) = Some (None, map (fresh hints) fas, None, took (2 * length fas) h)"
    using ga_hosts_fresh [OF assms(5,6) c, of ?sps h "Some hn" "[]"] assms(9)
    unfolding fas l append_Nil by linarith
  have e: "getaddrinfo env (Some hn) (Some sn) (Some hints) h =
      (if fas = [] then bad EAI_NONAME [] (took (2 * length fas) h) else ga_finish env (Some sn) hints (map (fresh hints) fas) (took (2 * length fas) h))"
    unfolding g ga_inet_def n Option.bind.simps hs prod.case option.case using c by simp
  show ?thesis
  proof (cases "fas = []")
    case True
    then show ?thesis
      using e by (simp add: bad_def)
  next
    case False
    have "2 * length fas \<le> h_left (took (2 * length fas) h)"
      using assms(9) by simp
    from ga_serv_pairs [OF sz False this, of env hints sn]
    obtain ais h1 where s: "ga_serv env hints sn (map (fresh hints) fas) (took (2 * length fas) h) =
        Some (if ga_calls env hints sn = [] then Some (if ai_socktype hints = 0 then EAI_NONAME else EAI_SERVICE) else None, ais, h1)"
      "ga_calls env hints sn \<noteq> [] \<longrightarrow> map view ais = pairs fas (ga_calls env hints sn)"
      by blast
    then show ?thesis
      using e False assms(4) by (auto simp: ga_finish_def bad_def)
  qed
qed

text \<open>
  C15: with a host and a service, no family asked for and enough memory, \<open>getaddrinfo\<close> returns one structure
  for each pair of an address of the host and a socket type of the service, with the port of that
  type: the addresses in the order in which they are found, the IPv6 ones first, and for each of
  them the stream before the datagram service.  Without an address or a service it returns the
  error of the documentation.
\<close>

theorem getaddrinfo_pairs:
  assumes "hn \<noteq> []" and "hn \<noteq> ''/local''" and "hn \<noteq> ''/unix''" and "sn \<noteq> []" and "sized_hosts env"
    and "ai_family hints = AF_UNSPEC" and "ai_flags hints = 0"
    and "fas = addrs_of env \<lparr>host = hn, family = AF_INET6\<rparr> @ addrs_of env \<lparr>host = hn, family = AF_INET\<rparr>" and "4 * length fas \<le> h_left h"
  shows "\<exists>r h1. getaddrinfo env (Some hn) (Some sn) (Some hints) h = Some (r, h1) \<and>
    (if fas = [] then r = Inl EAI_NONAME
     else if ga_calls env hints sn = [] then r = Inl (if ai_socktype hints = 0 then EAI_NONAME else EAI_SERVICE)
     else \<exists>ais. r = Inr ais \<and> map view ais = pairs fas (ga_calls env hints sn))"
  by (rule gai_pairs) (use assms in simp_all)

section \<open>Names of addresses and back\<close>

lemma unat_u16: "k < 65536 \<Longrightarrow> unat (word_of_nat k :: u16) = k"
  by (simp add: unat_of_nat)

lemma swap16_swap16: "swap16 be (swap16 be w) = w"
proof (cases be)
  case False
  define n where "n = unat w"
  have n: "n < 65536"
    using unsigned_less [of w, where ?'a = nat] by (simp add: n_def)
  then have d: "n div 256 < 256"
    by (simp add: less_mult_imp_div_less)
  have "n mod 256 * 256 + n div 256 < 65536"
    using d mod_less_divisor [of 256 n] by simp
  from unat_u16 [OF this] have s: "unat (swap16 be w) = n mod 256 * 256 + n div 256"
    using False by (simp only: swap16_def n_def if_False)
  have "(n mod 256 * 256 + n div 256) mod 256 = n div 256" "(n mod 256 * 256 + n div 256) div 256 = n mod 256"
    using d by simp_all
  then have "unat (swap16 be w) mod 256 * 256 + unat (swap16 be w) div 256 = n"
    unfolding s by simp
  then have "swap16 be (swap16 be w) = word_of_nat n"
    using False unfolding swap16_def [of be "swap16 be w"] by metis
  then show ?thesis
    by (simp add: n_def)
qed (simp add: swap16_def)

lemma colon_not_digit: "\<not> is_digit (CHR '':'')"
  by (simp add: is_digit_def)

lemma quad_no_colon: "quad s = Some a \<Longrightarrow> CHR '':'' \<notin> set s"
proof
  assume q: "quad s = Some a" and c: "CHR '':'' \<in> set s"
  obtain w ws where ws: "split_on (CHR ''.'') s = w # ws"
    using split_on_cons by blast
  have "list_all quad_part (w # ws)"
    using q ws by (auto simp: quad_def Let_def split: if_splits)
  then have "\<forall>v \<in> set (w # ws). CHR '':'' \<notin> set v"
    using colon_not_digit by (auto simp: list_all_iff quad_part_def)
  then show False
    using split_join [OF ws] c by (auto split: if_splits)
qed

lemma hex_nat_head: "\<exists>c cs. hex_nat w = c # cs \<and> is_xdigit c"
proof (induction w rule: hex_nat.induct)
  case (1 n)
  show ?case
  proof (cases "n < 16")
    case True
    then show ?thesis
      using xdigit_val [of n] by (simp add: hex_nat.simps [of n] is_xdigit_def)
  next
    case False
    then show ?thesis
      using "1" [OF False] by (auto simp: hex_nat.simps [of n])
  qed
qed

lemma text6_head: "text6 src \<noteq> [] \<and> (is_xdigit (hd (text6 src)) \<or> hd (text6 src) = CHR '':'') \<and> CHR '':'' \<in> set (text6 src)"
proof -
  let ?ws = "words6 src" and ?best = "best6 (words6 src)"
  have u: "[0..<8] = [0, 1, 2, 3, 4, 5, 6, 7 :: nat]"
    by code_simp
  obtain c cs where h: "hex_nat (?ws ! 0) = c # cs" "is_xdigit c"
    using hex_nat_head by blast
  show ?thesis
  proof (cases "in_run ?best 0")
    case True
    then show ?thesis
      by (auto simp: text6_def Let_def u in_run_def split: option.splits)
  next
    case False
    then have "in_run ?best 1 \<longrightarrow> map_option fst ?best = Some 1"
      by (auto simp: in_run_def split: option.splits)
    then have "\<exists>rest. fmt6 ?best src ?ws (1 # js) = CHR '':'' # rest" for js
      by auto
    then obtain rest where "fmt6 ?best src ?ws [1, 2, 3, 4, 5, 6, 7] = CHR '':'' # rest"
      by blast
    moreover have "\<not> v4_tail ?best ?ws 0"
      by (simp add: v4_tail_def)
    ultimately show ?thesis
      using False h by (simp add: text6_def Let_def u del: fmt6.simps(2) add: fmt6.simps(2) [of _ _ _ 0])
  qed
qed

lemma literal_text4: "length a = 4 \<Longrightarrow> literal (text4 a) = Some (AF_INET, a)"
proof -
  assume a: "length a = 4"
  have "text4 a \<noteq> [] \<and> is_digit (hd (text4 a))"
    using dec_nat_digits [of "unat (a ! 0)"] by (cases "dec_nat (unat (a ! 0))") (auto simp: text4_def)
  then show ?thesis
    using pton4_text4 [of a] a by (simp add: literal_def free_inet_pton_def pton4_quad)
qed

lemma literal_text6: "length a = 16 \<Longrightarrow> literal (text6 a) = Some (AF_INET6, a)"
proof -
  assume a: "length a = 16"
  have "inet_pton4 (text6 a) = None"
    using text6_head [of a] quad_no_colon [of "text6 a"] by (cases "quad (text6 a)") (auto simp: pton4_quad)
  then show ?thesis
    using text6_head [of a] text6_parses [OF a] by (auto simp: literal_def free_inet_pton_def)
qed

text \<open>The address of a socket address, and one that is well-formed.\<close>

fun sa_parts :: "sockaddr \<Rightarrow> (nat \<times> u8 list) \<times> u16" where
  "sa_parts (SIn a) = ((AF_INET, ipv4_bytes (sin_addr a)), sin_port a)"
| "sa_parts (SIn6 a) = ((AF_INET6, sin6_addr a), sin6_port a)"
| "sa_parts sa = ((AF_UNSPEC, []), 0)"

fun sa_ok :: "sockaddr \<Rightarrow> bool" where
  "sa_ok (SIn a) \<longleftrightarrow> sin_family a = AF_INET"
| "sa_ok (SIn6 a) \<longleftrightarrow> length (sin6_addr a) = 16"
| "sa_ok _ \<longleftrightarrow> False"

lemma sa_parts_sock: "sa_ok sa \<Longrightarrow> sized (fst (sa_parts sa)) \<and> sock_of (fst (sa_parts sa)) (snd (sa_parts sa)) = sa"
proof (cases sa)
  case (SIn a)
  then show "sa_ok sa \<Longrightarrow> ?thesis"
    by (cases "sin_addr a") (auto simp: sized_def sock_of_def)
qed (auto simp: sized_def sock_of_def)

definition text_of :: "nat \<times> u8 list \<Rightarrow> string" where
  "text_of = (\<lambda>(fam, a). if fam = AF_INET then text4 a else text6 a)"

lemma literal_not: "literal [] = None" "literal ''/local'' = None" "literal ''/unix'' = None"
  by code_simp+

lemma literal_text_of: "sized fa \<Longrightarrow> literal (text_of fa) = Some fa"
  by (cases fa) (auto simp: sized_def text_of_def literal_text4 literal_text6)

lemma getnameinfo_numeric:
  assumes "sa_ok sa" and "46 \<le> hostlen" and "6 \<le> servlen" and "flag flags NI_NUMERICHOST" and "flag flags NI_NUMERICSERV"
  shows "getnameinfo env sa hostlen servlen flags =
    Some (0, Some (text_of (fst (sa_parts sa))), Some (dec_nat (unat (swap16 (big_endian env) (snd (sa_parts sa))))))"
proof -
  have d: "length (dec_nat n) \<le> 5" if "n < 65536" for n
    using that
    by (simp add: dec_nat.simps [of n] dec_nat.simps [of "n div 10"] dec_nat.simps [of "n div 10 div 10"] dec_nat.simps [of "n div 10 div 10 div 10"]
        dec_nat.simps [of "n div 10 div 10 div 10 div 10"])
  have "length (dec_nat (unat p)) \<le> servlen - 1" for p :: u16
    using d [of "unat p"] unsigned_less [of p, where ?'a = nat] assms(3) by simp
  then have s: "gn_serv env servlen p flags = dec_nat (unat (swap16 (big_endian env) p))" for p
    using assms(5) by (simp add: gn_serv_def snprintf_s_def Let_def)
  have h: "gn_host env hostlen a fam flags = Some (Some (text_of (fam, a)))" if "sized (fam, a)" for fam a
    using that assms(2,4) text4_length [of a] text6_length [of a]
    by (auto simp: gn_host_def free_inet_ntop_def inet_ntop4_def inet_ntop6_def text_of_def sized_def Let_def)
  show ?thesis
    using assms sa_parts_sock [OF assms(1)] s h
    by (cases sa) (auto simp: getnameinfo_def gn_ipv46_def)
qed

text \<open>
  C16: an address and a port printed by \<open>getnameinfo\<close> in numbers and looked up again by \<open>getaddrinfo\<close> give
  the same socket address and nothing else, for IPv4 and IPv6, whatever the data bases hold.
\<close>

theorem numeric_name_roundtrip:
  assumes "sa_ok sa" and "46 \<le> hostlen" and "6 \<le> servlen" and "flag flags NI_NUMERICHOST" and "flag flags NI_NUMERICSERV"
    and "sized_hosts env" and "4 \<le> h_left h" and "socktype \<noteq> 0"
  shows "\<exists>hn sn ai h1. getnameinfo env sa hostlen servlen flags = Some (0, Some hn, Some sn) \<and>
    getaddrinfo env (Some hn) (Some sn) (Some (zero_hints\<lparr>ai_socktype := socktype\<rparr>)) h = Some (Inr [ai], h1) \<and> ai_addr ai = Some sa"
proof -
  define fa p where "fa = fst (sa_parts sa)" and "p = snd (sa_parts sa)"
  let ?hn = "text_of fa" and ?sn = "dec_nat (unat (swap16 (big_endian env) p))" and ?hints = "zero_hints\<lparr>ai_socktype := socktype\<rparr>"
  have f: "sized fa" "sock_of fa p = sa"
    using sa_parts_sock [OF assms(1)] by (simp_all add: fa_def p_def)
  have lit: "literal ?hn = Some fa"
    by (rule literal_text_of [OF f(1)])
  have "is_digit (hd ?sn)"
    using dec_nat_digits [of "unat (swap16 (big_endian env) p)"] by (metis dec_nat_nonempty hd_in_set)
  moreover have "swap16 (big_endian env) (word_of_int (int (unat (swap16 (big_endian env) p)))) = p"
    using swap16_swap16 [of "big_endian env" p] by simp
  ultimately have calls: "ga_calls env ?hints ?sn = [(socktype, p)]"
    using assms(8) by (simp add: ga_calls_def Let_def atoi_dec_nat)
  have hn: "?hn \<noteq> []" "?hn \<noteq> ''/local''" "?hn \<noteq> ''/unix''"
    using lit literal_not by auto
  have fas: "addrs_of env \<lparr>host = ?hn, family = AF_INET6\<rparr> @ addrs_of env \<lparr>host = ?hn, family = AF_INET\<rparr> = [fa]"
    using lit f(1) by (auto simp: addrs_of_def sized_def)
  obtain ais h1 where "getaddrinfo env (Some ?hn) (Some ?sn) (Some ?hints) h = Some (Inr ais, h1)" "map view ais = [(socktype, Some sa)]"
    using gai_pairs [OF hn, of ?sn env ?hints "[fa]" h] assms(6,7) calls fas f(2) by (auto simp: zero_hints_def pairs_def)
  moreover then obtain ai where "ais = [ai]" "ai_addr ai = Some sa"
    by (auto simp: view_def)
  ultimately show ?thesis
    using getnameinfo_numeric [OF assms(1-5), of env] by (simp add: fa_def p_def)
qed

section \<open>Examples\<close>

text \<open>A host with two addresses, and a service over both protocols.\<close>

definition demo_env :: resolver where
  "demo_env =
     \<lparr>gethostbyname2 = (\<lambda>s f. if s = ''minix'' \<and> f = AF_INET
        then Inr \<lparr>h_name = ''minix'', h_addrtype = AF_INET, h_addr_list = [[130, 245, 1, 2], [130, 245, 1, 3]]\<rparr> else Inl HOST_NOT_FOUND),
      gethostbyname = (\<lambda>b s. Inl HOST_NOT_FOUND), gethostbyaddr = (\<lambda>a f. None),
      getservbyname = (\<lambda>s p. if s = ''daytime'' then Some (if p = ''tcp'' then 3328 else 3584) else None),
      getservbyport = (\<lambda>p s. None), uname = None, big_endian = False\<rparr>"

definition heap_of :: "nat \<Rightarrow> heap" where
  "heap_of n = \<lparr>h_left = n, h_live = 0, h_unlinked = []\<rparr>"

lemma resolver_demo_ok: "inet_only demo_env" "sized_hosts demo_env"
  by (auto simp: inet_only_def sized_hosts_def demo_env_def sized_def)

theorem getaddrinfo_pairs_witness:
  "\<exists>ais h1. getaddrinfo demo_env (Some ''minix'') (Some ''daytime'') (Some zero_hints) (heap_of 8) = Some (Inr ais, h1) \<and>
    map view ais =
      [(SOCK_STREAM, Some (SIn \<lparr>sin_family = AF_INET, sin_port = 3328, sin_addr = (130, 245, 1, 2)\<rparr>)),
       (SOCK_DGRAM, Some (SIn \<lparr>sin_family = AF_INET, sin_port = 3584, sin_addr = (130, 245, 1, 2)\<rparr>)),
       (SOCK_STREAM, Some (SIn \<lparr>sin_family = AF_INET, sin_port = 3328, sin_addr = (130, 245, 1, 3)\<rparr>)),
       (SOCK_DGRAM, Some (SIn \<lparr>sin_family = AF_INET, sin_port = 3584, sin_addr = (130, 245, 1, 3)\<rparr>))]"
proof -
  have l: "literal ''minix'' = None"
    by code_simp
  have a: "addrs_of demo_env \<lparr>host = ''minix'', family = AF_INET6\<rparr> @ addrs_of demo_env \<lparr>host = ''minix'', family = AF_INET\<rparr> =
      [(AF_INET, [130, 245, 1, 2]), (AF_INET, [130, 245, 1, 3])]"
    by (simp add: addrs_of_def l) (simp add: demo_env_def)
  have c: "ga_calls demo_env zero_hints ''daytime'' = [(SOCK_STREAM, 3328), (SOCK_DGRAM, 3584)]"
    by (simp add: ga_calls_def zero_hints_def demo_env_def is_digit_def)
  have z: "ai_family zero_hints = AF_UNSPEC" "ai_flags zero_hints = 0" "h_left (heap_of 8) = 8"
    by (simp_all add: zero_hints_def heap_of_def)
  let ?fas = "[(AF_INET, [130, 245, 1, 2 :: u8]), (AF_INET, [130, 245, 1, 3])]"
  have "\<exists>r h1. getaddrinfo demo_env (Some ''minix'') (Some ''daytime'') (Some zero_hints) (heap_of 8) = Some (r, h1) \<and>
      (if ?fas = [] then r = Inl EAI_NONAME
       else if ga_calls demo_env zero_hints ''daytime'' = [] then r = Inl (if ai_socktype zero_hints = 0 then EAI_NONAME else EAI_SERVICE)
       else \<exists>ais. r = Inr ais \<and> map view ais = pairs ?fas (ga_calls demo_env zero_hints ''daytime''))"
    by (rule getaddrinfo_pairs [OF _ _ _ _ resolver_demo_ok(2) z(1,2) a [symmetric]]) (simp_all add: z)
  then have "\<exists>ais h1. getaddrinfo demo_env (Some ''minix'') (Some ''daytime'') (Some zero_hints) (heap_of 8) = Some (Inr ais, h1) \<and>
      map view ais = pairs ?fas [(SOCK_STREAM, 3328), (SOCK_DGRAM, 3584)]"
    unfolding c by auto
  then show ?thesis
    by (simp add: pairs_def sock_of_def)
qed

theorem getaddrinfo_no_leak_witness:
  "getaddrinfo demo_env (Some ''minix'') (Some ''daytime'') None (heap_of 3) = Some (Inl EAI_MEMORY, heap_of 0) \<and> h_live (heap_of 0) = h_live (heap_of 3)"
proof -
  have g: "getaddrinfo demo_env (Some ''minix'') (Some ''daytime'') None (heap_of 3) = Some (Inl EAI_MEMORY, heap_of 0)"
    by code_simp
  from getaddrinfo_no_leak [OF g resolver_demo_ok(1)] g show ?thesis
    by simp
qed

theorem numeric_name_roundtrip_witness:
  "\<exists>hn sn ai h1. getnameinfo demo_env (SIn6 \<lparr>sin6_port = 80, sin6_addr = local6\<rparr>) 46 6 10 = Some (0, Some hn, Some sn) \<and>
    getaddrinfo demo_env (Some hn) (Some sn) (Some (zero_hints\<lparr>ai_socktype := SOCK_STREAM\<rparr>)) (heap_of 4) = Some (Inr [ai], h1) \<and>
    ai_addr ai = Some (SIn6 \<lparr>sin6_port = 80, sin6_addr = local6\<rparr>)"
  by (rule numeric_name_roundtrip [OF _ _ _ _ _ resolver_demo_ok(2)]) (simp_all add: local6_def heap_of_def flag_def)

text \<open>
  What the functions do not do: a host looked up for the family of local sockets ends the process;
  an error between the search and the canonical name keeps the name; a path that is too long keeps
  the structures made for it.
\<close>

lemma getaddrinfo_local_exits:
  assumes "ai_family hints = AF_LOCAL" and "ai_socktype hints = 0" and "ai_flags hints = 0" and "hn \<noteq> []" and "hn \<noteq> ''/local''" and "hn \<noteq> ''/unix''"
  shows "getaddrinfo env (Some hn) servname (Some hints) h = None"
  using assms by (auto simp: getaddrinfo_def ga_echeck_def ga_inet_def ga_nsearch_def split: option.splits)

lemma canonical_name_kept:
  "getaddrinfo demo_env (Some ''minix'') (Some ''daytime'') (Some (zero_hints\<lparr>ai_flags := AI_CANONNAME\<rparr>)) (heap_of 4) =
    Some (Inl EAI_MEMORY, (heap_of 0)\<lparr>h_live := 1\<rparr>)"
  by code_simp

lemma long_path_kept:
  assumes "length path \<ge> SUN_PATH" and "1 \<le> h_left h"
  shows "ga_unix env path zero_hints h = Some (Inl EAI_SERVICE, took 1 h)"
  using assms alloc_took [of h] by (simp add: ga_unix_def zero_hints_def ga_aistruct_def octs_def Let_def)

end
