(* ===== verification/Nonblock.thy ===== *)
theory Nonblock
  imports Machine Udp "HOL-Library.Sublist"
begin

text \<open>
  The client with descriptors that never block, \<open>src/unpv13e/nonblock/strclinonb.c\<close>: it copies the
  terminal to a socket and the socket to the terminal through two arrays with a pointer where data
  goes in and one where it goes out.  A turn of its loop is an event that says which descriptors
  \<open>select\<close> reports and what the calls return.  The pointers are indices.
\<close>

section \<open>The client\<close>

text \<open>
  Results of \<open>read\<close>: \<open>NData cs\<close> is data, of which as much is read as there is room for, \<open>NData []\<close> the
  end; of \<open>write\<close>: a number of bytes taken.  \<open>NBlock\<close> and \<open>NFull\<close> are \<open>EWOULDBLOCK\<close>.
\<close>

datatype nb_read = NData string | NBlock | NFail
datatype nb_write = NTook nat | NFull | NBroken
datatype nb_end = Looping | Returned | Exited

text \<open>
  The variables of the function, then what has happened: the bytes read from the terminal and
  written to the socket, the number of calls of \<open>Shutdown\<close>, the bytes read from the socket and
  written to the terminal, and how the function ended.
\<close>

record nb =
  to_buf :: string
  toiptr :: nat
  tooptr :: nat
  fr_buf :: string
  friptr :: nat
  froptr :: nat
  stdineof :: bool
  n_typed :: string
  n_sent :: string
  n_fins :: nat
  n_recv :: string
  n_shown :: string
  n_end :: nb_end

definition nb_start :: "string \<Rightarrow> string \<Rightarrow> nb" where
  "nb_start tb fb = \<lparr>to_buf = tb, toiptr = 0, tooptr = 0, fr_buf = fb, friptr = 0, froptr = 0, stdineof = False,
     n_typed = [], n_sent = [], n_fins = 0, n_recv = [], n_shown = [], n_end = Looping\<rparr>"

text \<open>What a call of \<open>read\<close> stores, and the bytes between two pointers.\<close>

definition store :: "nat \<Rightarrow> string \<Rightarrow> string \<Rightarrow> string" where
  "store i cs arr = take i arr @ cs @ drop (i + length cs) arr"

definition between :: "nat \<Rightarrow> nat \<Rightarrow> string \<Rightarrow> string" where
  "between i j arr = take (j - i) (drop i arr)"

text \<open>The result says whether the descriptor for writing is added to the set.\<close>

definition from_stdin :: "nb_read \<Rightarrow> nb \<Rightarrow> bool \<times> nb" where
  "from_stdin r s =
     (case r of
        NFail \<Rightarrow> (False, s\<lparr>n_end := Exited\<rparr>)
      | NBlock \<Rightarrow> (False, s)
      | NData cs \<Rightarrow>
          let got = take (MAXLINE - toiptr s) cs in
          if got = [] then
            (let s1 = s\<lparr>stdineof := True\<rparr> in (False, if tooptr s = toiptr s then s1\<lparr>n_fins := Suc (n_fins s)\<rparr> else s1))
          else (True, s\<lparr>to_buf := store (toiptr s) got (to_buf s), toiptr := toiptr s + length got, n_typed := n_typed s @ got\<rparr>))"

definition from_sock :: "nb_read \<Rightarrow> nb \<Rightarrow> bool \<times> nb" where
  "from_sock r s =
     (case r of
        NFail \<Rightarrow> (False, s\<lparr>n_end := Exited\<rparr>)
      | NBlock \<Rightarrow> (False, s)
      | NData cs \<Rightarrow>
          let got = take (MAXLINE - friptr s) cs in
          if got = [] then (False, s\<lparr>n_end := if stdineof s then Returned else Exited\<rparr>)
          else (True, s\<lparr>fr_buf := store (friptr s) got (fr_buf s), friptr := friptr s + length got, n_recv := n_recv s @ got\<rparr>))"

definition to_stdout :: "nb_write \<Rightarrow> nb \<Rightarrow> nb" where
  "to_stdout w s =
     (case w of
        NBroken \<Rightarrow> s\<lparr>n_end := Exited\<rparr>
      | NFull \<Rightarrow> s
      | NTook k \<Rightarrow>
          let nwritten = min k (friptr s - froptr s);
              s1 = s\<lparr>n_shown := n_shown s @ between (froptr s) (froptr s + nwritten) (fr_buf s), froptr := froptr s + nwritten\<rparr>
          in if froptr s1 = friptr s1 then s1\<lparr>froptr := 0, friptr := 0\<rparr> else s1)"

definition to_sock :: "nb_write \<Rightarrow> nb \<Rightarrow> nb" where
  "to_sock w s =
     (case w of
        NBroken \<Rightarrow> s\<lparr>n_end := Exited\<rparr>
      | NFull \<Rightarrow> s
      | NTook k \<Rightarrow>
          let nwritten = min k (toiptr s - tooptr s);
              s1 = s\<lparr>n_sent := n_sent s @ between (tooptr s) (tooptr s + nwritten) (to_buf s), tooptr := tooptr s + nwritten\<rparr>
          in if tooptr s1 = toiptr s1
             then (let s2 = s1\<lparr>toiptr := 0, tooptr := 0\<rparr> in if stdineof s2 then s2\<lparr>n_fins := Suc (n_fins s2)\<rparr> else s2)
             else s1)"

text \<open>
  What the kernel answers in a turn: the result of \<open>read\<close> for a descriptor that is ready for it,
  whether the descriptors are ready for writing, and the results of \<open>write\<close>.
\<close>

record nb_event =
  e_stdin :: "nb_read option"
  e_sock :: "nb_read option"
  e_outset :: bool
  e_out :: nb_write
  e_sockset :: bool
  e_sockw :: nb_write

text \<open>The rest of a turn is skipped when the function has ended.\<close>

definition going :: "(nb \<Rightarrow> nb) \<Rightarrow> nb \<Rightarrow> nb" where
  "going f s = (if n_end s = Looping then f s else s)"

text \<open>The descriptors that \<open>select\<close> is asked for and reports, before the first call of a turn.\<close>

definition stdin_set :: "nb_event \<Rightarrow> nb \<Rightarrow> nb_read option" where
  "stdin_set ev s = (if \<not> stdineof s \<and> toiptr s < MAXLINE then e_stdin ev else None)"

definition sock_set :: "nb_event \<Rightarrow> nb \<Rightarrow> nb_read option" where
  "sock_set ev s = (if friptr s < MAXLINE then e_sock ev else None)"

definition sockw_set :: "nb_event \<Rightarrow> nb \<Rightarrow> bool" where
  "sockw_set ev s \<longleftrightarrow> tooptr s \<noteq> toiptr s \<and> e_sockset ev"

definition out_set :: "nb_event \<Rightarrow> nb \<Rightarrow> bool" where
  "out_set ev s \<longleftrightarrow> froptr s \<noteq> friptr s \<and> e_outset ev"

text \<open>A turn; \<open>None\<close> is a \<open>select\<close> that waits, or a function that has ended.\<close>

definition read_phase :: "(nb_read \<Rightarrow> nb \<Rightarrow> bool \<times> nb) \<Rightarrow> nb_read option \<Rightarrow> nb \<Rightarrow> bool \<times> nb" where
  "read_phase f r s = (case r of None \<Rightarrow> (False, s) | Some x \<Rightarrow> if n_end s = Looping then f x s else (False, s))"

definition nb_turn :: "nb_event \<Rightarrow> nb \<Rightarrow> nb option" where
  "nb_turn ev s =
     (if n_end s \<noteq> Looping \<or> stdin_set ev s = None \<and> sock_set ev s = None \<and> \<not> sockw_set ev s \<and> \<not> out_set ev s then None
      else
        let (b1, s1) = read_phase from_stdin (stdin_set ev s) s;
            (b2, s2) = read_phase from_sock (sock_set ev s) s1;
            s3 = going (\<lambda>u. if (out_set ev s \<or> b2) \<and> friptr u - froptr u > 0 then to_stdout (e_out ev) u else u) s2;
            s4 = going (\<lambda>u. if (sockw_set ev s \<or> b1) \<and> toiptr u - tooptr u > 0 then to_sock (e_sockw ev) u else u) s3
        in Some s4)"

section \<open>What is kept\<close>

definition nb_ok :: "nb \<Rightarrow> bool" where
  "nb_ok s \<longleftrightarrow>
     length (to_buf s) = MAXLINE \<and> tooptr s \<le> toiptr s \<and> toiptr s \<le> MAXLINE \<and>
     length (fr_buf s) = MAXLINE \<and> froptr s \<le> friptr s \<and> friptr s \<le> MAXLINE \<and>
     n_typed s = n_sent s @ between (tooptr s) (toiptr s) (to_buf s) \<and>
     n_recv s = n_shown s @ between (froptr s) (friptr s) (fr_buf s) \<and>
     n_fins s = (if stdineof s \<and> tooptr s = toiptr s then 1 else 0)"

lemma between_simps [simp]: "between i i arr = []" "between i j [] = []"
  by (simp_all add: between_def)

lemma between_length: "j \<le> length arr \<Longrightarrow> length (between i j arr) = j - i"
  by (simp add: between_def)

lemma store_length: "i + length cs \<le> length arr \<Longrightarrow> length (store i cs arr) = length arr"
  by (simp add: store_def)

lemma between_store:
  assumes "i \<le> j" and "j + length cs \<le> length arr"
  shows "between i (j + length cs) (store j cs arr) = between i j arr @ cs"
proof -
  have "drop i (store j cs arr) = drop i (take j arr) @ cs @ drop (j + length cs) arr"
    using assms by (simp add: store_def)
  moreover have "length (drop i (take j arr)) = j - i"
    using assms by simp
  ultimately show ?thesis
    using assms by (simp add: between_def drop_take)
qed

lemma between_split:
  assumes "i \<le> j" and "j \<le> k"
  shows "between i k arr = between i j arr @ between j k arr"
proof -
  have "take (k - i) (drop i arr) = take (j - i) (drop i arr) @ take (k - j) (drop (j - i) (drop i arr))"
    using assms take_add [of "j - i" "k - j" "drop i arr"] by simp
  then show ?thesis
    using assms by (simp add: between_def)
qed

lemma nb_start_ok: "length tb = MAXLINE \<Longrightarrow> length fb = MAXLINE \<Longrightarrow> nb_ok (nb_start tb fb)"
  by (simp add: nb_ok_def nb_start_def)

lemma from_stdin_ok:
  assumes "nb_ok s" and "\<not> stdineof s"
  shows "nb_ok (snd (from_stdin r s))"
proof (cases r)
  case (NData cs)
  let ?got = "take (MAXLINE - toiptr s) cs"
  have l: "toiptr s + length ?got \<le> length (to_buf s)" "tooptr s \<le> toiptr s"
    using assms(1) by (auto simp: nb_ok_def)
  show ?thesis
    using assms NData between_store [OF l(2,1)] store_length [OF l(1)] l(1)
    by (auto simp: from_stdin_def nb_ok_def Let_def)
qed (use assms in \<open>simp_all add: from_stdin_def nb_ok_def\<close>)

lemma from_sock_ok:
  assumes "nb_ok s"
  shows "nb_ok (snd (from_sock r s))"
proof (cases r)
  case (NData cs)
  let ?got = "take (MAXLINE - friptr s) cs"
  have l: "friptr s + length ?got \<le> length (fr_buf s)" "froptr s \<le> friptr s"
    using assms(1) by (auto simp: nb_ok_def)
  show ?thesis
    using assms NData between_store [OF l(2,1)] store_length [OF l(1)] l(1)
    by (auto simp: from_sock_def nb_ok_def Let_def)
qed (use assms in \<open>simp_all add: from_sock_def nb_ok_def\<close>)

lemma to_stdout_ok:
  assumes "nb_ok s"
  shows "nb_ok (to_stdout w s)"
proof (cases w)
  case (NTook k)
  show ?thesis
  proof (cases "friptr s - froptr s \<le> k")
    case True
    then have "froptr s + min k (friptr s - froptr s) = friptr s"
      using assms by (simp add: nb_ok_def)
    then show ?thesis
      using assms NTook by (auto simp: to_stdout_def nb_ok_def Let_def)
  next
    case False
    then have k: "min k (friptr s - froptr s) = k" "froptr s + k < friptr s"
      by simp_all
    have b: "out @ between (froptr s) (friptr s) (fr_buf s) = (out @ between (froptr s) (froptr s + k) (fr_buf s)) @ between (froptr s + k) (friptr s) (fr_buf s)" for out
      using between_split [of "froptr s" "froptr s + k" "friptr s" "fr_buf s"] k(2) by simp
    have "to_stdout w s = s\<lparr>n_shown := n_shown s @ between (froptr s) (froptr s + k) (fr_buf s), froptr := froptr s + k\<rparr>"
      using NTook k by (simp add: to_stdout_def)
    then show ?thesis
      using assms k(2) b [of "n_shown s"] by (simp add: nb_ok_def)
  qed
qed (use assms in \<open>simp_all add: to_stdout_def nb_ok_def\<close>)

lemma to_sock_ok:
  assumes "nb_ok s" and "tooptr s < toiptr s"
  shows "nb_ok (to_sock w s)"
proof (cases w)
  case (NTook k)
  show ?thesis
  proof (cases "toiptr s - tooptr s \<le> k")
    case True
    then have "tooptr s + min k (toiptr s - tooptr s) = toiptr s"
      using assms by (simp add: nb_ok_def)
    then show ?thesis
      using assms NTook by (auto simp: to_sock_def nb_ok_def Let_def)
  next
    case False
    then have k: "min k (toiptr s - tooptr s) = k" "tooptr s + k < toiptr s"
      by simp_all
    have b: "out @ between (tooptr s) (toiptr s) (to_buf s) = (out @ between (tooptr s) (tooptr s + k) (to_buf s)) @ between (tooptr s + k) (toiptr s) (to_buf s)" for out
      using between_split [of "tooptr s" "tooptr s + k" "toiptr s" "to_buf s"] k(2) by simp
    have "to_sock w s = s\<lparr>n_sent := n_sent s @ between (tooptr s) (tooptr s + k) (to_buf s), tooptr := tooptr s + k\<rparr>"
      using NTook k by (simp add: to_sock_def)
    then show ?thesis
      using assms k(2) b [of "n_sent s"] by (simp add: nb_ok_def)
  qed
qed (use assms in \<open>simp_all add: to_sock_def nb_ok_def\<close>)

lemma going_ok: "nb_ok s \<Longrightarrow> (nb_ok s \<Longrightarrow> nb_ok (f s)) \<Longrightarrow> nb_ok (going f s)"
  by (simp add: going_def)

lemma read_phase_ok: "nb_ok s \<Longrightarrow> (\<And>x. r = Some x \<Longrightarrow> nb_ok (snd (f x s))) \<Longrightarrow> nb_ok (snd (read_phase f r s))"
  by (auto simp: read_phase_def split: option.splits)

text \<open>A turn as a composition of its phases.\<close>

definition out_phase :: "nb_event \<Rightarrow> nb \<Rightarrow> bool \<times> nb \<Rightarrow> nb" where
  "out_phase ev s = (\<lambda>(b, s2). going (\<lambda>u. if (out_set ev s \<or> b) \<and> friptr u - froptr u > 0 then to_stdout (e_out ev) u else u) s2)"

definition sockw_phase :: "nb_event \<Rightarrow> nb \<Rightarrow> bool \<Rightarrow> nb \<Rightarrow> nb" where
  "sockw_phase ev s b s3 = going (\<lambda>u. if (sockw_set ev s \<or> b) \<and> toiptr u - tooptr u > 0 then to_sock (e_sockw ev) u else u) s3"

lemma nb_turn_phases:
  "nb_turn ev s =
     (if n_end s \<noteq> Looping \<or> stdin_set ev s = None \<and> sock_set ev s = None \<and> \<not> sockw_set ev s \<and> \<not> out_set ev s then None
      else Some (sockw_phase ev s (fst (read_phase from_stdin (stdin_set ev s) s))
        (out_phase ev s (read_phase from_sock (sock_set ev s) (snd (read_phase from_stdin (stdin_set ev s) s))))))"
  by (simp add: nb_turn_def Let_def out_phase_def sockw_phase_def split: prod.splits)

lemma nb_turn_ok:
  assumes "nb_ok s" and "nb_turn ev s = Some t"
  shows "nb_ok t"
proof -
  let ?s1 = "snd (read_phase from_stdin (stdin_set ev s) s)"
  have "nb_ok ?s1"
    using assms(1) by (auto intro!: read_phase_ok from_stdin_ok simp: stdin_set_def split: if_splits)
  then have "nb_ok (snd (read_phase from_sock (sock_set ev s) ?s1))"
    by (auto intro!: read_phase_ok from_sock_ok)
  then have "nb_ok (out_phase ev s (read_phase from_sock (sock_set ev s) ?s1))"
    by (auto simp: out_phase_def intro!: going_ok to_stdout_ok split: prod.splits)
  then show ?thesis
    using assms(2) by (auto simp: nb_turn_phases sockw_phase_def intro!: going_ok to_sock_ok split: if_splits)
qed

interpretation nonblocking: guarded_machine nb_turn "\<lambda>_. True" nb_ok
  by unfold_locales (rule nb_turn_ok)

text \<open>
  C21: the two directions of the non-blocking client on every sequence of events: what it has sent is a
  beginning of what it has read from the terminal and what it has shown a beginning of what it has
  received, the rest being between the pointers of the arrays; it closes its side of the connection
  once, when the terminal has ended and everything is sent, and not before.
\<close>

theorem nonblock_relays:
  assumes "orun nb_turn evs (nb_start tb fb) = Some t" and "length tb = MAXLINE" and "length fb = MAXLINE"
  shows "n_typed t = n_sent t @ between (tooptr t) (toiptr t) (to_buf t) \<and> toiptr t \<le> MAXLINE \<and>
    n_recv t = n_shown t @ between (froptr t) (friptr t) (fr_buf t) \<and> friptr t \<le> MAXLINE \<and>
    n_fins t \<le> 1 \<and> (n_fins t = 1 \<longleftrightarrow> stdineof t \<and> n_sent t = n_typed t)"
proof -
  have "nb_ok t"
    using nonblocking.run_inv [OF nb_start_ok [OF assms(2,3)] _ assms(1)] by simp
  moreover then have "between (tooptr t) (toiptr t) (to_buf t) = [] \<longleftrightarrow> tooptr t = toiptr t"
    using between_length [of "toiptr t" "to_buf t" "tooptr t"] by (auto simp: nb_ok_def simp flip: length_0_conv)
  ultimately show ?thesis
    by (auto simp: nb_ok_def)
qed

definition quiet :: nb_event where
  "quiet = \<lparr>e_stdin = None, e_sock = None, e_outset = False, e_out = NFull, e_sockset = False, e_sockw = NFull\<rparr>"

definition zeros :: string where
  "zeros = replicate MAXLINE NUL"

definition demo_events :: "nb_event list" where
  "demo_events =
     [quiet\<lparr>e_stdin := Some (NData ''hi''), e_sockw := NTook 1\<rparr>, quiet\<lparr>e_stdin := Some (NData []), e_sock := Some (NData ''hi''), e_out := NFull\<rparr>,
      quiet\<lparr>e_sockset := True, e_sockw := NTook 7\<rparr>]"

lemmas nb_eval = quiet_def nb_start_def nb_turn_def stdin_set_def sock_set_def sockw_set_def out_set_def read_phase_def from_stdin_def
  from_sock_def to_sock_def to_stdout_def going_def store_def between_def Let_def

lemma demo_run:
  "\<exists>t. orun nb_turn demo_events (nb_start zeros zeros) = Some t \<and> n_typed t = ''hi'' \<and> n_recv t = ''hi'' \<and> n_shown t = [] \<and> stdineof t \<and>
    n_end t = Looping \<and> friptr t = 2 \<and> n_sent t = ''hi''"
  by (simp add: demo_events_def nb_eval)

theorem nonblock_relays_witness:
  "\<exists>t. orun nb_turn demo_events (nb_start zeros zeros) = Some t \<and> n_sent t = ''hi'' \<and> n_typed t = ''hi'' \<and> n_fins t = 1 \<and>
    n_recv t = n_shown t @ between (froptr t) (friptr t) (fr_buf t)"
proof -
  obtain t where t: "orun nb_turn demo_events (nb_start zeros zeros) = Some t" "n_typed t = ''hi''" "n_sent t = ''hi''" "stdineof t"
    using demo_run by blast
  have "length zeros = MAXLINE"
    by (simp add: zeros_def)
  from nonblock_relays [OF t(1) this this] t show ?thesis
    by auto
qed

section \<open>Coming to an end\<close>

text \<open>
  Events in which the kernel takes at least one byte for the socket, and neither the socket nor the
  terminal fails or ends.
\<close>

definition draining :: "nb_event \<Rightarrow> bool" where
  "draining ev \<longleftrightarrow> e_sockset ev \<and> (\<exists>k > 0. e_sockw ev = NTook k) \<and> e_out ev \<noteq> NBroken \<and>
     (\<forall>r. e_sock ev = Some r \<longrightarrow> r = NBlock \<or> (\<exists>cs. cs \<noteq> [] \<and> r = NData cs))"

text \<open>What the receiving side leaves alone.\<close>

definition same_out :: "nb \<Rightarrow> nb \<Rightarrow> bool" where
  "same_out s t \<longleftrightarrow> toiptr t = toiptr s \<and> tooptr t = tooptr s \<and> stdineof t = stdineof s \<and> n_typed t = n_typed s \<and> n_end t = n_end s"

lemma from_sock_out:
  assumes "friptr s < MAXLINE" and "r = NBlock \<or> (\<exists>cs. cs \<noteq> [] \<and> r = NData cs)"
  shows "same_out s (snd (from_sock r s))"
  using assms by (auto simp: from_sock_def same_out_def Let_def)

lemma to_stdout_out: "w \<noteq> NBroken \<Longrightarrow> same_out s (to_stdout w s)"
  by (cases w) (auto simp: to_stdout_def same_out_def Let_def)

lemma to_sock_drains:
  assumes "tooptr s < toiptr s" and "0 < k"
  shows "toiptr (to_sock (NTook k) s) - tooptr (to_sock (NTook k) s) < toiptr s - tooptr s \<and>
    stdineof (to_sock (NTook k) s) = stdineof s \<and> n_typed (to_sock (NTook k) s) = n_typed s \<and> n_end (to_sock (NTook k) s) = n_end s"
  using assms by (auto simp: to_sock_def Let_def)

lemma drain_turn:
  assumes "n_end s = Looping" and "stdineof s" and "tooptr s < toiptr s" and "draining ev"
  shows "\<exists>t. nb_turn ev s = Some t \<and> toiptr t - tooptr t < toiptr s - tooptr s \<and> stdineof t \<and> n_typed t = n_typed s \<and> n_end t = Looping"
proof -
  let ?p = "read_phase from_sock (sock_set ev s) s"
  define s3 where "s3 = out_phase ev s ?p"
  obtain k where k: "e_sockset ev" "0 < k" "e_sockw ev = NTook k" "e_out ev \<noteq> NBroken"
    using assms(4) by (auto simp: draining_def)
  have in_none: "stdin_set ev s = None" and w: "sockw_set ev s"
    using assms k(1) by (simp_all add: stdin_set_def sockw_set_def)
  have "same_out s (snd ?p)"
    using assms(1,4) from_sock_out [of s] by (auto simp: read_phase_def sock_set_def draining_def same_out_def split: option.splits)
  then have o: "same_out s s3"
    using to_stdout_out [OF k(4), of "snd ?p"] by (auto simp: s3_def out_phase_def going_def same_out_def split: prod.splits)
  have "nb_turn ev s = Some (sockw_phase ev s False s3)"
    using assms(1) w in_none by (simp add: nb_turn_phases read_phase_def [of from_stdin] s3_def)
  moreover have "sockw_phase ev s False s3 = to_sock (NTook k) s3"
    using o assms(1,3) w k(3) by (simp add: sockw_phase_def going_def same_out_def)
  ultimately show ?thesis
    using to_sock_drains [of s3 k] o assms k(2) by (auto simp: same_out_def)
qed

lemma drains:
  assumes "nb_ok s" and "n_end s = Looping" and "stdineof s" and "\<forall>ev \<in> set evs. draining ev" and "toiptr s - tooptr s \<le> length evs"
  shows "\<exists>k t. k \<le> toiptr s - tooptr s \<and> orun nb_turn (take k evs) s = Some t \<and> n_end t = Looping \<and> n_typed t = n_typed s \<and> n_sent t = n_typed s \<and> n_fins t = 1"
  using assms
proof (induction evs arbitrary: s)
  case Nil
  then show ?case
    by (intro exI [of _ 0]) (auto simp: nb_ok_def)
next
  case (Cons ev evs)
  show ?case
  proof (cases "tooptr s < toiptr s")
    case False
    then show ?thesis
      using Cons.prems by (intro exI [of _ 0]) (auto simp: nb_ok_def)
  next
    case True
    obtain u where u: "nb_turn ev s = Some u" "toiptr u - tooptr u < toiptr s - tooptr s" "stdineof u" "n_typed u = n_typed s" "n_end u = Looping"
      using drain_turn [OF Cons.prems(2,3) True, of ev] Cons.prems(4) by auto
    obtain k t where t: "k \<le> toiptr u - tooptr u" "orun nb_turn (take k evs) u = Some t" "n_end t = Looping" "n_typed t = n_typed u" "n_sent t = n_typed u"
      "n_fins t = 1"
      using Cons.IH [OF nb_turn_ok [OF Cons.prems(1) u(1)] u(5,3)] Cons.prems(4,5) u(2) by auto
    then show ?thesis
      using u by (intro exI [of _ "Suc k"] exI [of _ t]) auto
  qed
qed

text \<open>
  C22: once the terminal has ended, the client sends everything that is left and closes its side of the
  connection, within as many turns as bytes are left, when the kernel takes at least a byte in each.
\<close>

theorem nonblock_finishes:
  assumes "orun nb_turn evs (nb_start tb fb) = Some s" and "length tb = MAXLINE" and "length fb = MAXLINE"
    and "n_end s = Looping" and "stdineof s" and "\<forall>ev \<in> set more_evs. draining ev" and "length (n_typed s) - length (n_sent s) \<le> length more_evs"
  shows "\<exists>k t. k \<le> length (n_typed s) - length (n_sent s) \<and> orun nb_turn (evs @ take k more_evs) (nb_start tb fb) = Some t \<and>
    n_typed t = n_typed s \<and> n_sent t = n_typed s \<and> n_fins t = 1"
proof -
  have ok: "nb_ok s"
    using nonblocking.run_inv [OF nb_start_ok [OF assms(2,3)] _ assms(1)] by simp
  then have "length (n_typed s) - length (n_sent s) = toiptr s - tooptr s"
    using between_length [of "toiptr s" "to_buf s" "tooptr s"] by (simp add: nb_ok_def)
  then show ?thesis
    using drains [OF ok assms(4-6)] assms(1,7) by (auto simp: orun_append)
qed

definition typed_events :: "nb_event list" where
  "typed_events = [quiet\<lparr>e_stdin := Some (NData ''hi'')\<rparr>, quiet\<lparr>e_stdin := Some (NData [])\<rparr>]"

definition slow_event :: nb_event where
  "slow_event = quiet\<lparr>e_sockset := True, e_sockw := NTook 1\<rparr>"

lemma typed_run:
  "\<exists>s. orun nb_turn typed_events (nb_start zeros zeros) = Some s \<and> n_typed s = ''hi'' \<and> n_sent s = [] \<and> stdineof s \<and> n_end s = Looping"
  by (simp add: typed_events_def nb_eval)

theorem nonblock_finishes_witness:
  "\<exists>k t. k \<le> 2 \<and> orun nb_turn (typed_events @ take k [slow_event, slow_event]) (nb_start zeros zeros) = Some t \<and> n_sent t = ''hi'' \<and> n_fins t = 1"
proof -
  obtain s where s: "orun nb_turn typed_events (nb_start zeros zeros) = Some s" "n_typed s = ''hi''" "n_sent s = []" "stdineof s" "n_end s = Looping"
    using typed_run by blast
  have z: "length zeros = MAXLINE"
    by (simp add: zeros_def)
  have d: "\<forall>ev \<in> set [slow_event, slow_event]. draining ev"
    by (simp add: slow_event_def quiet_def draining_def)
  from nonblock_finishes [OF s(1) z z s(5,4) d] s(2,3) show ?thesis
    by (auto simp: numeral_2_eq_2)
qed

section \<open>What is lost\<close>

text \<open>
  When the server closes the connection while the terminal is slow, the client returns at once and
  drops what it has received and not yet shown.
\<close>

theorem nonblock_drops_output:
  assumes "orun nb_turn evs (nb_start tb fb) = Some s" and "n_end s = Looping" and "stdineof s" and "n_shown s \<noteq> n_recv s" and "friptr s < MAXLINE"
    and "e_sock ev = Some (NData [])"
  shows "\<exists>t. orun nb_turn (evs @ [ev]) (nb_start tb fb) = Some t \<and> n_end t = Returned \<and> n_recv t = n_recv s \<and> n_shown t = n_shown s \<and> n_shown t \<noteq> n_recv t"
proof -
  have "nb_turn ev s = Some (s\<lparr>n_end := Returned\<rparr>)"
    using assms(2,3,5,6)
    by (simp add: nb_turn_phases stdin_set_def sock_set_def read_phase_def from_sock_def out_phase_def sockw_phase_def going_def)
  then show ?thesis
    using assms(1,4) by (simp add: orun_append)
qed

theorem nonblock_drops_output_witness:
  "\<exists>t. orun nb_turn (demo_events @ [quiet\<lparr>e_sock := Some (NData [])\<rparr>]) (nb_start zeros zeros) = Some t \<and> n_end t = Returned \<and>
    n_recv t = ''hi'' \<and> n_shown t = []"
proof -
  obtain s where s: "orun nb_turn demo_events (nb_start zeros zeros) = Some s" "n_recv s = ''hi''" "n_shown s = []" "stdineof s" "n_end s = Looping" "friptr s = 2"
    using demo_run by blast
  have f: "n_shown s \<noteq> n_recv s" "friptr s < MAXLINE" "e_sock (quiet\<lparr>e_sock := Some (NData [])\<rparr>) = Some (NData [])"
    using s by simp_all
  from nonblock_drops_output [OF s(1,5,4) f] s(2,3) show ?thesis
    by auto
qed

end
