(* ===== verification/Mux_Servers.thy ===== *)
theory Mux_Servers
  imports Machine Udp
begin

text \<open>
  The echo servers that serve all clients from one loop: \<open>src/unpv13e/tcpcliserv/tcpservselect01.c\<close>
  with \<open>select\<close> and \<open>src/unpv13e/tcpcliserv/tcpservpoll01.c\<close> with \<open>poll\<close>.  A turn of the loop is an event:
  the connection that \<open>Accept\<close> returns, if the listening socket is ready, and the descriptors that are
  ready with what a \<open>read\<close> of them returns.  \<open>None\<close> is a process that has ended, a call that waits, or
  an access outside an array.  The interface \<open>multiplexer\<close> says what a turn does in terms of the
  set of connections alone; both servers provide it.
\<close>

section \<open>Events\<close>

text \<open>
  What a turn gets from a descriptor: data, which is written back in full, the end of the connection,
  a connection reset by the client, or a failure of \<open>read\<close> or \<open>Writen\<close>.
\<close>

datatype sread = SData string | SEnd | SReset | SFail

type_synonym mux_event = "int option \<times> (int \<times> sread) list"

text \<open>
  The loop over the table that both servers have: the entries that are ready are served, until as
  many have been served as were reported.
\<close>

fun each_ready :: "(nat \<Rightarrow> 's \<Rightarrow> bool) \<Rightarrow> (nat \<Rightarrow> 's \<Rightarrow> 's option) \<Rightarrow> nat list \<Rightarrow> int \<Rightarrow> 's \<Rightarrow> 's option" where
  "each_ready ready serve [] nready s = Some s"
| "each_ready ready serve (i # is) nready s =
     (if ready i s then do {
        s1 \<leftarrow> serve i s;
        (if nready - 1 \<le> 0 then Some s1 else each_ready ready serve is (nready - 1) s1)
      }
      else each_ready ready serve is nready s)"

section \<open>The server with select\<close>

abbreviation FD_SETSIZE :: nat where "FD_SETSIZE \<equiv> 1024"

text \<open>The variables of \<open>main\<close>, and what has been written to each descriptor.\<close>

record sel =
  listenfd :: int
  client :: "int list"
  maxi :: int
  maxfd :: int
  allset :: "int \<Rightarrow> bool"
  sel_out :: "int \<Rightarrow> string"

definition sel_start :: "int \<Rightarrow> sel" where
  "sel_start lfd = \<lparr>listenfd = lfd, client = replicate FD_SETSIZE (-1), maxi = -1, maxfd = lfd, allset = (\<lambda>fd. fd = lfd), sel_out = (\<lambda>_. [])\<rparr>"

text \<open>\<open>FD_SET\<close> writes outside the set for a descriptor that is too large.\<close>

definition FD_SET :: "int \<Rightarrow> (int \<Rightarrow> bool) \<Rightarrow> (int \<Rightarrow> bool) option" where
  "FD_SET fd fs = (if 0 \<le> fd \<and> fd < int FD_SETSIZE then Some (fs(fd := True)) else None)"

definition sel_accept :: "int \<Rightarrow> sel \<Rightarrow> sel option" where
  "sel_accept connfd s =
     (let i = first_idx (\<lambda>c. c < 0) (client s) in
      if connfd < 0 then None
      else if i = FD_SETSIZE then None
      else do {
        cl \<leftarrow> aset (client s) (int i) connfd;
        fs \<leftarrow> FD_SET connfd (allset s);
        Some (s\<lparr>client := cl, allset := fs, maxfd := max connfd (maxfd s), maxi := max (int i) (maxi s)\<rparr>)
      })"

text \<open>An entry outside the table counts as ready, and serving it fails.\<close>

definition sel_ready :: "(int \<times> sread) list \<Rightarrow> nat \<Rightarrow> sel \<Rightarrow> bool" where
  "sel_ready rset i s \<longleftrightarrow> (case aget (client s) (int i) of None \<Rightarrow> True | Some fd \<Rightarrow> 0 \<le> fd \<and> map_of rset fd \<noteq> None)"

definition sel_serve :: "(int \<times> sread) list \<Rightarrow> nat \<Rightarrow> sel \<Rightarrow> sel option" where
  "sel_serve rset i s = do {
     sockfd \<leftarrow> aget (client s) (int i);
     (case map_of rset sockfd of
        Some SEnd \<Rightarrow> do {
          cl \<leftarrow> aset (client s) (int i) (-1);
          Some (s\<lparr>allset := (allset s)(sockfd := False), client := cl\<rparr>)
        }
      | Some (SData cs) \<Rightarrow> Some (s\<lparr>sel_out := (sel_out s)(sockfd := sel_out s sockfd @ cs)\<rparr>)
      | _ \<Rightarrow> None)
   }"

definition sel_turn :: "mux_event \<Rightarrow> sel \<Rightarrow> sel option" where
  "sel_turn = (\<lambda>(acc, rs) s.
     let rset = filter (\<lambda>(fd, r). allset s fd \<and> fd < maxfd s + 1) rs;
         nready = (if acc = None then 0 else 1) + int (length rset)
     in if nready = 0 then None
        else case acc of
          None \<Rightarrow> each_ready (sel_ready rset) (sel_serve rset) [0..<nat (maxi s + 1)] nready s
        | Some connfd \<Rightarrow> do {
            s1 \<leftarrow> sel_accept connfd s;
            (if nready - 1 \<le> 0 then Some s1
             else each_ready (sel_ready rset) (sel_serve rset) [0..<nat (maxi s1 + 1)] (nready - 1) s1)
          })"

section \<open>The server with poll\<close>

text \<open>
  An entry of the array with its descriptor and whether \<open>revents\<close> has one of the bits that the loop
  tests; \<open>poll\<close> is taken to report nothing but these.  The array is not initialised but for the
  descriptors, so the other fields hold what was on the stack.
\<close>

record pollfd =
  fd :: int
  revents :: bool

record pol =
  p_client :: "pollfd list"
  p_maxi :: nat
  p_out :: "int \<Rightarrow> string"

definition pol_start :: "int \<Rightarrow> bool list \<Rightarrow> pol" where
  "pol_start lfd stack =
     \<lparr>p_client = map (\<lambda>i. \<lparr>fd = (if i = 0 then lfd else -1), revents = stack ! i\<rparr>) [0..<length stack], p_maxi = 0, p_out = (\<lambda>_. [])\<rparr>"

text \<open>\<open>poll\<close> sets \<open>revents\<close> of the first entries, to nothing where the descriptor is negative.\<close>

definition poll_sets :: "bool \<Rightarrow> (int \<times> sread) list \<Rightarrow> nat \<Rightarrow> pollfd list \<Rightarrow> pollfd list" where
  "poll_sets lready rs n cl =
     map (\<lambda>i. if i < n then (cl ! i)\<lparr>revents := (if i = 0 then lready else 0 \<le> fd (cl ! i) \<and> map_of rs (fd (cl ! i)) \<noteq> None)\<rparr> else cl ! i) [0..<length cl]"

definition pol_accept :: "int \<Rightarrow> pol \<Rightarrow> pol option" where
  "pol_accept connfd s =
     (let i = Suc (first_idx (\<lambda>c. fd c < 0) (tl (p_client s))) in
      if connfd < 0 then None
      else if i \<ge> length (p_client s) then None
      else Some (s\<lparr>p_client := (p_client s)[i := (p_client s ! i)\<lparr>fd := connfd\<rparr>], p_maxi := max i (p_maxi s)\<rparr>))"

definition pol_ready :: "nat \<Rightarrow> pol \<Rightarrow> bool" where
  "pol_ready i s \<longleftrightarrow> (case aget (p_client s) (int i) of None \<Rightarrow> True | Some c \<Rightarrow> 0 \<le> fd c \<and> revents c)"

definition pol_serve :: "(int \<times> sread) list \<Rightarrow> nat \<Rightarrow> pol \<Rightarrow> pol option" where
  "pol_serve rs i s = do {
     c \<leftarrow> aget (p_client s) (int i);
     (case map_of rs (fd c) of
        Some (SData cs) \<Rightarrow> Some (s\<lparr>p_out := (p_out s)(fd c := p_out s (fd c) @ cs)\<rparr>)
      | Some SFail \<Rightarrow> None
      | None \<Rightarrow> None
      | Some _ \<Rightarrow> do {
          cl \<leftarrow> aset (p_client s) (int i) (c\<lparr>fd := -1\<rparr>);
          Some (s\<lparr>p_client := cl\<rparr>)
        })
   }"

definition pol_turn :: "mux_event \<Rightarrow> pol \<Rightarrow> pol option" where
  "pol_turn = (\<lambda>(acc, rs) s.
     let s1 = s\<lparr>p_client := poll_sets (acc \<noteq> None) rs (p_maxi s + 1) (p_client s)\<rparr>;
         nready = int (length (filter revents (take (p_maxi s + 1) (p_client s1))))
     in if nready = 0 then None
        else case acc of
          None \<Rightarrow> each_ready pol_ready (pol_serve rs) [1..<Suc (p_maxi s1)] nready s1
        | Some connfd \<Rightarrow> do {
            s2 \<leftarrow> pol_accept connfd s1;
            (if nready - 1 \<le> 0 then Some s2
             else each_ready pol_ready (pol_serve rs) [1..<Suc (p_maxi s2)] (nready - 1) s2)
          })"

section \<open>The loop\<close>

text \<open>
  When as many entries of a first part of the table are ready as were reported, the loop serves these,
  in order, and looks at nothing behind the last of them.
\<close>

lemma each_ready_serves:
  assumes "distinct is" and "\<And>i j u v. serve i u = Some v \<Longrightarrow> j \<noteq> i \<Longrightarrow> ready j v = ready j u"
    and "nready = int (length (filter (\<lambda>i. ready i s) is))" and "0 < nready"
  shows "each_ready ready serve (is @ js) nready s = orun serve (filter (\<lambda>i. ready i s) is) s"
  using assms(1,3,4)
proof (induction "is" arbitrary: nready s)
  case Nil
  then show ?case
    by simp
next
  case (Cons i "is")
  show ?case
  proof (cases "ready i s")
    case False
    then show ?thesis
      using Cons by simp
  next
    case True
    show ?thesis
    proof (cases "serve i s")
      case None
      then show ?thesis
        using True by simp
    next
      case (Some s1)
      have r: "filter (\<lambda>j. ready j s1) is = filter (\<lambda>j. ready j s) is"
      proof (rule filter_cong [OF refl])
        fix j
        assume "j \<in> set is"
        then have "j \<noteq> i"
          using Cons.prems(1) by auto
        then show "ready j s1 = ready j s"
          by (rule assms(2) [OF Some])
      qed
      show ?thesis
      proof (cases "filter (\<lambda>j. ready j s) is = []")
        case True
        then show ?thesis
          using Some \<open>ready i s\<close> Cons.prems(2) by (simp add: True)
      next
        case False
        then have "0 < nready - 1"
          using \<open>ready i s\<close> Cons.prems(2) by simp
        then show ?thesis
          using Cons.IH [of "nready - 1" s1] Cons.prems \<open>ready i s\<close> Some r by simp
      qed
    qed
  qed
qed

section \<open>The interface\<close>

fun ends :: "sread \<Rightarrow> bool" where
  "ends (SData cs) = False"
| "ends _ = True"

fun echoed :: "sread option \<Rightarrow> string" where
  "echoed (Some (SData cs)) = cs"
| "echoed _ = []"

text \<open>What a turn makes of the set of connections.\<close>

definition next_conns :: "mux_event \<Rightarrow> int set \<Rightarrow> int set" where
  "next_conns = (\<lambda>(acc, rs) C. (C \<union> set_option acc) - {f. \<exists>r. map_of rs f = Some r \<and> ends r})"

text \<open>Events that each fit the connections that are open when they happen.\<close>

fun run_ok :: "(mux_event \<Rightarrow> int set \<Rightarrow> bool) \<Rightarrow> mux_event list \<Rightarrow> int set \<Rightarrow> bool" where
  "run_ok ok [] C = True"
| "run_ok ok (ev # evs) C \<longleftrightarrow> ok ev C \<and> run_ok ok evs (next_conns ev C)"

locale multiplexer =
  fixes turn :: "mux_event \<Rightarrow> 's \<Rightarrow> 's option"
    and inv :: "'s \<Rightarrow> bool"
    and conns :: "'s \<Rightarrow> int set"
    and out :: "'s \<Rightarrow> int \<Rightarrow> string"
    and ok :: "mux_event \<Rightarrow> int set \<Rightarrow> bool"
  assumes turn_does: "inv s \<Longrightarrow> ok ev (conns s) \<Longrightarrow> \<exists>t. turn ev s = Some t \<and> inv t \<and> conns t = next_conns ev (conns s) \<and>
      (\<forall>f. out t f = out s f @ echoed (map_of (snd ev) f))"
begin

lemma run_does:
  assumes "inv s" and "run_ok ok evs (conns s)"
  shows "\<exists>t. orun turn evs s = Some t \<and> inv t \<and> conns t = fold next_conns evs (conns s) \<and>
    (\<forall>f. out t f = out s f @ concat (map (\<lambda>ev. echoed (map_of (snd ev) f)) evs))"
  using assms
proof (induction evs arbitrary: s)
  case Nil
  then show ?case
    by simp
next
  case (Cons ev evs)
  then obtain u where u: "turn ev s = Some u" "inv u" "conns u = next_conns ev (conns s)" "\<forall>f. out u f = out s f @ echoed (map_of (snd ev) f)"
    using turn_does [of s ev] by auto
  then have "run_ok ok evs (conns u)"
    using Cons.prems(2) by simp
  from Cons.IH [OF u(2) this] obtain t where "orun turn evs u = Some t" "inv t" "conns t = fold next_conns evs (conns u)"
    "\<forall>f. out t f = out u f @ concat (map (\<lambda>ev. echoed (map_of (snd ev) f)) evs)"
    by blast
  then show ?case
    using u by auto
qed

end

section \<open>Tables of descriptors\<close>

definition live :: "int list \<Rightarrow> int set" where
  "live xs = {f \<in> set xs. 0 \<le> f}"

definition slots_ok :: "int list \<Rightarrow> bool" where
  "slots_ok xs \<longleftrightarrow> distinct (filter (\<lambda>f. 0 \<le> f) xs)"

lemma slots_nth_eq:
  assumes "slots_ok xs" and "i < length xs" and "j < length xs" and "0 \<le> xs ! i" and "xs ! i = xs ! j"
  shows "i = j"
  using assms
proof (induction xs arbitrary: i j)
  case (Cons x xs)
  have ok: "slots_ok xs" "0 \<le> x \<Longrightarrow> x \<notin> set xs"
    using Cons.prems(1) by (auto simp: slots_ok_def split: if_splits)
  show ?case
    using Cons.IH [OF ok(1)] ok(2) Cons.prems(2-) by (cases i; cases j) auto
qed simp

lemma slots_okI:
  assumes "\<And>i j. i < length xs \<Longrightarrow> j < length xs \<Longrightarrow> 0 \<le> xs ! i \<Longrightarrow> xs ! i = xs ! j \<Longrightarrow> i = j"
  shows "slots_ok xs"
  using assms
proof (induction xs)
  case (Cons x xs)
  have "slots_ok xs"
  proof (rule Cons.IH)
    fix i j
    assume "i < length xs" "j < length xs" "0 \<le> xs ! i" "xs ! i = xs ! j"
    then show "i = j"
      using Cons.prems [of "Suc i" "Suc j"] by simp
  qed
  moreover have "x \<notin> set xs" if "0 \<le> x"
  proof
    assume "x \<in> set xs"
    then obtain j where "j < length xs" "xs ! j = x"
      by (auto simp: in_set_conv_nth)
    then show False
      using Cons.prems [of 0 "Suc j"] that by simp
  qed
  ultimately show ?case
    by (simp add: slots_ok_def)
qed (simp add: slots_ok_def)

lemma live_nth: "live xs = {xs ! i | i. i < length xs \<and> 0 \<le> xs ! i}"
  by (auto simp: live_def in_set_conv_nth)

lemma slots_clear:
  assumes "slots_ok xs" and "i < length xs" and "0 \<le> xs ! i"
  shows "slots_ok (xs[i := -1]) \<and> live (xs[i := -1]) = live xs - {xs ! i}"
proof
  show "slots_ok (xs[i := -1])"
    using slots_nth_eq [OF assms(1)] assms(2) by (intro slots_okI) (auto simp: nth_list_update split: if_splits)
  show "live (xs[i := -1]) = live xs - {xs ! i}"
  proof
    show "live (xs[i := -1]) \<subseteq> live xs - {xs ! i}"
      using slots_nth_eq [OF assms(1)] assms(2,3) by (auto simp: live_nth nth_list_update split: if_splits)
    show "live xs - {xs ! i} \<subseteq> live (xs[i := -1])"
    proof
      fix f
      assume "f \<in> live xs - {xs ! i}"
      then obtain j where "j < length xs" "f = xs ! j" "0 \<le> f" "j \<noteq> i"
        by (auto simp: live_nth)
      then show "f \<in> live (xs[i := -1])"
        using assms(2) by (auto simp: live_nth nth_list_update intro!: exI [of _ j])
    qed
  qed
qed

lemma slots_add:
  assumes "slots_ok xs" and "i < length xs" and "xs ! i < 0" and "0 \<le> c" and "c \<notin> live xs"
  shows "slots_ok (xs[i := c]) \<and> live (xs[i := c]) = insert c (live xs)"
proof
  have c: "xs ! j \<noteq> c" if "j < length xs" for j
    using assms(4,5) that by (auto simp: live_def)
  show "slots_ok (xs[i := c])"
    using slots_nth_eq [OF assms(1)] c assms(2) by (intro slots_okI) (auto simp: nth_list_update split: if_splits)
  show "live (xs[i := c]) = insert c (live xs)"
  proof
    show "live (xs[i := c]) \<subseteq> insert c (live xs)"
      using assms(2) by (auto simp: live_nth nth_list_update split: if_splits)
    have "f \<in> live (xs[i := c])" if f: "f \<in> live xs" for f
    proof -
      obtain j where "j < length xs" "f = xs ! j" "0 \<le> f"
        using f by (auto simp: live_nth)
      moreover then have "j \<noteq> i"
        using assms(3) by auto
      ultimately show ?thesis
        using assms(2) by (auto simp: live_nth nth_list_update intro!: exI [of _ j])
    qed
    moreover have "c \<in> live (xs[i := c])"
      using assms(2,4) by (auto simp: live_nth intro!: exI [of _ i])
    ultimately show "insert c (live xs) \<subseteq> live (xs[i := c])"
      by blast
  qed
qed

lemma live_append: "live (xs @ ys) = live xs \<union> live ys"
  by (auto simp: live_def)

lemma live_take:
  assumes "\<And>i. i < length xs \<Longrightarrow> m \<le> i \<Longrightarrow> xs ! i < 0"
  shows "live (take m xs) = live xs"
proof -
  have "x < 0" if "x \<in> set (drop m xs)" for x
    using that assms by (auto simp: in_set_conv_nth)
  then have "live (drop m xs) = {}"
    by (force simp: live_def)
  moreover have "live xs = live (take m xs) \<union> live (drop m xs)"
    using live_append [of "take m xs" "drop m xs"] by simp
  ultimately show ?thesis
    by simp
qed

lemma live_take_update:
  assumes "K \<subseteq> live (take m xs)" and "xs ! j < 0"
  shows "K \<subseteq> live (take m (xs[j := c]))"
proof
  fix f
  assume "f \<in> K"
  then obtain i where "i < m" "i < length xs" "f = xs ! i" "0 \<le> f"
    using assms(1) by (auto simp: live_nth)
  moreover then have "i \<noteq> j"
    using assms(2) by auto
  ultimately show "f \<in> live (take m (xs[j := c]))"
    by (auto simp: live_nth intro!: exI [of _ i])
qed

text \<open>As many entries of a table are ready as descriptors are.\<close>

lemma ready_count:
  assumes "slots_ok xs" and "K \<subseteq> live (take m xs)" and "m \<le> length xs"
  shows "length (filter (\<lambda>i. xs ! i \<in> K) [0..<m]) = card K"
proof -
  have t: "take m xs = map (\<lambda>i. xs ! i) [0..<m]"
    using assms(3) by (intro nth_equalityI) auto
  have "map (\<lambda>i. xs ! i) (filter (\<lambda>i. xs ! i \<in> K) [0..<m]) = filter (\<lambda>x. x \<in> K) (take m xs)"
    unfolding t by (simp add: filter_map comp_def)
  then have l: "length (filter (\<lambda>i. xs ! i \<in> K) [0..<m]) = length (filter (\<lambda>x. x \<in> K) (take m xs))"
    by (metis length_map)
  have "distinct (filter (\<lambda>f. 0 \<le> f) (take m xs))"
    using assms(1) by (metis append_take_drop_id distinct_append filter_append slots_ok_def)
  moreover have "filter (\<lambda>x. x \<in> K) (filter (\<lambda>f. 0 \<le> f) (take m xs)) = filter (\<lambda>x. x \<in> K) (take m xs)"
    using assms(2) by (auto simp: live_def intro!: filter_cong)
  ultimately have "distinct (filter (\<lambda>x. x \<in> K) (take m xs))"
    by (metis distinct_filter)
  moreover have "set (filter (\<lambda>x. x \<in> K) (take m xs)) = K"
    using assms(2) by (auto simp: live_def)
  ultimately show ?thesis
    using l by (metis distinct_card)
qed

lemma ready_image:
  assumes "K \<subseteq> live (take m xs)" and "m \<le> length xs"
  shows "(!) xs ` set (filter (\<lambda>i. xs ! i \<in> K) [0..<m]) = K"
proof
  show "K \<subseteq> (!) xs ` set (filter (\<lambda>i. xs ! i \<in> K) [0..<m])"
  proof
    fix f
    assume f: "f \<in> K"
    then obtain i where "i < m" "xs ! i = f"
      using assms by (force simp: live_nth)
    then show "f \<in> (!) xs ` set (filter (\<lambda>i. xs ! i \<in> K) [0..<m])"
      using f by (auto intro!: image_eqI [of f _ i])
  qed
qed auto

text \<open>
  A server with a table: serving an entry writes back its data, or clears it when the connection
  has ended.
\<close>

locale slot_table =
  fixes fds :: "'s \<Rightarrow> int list"
    and out :: "'s \<Rightarrow> int \<Rightarrow> string"
    and inv :: "'s \<Rightarrow> bool"
    and serve :: "(int \<times> sread) list \<Rightarrow> nat \<Rightarrow> 's \<Rightarrow> 's option"
    and good :: "sread \<Rightarrow> bool"
  assumes inv_slots: "inv s \<Longrightarrow> slots_ok (fds s)"
    and serve_does: "inv s \<Longrightarrow> i < length (fds s) \<Longrightarrow> 0 \<le> fds s ! i \<Longrightarrow> map_of rs (fds s ! i) = Some r \<Longrightarrow> good r \<Longrightarrow>
      \<exists>t. serve rs i s = Some t \<and> inv t \<and> fds t = (if ends r then (fds s)[i := -1] else fds s) \<and>
        out t = (out s)(fds s ! i := out s (fds s ! i) @ echoed (Some r))"
begin

lemma serve_all:
  assumes "inv s" and "distinct is" and "\<forall>i \<in> set is. i < length (fds s) \<and> 0 \<le> fds s ! i \<and> (\<exists>r. map_of rs (fds s ! i) = Some r \<and> good r)"
  shows "\<exists>t. orun (serve rs) is s = Some t \<and> inv t \<and>
    live (fds t) = live (fds s) - {f. f \<in> (!) (fds s) ` set is \<and> (\<exists>r. map_of rs f = Some r \<and> ends r)} \<and>
    (\<forall>f. out t f = out s f @ (if f \<in> (!) (fds s) ` set is then echoed (map_of rs f) else []))"
  using assms
proof (induction "is" arbitrary: s)
  case Nil
  then show ?case
    by simp
next
  case (Cons i "is")
  let ?f = "fds s ! i"
  obtain r where i: "i < length (fds s)" "0 \<le> ?f" "map_of rs ?f = Some r" "good r"
    using Cons.prems(3) by auto
  obtain u where u: "serve rs i s = Some u" "inv u" "fds u = (if ends r then (fds s)[i := -1] else fds s)"
      "out u = (out s)(?f := out s ?f @ echoed (Some r))"
    using serve_does [OF Cons.prems(1) i] by blast
  have n: "fds u ! j = fds s ! j" if "j \<in> set is" for j
    using u(3) that Cons.prems(2) by (cases "j = i") auto
  then have im: "(!) (fds u) ` set is = (!) (fds s) ` set is"
    by (intro image_cong) auto
  have "\<forall>j \<in> set is. j < length (fds u) \<and> 0 \<le> fds u ! j \<and> (\<exists>r. map_of rs (fds u ! j) = Some r \<and> good r)"
    using Cons.prems(3) n u(3) by simp
  from Cons.IH [OF u(2) _ this] obtain t where t: "orun (serve rs) is u = Some t" "inv t"
      "live (fds t) = live (fds u) - {f. f \<in> (!) (fds s) ` set is \<and> (\<exists>r. map_of rs f = Some r \<and> ends r)}"
      "\<forall>f. out t f = out u f @ (if f \<in> (!) (fds s) ` set is then echoed (map_of rs f) else [])"
    using Cons.prems(2) unfolding im by auto
  have l: "live (fds u) = live (fds s) - (if ends r then {?f} else {})"
    using u(3) slots_clear [OF inv_slots [OF Cons.prems(1)] i(1,2)] by simp
  have new: "?f \<notin> (!) (fds s) ` set is"
    using slots_nth_eq [OF inv_slots [OF Cons.prems(1)] i(1) _ i(2)] Cons.prems(2,3) by auto
  have "live (fds t) = live (fds s) - {f. f \<in> (!) (fds s) ` set (i # is) \<and> (\<exists>r. map_of rs f = Some r \<and> ends r)}"
    unfolding t(3) l using i(3) by auto
  moreover have "\<forall>f. out t f = out s f @ (if f \<in> (!) (fds s) ` set (i # is) then echoed (map_of rs f) else [])"
    using t(4) u(4) i(3) new by simp
  ultimately show ?case
    using u(1) t(1,2) by auto
qed

end

section \<open>The server with select serves everyone\<close>

definition sel_inv :: "int \<Rightarrow> sel \<Rightarrow> bool" where
  "sel_inv lfd s \<longleftrightarrow>
     listenfd s = lfd \<and> 0 \<le> lfd \<and> lfd < int FD_SETSIZE \<and> length (client s) = FD_SETSIZE \<and> slots_ok (client s) \<and>
     live (client s) \<subseteq> {0..<int FD_SETSIZE} - {lfd} \<and> -1 \<le> maxi s \<and> maxi s < int FD_SETSIZE \<and>
     (\<forall>i < FD_SETSIZE. maxi s < int i \<longrightarrow> client s ! i < 0) \<and>
     (\<forall>f. allset s f \<longleftrightarrow> f = lfd \<or> f \<in> live (client s)) \<and> (\<forall>f \<in> live (client s). f \<le> maxfd s)"

definition sel_good :: "sread \<Rightarrow> bool" where
  "sel_good r \<longleftrightarrow> r \<noteq> SReset \<and> r \<noteq> SFail"

text \<open>
  An event that fits: something is ready, what is read comes from different open connections, and a
  new connection has a descriptor that is free and fits the sets.
\<close>

definition mux_ok :: "(sread \<Rightarrow> bool) \<Rightarrow> int \<Rightarrow> mux_event \<Rightarrow> int set \<Rightarrow> bool" where
  "mux_ok good lfd = (\<lambda>(acc, rs) C.
     (acc \<noteq> None \<or> rs \<noteq> []) \<and> distinct (map fst rs) \<and> fst ` set rs \<subseteq> C \<and> (\<forall>r \<in> snd ` set rs. good r) \<and>
     (\<forall>c. acc = Some c \<longrightarrow> 0 \<le> c \<and> c < int FD_SETSIZE \<and> c \<noteq> lfd \<and> c \<notin> C))"

lemma sel_start_inv: "0 \<le> lfd \<Longrightarrow> lfd < int FD_SETSIZE \<Longrightarrow> sel_inv lfd (sel_start lfd) \<and> live (client (sel_start lfd)) = {}"
  by (auto simp: sel_inv_def sel_start_def slots_ok_def live_def)

interpretation sel_slots: slot_table client sel_out "sel_inv lfd" sel_serve sel_good for lfd
proof
  fix s :: sel and i :: nat and rs :: "(int \<times> sread) list" and r
  assume s: "sel_inv lfd s" and i: "i < length (client s)" "0 \<le> client s ! i" "map_of rs (client s ! i) = Some r" "sel_good r"
  have c: "slots_ok ((client s)[i := -1]) \<and> live ((client s)[i := -1]) = live (client s) - {client s ! i}"
    using s i by (intro slots_clear) (simp_all add: sel_inv_def)
  have "client s ! i \<in> live (client s)"
    using i by (auto simp: live_def)
  then have "client s ! i \<noteq> lfd"
    using s by (auto simp: sel_inv_def)
  then have "sel_inv lfd (s\<lparr>allset := (allset s)(client s ! i := False), client := (client s)[i := -1]\<rparr>)"
    using s c i(1) by (auto simp: sel_inv_def nth_list_update)
  moreover have "sel_inv lfd (s\<lparr>sel_out := X\<rparr>)" for X
    using s by (simp add: sel_inv_def)
  ultimately show "\<exists>t. sel_serve rs i s = Some t \<and> sel_inv lfd t \<and> client t = (if ends r then (client s)[i := -1] else client s) \<and>
      sel_out t = (sel_out s)(client s ! i := sel_out s (client s ! i) @ echoed (Some r))"
    using i by (cases r) (auto simp: sel_serve_def sel_good_def aget_def aset_def)
qed (simp add: sel_inv_def)

lemma first_idx_free:
  assumes "finite A" and "live xs \<subseteq> A" and "card A < length xs" and "slots_ok xs"
  shows "first_idx (\<lambda>c. c < 0) xs < length xs"
proof (rule ccontr)
  assume "\<not> ?thesis"
  then have "\<forall>c \<in> set xs. 0 \<le> c"
    by (induction xs) (auto split: if_splits)
  then have "filter (\<lambda>f. 0 \<le> f) xs = xs" and l: "live xs = set xs"
    by (auto simp: live_def)
  then have "card (live xs) = length xs"
    using assms(4) distinct_card [of xs] by (simp add: slots_ok_def)
  then show False
    using card_mono [OF assms(1,2)] assms(3) by simp
qed

text \<open>There is always a free entry for a connection whose descriptor fits the sets.\<close>

lemma sel_accept_does:
  assumes "sel_inv lfd s" and "0 \<le> c" and "c < int FD_SETSIZE" and "c \<noteq> lfd" and "c \<notin> live (client s)"
  shows "\<exists>t. sel_accept c s = Some t \<and> sel_inv lfd t \<and> live (client t) = insert c (live (client s)) \<and> sel_out t = sel_out s"
proof -
  let ?i = "first_idx (\<lambda>c. c < 0) (client s)"
  let ?A = "{0..<int FD_SETSIZE} - {lfd}"
  have "card ?A < length (client s)"
    using assms(1) by (simp add: sel_inv_def)
  then have i: "?i < length (client s)"
    using assms(1) by (intro first_idx_free [of ?A]) (simp_all add: sel_inv_def)
  note a = slots_add [OF _ i first_idx_hit [OF i] assms(2,5)]
  have "sel_accept c s = Some (s\<lparr>client := (client s)[?i := c], allset := (allset s)(c := True), maxfd := max c (maxfd s), maxi := max (int ?i) (maxi s)\<rparr>)"
    using i assms(1-3) by (simp add: sel_accept_def FD_SET_def aset_def sel_inv_def Let_def)
  moreover have "sel_inv lfd (s\<lparr>client := (client s)[?i := c], allset := (allset s)(c := True), maxfd := max c (maxfd s), maxi := max (int ?i) (maxi s)\<rparr>)"
    using assms a i by (auto simp: sel_inv_def nth_list_update)
  ultimately show ?thesis
    using a assms(1) by (simp add: sel_inv_def)
qed

lemma map_of_keys: "map_of rs f \<noteq> None \<longleftrightarrow> f \<in> fst ` set rs"
  by (induction rs) auto

lemma key_ends: "{f. f \<in> fst ` set rs \<and> (\<exists>r. map_of rs f = Some r \<and> ends r)} = {f. \<exists>r. map_of rs f = Some r \<and> ends r}"
  using map_of_keys [of rs] by auto

lemma key_echoed: "(if f \<in> fst ` set rs then echoed (map_of rs f) else []) = echoed (map_of rs f)"
  using map_of_keys [of rs f] by (cases "map_of rs f") auto

lemma sel_serve_client:
  assumes "sel_serve rs i u = Some v"
  shows "client v = client u \<or> client v = (client u)[i := -1]"
proof -
  obtain f r where f: "aget (client u) (int i) = Some f" "map_of rs f = Some r"
    using assms by (cases "aget (client u) (int i)"; cases "map_of rs (the (aget (client u) (int i)))") (auto simp: sel_serve_def)
  then show ?thesis
    using assms by (cases r) (auto simp: sel_serve_def aset_def split: if_splits)
qed

text \<open>The loop of a turn, from a state in which the descriptors that are ready are in the table.\<close>

lemma sel_loop_does:
  assumes "sel_inv lfd s" and "distinct (map fst rs)" and "fst ` set rs \<subseteq> live (client s)" and "\<forall>r \<in> snd ` set rs. sel_good r" and "rs \<noteq> []"
  shows "\<exists>t. each_ready (sel_ready rs) (sel_serve rs) [0..<nat (maxi s + 1)] (int (length rs)) s = Some t \<and> sel_inv lfd t \<and>
    live (client t) = live (client s) - {f. \<exists>r. map_of rs f = Some r \<and> ends r} \<and> (\<forall>f. sel_out t f = sel_out s f @ echoed (map_of rs f))"
proof -
  let ?m = "nat (maxi s + 1)" and ?K = "fst ` set rs"
  let ?is = "filter (\<lambda>i. sel_ready rs i s) [0..<?m]"
  have m: "?m \<le> length (client s)"
    using assms(1) by (auto simp: sel_inv_def nat_le_iff)
  have "live (take ?m (client s)) = live (client s)"
    using assms(1) by (intro live_take) (auto simp: sel_inv_def)
  then have K: "?K \<subseteq> live (take ?m (client s))"
    using assms(3) by simp
  have pos: "\<forall>f \<in> ?K. 0 \<le> f"
    using assms(3) by (auto simp: live_def)
  have "sel_ready rs i s \<longleftrightarrow> client s ! i \<in> ?K" if "i < ?m" for i
    using that m pos map_of_keys [of rs "client s ! i"] by (auto simp: sel_ready_def aget_def simp del: not_None_eq)
  then have is_eq: "?is = filter (\<lambda>i. client s ! i \<in> ?K) [0..<?m]"
    by (intro filter_cong) auto
  have n: "int (length rs) = int (length ?is)"
    using ready_count [OF _ K m] assms(1,2) distinct_card [of "map fst rs"] unfolding is_eq by (simp add: sel_inv_def)
  have other: "sel_ready rs j v = sel_ready rs j u" if "sel_serve rs i u = Some v" "j \<noteq> i" for i j u v
    using sel_serve_client [OF that(1)] that(2) by (auto simp: sel_ready_def aget_def)
  have "each_ready (sel_ready rs) (sel_serve rs) ([0..<?m] @ []) (int (length rs)) s = orun (sel_serve rs) ?is s"
    using assms(5) n other by (intro each_ready_serves) auto
  moreover have im: "(!) (client s) ` set ?is = ?K"
    unfolding is_eq by (rule ready_image [OF K m])
  moreover have "\<exists>t. orun (sel_serve rs) ?is s = Some t \<and> sel_inv lfd t \<and>
      live (client t) = live (client s) - {f. f \<in> (!) (client s) ` set ?is \<and> (\<exists>r. map_of rs f = Some r \<and> ends r)} \<and>
      (\<forall>f. sel_out t f = sel_out s f @ (if f \<in> (!) (client s) ` set ?is then echoed (map_of rs f) else []))"
  proof (rule sel_slots.serve_all [OF assms(1)])
    show "\<forall>i \<in> set ?is. i < length (client s) \<and> 0 \<le> client s ! i \<and> (\<exists>r. map_of rs (client s ! i) = Some r \<and> sel_good r)"
      using m pos assms(4) map_of_SomeD [of rs] unfolding is_eq by (fastforce simp flip: map_of_keys)
  qed simp
  ultimately show ?thesis
    unfolding im key_ends key_echoed by simp
qed

lemma sel_turn_does:
  assumes "sel_inv lfd s" and "mux_ok sel_good lfd ev (live (client s))"
  shows "\<exists>t. sel_turn ev s = Some t \<and> sel_inv lfd t \<and> live (client t) = next_conns ev (live (client s)) \<and>
    (\<forall>f. sel_out t f = sel_out s f @ echoed (map_of (snd ev) f))"
proof -
  obtain acc rs where ev: "ev = (acc, rs)"
    by (cases ev)
  have k: "acc \<noteq> None \<or> rs \<noteq> []" "distinct (map fst rs)" "fst ` set rs \<subseteq> live (client s)" "\<forall>r \<in> snd ` set rs. sel_good r"
      "\<And>c. acc = Some c \<Longrightarrow> 0 \<le> c \<and> c < int FD_SETSIZE \<and> c \<noteq> lfd \<and> c \<notin> live (client s)"
    using assms(2) by (auto simp: mux_ok_def ev)
  have "\<forall>x \<in> set rs. allset s (fst x) \<and> fst x \<le> maxfd s"
    using k(3) assms(1) by (auto simp: sel_inv_def)
  then have rset: "filter (\<lambda>(fd, r). allset s fd \<and> fd \<le> maxfd s) rs = rs"
    by (auto simp: filter_id_conv)
  show ?thesis
  proof (cases acc)
    case None
    then show ?thesis
      using sel_loop_does [OF assms(1) k(2-4)] k(1) by (simp add: sel_turn_def ev rset next_conns_def Let_def)
  next
    case (Some c)
    obtain u where u: "sel_accept c s = Some u" "sel_inv lfd u" "live (client u) = insert c (live (client s))" "sel_out u = sel_out s"
      using sel_accept_does [OF assms(1)] k(5) [OF Some] by blast
    show ?thesis
    proof (cases "rs = []")
      case True
      then show ?thesis
        using Some u by (simp add: sel_turn_def ev next_conns_def Let_def)
    next
      case False
      have "fst ` set rs \<subseteq> live (client u)"
        using k(3) u(3) by auto
      from sel_loop_does [OF u(2) k(2) this k(4) False] False show ?thesis
        using Some u by (simp add: sel_turn_def ev rset next_conns_def Let_def)
    qed
  qed
qed

interpretation sel_mux: multiplexer sel_turn "sel_inv lfd" "\<lambda>s. live (client s)" sel_out "mux_ok sel_good lfd" for lfd
  by unfold_locales (rule sel_turn_does)

section \<open>The server with poll serves everyone\<close>

text \<open>The descriptors of the clients, which start at the second entry.\<close>

abbreviation fds :: "pol \<Rightarrow> int list" where "fds s \<equiv> map fd (tl (p_client s))"

definition pol_inv :: "nat \<Rightarrow> pol \<Rightarrow> bool" where
  "pol_inv n s \<longleftrightarrow> length (p_client s) = n \<and> p_maxi s < n \<and> slots_ok (fds s) \<and> (\<forall>i < n - 1. p_maxi s \<le> i \<longrightarrow> fds s ! i < 0)"

definition pol_good :: "sread \<Rightarrow> bool" where
  "pol_good r \<longleftrightarrow> r \<noteq> SFail"

text \<open>The table has room for a new connection.\<close>

definition pol_ok :: "nat \<Rightarrow> int \<Rightarrow> mux_event \<Rightarrow> int set \<Rightarrow> bool" where
  "pol_ok n lfd ev C \<longleftrightarrow> mux_ok pol_good lfd ev C \<and> (fst ev \<noteq> None \<longrightarrow> Suc (card C) < n)"

lemma pol_start_inv:
  assumes "stack \<noteq> []"
  shows "pol_inv (length stack) (pol_start lfd stack) \<and> live (fds (pol_start lfd stack)) = {}"
proof -
  have f: "fds (pol_start lfd stack) = replicate (length stack - 1) (-1)"
    by (rule nth_equalityI) (simp_all add: pol_start_def nth_tl)
  show ?thesis
    using assms unfolding pol_inv_def f by (simp add: pol_start_def slots_ok_def live_def)
qed

lemma fds_update: "Suc i < length xs \<Longrightarrow> map fd (tl (xs[Suc i := c])) = (map fd (tl xs))[i := fd c]"
  by (cases xs) (simp_all add: map_update)

lemma pol_nth: "Suc i < length (p_client s) \<Longrightarrow> fd (p_client s ! Suc i) = fds s ! i"
  by (simp add: nth_tl)

interpretation pol_slots: slot_table fds p_out "pol_inv n" "\<lambda>rs i. pol_serve rs (Suc i)" pol_good for n
proof
  fix s :: pol and i :: nat and rs :: "(int \<times> sread) list" and r
  assume s: "pol_inv n s" and i: "i < length (fds s)" "0 \<le> fds s ! i" "map_of rs (fds s ! i) = Some r" "pol_good r"
  have c: "slots_ok ((fds s)[i := -1])"
    using s i slots_clear by (auto simp: pol_inv_def)
  have l: "Suc i < length (p_client s)"
    using i(1) by simp
  note f = fds_update [OF l, of "(p_client s ! Suc i)\<lparr>fd := -1\<rparr>"]
  have g: "aget (p_client s) (int (Suc i)) = Some (p_client s ! Suc i)"
    using l by (simp only: aget_nat if_True)
  have st: "aset (p_client s) (int (Suc i)) v = Some ((p_client s)[Suc i := v])" for v
    using l by (simp only: aset_nat if_True)
  have "pol_inv n (s\<lparr>p_client := (p_client s)[Suc i := (p_client s ! Suc i)\<lparr>fd := -1\<rparr>]\<rparr>)"
    using s c f i(1) by (auto simp: pol_inv_def nth_list_update)
  moreover have "pol_inv n (s\<lparr>p_out := X\<rparr>)" for X
    using s by (simp add: pol_inv_def del: nth_map)
  ultimately show "\<exists>t. pol_serve rs (Suc i) s = Some t \<and> pol_inv n t \<and> fds t = (if ends r then (fds s)[i := -1] else fds s) \<and>
      p_out t = (p_out s)(fds s ! i := p_out s (fds s ! i) @ echoed (Some r))"
    using i(3,4) f unfolding pol_serve_def g st pol_nth [OF l, symmetric] by (cases r) (auto simp: pol_good_def)
qed (simp add: pol_inv_def)

lemma poll_sets_fds: "map fd (tl (poll_sets l rs m xs)) = map fd (tl xs)"
  by (rule nth_equalityI) (auto simp: poll_sets_def nth_tl)

lemma poll_sets_length [simp]: "length (poll_sets l rs m xs) = length xs"
  by (simp add: poll_sets_def)

lemma poll_sets_nth: "i < m \<Longrightarrow> i < length xs \<Longrightarrow>
   poll_sets l rs m xs ! i = (xs ! i)\<lparr>revents := (if i = 0 then l else 0 \<le> fd (xs ! i) \<and> map_of rs (fd (xs ! i)) \<noteq> None)\<rparr>"
  by (simp add: poll_sets_def)

lemma pol_inv_cong: "map fd (tl cl) = fds s \<Longrightarrow> length cl = length (p_client s) \<Longrightarrow> pol_inv n s \<Longrightarrow> pol_inv n (s\<lparr>p_client := cl\<rparr>)"
  by (simp add: pol_inv_def del: nth_map)

lemma orun_map: "orun f (map g xs) s = orun (\<lambda>x. f (g x)) xs s"
proof (induction xs arbitrary: s)
  case (Cons x xs)
  then show ?case
    by (cases "f (g x) s") simp_all
qed simp

lemma pol_serve_client:
  assumes "pol_serve rs i u = Some v"
  shows "p_client v = p_client u \<or> p_client v = (p_client u)[i := (p_client u ! i)\<lparr>fd := -1\<rparr>]"
proof -
  obtain c r where f: "aget (p_client u) (int i) = Some c" "map_of rs (fd c) = Some r"
    using assms by (cases "aget (p_client u) (int i)"; cases "map_of rs (fd (the (aget (p_client u) (int i))))") (auto simp: pol_serve_def)
  moreover then have "c = p_client u ! i"
    by (auto simp: arr_simps split: if_splits)
  ultimately show ?thesis
    using assms by (cases r) (auto simp: pol_serve_def arr_simps split: if_splits)
qed

text \<open>
  The loop, from a state in which the first \<open>m\<close> clients have been looked at by \<open>poll\<close>.
\<close>

lemma pol_loop_does:
  assumes "pol_inv n s" and "distinct (map fst rs)" and "fst ` set rs \<subseteq> live (take m (fds s))" and "\<forall>r \<in> snd ` set rs. pol_good r" and "rs \<noteq> []"
    and "m \<le> length (fds s)" and "\<And>i. i < m \<Longrightarrow> pol_ready (Suc i) s \<longleftrightarrow> fds s ! i \<in> fst ` set rs"
  shows "\<exists>t. each_ready pol_ready (pol_serve rs) (map Suc [0..<m] @ js) (int (length rs)) s = Some t \<and> pol_inv n t \<and>
    live (fds t) = live (fds s) - {f. \<exists>r. map_of rs f = Some r \<and> ends r} \<and> (\<forall>f. p_out t f = p_out s f @ echoed (map_of rs f))"
proof -
  let ?K = "fst ` set rs"
  let ?is = "filter (\<lambda>i. fds s ! i \<in> ?K) [0..<m]"
  have r: "filter (\<lambda>i. pol_ready i s) (map Suc [0..<m]) = map Suc ?is"
    unfolding filter_map comp_def using assms(7) by (intro arg_cong [where f = "map Suc"] filter_cong) auto
  have n: "int (length rs) = int (length (filter (\<lambda>i. pol_ready i s) (map Suc [0..<m])))"
    using ready_count [OF _ assms(3,6)] assms(1,2) distinct_card [of "map fst rs"] unfolding r by (simp add: pol_inv_def)
  have other: "pol_ready j v = pol_ready j u" if "pol_serve rs i u = Some v" "j \<noteq> i" for i j u v
    using pol_serve_client [OF that(1)] that(2) by (auto simp: pol_ready_def arr_simps)
  have "each_ready pol_ready (pol_serve rs) (map Suc [0..<m] @ js) (int (length rs)) s = orun (pol_serve rs) (map Suc ?is) s"
    unfolding r [symmetric] using assms(5) n other by (intro each_ready_serves) (auto simp: distinct_map)
  also have "\<dots> = orun (\<lambda>i. pol_serve rs (Suc i)) ?is s"
    by (rule orun_map)
  finally have e: "each_ready pol_ready (pol_serve rs) (map Suc [0..<m] @ js) (int (length rs)) s = orun (\<lambda>i. pol_serve rs (Suc i)) ?is s" .
  have im: "(!) (fds s) ` set ?is = ?K"
    by (rule ready_image [OF assms(3,6)])
  have pos: "\<forall>f \<in> ?K. 0 \<le> f"
    using assms(3) by (auto simp: live_def)
  have "\<exists>t. orun (\<lambda>i. pol_serve rs (Suc i)) ?is s = Some t \<and> pol_inv n t \<and>
      live (fds t) = live (fds s) - {f. f \<in> (!) (fds s) ` set ?is \<and> (\<exists>r. map_of rs f = Some r \<and> ends r)} \<and>
      (\<forall>f. p_out t f = p_out s f @ (if f \<in> (!) (fds s) ` set ?is then echoed (map_of rs f) else []))"
  proof (rule pol_slots.serve_all [OF assms(1)])
    show "\<forall>i \<in> set ?is. i < length (fds s) \<and> 0 \<le> fds s ! i \<and> (\<exists>r. map_of rs (fds s ! i) = Some r \<and> pol_good r)"
    proof
      fix i
      assume "i \<in> set ?is"
      then have i: "i < m" "fds s ! i \<in> ?K"
        by simp_all
      obtain x where "map_of rs (fds s ! i) = Some x"
        using i(2) map_of_keys [of rs "fds s ! i"] by blast
      moreover then have "pol_good x"
        using assms(4) map_of_SomeD by force
      moreover have "0 \<le> fds s ! i"
        using i(2) pos by blast
      ultimately show "i < length (fds s) \<and> 0 \<le> fds s ! i \<and> (\<exists>r. map_of rs (fds s ! i) = Some r \<and> pol_good r)"
        using less_le_trans [OF i(1) assms(6)] by blast
    qed
  qed simp
  then show ?thesis
    unfolding e im key_ends key_echoed by simp
qed

lemma polled:
  assumes "pol_inv n s" and "fst ` set rs \<subseteq> live (fds s)" and "distinct (map fst rs)"
    and "s1 = s\<lparr>p_client := poll_sets l rs (p_maxi s + 1) (p_client s)\<rparr>"
  shows "pol_inv n s1" "fds s1 = fds s" "p_maxi s1 = p_maxi s" "p_out s1 = p_out s" "fst ` set rs \<subseteq> live (take (p_maxi s) (fds s))"
    "i < p_maxi s \<Longrightarrow> revents (p_client s1 ! Suc i) \<longleftrightarrow> fds s ! i \<in> fst ` set rs"
    "length (filter revents (take (p_maxi s + 1) (p_client s1))) = (if l then 1 else 0) + length rs"
proof -
  let ?m = "p_maxi s" and ?K = "fst ` set rs"
  show inv: "pol_inv n s1" and f: "fds s1 = fds s" and "p_maxi s1 = p_maxi s" "p_out s1 = p_out s"
    using pol_inv_cong [OF poll_sets_fds _ assms(1)] by (simp_all add: assms(4) poll_sets_fds)
  have m: "?m < length (p_client s)" "length (p_client s) = n" "\<And>i. i < n - 1 \<Longrightarrow> ?m \<le> i \<Longrightarrow> fds s ! i < 0" "slots_ok (fds s)"
    using assms(1) unfolding pol_inv_def by blast+
  have ml: "?m \<le> length (fds s)"
    using m(1) by simp
  have "live (take ?m (fds s)) = live (fds s)"
    by (rule live_take) (use m(2,3) in simp)
  then show K: "?K \<subseteq> live (take ?m (fds s))"
    using assms(2) by simp
  have pos: "g \<in> ?K \<Longrightarrow> 0 \<le> g" for g
    using assms(2) by (auto simp: live_def)
  have rev: "revents (p_client s1 ! Suc i) \<longleftrightarrow> fds s ! i \<in> ?K" if "i < ?m" for i
    using that m(1) pos [of "fds s ! i"] map_of_keys [of rs "fds s ! i"] pol_nth [of i s] poll_sets_nth [of "Suc i" "?m + 1" "p_client s" l rs]
    by (auto simp: assms(4) simp del: nth_map not_None_eq)
  then show "i < ?m \<Longrightarrow> revents (p_client s1 ! Suc i) \<longleftrightarrow> fds s ! i \<in> ?K" .
  have l1: "length (p_client s1) = length (p_client s)"
    by (simp add: assms(4))
  have "take (?m + 1) (p_client s1) = map (\<lambda>i. p_client s1 ! i) [0..<?m + 1]"
    using m(1) l1 by (intro nth_equalityI) (auto simp del: upt_Suc)
  also have "[0..<?m + 1] = 0 # map Suc [0..<?m]"
    by (simp add: map_Suc_upt upt_conv_Cons del: upt_Suc)
  finally have t: "take (?m + 1) (p_client s1) = p_client s1 ! 0 # map (\<lambda>i. p_client s1 ! Suc i) [0..<?m]"
    by (simp add: comp_def)
  have "length (filter revents (map (\<lambda>i. p_client s1 ! Suc i) [0..<?m])) = length (filter (\<lambda>i. fds s ! i \<in> ?K) [0..<?m])"
    unfolding filter_map comp_def length_map using rev by (intro arg_cong [where f = length] filter_cong) auto
  also have "\<dots> = length rs"
    using ready_count [OF m(4) K ml] distinct_card [OF assms(3)] by simp
  finally have "length (filter revents (map (\<lambda>i. p_client s1 ! Suc i) [0..<?m])) = length rs" .
  moreover have "0 < length (p_client s)"
    using m(1) by linarith
  then have "revents (p_client s1 ! 0) = l"
    using poll_sets_nth [of 0 "?m + 1" "p_client s" l rs] by (simp add: assms(4))
  ultimately show "length (filter revents (take (p_maxi s + 1) (p_client s1))) = (if l then 1 else 0) + length rs"
    unfolding t by simp
qed

lemma first_idx_map: "first_idx (\<lambda>c. P (f c)) xs = first_idx P (map f xs)"
  by (induction xs) auto

lemma pol_accept_does:
  assumes "pol_inv n s" and "0 \<le> c" and "c \<notin> live (fds s)" and "Suc (card (live (fds s))) < n"
  shows "\<exists>j. j < length (fds s) \<and> fds s ! j < 0 \<and>
    pol_accept c s = Some (s\<lparr>p_client := (p_client s)[Suc j := (p_client s ! Suc j)\<lparr>fd := c\<rparr>], p_maxi := max (Suc j) (p_maxi s)\<rparr>) \<and>
    pol_inv n (s\<lparr>p_client := (p_client s)[Suc j := (p_client s ! Suc j)\<lparr>fd := c\<rparr>], p_maxi := max (Suc j) (p_maxi s)\<rparr>) \<and>
    map fd (tl ((p_client s)[Suc j := (p_client s ! Suc j)\<lparr>fd := c\<rparr>])) = (fds s)[j := c] \<and> live ((fds s)[j := c]) = insert c (live (fds s))"
proof -
  let ?j = "first_idx (\<lambda>c. c < 0) (fds s)"
  have n: "length (p_client s) = n" "slots_ok (fds s)" "p_maxi s < n" "\<forall>i < n - 1. p_maxi s \<le> i \<longrightarrow> fds s ! i < 0"
    using assms(1) unfolding pol_inv_def by blast+
  have j: "?j < length (fds s)"
    by (rule first_idx_free [of "live (fds s)"]) (use n assms(4) in \<open>simp_all add: live_def\<close>)
  then have l: "Suc ?j < length (p_client s)"
    by simp
  have a: "slots_ok ((fds s)[?j := c]) \<and> live ((fds s)[?j := c]) = insert c (live (fds s))"
    by (rule slots_add [OF n(2) j first_idx_hit [OF j] assms(2,3)])
  note f = fds_update [OF l, of "(p_client s ! Suc ?j)\<lparr>fd := c\<rparr>"]
  have "pol_accept c s = Some (s\<lparr>p_client := (p_client s)[Suc ?j := (p_client s ! Suc ?j)\<lparr>fd := c\<rparr>], p_maxi := max (Suc ?j) (p_maxi s)\<rparr>)"
    using assms(2) l by (simp add: pol_accept_def Let_def first_idx_map [of "\<lambda>c. c < 0" fd])
  moreover have "pol_inv n (s\<lparr>p_client := (p_client s)[Suc ?j := (p_client s ! Suc ?j)\<lparr>fd := c\<rparr>], p_maxi := max (Suc ?j) (p_maxi s)\<rparr>)"
    using n a f l by (auto simp: pol_inv_def nth_list_update simp del: nth_map)
  ultimately show ?thesis
    using j first_idx_hit [OF j] f a by (intro exI [of _ ?j]) simp
qed

lemma pol_ready_nth: "Suc i < length (p_client s) \<Longrightarrow> pol_ready (Suc i) s \<longleftrightarrow> 0 \<le> fds s ! i \<and> revents (p_client s ! Suc i)"
  unfolding pol_ready_def by (subst aget_nat) (simp add: nth_tl)

lemma loop_indices: "m \<le> k \<Longrightarrow> [1..<Suc k] = map Suc [0..<m] @ [Suc m..<Suc k]"
  unfolding map_Suc_upt using upt_add_eq_append [of 1 "Suc m" "k - m"] by simp

lemma pol_turn_does:
  assumes "pol_inv n s" and "pol_ok n lfd ev (live (fds s))"
  shows "\<exists>t. pol_turn ev s = Some t \<and> pol_inv n t \<and> live (fds t) = next_conns ev (live (fds s)) \<and>
    (\<forall>f. p_out t f = p_out s f @ echoed (map_of (snd ev) f))"
proof -
  obtain acc rs where ev: "ev = (acc, rs)"
    by (cases ev)
  let ?K = "fst ` set rs" and ?m = "p_maxi s"
  have k: "acc \<noteq> None \<or> rs \<noteq> []" "distinct (map fst rs)" "?K \<subseteq> live (fds s)" "\<forall>r \<in> snd ` set rs. pol_good r"
      "\<And>c. acc = Some c \<Longrightarrow> 0 \<le> c \<and> c \<notin> live (fds s) \<and> Suc (card (live (fds s))) < n"
    using assms(2) unfolding pol_ok_def mux_ok_def ev by simp_all
  define s1 where "s1 = s\<lparr>p_client := poll_sets (acc \<noteq> None) rs (?m + 1) (p_client s)\<rparr>"
  note p = polled [OF assms(1) k(3,2) s1_def]
  have n: "length (p_client s) = n" "?m < n"
    using assms(1) unfolding pol_inv_def by blast+
  then have m: "?m \<le> length (fds s)" and n1: "length (p_client s1) = n"
    by (simp_all add: s1_def)
  have pos: "f \<in> ?K \<Longrightarrow> 0 \<le> f" for f
    using k(3) by (auto simp: live_def)
  have nr: "length (filter revents (take (?m + 1) (p_client s1))) = (if acc \<noteq> None then 1 else 0) + length rs"
    by (rule p(7))
  note turn = pol_turn_def ev prod.case Let_def s1_def [symmetric] nr
  show ?thesis
  proof (cases acc)
    case None
    have r: "pol_ready (Suc i) s1 \<longleftrightarrow> fds s1 ! i \<in> ?K" if "i < ?m" for i
      using pol_ready_nth [of i s1] p(2) p(6) [OF that] pos that n n1 by auto
    have "pol_turn ev s = each_ready pol_ready (pol_serve rs) [1..<Suc ?m] (int (length rs)) s1"
      using None k(1) p(3) unfolding turn by (simp del: upt_Suc)
    then show ?thesis
      using pol_loop_does [where m = ?m and js = "[]", OF p(1) k(2) _ k(4) _ _ r] p(2,4,5) m None k(1) loop_indices [of ?m ?m]
      by (simp add: ev next_conns_def del: upt_Suc)
  next
    case (Some c)
    obtain j where j: "j < length (fds s1)" "fds s1 ! j < 0"
        "pol_accept c s1 = Some (s1\<lparr>p_client := (p_client s1)[Suc j := (p_client s1 ! Suc j)\<lparr>fd := c\<rparr>], p_maxi := max (Suc j) (p_maxi s1)\<rparr>)"
        "pol_inv n (s1\<lparr>p_client := (p_client s1)[Suc j := (p_client s1 ! Suc j)\<lparr>fd := c\<rparr>], p_maxi := max (Suc j) (p_maxi s1)\<rparr>)"
        "map fd (tl ((p_client s1)[Suc j := (p_client s1 ! Suc j)\<lparr>fd := c\<rparr>])) = (fds s1)[j := c]" "live ((fds s1)[j := c]) = insert c (live (fds s1))"
      using pol_accept_does [OF p(1), of c] k(5) [OF Some] p(2) by metis
    define u where "u = s1\<lparr>p_client := (p_client s1)[Suc j := (p_client s1 ! Suc j)\<lparr>fd := c\<rparr>], p_maxi := max (Suc j) (p_maxi s1)\<rparr>"
    have u: "pol_inv n u" "fds u = (fds s)[j := c]" "live (fds u) = insert c (live (fds s))" "p_out u = p_out s" "?m \<le> p_maxi u"
      using j(4-6) p(2-4) by (simp_all add: u_def)
    have t: "pol_turn ev s = (if rs = [] then Some u else each_ready pol_ready (pol_serve rs) [1..<Suc (p_maxi u)] (int (length rs)) u)"
      using Some j(3) unfolding turn by (simp add: u_def del: upt_Suc)
    show ?thesis
    proof (cases "rs = []")
      case True
      then show ?thesis
        using t u Some by (simp add: ev next_conns_def)
    next
      case False
      have c: "c \<notin> ?K" and neg: "fds s ! j < 0" and jl: "j < length (fds s)"
        using k(3) k(5) [OF Some] j(1,2) p(2) by auto
      have K: "?K \<subseteq> live (take ?m (fds u))"
        using p(5) neg unfolding u(2) by (rule live_take_update)
      have r: "pol_ready (Suc i) u \<longleftrightarrow> fds u ! i \<in> ?K" if i: "i < ?m" for i
      proof -
        have l: "Suc i < length (p_client u)" "length (p_client u) = n"
          using i n n1 by (simp_all add: u_def)
        have "revents (p_client u ! Suc i) = revents (p_client s1 ! Suc i)"
          using l n1 by (cases "i = j") (simp_all add: u_def nth_list_update)
        then have rv: "revents (p_client u ! Suc i) \<longleftrightarrow> fds s ! i \<in> ?K"
          using p(6) [OF i] by simp
        show ?thesis
        proof (cases "i = j")
          case True
          then have "fds u ! i = c" "fds s ! i \<notin> ?K"
            using u(2) jl neg pos [of "fds s ! j"] by (auto simp del: nth_map)
          then show ?thesis
            using pol_ready_nth [OF l(1)] rv c by simp
        next
          case False
          then have "fds u ! i = fds s ! i"
            unfolding u(2) by simp
          then show ?thesis
            using pol_ready_nth [OF l(1)] rv pos by auto
        qed
      qed
      show ?thesis
        using pol_loop_does [where m = ?m and js = "[Suc ?m..<Suc (p_maxi u)]", OF u(1) k(2) K k(4) False _ r] t False u(3,4) m Some loop_indices [OF u(5)]
        by (simp add: ev next_conns_def u(2) del: upt_Suc)
    qed
  qed
qed

interpretation pol_mux: multiplexer pol_turn "pol_inv n" "\<lambda>s. live (fds s)" p_out "pol_ok n lfd" for n lfd
  by unfold_locales (rule pol_turn_does)

section \<open>What the servers do\<close>

lemma run_ok_mono: "(\<And>ev C. ok ev C \<Longrightarrow> ok' ev C) \<Longrightarrow> run_ok ok evs C \<Longrightarrow> run_ok ok' evs C"
  by (induction evs arbitrary: C) auto

text \<open>
  C19: the server with \<open>select\<close> never ends or leaves an array, in particular never finds its table full, on
  events that fit its connections; each turn serves every descriptor that is ready, although its loop
  stops when it has counted them: what has been written to a descriptor is what was read from it,
  in order, and the table holds the connections that were accepted and have not ended.
\<close>

theorem select_echoes:
  assumes "0 \<le> lfd" and "lfd < int FD_SETSIZE" and "run_ok (mux_ok sel_good lfd) evs {}"
  shows "\<exists>t. orun sel_turn evs (sel_start lfd) = Some t \<and> live (client t) = fold next_conns evs {} \<and>
    (\<forall>f. sel_out t f = concat (map (\<lambda>ev. echoed (map_of (snd ev) f)) evs))"
proof -
  have "sel_out (sel_start lfd) f = []" for f
    by (simp add: sel_start_def)
  then show ?thesis
    using sel_mux.run_does [of lfd "sel_start lfd" evs] sel_start_inv [OF assms(1,2)] assms(3) by auto
qed

text \<open>
  Two clients come, send at the same time as a third comes, and the first goes.
\<close>

definition mux_demo :: "mux_event list" where
  "mux_demo = [(Some 4, []), (Some 5, []), (Some 6, [(5, SData ''b''), (4, SData ''a'')]), (None, [(6, SData ''c''), (4, SEnd)]), (None, [(5, SData ''d'')])]"

lemma mux_demo_ok: "run_ok (mux_ok sel_good 3) mux_demo {}"
  by (auto simp: mux_demo_def mux_ok_def next_conns_def sel_good_def)

theorem select_echoes_witness:
  "\<exists>t. orun sel_turn mux_demo (sel_start 3) = Some t \<and> live (client t) = {5, 6} \<and> sel_out t 5 = ''bd'' \<and> sel_out t 4 = ''a''"
proof -
  have "fold next_conns mux_demo {} = {5, 6}"
    by (auto simp: mux_demo_def next_conns_def)
  moreover have "concat (map (\<lambda>ev. echoed (map_of (snd ev) 5)) mux_demo) = ''bd''" "concat (map (\<lambda>ev. echoed (map_of (snd ev) 4)) mux_demo) = ''a''"
    by (simp_all add: mux_demo_def)
  ultimately show ?thesis
    using select_echoes [OF _ _ mux_demo_ok] by fastforce
qed

text \<open>
  C18: the server with \<open>poll\<close> does the same as the one with \<open>select\<close> on the same events, whatever its array
  holds in the fields that it does not initialise.
\<close>

theorem poll_agrees_with_select:
  assumes "0 \<le> lfd" and "lfd < int FD_SETSIZE" and "stack \<noteq> []"
    and "run_ok (\<lambda>ev C. mux_ok sel_good lfd ev C \<and> (fst ev \<noteq> None \<longrightarrow> Suc (card C) < length stack)) evs {}"
  shows "\<exists>t u. orun sel_turn evs (sel_start lfd) = Some t \<and> orun pol_turn evs (pol_start lfd stack) = Some u \<and>
    live (client t) = live (fds u) \<and> sel_out t = p_out u"
proof -
  have "run_ok (mux_ok sel_good lfd) evs {}" and p: "run_ok (pol_ok (length stack) lfd) evs {}"
    using assms(4) by (auto elim!: run_ok_mono [rotated] simp: pol_ok_def mux_ok_def sel_good_def pol_good_def)
  then obtain t where t: "orun sel_turn evs (sel_start lfd) = Some t" "live (client t) = fold next_conns evs {}"
      "\<forall>f. sel_out t f = sel_out (sel_start lfd) f @ concat (map (\<lambda>ev. echoed (map_of (snd ev) f)) evs)"
    using sel_mux.run_does [of lfd "sel_start lfd" evs] sel_start_inv [OF assms(1,2)] by auto
  obtain u where u: "orun pol_turn evs (pol_start lfd stack) = Some u" "live (fds u) = fold next_conns evs {}"
      "\<forall>f. p_out u f = p_out (pol_start lfd stack) f @ concat (map (\<lambda>ev. echoed (map_of (snd ev) f)) evs)"
    using pol_mux.run_does [of "length stack" "pol_start lfd stack" lfd evs] pol_start_inv [OF assms(3), of lfd] p by auto
  have "sel_out t = p_out u"
    using t(3) u(3) by (auto simp: sel_start_def pol_start_def)
  then show ?thesis
    using t u by auto
qed

theorem poll_agrees_with_select_witness:
  "\<exists>t u. orun sel_turn mux_demo (sel_start 3) = Some t \<and> orun pol_turn mux_demo (pol_start 3 [True, True, False, True, True]) = Some u \<and>
    live (client t) = live (fds u) \<and> sel_out t = p_out u"
proof (rule poll_agrees_with_select)
  have "card {4, 5 :: int} = 2" "card {4 :: int} = 1"
    by simp_all
  then show "run_ok (\<lambda>ev C. mux_ok sel_good 3 ev C \<and> (fst ev \<noteq> None \<longrightarrow> Suc (card C) < length [True, True, False, True, True])) mux_demo {}"
    by (auto simp: mux_demo_def mux_ok_def next_conns_def sel_good_def insert_commute)
qed simp_all

text \<open>
  A connection whose descriptor does not fit the sets, which happens before the table is full, makes
  the first server write outside a set; a connection that its client resets ends it, and all others
  with it.
\<close>

lemma select_large_descriptor: "int FD_SETSIZE \<le> c \<Longrightarrow> sel_turn (Some c, rs) s = None"
proof -
  assume "int FD_SETSIZE \<le> c"
  then have "sel_accept c s = None"
    by (cases "aset (client s) (int (first_idx (\<lambda>c. c < 0) (client s))) c") (simp_all add: sel_accept_def FD_SET_def Let_def)
  then show ?thesis
    by (simp add: sel_turn_def Let_def)
qed

lemma select_reset_exits:
  assumes "client s ! i = f" and "i < length (client s)" and "0 \<le> f" and "map_of rs f = Some SReset"
  shows "sel_serve rs i s = None"
  using assms by (simp add: sel_serve_def arr_simps)

end
