(* ===== verification/Prefork.thy ===== *)
theory Prefork
  imports Machine "HOL-Library.Multiset"
begin

text \<open>
  The server with a pool of child processes that get their connections from the parent as
  descriptors over a stream pipe: \<open>src/unpv13e/server/serv05.c\<close>, \<open>src/unpv13e/server/child05.c\<close> and
  \<open>src/unpv13e/server/child.h\<close>, with \<open>src/unpv13e/lib/read_fd.c\<close> and \<open>src/unpv13e/lib/write_fd.c\<close> as the passing of a
  descriptor through the pipe.  The parent and the children take steps in any order.  \<open>None\<close> is a
  parent that ends with \<open>err_quit\<close>, or a step that cannot happen because its process waits.
\<close>

section \<open>The processes\<close>

text \<open>
  A child: what the parent knows of it, then the two directions of its pipe and what it does.
  \<open>to_child\<close> are the descriptors on their way to it, \<open>notices\<close> the number of bytes on their way back,
  \<open>serving\<close> is the connection in \<open>web_child\<close>, \<open>dead\<close> a child that has terminated.
\<close>

record Child =
  child_status :: int
  child_count :: int
  to_child :: "int list"
  notices :: nat
  serving :: "int option"
  dead :: bool

text \<open>
  The parent's variables, and the connections that were accepted and those that were served.
\<close>

record pool =
  cptr :: "Child list"
  navail :: int
  accepted :: "int list"
  finished :: "int list"

definition child_make :: Child where
  "child_make = \<lparr>child_status = 0, child_count = 0, to_child = [], notices = 0, serving = None, dead = False\<rparr>"

definition pool_start :: "nat \<Rightarrow> pool" where
  "pool_start nchildren = \<lparr>cptr = replicate nchildren child_make, navail = int nchildren, accepted = [], finished = []\<rparr>"

text \<open>The pipe of a child is ready when there is a byte on it or its other end is closed.\<close>

definition pipe_ready :: "Child \<Rightarrow> bool" where
  "pipe_ready c \<longleftrightarrow> 0 < notices c \<or> dead c"

text \<open>Handing over a new connection.\<close>

definition hand_over :: "int \<Rightarrow> pool \<Rightarrow> pool option" where
  "hand_over connfd s =
     (let i = first_idx (\<lambda>c. child_status c = 0) (cptr s) in
      if i = length (cptr s) then None
      else let c = cptr s ! i in
        Some (s\<lparr>cptr := (cptr s)[i := c\<lparr>child_status := 1, child_count := child_count c + 1, to_child := to_child c @ [connfd]\<rparr>],
                navail := navail s - 1, accepted := accepted s @ [connfd]\<rparr>))"

text \<open>A child that reports.  Its end of the pipe closed without a byte ends the parent.\<close>

definition available :: "nat \<Rightarrow> pool \<Rightarrow> pool option" where
  "available i s =
     (let c = cptr s ! i in
      if notices c = 0 then None
      else Some (s\<lparr>cptr := (cptr s)[i := c\<lparr>child_status := 0, notices := notices c - 1\<rparr>], navail := navail s + 1\<rparr>))"

fun find_available :: "bool list \<Rightarrow> nat list \<Rightarrow> int \<Rightarrow> pool \<Rightarrow> pool option" where
  "find_available rset [] nsel s = Some s"
| "find_available rset (i # is) nsel s =
     (if rset ! i then do {
        s1 \<leftarrow> available i s;
        (if nsel - 1 = 0 then Some s1 else find_available rset is (nsel - 1) s1)
      }
      else find_available rset is nsel s)"

text \<open>
  A turn of the parent's loop.  The argument is the connection that waits at the listening socket,
  which the parent looks at only while a child is available.
\<close>

definition parent_turn :: "int option \<Rightarrow> pool \<Rightarrow> pool option" where
  "parent_turn conn s =
     (let listening = (navail s > 0 \<and> conn \<noteq> None);
          rset = map pipe_ready (cptr s);
          nsel = (if listening then 1 else 0) + int (length (filter id rset))
      in if nsel = 0 then None
         else if listening then do {
           s1 \<leftarrow> hand_over (the conn) s;
           (if nsel - 1 = 0 then Some s1 else find_available rset [0..<length (cptr s1)] (nsel - 1) s1)
         }
         else find_available rset [0..<length (cptr s)] nsel s)"

text \<open>A child: it receives a descriptor, and reports when it has served the connection.\<close>

definition child_read :: "nat \<Rightarrow> pool \<Rightarrow> pool option" where
  "child_read i s =
     (if i < length (cptr s) \<and> \<not> dead (cptr s ! i) \<and> serving (cptr s ! i) = None then
        (case to_child (cptr s ! i) of
           [] \<Rightarrow> None
         | connfd # rest \<Rightarrow> Some (s\<lparr>cptr := (cptr s)[i := (cptr s ! i)\<lparr>to_child := rest, serving := Some connfd\<rparr>]\<rparr>))
      else None)"

definition child_write :: "nat \<Rightarrow> pool \<Rightarrow> pool option" where
  "child_write i s =
     (if i < length (cptr s) \<and> \<not> dead (cptr s ! i) then
        (case serving (cptr s ! i) of
           None \<Rightarrow> None
         | Some connfd \<Rightarrow>
             Some (s\<lparr>cptr := (cptr s)[i := (cptr s ! i)\<lparr>serving := None, notices := notices (cptr s ! i) + 1\<rparr>], finished := finished s @ [connfd]\<rparr>))
      else None)"

definition child_dies :: "nat \<Rightarrow> pool \<Rightarrow> pool option" where
  "child_dies i s = (if i < length (cptr s) then Some (s\<lparr>cptr := (cptr s)[i := (cptr s ! i)\<lparr>dead := True\<rparr>]\<rparr>) else None)"

datatype pool_op = Parent "int option" | Reads nat | Writes nat | Dies nat

fun pool_step :: "pool_op \<Rightarrow> pool \<Rightarrow> pool option" where
  "pool_step (Parent conn) s = parent_turn conn s"
| "pool_step (Reads i) s = child_read i s"
| "pool_step (Writes i) s = child_write i s"
| "pool_step (Dies i) s = child_dies i s"

text \<open>What the handler of \<open>SIGINT\<close> prints.\<close>

definition sig_int :: "pool \<Rightarrow> string list" where
  "sig_int s = map (\<lambda>i. ''child '' @ dec_nat i @ '', '' @ dec_int (child_count (cptr s ! i)) @ '' connections'') [0..<length (cptr s)]"

section \<open>What is kept\<close>

text \<open>
  A child that the parent takes for available has nothing to do and nothing to say; for one that it
  takes for busy there is one descriptor on the way, one connection, or one report.
\<close>

definition tasks :: "Child \<Rightarrow> nat" where
  "tasks c = length (to_child c) + (if serving c = None then 0 else 1) + notices c"

definition child_ok :: "Child \<Rightarrow> bool" where
  "child_ok c \<longleftrightarrow> \<not> dead c \<and> (child_status c = 0 \<and> tasks c = 0 \<or> child_status c = 1 \<and> tasks c = 1)"

definition idle_of :: "Child \<Rightarrow> int" where
  "idle_of c = (if child_status c = 0 then 1 else 0)"

definition held :: "Child \<Rightarrow> int multiset" where
  "held c = mset (to_child c) + (case serving c of None \<Rightarrow> {#} | Some f \<Rightarrow> {#f#})"

definition pool_inv :: "nat \<Rightarrow> pool \<Rightarrow> bool" where
  "pool_inv n s \<longleftrightarrow>
     length (cptr s) = n \<and> (\<forall>c \<in> set (cptr s). child_ok c) \<and> navail s = sum_list (map idle_of (cptr s)) \<and>
     mset (accepted s) = mset (finished s) + sum_list (map held (cptr s)) \<and>
     int (length (accepted s)) = sum_list (map child_count (cptr s))"

lemma sum_list_nonneg_pos:
  assumes "0 < sum_list (map f xs)"
  shows "\<exists>x \<in> set xs. f x \<noteq> (0::int)"
  using assms by (induction xs) force+

lemma update_ok: "\<forall>c \<in> set xs. P c \<Longrightarrow> P d \<Longrightarrow> \<forall>c \<in> set (xs[i := d]). P c"
  using set_update_subset_insert [of xs i d] by blast

text \<open>A change of one child, with what it means for the rest of the state.\<close>

lemma pool_update:
  assumes "pool_inv n s" and "i < n" and "c = cptr s ! i" and "child_ok d" and "v + idle_of c = navail s + idle_of d"
    and "mset as + held c = mset fs + held d" and "int (length as) + child_count c = child_count d"
  shows "pool_inv n (s\<lparr>cptr := (cptr s)[i := d], navail := v, accepted := accepted s @ as, finished := finished s @ fs\<rparr>)"
proof -
  let ?xs = "cptr s"
  have l: "i < length ?xs"
    using assms(1,2) by (simp add: pool_inv_def)
  note u = sum_list_update_comm [OF l, of _ d, folded assms(3)]
  have "v = sum_list (map idle_of (?xs[i := d]))"
    using u [of idle_of] assms(1,5) by (simp add: pool_inv_def)
  moreover have "mset (accepted s) + mset as = mset (finished s) + mset fs + sum_list (map held (?xs[i := d]))"
  proof -
    have "(mset (accepted s) + mset as) + held c = mset (finished s) + sum_list (map held ?xs) + (mset fs + held d)"
      using assms(1,6) by (simp add: pool_inv_def ac_simps)
    also have "\<dots> = (mset (finished s) + mset fs + sum_list (map held (?xs[i := d]))) + held c"
      using u [of held] by (simp add: ac_simps)
    finally show ?thesis
      by simp
  qed
  moreover have "int (length (accepted s)) + int (length as) = sum_list (map child_count (?xs[i := d]))"
    using u [of child_count] assms(1,7) by (simp add: pool_inv_def)
  ultimately show ?thesis
    using assms(1,4) update_ok [of ?xs child_ok d i] by (simp add: pool_inv_def)
qed

lemma child_at: "pool_inv n s \<Longrightarrow> i < n \<Longrightarrow> child_ok (cptr s ! i)"
  by (simp add: pool_inv_def)

lemma sum_list_empty: "sum_list (replicate n ({#} :: int multiset)) = {#}"
  by (induction n) simp_all

lemma pool_start_inv: "pool_inv n (pool_start n)"
  by (simp add: pool_inv_def pool_start_def child_make_def child_ok_def tasks_def idle_of_def held_def sum_list_replicate sum_list_empty)

lemma first_idx_found: "\<exists>x \<in> set xs. P x \<Longrightarrow> first_idx P xs < length xs \<and> P (xs ! first_idx P xs)"
  by (induction xs) auto

lemma hand_over_does:
  assumes "pool_inv n s" and "0 < navail s"
  shows "\<exists>t. hand_over f s = Some t \<and> pool_inv n t \<and> accepted t = accepted s @ [f] \<and> finished t = finished s \<and> map notices (cptr t) = map notices (cptr s)"
proof -
  let ?i = "first_idx (\<lambda>c. child_status c = 0) (cptr s)"
  define c where "c = cptr s ! ?i"
  have "\<exists>c \<in> set (cptr s). idle_of c \<noteq> 0"
    using assms by (intro sum_list_nonneg_pos) (simp add: pool_inv_def)
  then have i: "?i < length (cptr s)" "child_status c = 0"
    using first_idx_found [of "cptr s" "\<lambda>c. child_status c = 0"] unfolding c_def by (auto simp: idle_of_def split: if_splits)
  have n: "?i < n"
    using i(1) assms(1) by (simp add: pool_inv_def)
  have z: "tasks c = 0" "\<not> dead c"
    using child_at [OF assms(1) n] i(2) by (auto simp: child_ok_def c_def [symmetric])
  let ?d = "c\<lparr>child_status := 1, child_count := child_count c + 1, to_child := to_child c @ [f]\<rparr>"
  have "pool_inv n (s\<lparr>cptr := (cptr s)[?i := ?d], navail := navail s - 1, accepted := accepted s @ [f], finished := finished s @ []\<rparr>)"
    by (rule pool_update [OF assms(1) n c_def]) (use z i(2) in \<open>auto simp: child_ok_def tasks_def idle_of_def held_def split: if_splits\<close>)
  moreover have "map notices ((cptr s)[?i := ?d]) = map notices (cptr s)"
    using i(1) by (simp add: map_update c_def list_update_same_conv)
  ultimately show ?thesis
    using i(1) by (simp add: hand_over_def c_def Let_def)
qed

lemma available_does:
  assumes "pool_inv n s" and "i < n" and "0 < notices (cptr s ! i)"
  shows "\<exists>t. available i s = Some t \<and> pool_inv n t \<and> accepted t = accepted s \<and> finished t = finished s \<and> (\<forall>j. j \<noteq> i \<longrightarrow> cptr t ! j = cptr s ! j)"
proof -
  define c where "c = cptr s ! i"
  have z: "child_status c = 1" "to_child c = []" "serving c = None" "notices c = 1" "\<not> dead c"
    using child_at [OF assms(1,2)] assms(3) unfolding c_def [symmetric]
    by (cases "to_child c"; auto simp: child_ok_def tasks_def split: if_splits)+
  let ?d = "c\<lparr>child_status := 0, notices := notices c - 1\<rparr>"
  have "pool_inv n (s\<lparr>cptr := (cptr s)[i := ?d], navail := navail s + 1, accepted := accepted s @ [], finished := finished s @ []\<rparr>)"
    by (rule pool_update [OF assms(1,2) c_def]) (use z in \<open>auto simp: child_ok_def tasks_def idle_of_def held_def\<close>)
  then show ?thesis
    using assms(3) by (simp add: available_def c_def Let_def)
qed

lemma find_available_does:
  assumes "pool_inv n s" and "distinct is" and "\<forall>i \<in> set is. i < n \<and> (rset ! i \<longrightarrow> 0 < notices (cptr s ! i))"
  shows "\<exists>t. find_available rset is nsel s = Some t \<and> pool_inv n t \<and> accepted t = accepted s \<and> finished t = finished s"
  using assms
proof (induction "is" arbitrary: nsel s)
  case (Cons i "is")
  show ?case
  proof (cases "rset ! i")
    case False
    then show ?thesis
      using Cons by simp
  next
    case True
    then obtain u where u: "available i s = Some u" "pool_inv n u" "accepted u = accepted s" "finished u = finished s" "\<forall>j. j \<noteq> i \<longrightarrow> cptr u ! j = cptr s ! j"
      using available_does [OF Cons.prems(1), of i] Cons.prems(3) by auto
    have "\<forall>j \<in> set is. j < n \<and> (rset ! j \<longrightarrow> 0 < notices (cptr u ! j))"
      using Cons.prems(2,3) u(5) by auto
    from Cons.IH [OF u(2) _ this, of "nsel - 1"] show ?thesis
      using True u Cons.prems(2) by simp
  qed
qed simp

lemma parent_turn_does:
  assumes "pool_inv n s" and "parent_turn conn s \<noteq> None \<or> navail s > 0 \<and> conn \<noteq> None \<or> (\<exists>c \<in> set (cptr s). 0 < notices c)"
  shows "\<exists>t. parent_turn conn s = Some t \<and> pool_inv n t \<and> finished t = finished s \<and>
    accepted t = accepted s @ (if 0 < navail s then (case conn of None \<Rightarrow> [] | Some f \<Rightarrow> [f]) else [])"
proof -
  let ?rset = "map pipe_ready (cptr s)"
  have len: "length (cptr s) = n"
    using assms(1) by (simp add: pool_inv_def)
  have rset: "?rset ! i \<longleftrightarrow> 0 < notices (cptr s ! i)" if "i < n" for i
    using child_at [OF assms(1) that] that len by (auto simp: pipe_ready_def child_ok_def)
  show ?thesis
  proof (cases "navail s > 0 \<and> conn \<noteq> None")
    case True
    then obtain f where f: "conn = Some f"
      by auto
    obtain u where u: "hand_over f s = Some u" "pool_inv n u" "accepted u = accepted s @ [f]" "finished u = finished s" "map notices (cptr u) = map notices (cptr s)"
      using hand_over_does [OF assms(1)] True by blast
    have lu: "length (cptr u) = n"
      using u(2) by (simp add: pool_inv_def)
    have "notices (cptr u ! i) = notices (cptr s ! i)" if "i < n" for i
      using u(5) that lu len by (metis nth_map)
    then have "\<forall>i \<in> set [0..<n]. i < n \<and> (?rset ! i \<longrightarrow> 0 < notices (cptr u ! i))"
      using rset by auto
    from find_available_does [OF u(2) _ this] show ?thesis
      using True f u lu by (auto simp: parent_turn_def Let_def)
  next
    case False
    have ne: "filter pipe_ready (cptr s) \<noteq> []"
    proof (cases "parent_turn conn s = None")
      case True
      then obtain c where "c \<in> set (cptr s)" "0 < notices c"
        using assms(2) False by auto
      then show ?thesis
        by (auto simp: filter_empty_conv pipe_ready_def)
    next
      case ne: False
      then show ?thesis
        using False by (auto simp: parent_turn_def Let_def split: if_splits)
    qed
    have "\<forall>i \<in> set [0..<n]. i < n \<and> (?rset ! i \<longrightarrow> 0 < notices (cptr s ! i))"
      using rset by auto
    from find_available_does [OF assms(1) _ this] show ?thesis
      using False ne len by (auto simp: parent_turn_def Let_def split: option.splits)
  qed
qed

lemma parent_turn_inv: "pool_inv n s \<Longrightarrow> parent_turn conn s = Some t \<Longrightarrow> pool_inv n t"
  using parent_turn_does [of n s conn] by auto

lemma child_read_inv:
  assumes "pool_inv n s" and "child_read i s = Some t"
  shows "pool_inv n t"
proof -
  define c where "c = cptr s ! i"
  obtain f rest where c: "i < n" "to_child c = f # rest" "serving c = None" "t = s\<lparr>cptr := (cptr s)[i := c\<lparr>to_child := rest, serving := Some f\<rparr>]\<rparr>"
    using assms by (auto simp: child_read_def pool_inv_def c_def [symmetric] split: if_splits list.splits)
  have "child_ok c"
    using child_at [OF assms(1) c(1)] by (simp add: c_def)
  then have "pool_inv n (s\<lparr>cptr := (cptr s)[i := c\<lparr>to_child := rest, serving := Some f\<rparr>], navail := navail s, accepted := accepted s @ [], finished := finished s @ []\<rparr>)"
    by (intro pool_update [OF assms(1) c(1) c_def]) (use c in \<open>auto simp: child_ok_def tasks_def idle_of_def held_def\<close>)
  then show ?thesis
    by (simp add: c(4))
qed

lemma child_write_inv:
  assumes "pool_inv n s" and "child_write i s = Some t"
  shows "pool_inv n t"
proof -
  define c where "c = cptr s ! i"
  let ?d = "c\<lparr>serving := None, notices := notices c + 1\<rparr>"
  obtain f where c: "i < n" "serving c = Some f" "t = s\<lparr>cptr := (cptr s)[i := ?d], finished := finished s @ [f]\<rparr>"
    using assms by (auto simp: child_write_def pool_inv_def c_def [symmetric] split: if_splits option.splits)
  have "child_ok c"
    using child_at [OF assms(1) c(1)] by (simp add: c_def)
  then have "pool_inv n (s\<lparr>cptr := (cptr s)[i := ?d], navail := navail s, accepted := accepted s @ [], finished := finished s @ [f]\<rparr>)"
    by (intro pool_update [OF assms(1) c(1) c_def]) (use c in \<open>auto simp: child_ok_def tasks_def idle_of_def held_def\<close>)
  then show ?thesis
    by (simp add: c(3))
qed

fun lives :: "pool_op \<Rightarrow> bool" where
  "lives (Dies i) = False"
| "lives _ = True"

interpretation prefork: guarded_machine pool_step lives "pool_inv n" for n
proof
  fix s a t
  assume "pool_inv n s" and "lives a" and "pool_step a s = Some t"
  then show "pool_inv n t"
    by (cases a) (auto intro: parent_turn_inv child_read_inv child_write_inv)
qed

section \<open>What the server does\<close>

text \<open>
  C20: whatever order the parent and the children take their steps in, as long as no child dies: every
  connection that was accepted has been served once, or is on its way to a child or being served;
  each child has at most one; the counters add up; and the parent never fails to find a child for a
  connection it accepts: with a connection waiting and a child free its next turn hands it over.
\<close>

theorem prefork_serves_all:
  assumes "orun pool_step ops (pool_start n) = Some s" and "\<forall>a \<in> set ops. lives a"
  shows "mset (accepted s) = mset (finished s) + sum_list (map held (cptr s)) \<and> (\<forall>c \<in> set (cptr s). size (held c) \<le> 1) \<and>
    int (length (accepted s)) = sum_list (map child_count (cptr s)) \<and> navail s = int (length (filter (\<lambda>c. tasks c = 0) (cptr s))) \<and>
    (0 < navail s \<longrightarrow> (\<exists>t. parent_turn (Some f) s = Some t \<and> accepted t = accepted s @ [f]))"
proof -
  have i: "pool_inv n s"
    by (rule prefork.run_inv [OF pool_start_inv assms(2,1)])
  have "size (held c) \<le> 1" if "c \<in> set (cptr s)" for c
    using i that by (auto simp: pool_inv_def child_ok_def tasks_def held_def split: option.splits dest!: bspec [of _ _ c])
  moreover have "sum_list (map idle_of xs) = int (length (filter (\<lambda>c. tasks c = 0) xs))" if "\<forall>c \<in> set xs. child_ok c" for xs
    using that by (induction xs) (auto simp: idle_of_def child_ok_def)
  then have "navail s = int (length (filter (\<lambda>c. tasks c = 0) (cptr s)))"
    using i by (simp add: pool_inv_def)
  moreover have "\<exists>t. parent_turn (Some f) s = Some t \<and> accepted t = accepted s @ [f]" if "0 < navail s"
    using parent_turn_does [OF i, of "Some f"] that by auto
  ultimately show ?thesis
    using i unfolding pool_inv_def by blast
qed

definition pool_demo :: "pool_op list" where
  "pool_demo = [Parent (Some 7), Reads 0, Parent (Some 8), Writes 0, Parent (Some 9), Reads 1, Parent (Some 9)]"

theorem prefork_serves_all_witness:
  "\<exists>s. orun pool_step pool_demo (pool_start 2) = Some s \<and> accepted s = [7, 8, 9] \<and> finished s = [7] \<and>
    mset (accepted s) = mset (finished s) + sum_list (map held (cptr s))"
proof -
  obtain s where s: "orun pool_step pool_demo (pool_start 2) = Some s" "accepted s = [7, 8, 9]" "finished s = [7]"
    by (simp add: pool_demo_def pool_start_def child_make_def parent_turn_def hand_over_def pipe_ready_def child_read_def child_write_def available_def
        numeral_2_eq_2 Let_def upt_rec)
  moreover have "\<forall>a \<in> set pool_demo. lives a"
    by (simp add: pool_demo_def)
  ultimately show ?thesis
    using prefork_serves_all [OF s(1)] by blast
qed

text \<open>A child that terminates ends the parent, and with it the service of all others.\<close>

lemma child_death_ends_parent:
  assumes "pool_inv n s" and "i < n" and "notices (cptr s ! i) = 0"
  shows "available i (s\<lparr>cptr := (cptr s)[i := (cptr s ! i)\<lparr>dead := True\<rparr>]\<rparr>) = None"
  using assms by (simp add: available_def pool_inv_def Let_def)

end
