(* ===== verification/Dg_Rtt.thy ===== *)
theory Dg_Rtt
  imports Udp Cfloat "HOL-Library.Signed_Division"
begin

text \<open>
  The reliable datagram exchange of the library: the round-trip timer of
  \<open>src/unpv13e/lib/rtt.c\<close>, the request with retransmission \<open>dg_send_recv\<close> and its client \<open>dg_cli\<close>
  under \<open>src/unpv13e/rtt\<close>, with the server \<open>dg_echo\<close> there.  Unlike the timer of the file transfer
  this one counts seconds in single precision.  The clock and the network are parameters: a
  waiting client meets a list of events, each a datagram or an alarm with the time at which
  the clock is read next; what it sends and the alarms it sets are logged in its state.
\<close>

section \<open>The timer\<close>

record lib_rtt_info =
  l_rtt :: rat
  l_srtt :: rat
  l_rttvar :: rat
  l_rto :: rat
  l_nrexmt :: cint
  l_base :: u32

text \<open>\<open>RTT_RTOCALC\<close> has the type \<open>double\<close>; the argument of \<open>rtt_minmax\<close> rounds it to \<open>float\<close>.\<close>

definition lib_rtocalc :: "lib_rtt_info \<Rightarrow> rat" where
  "lib_rtocalc p = f64 (l_srtt p + f64 (4 * l_rttvar p))"

definition lib_rtt_minmax :: "rat \<Rightarrow> rat" where
  "lib_rtt_minmax rto = (if rto < 2 then 2 else if rto > 60 then 60 else rto)"

definition lib_rtt_init :: "timeval \<Rightarrow> lib_rtt_info \<Rightarrow> lib_rtt_info" where
  "lib_rtt_init tv p =
     (let p1 = p\<lparr>l_base := word_of_int (tv_sec tv), l_rtt := 0, l_srtt := 0, l_rttvar := 3 / 4\<rparr>
      in p1\<lparr>l_rto := lib_rtt_minmax (f32 (lib_rtocalc p1))\<rparr>)"

definition lib_rtt_ts :: "timeval \<Rightarrow> lib_rtt_info \<Rightarrow> u32" where
  "lib_rtt_ts tv p = word_of_int ((tv_sec tv - uint (l_base p)) * 1000 + tv_usec tv sdiv 1000)"

definition lib_rtt_newpack :: "lib_rtt_info \<Rightarrow> lib_rtt_info" where
  "lib_rtt_newpack p = p\<lparr>l_nrexmt := 0\<rparr>"

definition lib_rtt_start :: "lib_rtt_info \<Rightarrow> cint" where
  "lib_rtt_start p = f2i (f64 (l_rto p + 1 / 2))"

definition lib_rtt_stop :: "u32 \<Rightarrow> lib_rtt_info \<Rightarrow> lib_rtt_info" where
  "lib_rtt_stop ms p =
     (let p1 = p\<lparr>l_rtt := f32 (f64 (of_int (uint ms) / 1000))\<rparr>;
          delta = f32 (l_rtt p1 - l_srtt p1);
          p2 = p1\<lparr>l_srtt := f32 (f64 (l_srtt p1 + f64 (delta / 8)))\<rparr>;
          delta1 = (if delta < 0 then - delta else delta);
          p3 = p2\<lparr>l_rttvar := f32 (f64 (l_rttvar p2 + f64 (f64 (delta1 - l_rttvar p2) / 4)))\<rparr>
      in p3\<lparr>l_rto := lib_rtt_minmax (f32 (lib_rtocalc p3))\<rparr>)"

definition lib_rtt_timeout :: "lib_rtt_info \<Rightarrow> cint \<times> lib_rtt_info" where
  "lib_rtt_timeout p =
     (let p1 = p\<lparr>l_rto := f32 (l_rto p * 2), l_nrexmt := l_nrexmt p + 1\<rparr>
      in if sint (l_nrexmt p1) > 3 then (-1, p1) else (0, p1))"

section \<open>A request with retransmission\<close>

text \<open>
  The static variables of \<open>dg_send_recv.c\<close>, with the datagrams sent and the arguments of \<open>alarm\<close>.
  \<open>recvhdr\<close> is only read after a datagram that has filled it.
\<close>

record dg =
  rttinfo :: lib_rtt_info
  rttinit :: bool
  sendseq :: u32
  dg_sent :: "u8 list list"
  dg_alarms :: "cint list"

definition dg_start :: dg where
  "dg_start = \<lparr>rttinfo = \<lparr>l_rtt = 0, l_srtt = 0, l_rttvar = 0, l_rto = 0, l_nrexmt = 0, l_base = 0\<rparr>,
     rttinit = False, sendseq = 0, dg_sent = [], dg_alarms = []\<rparr>"

datatype dg_event = Alarm timeval | Dgram timeval "u8 list" | RecvFails

datatype dg_result = Reply string | TimedOut | StillWaits | RecvExits

abbreviation SIZE_HDR :: nat where "SIZE_HDR \<equiv> 8"

text \<open>The two segments that \<open>Sendmsg\<close> gathers: the header in the byte order of the host, the data.\<close>

definition hdr_bytes :: "bool \<Rightarrow> u32 \<Rightarrow> u32 \<Rightarrow> u8 list" where
  "hdr_bytes be seq ts = bytes_of_word be seq @ bytes_of_word be ts"

text \<open>From the label \<open>sendagain\<close> to the alarm.\<close>

definition sendagain :: "bool \<Rightarrow> string \<Rightarrow> timeval \<Rightarrow> dg \<Rightarrow> dg" where
  "sendagain be out tv s =
     s\<lparr>dg_sent := dg_sent s @ [hdr_bytes be (sendseq s) (lib_rtt_ts tv (rttinfo s)) @ map byte_of_char out],
       dg_alarms := dg_alarms s @ [lib_rtt_start (rttinfo s)]\<rparr>"

text \<open>A datagram ends the loop when it has a header and the number of the request.\<close>

definition answers :: "bool \<Rightarrow> u32 \<Rightarrow> u8 list \<Rightarrow> bool" where
  "answers be seq d \<longleftrightarrow> \<not> (length d < SIZE_HDR \<or> word_of_bytes be (take 4 d) \<noteq> seq)"

fun dg_wait :: "bool \<Rightarrow> nat \<Rightarrow> string \<Rightarrow> dg_event list \<Rightarrow> dg \<Rightarrow> dg_result \<times> dg \<times> dg_event list" where
  "dg_wait be inbytes out [] s = (StillWaits, s, [])"
| "dg_wait be inbytes out (RecvFails # evs) s = (RecvExits, s, evs)"
| "dg_wait be inbytes out (Alarm tv # evs) s =
     (let (rc, p) = lib_rtt_timeout (rttinfo s); s1 = s\<lparr>rttinfo := p\<rparr>
      in if sint rc < 0 then (TimedOut, s1\<lparr>rttinit := False\<rparr>, evs)
         else dg_wait be inbytes out evs (sendagain be out tv s1))"
| "dg_wait be inbytes out (Dgram tv d # evs) s =
     (if answers be (sendseq s) d
      then (Reply (map char_of_byte (take inbytes (drop SIZE_HDR d))),
            s\<lparr>rttinfo := lib_rtt_stop (lib_rtt_ts tv (rttinfo s) - word_of_bytes be (take 4 (drop 4 d))) (rttinfo s)\<rparr>, evs)
      else dg_wait be inbytes out evs s)"

text \<open>\<open>tv0\<close> is the time when \<open>rtt_init\<close> reads the clock, \<open>tv1\<close> that of the first transmission.\<close>

definition dg_request :: "timeval \<Rightarrow> dg \<Rightarrow> dg" where
  "dg_request tv0 s =
     (let s1 = (if rttinit s then s else s\<lparr>rttinfo := lib_rtt_init tv0 (rttinfo s), rttinit := True\<rparr>);
          s2 = s1\<lparr>sendseq := sendseq s1 + 1\<rparr>
      in s2\<lparr>rttinfo := lib_rtt_newpack (rttinfo s2)\<rparr>)"

definition dg_send_recv ::
  "bool \<Rightarrow> nat \<Rightarrow> timeval \<Rightarrow> timeval \<Rightarrow> string \<Rightarrow> dg_event list \<Rightarrow> dg \<Rightarrow> dg_result \<times> dg \<times> dg_event list" where
  "dg_send_recv be inbytes tv0 tv1 out evs s =
     dg_wait be inbytes out evs (sendagain be out tv1 (dg_request tv0 s))"

section \<open>The client and the server\<close>

text \<open>
  \<open>dg_cli\<close> gets the lines that \<open>Fgets\<close> returns, each with the two times of its request;
  \<open>Dg_send_recv\<close> ends the process when a request fails.
\<close>

datatype cli_end = CliReturns | CliWaits | CliExits

fun dg_cli :: "bool \<Rightarrow> (timeval \<times> timeval \<times> string) list \<Rightarrow> dg_event list \<Rightarrow> dg \<Rightarrow> cli_end \<times> string \<times> dg" where
  "dg_cli be [] evs s = (CliReturns, [], s)"
| "dg_cli be ((tv0, tv1, sendline) # ls) evs s =
     (case dg_send_recv be MAXLINE tv0 tv1 (cstr sendline) evs s of
        (Reply recvline, s1, evs1) \<Rightarrow>
          (let (r, shown, s2) = dg_cli be ls evs1 s1 in (r, cstr recvline @ shown, s2))
      | (StillWaits, s1, evs1) \<Rightarrow> (CliWaits, [], s1)
      | (_, s1, evs1) \<Rightarrow> (CliExits, [], s1))"

text \<open>One turn of the server: \<open>Recvfrom\<close> cuts a datagram to the size of its buffer.\<close>

definition dg_echo :: "u8 list \<Rightarrow> u8 list" where
  "dg_echo d = take MAXLINE d"

section \<open>Rounding stays between representable values\<close>

lemma round_even_ge: "of_int i \<le> y \<Longrightarrow> i \<le> round_even y"
  unfolding round_even_def Let_def by (auto simp: le_floor_iff intro: add_increasing2)

lemma round_even_le:
  assumes "y \<le> of_int j"
  shows "round_even y \<le> j"
proof -
  have "\<lfloor>y\<rfloor> \<le> j"
    using assms by (metis floor_mono floor_of_int)
  moreover have "\<lfloor>y\<rfloor> < j" if "1 / 2 \<le> y - of_int \<lfloor>y\<rfloor>"
  proof -
    have "of_int \<lfloor>y\<rfloor> < (of_int j :: rat)"
      using that assms by linarith
    then show ?thesis by simp
  qed
  ultimately show ?thesis
    unfolding round_even_def Let_def by (auto simp: not_less)
qed

lemma fround_between:
  assumes "0 < L" and lo: "of_int L * pow2 c \<le> x" and hi: "x \<le> of_int U * pow2 c"
    and "U < 2 ^ nat p" and "0 < p" and "emin \<le> c"
  shows "of_int L * pow2 c \<le> fround p emin x \<and> fround p emin x \<le> of_int U * pow2 c"
proof -
  have x: "0 < x"
    using assms(1) lo by (meson less_le_trans mult_pos_pos of_int_0_less_iff pow2_pos)
  define q where "q = max (ilog2 \<bar>x\<bar> - (p - 1)) emin"
  have "(of_int U :: rat) < of_int (2 ^ nat p)"
    using assms(4) by (simp only: of_int_less_iff)
  then have "of_int U * pow2 c < 2 ^ nat p * pow2 c"
    by (intro mult_strict_right_mono) simp_all
  also have "\<dots> = pow2 (c + p)"
    using assms(5) pow2_add_nat [of c "nat p"] by simp
  finally have "pow2 (ilog2 x) < pow2 (c + p)"
    using ilog2_le [OF x] hi by linarith
  then have "ilog2 \<bar>x\<bar> < c + p"
    using x by (simp add: pow2_less_iff)
  then have "q \<le> c"
    using assms(6) by (simp add: q_def)
  then obtain n where n: "pow2 c = 2 ^ n * pow2 q"
    using zle_iff_zadd pow2_add_nat by metis
  have "of_int (L * 2 ^ n) \<le> x / pow2 q" and "x / pow2 q \<le> of_int (U * 2 ^ n)"
    using lo hi n by (simp_all add: pos_le_divide_eq pos_divide_le_eq mult.assoc)
  then have "L * 2 ^ n \<le> round_even (x / pow2 q)" and "round_even (x / pow2 q) \<le> U * 2 ^ n"
    by (blast intro: round_even_ge round_even_le)+
  then have r: "of_int (L * 2 ^ n) \<le> (of_int (round_even (x / pow2 q)) :: rat)"
      "of_int (round_even (x / pow2 q)) \<le> (of_int (U * 2 ^ n) :: rat)"
    by (simp_all only: of_int_le_iff)
  have "fround p emin x = of_int (round_even (x / pow2 q)) * pow2 q"
    using x by (simp add: fround_def q_def Let_def)
  moreover have "of_int L * pow2 c = of_int (L * 2 ^ n) * pow2 q" and "of_int U * pow2 c = of_int (U * 2 ^ n) * pow2 q"
    using n by simp_all
  ultimately show ?thesis
    using r by (metis mult_right_mono less_imp_le pow2_pos)
qed

section \<open>The timeout doubles within its bounds\<close>

definition rto_at :: "nat \<Rightarrow> lib_rtt_info \<Rightarrow> bool" where
  "rto_at k p \<longleftrightarrow> 2 ^ Suc k \<le> l_rto p \<and> l_rto p \<le> 60 * 2 ^ k"

lemma rtt_minmax_range: "2 \<le> lib_rtt_minmax r \<and> lib_rtt_minmax r \<le> 60"
  by (simp add: lib_rtt_minmax_def)

lemma rto_init [simp]: "rto_at 0 (lib_rtt_init tv p)"
  using rtt_minmax_range by (simp add: rto_at_def lib_rtt_init_def Let_def)

lemma rto_stop [simp]: "rto_at 0 (lib_rtt_stop ms p)"
  using rtt_minmax_range by (simp add: rto_at_def lib_rtt_stop_def Let_def)

lemma rto_newpack [simp]: "rto_at k (lib_rtt_newpack p) = rto_at k p"
  by (simp add: rto_at_def lib_rtt_newpack_def)

lemma rto_timeout:
  assumes "rto_at k p" and "k \<le> 3"
  shows "rto_at (Suc k) (snd (lib_rtt_timeout p))"
proof -
  have "(2::int) ^ k \<le> 2 ^ 3"
    using assms(2) by (rule power_increasing) simp
  then have "(60::int) * 2 ^ Suc k < 2 ^ nat 24"
    by simp
  moreover have "of_int (2 ^ Suc (Suc k)) * pow2 0 \<le> l_rto p * 2" and "l_rto p * 2 \<le> of_int (60 * 2 ^ Suc k) * pow2 0"
    using assms(1) by (simp_all add: rto_at_def pow2_def)
  ultimately show ?thesis
    using fround_between [of "2 ^ Suc (Suc k)" 0 "l_rto p * 2" "60 * 2 ^ Suc k" 24 "-149"]
    by (simp add: rto_at_def lib_rtt_timeout_def f32_def pow2_def Let_def)
qed

lemma sint_f2i:
  assumes "0 \<le> \<lfloor>x\<rfloor>" and "\<lfloor>x\<rfloor> < 2 ^ 31"
  shows "sint (f2i x) = \<lfloor>x\<rfloor>"
proof -
  have "f2i x = word_of_int \<lfloor>x\<rfloor>"
    using assms by (simp add: f2i_def Let_def not_less)
  moreover have "signed_take_bit 31 \<lfloor>x\<rfloor> = \<lfloor>x\<rfloor>"
    using assms by (intro signed_take_bit_int_eq_self) linarith+
  ultimately show ?thesis
    by (simp add: signed_of_int)
qed

lemma rtt_start_range:
  assumes "rto_at k p" and "k \<le> 3"
  shows "2 ^ Suc k \<le> sint (lib_rtt_start p) \<and> sint (lib_rtt_start p) \<le> 60 * 2 ^ k"
proof -
  let ?x = "f64 (l_rto p + 1 / 2)"
  have k: "(2::int) ^ k \<le> 2 ^ 3"
    using assms(2) by (rule power_increasing) simp
  then have "(120::int) * 2 ^ k + 1 < 2 ^ nat 53"
    by simp
  moreover have "of_int (2 ^ Suc (Suc k) + 1) * pow2 (- 1) \<le> l_rto p + 1 / 2" and "l_rto p + 1 / 2 \<le> of_int (120 * 2 ^ k + 1) * pow2 (- 1)"
    using assms(1) by (simp_all add: rto_at_def pow2_def field_simps)
  ultimately have "of_int (2 ^ Suc (Suc k) + 1) * pow2 (- 1) \<le> ?x \<and> ?x \<le> of_int (120 * 2 ^ k + 1) * pow2 (- 1)"
    using fround_between [of "2 ^ Suc (Suc k) + 1" "- 1" "l_rto p + 1 / 2" "120 * 2 ^ k + 1" 53 "-1074"]
    by (simp add: f64_def)
  then have x: "2 ^ Suc k \<le> ?x" "?x < 60 * 2 ^ k + 1"
    by (simp_all add: pow2_def field_simps)
  have lo: "2 ^ Suc k \<le> \<lfloor>?x\<rfloor>"
    using x(1) by (simp add: le_floor_iff)
  have hi: "\<lfloor>?x\<rfloor> \<le> 60 * 2 ^ k"
    using x(2) by (simp add: floor_le_iff)
  have "0 \<le> \<lfloor>?x\<rfloor>"
    using lo by (rule order_trans [rotated]) simp
  moreover have "\<lfloor>?x\<rfloor> < 2 ^ 31"
    using hi k by (rule order.strict_trans1 [OF order_trans [OF _ mult_left_mono]]) simp_all
  ultimately have "sint (lib_rtt_start p) = \<lfloor>?x\<rfloor>"
    unfolding lib_rtt_start_def by (rule sint_f2i)
  then show ?thesis
    using lo hi by simp
qed

section \<open>What a request sends, and how it ends\<close>

abbreviation request :: "bool \<Rightarrow> u32 \<Rightarrow> string \<Rightarrow> u32 \<Rightarrow> u8 list" where
  "request be seq out ts \<equiv> hdr_bytes be seq ts @ map byte_of_char out"

definition waiting :: "nat \<Rightarrow> dg \<Rightarrow> bool" where
  "waiting k s \<longleftrightarrow> k \<le> 3 \<and> l_nrexmt (rttinfo s) = word_of_nat k \<and> rto_at k (rttinfo s)"

text \<open>\<open>m\<close> transmissions of one request, each followed by an alarm of two seconds to eight minutes.\<close>

definition sends :: "bool \<Rightarrow> string \<Rightarrow> nat \<Rightarrow> dg \<Rightarrow> dg \<Rightarrow> bool" where
  "sends be out m s t \<longleftrightarrow> sendseq t = sendseq s \<and>
     (\<exists>tss. length tss = m \<and> dg_sent t = dg_sent s @ map (request be (sendseq s) out) tss) \<and>
     (\<exists>as. length as = m \<and> dg_alarms t = dg_alarms s @ as \<and> (\<forall>a \<in> set as. 2 \<le> sint a \<and> sint a \<le> 480))"

fun alarms_in :: "dg_event list \<Rightarrow> nat" where
  "alarms_in [] = 0"
| "alarms_in (Alarm tv # evs) = Suc (alarms_in evs)"
| "alarms_in (e # evs) = alarms_in evs"

lemma alarms_in_append [simp]: "alarms_in (xs @ ys) = alarms_in xs + alarms_in ys"
  by (induction xs rule: alarms_in.induct) simp_all

lemma sends_none: "sendseq t = sendseq s \<Longrightarrow> dg_sent t = dg_sent s \<Longrightarrow> dg_alarms t = dg_alarms s \<Longrightarrow> sends be out 0 s t"
  by (simp add: sends_def)

lemma sends_trans:
  assumes "sends be out m s t" and "sends be out n t u"
  shows "sends be out (m + n) s u"
proof -
  obtain xs as where x: "length xs = m" "dg_sent t = dg_sent s @ map (request be (sendseq s) out) xs"
    and a: "length as = m" "dg_alarms t = dg_alarms s @ as" "\<forall>a \<in> set as. 2 \<le> sint a \<and> sint a \<le> 480" and q: "sendseq t = sendseq s"
    using assms(1) by (auto simp: sends_def)
  obtain ys bs where y: "length ys = n" "dg_sent u = dg_sent t @ map (request be (sendseq t) out) ys"
    and b: "length bs = n" "dg_alarms u = dg_alarms t @ bs" "\<forall>a \<in> set bs. 2 \<le> sint a \<and> sint a \<le> 480" and r: "sendseq u = sendseq t"
    using assms(2) by (auto simp: sends_def)
  have "length (xs @ ys) = m + n \<and> dg_sent u = dg_sent s @ map (request be (sendseq s) out) (xs @ ys)"
    using x y q by simp
  moreover have "length (as @ bs) = m + n \<and> dg_alarms u = dg_alarms s @ (as @ bs) \<and> (\<forall>a \<in> set (as @ bs). 2 \<le> sint a \<and> sint a \<le> 480)"
    using a b by auto
  ultimately show ?thesis
    unfolding sends_def using q r by metis
qed

lemma sends_sendagain:
  assumes "waiting k s"
  shows "sends be out 1 s (sendagain be out tv s)"
proof -
  have k: "k \<le> 3" and "rto_at k (rttinfo s)"
    using assms by (simp_all add: waiting_def)
  then have r: "2 ^ Suc k \<le> sint (lib_rtt_start (rttinfo s))" "sint (lib_rtt_start (rttinfo s)) \<le> 60 * 2 ^ k"
    using rtt_start_range by simp_all
  have "(2::int) ^ k \<le> 8" and "(1::int) \<le> 2 ^ k"
    using power_increasing [OF k, of "2::int"] by simp_all
  then have "2 \<le> sint (lib_rtt_start (rttinfo s)) \<and> sint (lib_rtt_start (rttinfo s)) \<le> 480"
    using r unfolding power_Suc by linarith
  then show ?thesis
    unfolding sends_def sendagain_def
    by (intro conjI exI [of _ "[lib_rtt_ts tv (rttinfo s)]"] exI [of _ "[lib_rtt_start (rttinfo s)]"]) simp_all
qed

lemma waiting_sendagain [simp]: "waiting k (sendagain be out tv s) = waiting k s"
  by (simp add: waiting_def sendagain_def)

lemma nrexmt_count: "k \<le> 3 \<Longrightarrow> sint (word_of_nat k + 1 :: cint) = int k + 1"
  by (auto simp: le_Suc_eq numeral_eq_Suc)

text \<open>The fourth timeout ends the request; the others leave it waiting with a doubled timeout.\<close>

lemma timeout_waiting:
  assumes "waiting k s"
  obtains p where "lib_rtt_timeout (rttinfo s) = (if k = 3 then -1 else 0, p)" and "k \<noteq> 3 \<longrightarrow> waiting (Suc k) (s\<lparr>rttinfo := p\<rparr>)"
proof -
  have k: "k \<le> 3" and n: "l_nrexmt (rttinfo s) = word_of_nat k" and r: "rto_at k (rttinfo s)"
    using assms by (simp_all add: waiting_def)
  have "lib_rtt_timeout (rttinfo s) = (if k = 3 then -1 else 0, snd (lib_rtt_timeout (rttinfo s)))"
    using k n nrexmt_count [OF k] by (simp add: lib_rtt_timeout_def Let_def)
  moreover have "waiting (Suc k) (s\<lparr>rttinfo := snd (lib_rtt_timeout (rttinfo s))\<rparr>)" if "k \<noteq> 3"
    using that k n rto_timeout [OF r k] by (simp add: waiting_def lib_rtt_timeout_def Let_def add.commute)
  ultimately show ?thesis
    using that by blast
qed

lemma wait_alarm:
  assumes "waiting k s"
  shows "k = 3 \<Longrightarrow> \<exists>t. (\<forall>evs. dg_wait be n out (Alarm tv # evs) s = (TimedOut, t, evs)) \<and> sends be out 0 s t \<and> \<not> rttinit t"
    and "k \<noteq> 3 \<Longrightarrow> \<exists>t. (\<forall>evs. dg_wait be n out (Alarm tv # evs) s = dg_wait be n out evs t) \<and> sends be out 1 s t \<and>
      waiting (Suc k) t \<and> rttinit t = rttinit s"
proof -
  obtain p where p: "lib_rtt_timeout (rttinfo s) = (if k = 3 then -1 else 0, p)" "k \<noteq> 3 \<longrightarrow> waiting (Suc k) (s\<lparr>rttinfo := p\<rparr>)"
    by (rule timeout_waiting [OF assms])
  let ?s = "s\<lparr>rttinfo := p\<rparr>"
  show "\<exists>t. (\<forall>evs. dg_wait be n out (Alarm tv # evs) s = (TimedOut, t, evs)) \<and> sends be out 0 s t \<and> \<not> rttinit t" if "k = 3"
    using that p(1) by (intro exI [of _ "?s\<lparr>rttinit := False\<rparr>"]) (simp add: sends_none Let_def)
  show "\<exists>t. (\<forall>evs. dg_wait be n out (Alarm tv # evs) s = dg_wait be n out evs t) \<and> sends be out 1 s t \<and>
      waiting (Suc k) t \<and> rttinit t = rttinit s" if "k \<noteq> 3"
  proof (intro exI [of _ "sendagain be out tv ?s"] conjI)
    have "sends be out (0 + 1) s (sendagain be out tv ?s)"
      by (rule sends_trans [OF _ sends_sendagain [OF p(2) [rule_format, OF that]]]) (simp add: sends_none)
    then show "sends be out 1 s (sendagain be out tv ?s)"
      by simp
  qed (use that p in \<open>simp_all add: Let_def sendagain_def waiting_def\<close>)
qed

text \<open>How a wait ends, with the events it has used.\<close>

lemma wait_spec:
  assumes "waiting k s" and "dg_wait be n out evs s = (r, t, rest)"
  shows "\<exists>m used. evs = used @ rest \<and> k + m \<le> 3 \<and> sends be out m s t \<and> alarms_in used = m + (if r = TimedOut then 1 else 0) \<and>
    (r = TimedOut \<longrightarrow> k + m = 3 \<and> \<not> rttinit t) \<and> (r = StillWaits \<longrightarrow> rest = [])"
  using assms
proof (induction evs arbitrary: k s)
  case Nil
  then show ?case
    by (auto simp: waiting_def sends_none intro!: exI [of _ "0::nat"] exI [of _ "[]"])
next
  case (Cons e evs)
  have k: "k \<le> 3"
    using Cons.prems(1) by (simp add: waiting_def)
  show ?case
  proof (cases e)
    case (Alarm tv)
    show ?thesis
    proof (cases "k = 3")
      case True
      then have "r = TimedOut \<and> rest = evs \<and> sends be out 0 s t \<and> \<not> rttinit t"
        using wait_alarm(1) [OF Cons.prems(1), of be n out tv] Cons.prems(2) Alarm by auto
      then show ?thesis
        using True Alarm by (intro exI [of _ 0] exI [of _ "[e]"]) simp
    next
      case False
      obtain u where u: "dg_wait be n out (e # evs) s = dg_wait be n out evs u" "sends be out 1 s u" "waiting (Suc k) u"
        using wait_alarm(2) [OF Cons.prems(1) False] Alarm by metis
      obtain m used where m: "evs = used @ rest" "Suc k + m \<le> 3" "sends be out m u t"
        "alarms_in used = m + (if r = TimedOut then 1 else 0)" "r = TimedOut \<longrightarrow> Suc k + m = 3 \<and> \<not> rttinit t" "r = StillWaits \<longrightarrow> rest = []"
        using Cons.IH [OF u(3)] u(1) Cons.prems(2) by metis
      then show ?thesis
        using sends_trans [OF u(2) m(3)] Alarm by (intro exI [of _ "Suc m"] exI [of _ "e # used"]) simp
    qed
  next
    case (Dgram tv d)
    show ?thesis
    proof (cases "answers be (sendseq s) d")
      case True
      then show ?thesis
        using Cons.prems(2) Dgram k by (intro exI [of _ 0] exI [of _ "[e]"]) (auto simp: sends_none)
    next
      case False
      then have "dg_wait be n out evs s = (r, t, rest)"
        using Cons.prems(2) Dgram by simp
      from Cons.IH [OF Cons.prems(1) this] obtain m used where "evs = used @ rest" "k + m \<le> 3 \<and> sends be out m s t \<and>
        alarms_in used = m + (if r = TimedOut then 1 else 0) \<and> (r = TimedOut \<longrightarrow> k + m = 3 \<and> \<not> rttinit t) \<and> (r = StillWaits \<longrightarrow> rest = [])"
        by blast
      then show ?thesis
        using Dgram by (intro exI [of _ m] exI [of _ "e # used"]) simp
    qed
  next
    case RecvFails
    then show ?thesis
      using Cons.prems(2) k by (intro exI [of _ 0] exI [of _ "[e]"]) (auto simp: sends_none)
  qed
qed

text \<open>A reply is a datagram that answers the request; it sets the timer afresh.\<close>

lemma wait_reply:
  assumes "dg_wait be n out evs s = (Reply m, t, rest)"
  shows "rto_at 0 (rttinfo t) \<and>
    (\<exists>tv d. Dgram tv d \<in> set evs \<and> answers be (sendseq s) d \<and> m = map char_of_byte (take n (drop SIZE_HDR d)))"
  using assms
proof (induction be n out evs s rule: dg_wait.induct)
  case (4 be n out tv d evs s)
  show ?case
  proof (cases "answers be (sendseq s) d")
    case True
    then show ?thesis using "4.prems" by auto
  next
    case False
    then show ?thesis using "4.IH" "4.prems" by auto
  qed
qed (auto simp: Let_def sendagain_def split: prod.splits if_splits)

section \<open>A call of \<open>dg_send_recv\<close>\<close>

definition idle :: "dg \<Rightarrow> bool" where
  "idle s \<longleftrightarrow> (rttinit s \<longrightarrow> rto_at 0 (rttinfo s))"

lemma idle_start [simp]: "idle dg_start"
  by (simp add: idle_def dg_start_def)

lemma dg_request_simps [simp]:
  "sendseq (dg_request tv s) = sendseq s + 1" "dg_sent (dg_request tv s) = dg_sent s"
  "dg_alarms (dg_request tv s) = dg_alarms s" "rttinit (dg_request tv s)"
  by (simp_all add: dg_request_def Let_def)

lemma dg_request_waiting: "idle s \<Longrightarrow> waiting 0 (dg_request tv s)"
  by (auto simp: dg_request_def idle_def waiting_def Let_def) (simp_all add: lib_rtt_newpack_def)

lemma sendagain_seq [simp]: "sendseq (sendagain be out tv s) = sendseq s"
  by (simp add: sendagain_def)

lemma call_spec:
  assumes "idle s" and "dg_send_recv be n tv0 tv1 out evs s = (r, t, rest)"
  shows "\<exists>m used. evs = used @ rest \<and> m \<le> 3 \<and> sends be out (Suc m) (dg_request tv0 s) t \<and>
    alarms_in used = m + (if r = TimedOut then 1 else 0) \<and> (r = TimedOut \<longrightarrow> m = 3 \<and> \<not> rttinit t) \<and> (r = StillWaits \<longrightarrow> rest = [])"
proof -
  let ?s = "dg_request tv0 s"
  have w: "waiting 0 ?s"
    using assms(1) by (rule dg_request_waiting)
  obtain m used where m: "evs = used @ rest" "m \<le> 3" "sends be out m (sendagain be out tv1 ?s) t"
    "alarms_in used = m + (if r = TimedOut then 1 else 0)" "r = TimedOut \<longrightarrow> m = 3 \<and> \<not> rttinit t" "r = StillWaits \<longrightarrow> rest = []"
    using wait_spec [OF _ assms(2) [unfolded dg_send_recv_def], of 0] w by auto
  have "sends be out (Suc m) ?s t"
    using sends_trans [OF sends_sendagain [OF w] m(3)] by simp
  with m show ?thesis by blast
qed

lemma call_reply:
  assumes "dg_send_recv be n tv0 tv1 out evs s = (Reply m, t, rest)"
  shows "idle t \<and> (\<exists>tv d. Dgram tv d \<in> set evs \<and> answers be (sendseq s + 1) d \<and> m = map char_of_byte (take n (drop SIZE_HDR d)))"
  using wait_reply [OF assms [unfolded dg_send_recv_def]] by (simp add: idle_def)

text \<open>Events that leave a request as it is but for the retransmissions.\<close>

fun stale :: "bool \<Rightarrow> u32 \<Rightarrow> dg_event \<Rightarrow> bool" where
  "stale be seq (Alarm tv) \<longleftrightarrow> True"
| "stale be seq (Dgram tv d) \<longleftrightarrow> \<not> answers be seq d"
| "stale be seq RecvFails \<longleftrightarrow> False"

lemma wait_quiet:
  assumes "waiting k s" and "\<forall>e \<in> set quiet. stale be (sendseq s) e" and "k + alarms_in quiet \<le> 3"
  shows "\<exists>t. (\<forall>evs. dg_wait be n out (quiet @ evs) s = dg_wait be n out evs t) \<and> sends be out (alarms_in quiet) s t \<and>
    waiting (k + alarms_in quiet) t"
  using assms
proof (induction quiet arbitrary: k s)
  case Nil
  then show ?case
    by (auto simp: sends_none intro!: exI [of _ s])
next
  case (Cons e quiet)
  show ?case
  proof (cases e)
    case (Alarm tv)
    then have "k \<noteq> 3"
      using Cons.prems(3) by simp
    then obtain u where u: "\<forall>evs. dg_wait be n out (Alarm tv # evs) s = dg_wait be n out evs u" "sends be out 1 s u" "waiting (Suc k) u"
      using wait_alarm(2) [OF Cons.prems(1)] by metis
    have "sendseq u = sendseq s"
      using u(2) by (simp add: sends_def)
    then obtain t where t: "\<forall>evs. dg_wait be n out (quiet @ evs) u = dg_wait be n out evs t" "sends be out (alarms_in quiet) u t"
      "waiting (Suc k + alarms_in quiet) t"
      using Cons.IH [OF u(3)] Cons.prems(2,3) Alarm by auto
    then show ?thesis
      using u(1) sends_trans [OF u(2) t(2)] Alarm by (intro exI [of _ t]) simp
  next
    case (Dgram tv d)
    then show ?thesis
      using Cons.IH [OF Cons.prems(1)] Cons.prems(2,3) by simp
  next
    case RecvFails
    then show ?thesis
      using Cons.prems(2) by simp
  qed
qed

text \<open>
  C25: A call of \<open>dg_send_recv\<close> sends its request once and again at each alarm, always under the
  number after that of the last request, and overlooks datagrams that are too short or carry
  another number.  It returns the data of the first datagram that answers it, measuring the
  time since the transmission whose time the datagram carries; the fourth alarm makes it give up
  after four transmissions and start its timer afresh next time; until then it waits.
\<close>

theorem dg_send_recv_outcome:
  assumes "idle s" and "\<forall>e \<in> set quiet. stale be (sendseq s + 1) e" and "alarms_in quiet \<le> 3"
  shows "\<exists>t tss. length tss = Suc (alarms_in quiet) \<and> dg_sent t = dg_sent s @ map (request be (sendseq s + 1) out) tss \<and>
    dg_send_recv be n tv0 tv1 out quiet s = (StillWaits, t, []) \<and>
    (\<forall>tv d rest. answers be (sendseq s + 1) d \<longrightarrow> dg_send_recv be n tv0 tv1 out (quiet @ Dgram tv d # rest) s =
       (Reply (map char_of_byte (take n (drop SIZE_HDR d))),
        t\<lparr>rttinfo := lib_rtt_stop (lib_rtt_ts tv (rttinfo t) - word_of_bytes be (take 4 (drop 4 d))) (rttinfo t)\<rparr>, rest)) \<and>
    (alarms_in quiet = 3 \<longrightarrow> (\<forall>tv rest. \<exists>u. dg_send_recv be n tv0 tv1 out (quiet @ Alarm tv # rest) s = (TimedOut, u, rest) \<and>
       dg_sent u = dg_sent t \<and> \<not> rttinit u))"
proof -
  let ?s = "sendagain be out tv1 (dg_request tv0 s)"
  have w: "waiting 0 (dg_request tv0 s)"
    using assms(1) by (rule dg_request_waiting)
  obtain t where t: "\<forall>evs. dg_wait be n out (quiet @ evs) ?s = dg_wait be n out evs t"
    "sends be out (alarms_in quiet) ?s t" "waiting (alarms_in quiet) t"
    using wait_quiet [of 0 ?s quiet be n out] w assms(2,3) by auto
  have "sends be out (Suc (alarms_in quiet)) (dg_request tv0 s) t"
    using sends_trans [OF sends_sendagain [OF w] t(2)] by simp
  then obtain tss where l: "length tss = Suc (alarms_in quiet)" "dg_sent t = dg_sent s @ map (request be (sendseq s + 1) out) tss"
    and q: "sendseq t = sendseq s + 1"
    by (auto simp: sends_def)
  have "\<exists>u. dg_wait be n out (Alarm tv # rest) t = (TimedOut, u, rest) \<and> dg_sent u = dg_sent t \<and> \<not> rttinit u" if "alarms_in quiet = 3" for tv rest
    using wait_alarm(1) [OF t(3) that, of be n out tv] by (auto simp: sends_def)
  then show ?thesis
    using t(1) [rule_format, of "[]"] t(1) l q unfolding dg_send_recv_def
    by (intro exI [of _ t] exI [of _ tss]) simp
qed

section \<open>The client over a network that loses, delays and repeats\<close>

abbreviation line_of :: "timeval \<times> timeval \<times> string \<Rightarrow> string" where
  "line_of l \<equiv> cstr (snd (snd l))"

text \<open>A datagram of the client: the line with number \<open>i\<close> under the number after it.\<close>

definition logged :: "bool \<Rightarrow> (timeval \<times> timeval \<times> string) list \<Rightarrow> u8 list \<Rightarrow> bool" where
  "logged be L x \<longleftrightarrow> (\<exists>i ts. i < length L \<and> x = request be (word_of_nat (Suc i)) (line_of (L ! i)) ts)"

lemma sends_logged:
  assumes "sends be (line_of (L ! i)) m s t" and "sendseq s = word_of_nat (Suc i)" and "i < length L"
    and "\<forall>x \<in> set (dg_sent s). logged be L x"
  shows "\<forall>x \<in> set (dg_sent t). logged be L x"
  using assms unfolding sends_def logged_def by fastforce

text \<open>One line of the client.\<close>

lemma dg_cli_Cons_cases:
  assumes "dg_cli be (l # ls) evs s = (r, sh, t)"
  obtains (reply) m s1 evs1 sh1 where "dg_send_recv be MAXLINE (fst l) (fst (snd l)) (line_of l) evs s = (Reply m, s1, evs1)"
      and "dg_cli be ls evs1 s1 = (r, sh1, t)" and "sh = cstr m @ sh1"
    | (stop) x evs1 where "dg_send_recv be MAXLINE (fst l) (fst (snd l)) (line_of l) evs s = (x, t, evs1)" and "sh = []"
      and "x = StillWaits \<and> r = CliWaits \<or> x \<noteq> StillWaits \<and> r = CliExits"
proof -
  obtain tv0 tv1 line where l: "l = (tv0, tv1, line)"
    by (cases l)
  obtain x s1 evs1 where x: "dg_send_recv be MAXLINE tv0 tv1 (cstr line) evs s = (x, s1, evs1)"
    using prod_cases3 by blast
  obtain r1 sh1 t1 where y: "dg_cli be ls evs1 s1 = (r1, sh1, t1)"
    using prod_cases3 by blast
  show ?thesis
    using assms x y reply stop unfolding l by (cases x) auto
qed

lemma cli_log:
  assumes "dg_cli be ls evs s = (r, sh, t)" and "idle s" and "sendseq s = word_of_nat i" and "ls = drop i L"
    and "\<forall>x \<in> set (dg_sent s). logged be L x"
  shows "\<forall>x \<in> set (dg_sent t). logged be L x"
  using assms
proof (induction ls arbitrary: evs s i sh)
  case Nil
  then show ?case by simp
next
  case (Cons l ls)
  have i: "i < length L" and l: "l = L ! i" and ls: "ls = drop (Suc i) L"
    using Cons.prems(4) by (metis drop_eq_Nil2 leI list.discI, metis nth_via_drop, metis drop_Suc list.sel(3) tl_drop)
  let ?call = "dg_send_recv be MAXLINE (fst l) (fst (snd l)) (line_of l) evs s"
  have sent: "sendseq u = word_of_nat (Suc i) \<and> (\<forall>x \<in> set (dg_sent u). logged be L x)" if c: "?call = (x, u, evs1)" for x u evs1
  proof -
    obtain m where m: "sends be (line_of l) (Suc m) (dg_request (fst l) s) u"
      using call_spec [OF Cons.prems(2) c] by blast
    then have "sendseq u = word_of_nat (Suc i)"
      using Cons.prems(3) by (simp add: sends_def add.commute)
    then show ?thesis
      using sends_logged [OF m [unfolded l] _ i] Cons.prems(3,5) l by (simp add: add.commute)
  qed
  from Cons.prems(1) show ?case
  proof (cases rule: dg_cli_Cons_cases)
    case (reply m s1 evs1 sh1)
    then show ?thesis
      using Cons.IH [OF reply(2) _ _ ls] sent [OF reply(1)] call_reply [OF reply(1)] by blast
  next
    case (stop x evs1)
    then show ?thesis
      using sent by blast
  qed
qed

text \<open>An echoed datagram of the client that answers a request carries the line of that request.\<close>

lemma answer_is_line:
  assumes "logged be L x" and "answers be (word_of_nat (Suc i)) (dg_echo x)" and "i < length L" and "length L < 2 ^ 32"
  shows "cstr (map char_of_byte (take MAXLINE (drop SIZE_HDR (dg_echo x)))) = take (MAXLINE - SIZE_HDR) (line_of (L ! i))"
proof -
  obtain j ts where j: "j < length L" and x: "x = request be (word_of_nat (Suc j)) (line_of (L ! j)) ts"
    using assms(1) by (auto simp: logged_def)
  have "take 4 (dg_echo x) = bytes_of_word be (word_of_nat (Suc j))"
    by (simp add: x dg_echo_def hdr_bytes_def)
  then have "(word_of_nat (Suc j) :: u32) = word_of_nat (Suc i)"
    using assms(2) by (simp add: answers_def)
  then have "unat (word_of_nat (Suc j) :: u32) = unat (word_of_nat (Suc i) :: u32)"
    by simp
  then have "j = i"
    using j assms(3,4) by (simp add: unat_of_nat32 del: of_nat_Suc)
  moreover have "take MAXLINE (drop SIZE_HDR (dg_echo x)) = map byte_of_char (take (MAXLINE - SIZE_HDR) (line_of (L ! j)))"
    by (simp add: x dg_echo_def hdr_bytes_def drop_take take_map)
  moreover have "NUL \<notin> set (take n (cstr l))" for n l
    using cstr_no_nul in_set_takeD by metis
  ultimately show ?thesis
    by (simp add: cstr_id)
qed

lemma cli_shown:
  assumes "dg_cli be ls evs s = (r, sh, t)" and "idle s" and "sendseq s = word_of_nat i" and "ls = drop i L" and "length L < 2 ^ 32"
    and "\<And>tv d. Dgram tv d \<in> set evs \<Longrightarrow> \<exists>x. logged be L x \<and> d = dg_echo x"
  shows "\<exists>k \<le> length ls. sh = concat (map (\<lambda>l. take (MAXLINE - SIZE_HDR) (line_of l)) (take k ls)) \<and> (r = CliReturns \<longleftrightarrow> k = length ls)"
  using assms
proof (induction ls arbitrary: evs s i sh)
  case Nil
  then show ?case by simp
next
  case (Cons l ls)
  have i: "i < length L" and l: "l = L ! i" and ls: "ls = drop (Suc i) L"
    using Cons.prems(4) by (metis drop_eq_Nil2 leI list.discI, metis nth_via_drop, metis drop_Suc list.sel(3) tl_drop)
  from Cons.prems(1) show ?case
  proof (cases rule: dg_cli_Cons_cases)
    case (reply m s1 evs1 sh1)
    obtain used where u: "evs = used @ evs1" and q: "sendseq s1 = word_of_nat (Suc i)"
      using call_spec [OF Cons.prems(2) reply(1)] Cons.prems(3) by (auto simp: sends_def add.commute)
    obtain tv d where d: "Dgram tv d \<in> set evs" "answers be (word_of_nat (Suc i)) d" "m = map char_of_byte (take MAXLINE (drop SIZE_HDR d))"
      and s1: "idle s1"
      using call_reply [OF reply(1)] Cons.prems(3) by (auto simp: add.commute)
    obtain x where x: "logged be L x" "d = dg_echo x"
      using Cons.prems(6) [OF d(1)] by blast
    have "cstr m = take (MAXLINE - SIZE_HDR) (line_of l)"
      using answer_is_line [OF x(1) _ i Cons.prems(5)] d(2,3) x(2) l by simp
    moreover obtain k where "k \<le> length ls" "sh1 = concat (map (\<lambda>l. take (MAXLINE - SIZE_HDR) (line_of l)) (take k ls))"
      "r = CliReturns \<longleftrightarrow> k = length ls"
      using Cons.IH [OF reply(2) s1 q ls Cons.prems(5)] Cons.prems(6) u by auto
    ultimately show ?thesis
      using reply(3) by (intro exI [of _ "Suc k"]) simp
  next
    case (stop x evs1)
    then show ?thesis
      by (intro exI [of _ 0]) auto
  qed
qed

text \<open>
  C23: The datagram client with its echo server.  However the network loses, delays, repeats and
  reorders, as long as what the client receives are echoes of datagrams it has sent, it shows the
  lines in order, each once, cut to what the buffer of the server holds beside the header; it
  shows them all when it returns.  An echo that comes late, after its line was sent again and
  answered, is never taken for the answer of another line.
\<close>

theorem dg_cli_shows_lines:
  assumes "dg_cli be ls evs dg_start = (r, shown, t)" and "length ls < 2 ^ 32"
    and "\<forall>tv d. Dgram tv d \<in> set evs \<longrightarrow> (\<exists>x \<in> set (dg_sent t). d = dg_echo x)"
  shows "\<exists>k \<le> length ls. shown = concat (map (\<lambda>l. take (MAXLINE - SIZE_HDR) (line_of l)) (take k ls)) \<and> (r = CliReturns \<longleftrightarrow> k = length ls)"
proof -
  have s: "sendseq dg_start = word_of_nat 0" "\<forall>x \<in> set (dg_sent dg_start). logged be ls x"
    by (simp_all add: dg_start_def)
  have "\<forall>x \<in> set (dg_sent t). logged be ls x"
    using cli_log [OF assms(1) idle_start s(1) _ s(2)] by simp
  then show ?thesis
    using cli_shown [OF assms(1) idle_start s(1) _ assms(2)] assms(3) by fastforce
qed

lemma sends_counts:
  assumes "sends be out m s t"
  shows "length (dg_sent t) = length (dg_sent s) + m \<and> length (dg_alarms t) = length (dg_alarms s) + m \<and>
    ((\<forall>a \<in> set (dg_alarms s). 2 \<le> sint a \<and> sint a \<le> 480) \<longrightarrow> (\<forall>a \<in> set (dg_alarms t). 2 \<le> sint a \<and> sint a \<le> 480))"
  using assms unfolding sends_def by auto

lemma cli_counts:
  assumes "dg_cli be ls evs s = (r, sh, t)" and "idle s" and "length (dg_alarms s) = length (dg_sent s)"
    and "\<forall>a \<in> set (dg_alarms s). 2 \<le> sint a \<and> sint a \<le> 480"
  shows "length (dg_sent t) \<le> length (dg_sent s) + 4 * length ls \<and> length (dg_alarms t) = length (dg_sent t) \<and>
    (\<forall>a \<in> set (dg_alarms t). 2 \<le> sint a \<and> sint a \<le> 480) \<and> (r = CliWaits \<longrightarrow> alarms_in evs < 4 * length ls)"
  using assms
proof (induction ls arbitrary: evs s sh)
  case Nil
  then show ?case by simp
next
  case (Cons l ls)
  from Cons.prems(1) show ?case
  proof (cases rule: dg_cli_Cons_cases)
    case (reply m s1 evs1 sh1)
    obtain n used where n: "evs = used @ evs1" "n \<le> 3" "sends be (line_of l) (Suc n) (dg_request (fst l) s) s1" "alarms_in used = n"
      using call_spec [OF Cons.prems(2) reply(1)] by auto
    have c: "length (dg_sent s1) = length (dg_sent s) + Suc n" "length (dg_alarms s1) = length (dg_sent s1)"
      "\<forall>a \<in> set (dg_alarms s1). 2 \<le> sint a \<and> sint a \<le> 480"
      using sends_counts [OF n(3)] Cons.prems(3,4) by simp_all
    have "idle s1"
      using call_reply [OF reply(1)] by simp
    from Cons.IH [OF reply(2) this c(2,3)] c(1) n(1,2,4) show ?thesis
      by auto
  next
    case (stop x evs1)
    obtain n used where n: "evs = used @ evs1" "n \<le> 3" "sends be (line_of l) (Suc n) (dg_request (fst l) s) t"
      "alarms_in used = n + (if x = TimedOut then 1 else 0)" "x = StillWaits \<longrightarrow> evs1 = []"
      using call_spec [OF Cons.prems(2) stop(1)] by blast
    then show ?thesis
      using sends_counts [OF n(3)] Cons.prems(3,4) stop(3) by auto
  qed
qed

text \<open>
  C24: The datagram client never waits without a timer and never for ever: each datagram it sends is
  followed by an alarm of two seconds to eight minutes, it sends at most four for each
  line, and it is still waiting only when fewer than four alarms for each line have fired.
\<close>

theorem dg_cli_timed:
  assumes "dg_cli be ls evs dg_start = (r, shown, t)"
  shows "length (dg_sent t) \<le> 4 * length ls \<and> length (dg_alarms t) = length (dg_sent t) \<and>
    (\<forall>a \<in> set (dg_alarms t). 2 \<le> sint a \<and> sint a \<le> 480) \<and> (r = CliWaits \<longrightarrow> alarms_in evs < 4 * length ls)"
  using cli_counts [OF assms idle_start] by (simp add: dg_start_def)

section \<open>A session with a retransmission and a late echo\<close>

definition time0 :: timeval where
  "time0 = \<lparr>tv_sec = 0, tv_usec = 0\<rparr>"

definition dg_demo_lines :: "(timeval \<times> timeval \<times> string) list" where
  "dg_demo_lines = [(time0, time0, ''a''), (time0, time0, ''b'')]"

definition dg_demo_events :: "dg_event list" where
  "dg_demo_events = [Alarm time0, Dgram time0 (dg_echo (hdr_bytes False 1 0 @ [97])),
     Dgram time0 (dg_echo (hdr_bytes False 1 0 @ [97])), Dgram time0 (dg_echo (hdr_bytes False 2 0 @ [98]))]"

lemma ts_simps [simp]:
  "lib_rtt_ts tv (lib_rtt_stop ms p) = lib_rtt_ts tv p" "lib_rtt_ts tv (lib_rtt_newpack p) = lib_rtt_ts tv p"
  "lib_rtt_ts tv (snd (lib_rtt_timeout p)) = lib_rtt_ts tv p" "lib_rtt_ts time0 (lib_rtt_init time0 p) = 0"
  by (simp_all add: lib_rtt_ts_def lib_rtt_stop_def lib_rtt_newpack_def lib_rtt_timeout_def lib_rtt_init_def time0_def Let_def)

lemma timeout_first: "fst (lib_rtt_timeout (lib_rtt_newpack p)) = 0"
  by (simp add: lib_rtt_timeout_def lib_rtt_newpack_def Let_def)

lemma demo_bytes:
  "byte_of_char CHR ''a'' = 97" "byte_of_char CHR ''b'' = 98" "char_of_byte 97 = CHR ''a''" "char_of_byte 98 = CHR ''b''"
  by code_simp+

lemma hdr_bytes_length [simp]: "length (hdr_bytes be q ts) = 8"
  by (simp add: hdr_bytes_def)

lemma demo_answers:
  "answers False seq (hdr_bytes False q ts @ d) \<longleftrightarrow> q = seq"
  "length d \<le> 100 \<Longrightarrow> dg_echo (hdr_bytes False q ts @ d) = hdr_bytes False q ts @ d"
  by (simp_all add: answers_def hdr_bytes_def dg_echo_def)

lemma cstr_letters: "cstr ''a'' = ''a''" "cstr ''b'' = ''b''"
  by (simp_all add: cstr_def)

lemma dg_demo_result:
  "\<exists>t. dg_cli False dg_demo_lines dg_demo_events dg_start = (CliReturns, ''ab'', t) \<and>
     dg_sent t = [hdr_bytes False 1 0 @ [97], hdr_bytes False 1 0 @ [97], hdr_bytes False 2 0 @ [98]]"
  by (simp add: dg_demo_lines_def dg_demo_events_def dg_send_recv_def dg_request_def dg_start_def sendagain_def
      timeout_first demo_bytes demo_answers cstr_letters Let_def case_prod_unfold)

theorem dg_send_recv_outcome_witness:
  "idle dg_start \<and> list_all (stale False (sendseq dg_start + 1)) [Alarm time0, Dgram time0 []] \<and>
   (\<exists>t. dg_send_recv False 10 time0 time0 ''a'' [Alarm time0, Dgram time0 []] dg_start = (StillWaits, t, []) \<and> length (dg_sent t) = 2)"
proof -
  have s: "\<forall>e \<in> set [Alarm time0, Dgram time0 []]. stale False (sendseq dg_start + 1) e"
    by (simp add: answers_def)
  have "\<exists>t. dg_send_recv False 10 time0 time0 ''a'' [Alarm time0, Dgram time0 []] dg_start = (StillWaits, t, []) \<and> length (dg_sent t) = 2"
    using dg_send_recv_outcome [OF idle_start s, of "''a''" 10 time0 time0] by (auto simp: dg_start_def)
  with s show ?thesis by simp
qed

theorem dg_cli_shows_lines_witness:
  "\<exists>t. dg_cli False dg_demo_lines dg_demo_events dg_start = (CliReturns, ''ab'', t) \<and>
     ''ab'' = concat (map (\<lambda>l. take (MAXLINE - SIZE_HDR) (line_of l)) dg_demo_lines)"
proof -
  obtain t where t: "dg_cli False dg_demo_lines dg_demo_events dg_start = (CliReturns, ''ab'', t)"
    "dg_sent t = [hdr_bytes False 1 0 @ [97], hdr_bytes False 1 0 @ [97], hdr_bytes False 2 0 @ [98]]"
    using dg_demo_result by blast
  have e: "\<forall>tv d. Dgram tv d \<in> set dg_demo_events \<longrightarrow> (\<exists>x \<in> set (dg_sent t). d = dg_echo x)"
    by (auto simp: dg_demo_events_def t(2))
  have "length dg_demo_lines < 2 ^ 32"
    by (simp add: dg_demo_lines_def)
  from dg_cli_shows_lines [OF t(1) this e] show ?thesis
    using t(1) by (intro exI [of _ t]) simp
qed

theorem dg_cli_timed_witness:
  "\<exists>t. dg_cli False dg_demo_lines dg_demo_events dg_start = (CliReturns, ''ab'', t) \<and> length (dg_alarms t) = 3 \<and>
     list_all (\<lambda>a. 2 \<le> sint a \<and> sint a \<le> 480) (dg_alarms t)"
proof -
  obtain t where t: "dg_cli False dg_demo_lines dg_demo_events dg_start = (CliReturns, ''ab'', t)" "length (dg_sent t) = 3"
    using dg_demo_result by auto
  then show ?thesis
    using dg_cli_timed [OF t(1)] by (auto simp: list_all_iff)
qed

text \<open>Only measurements are kept under \<open>RTT_RXTMAX\<close>; a timeout doubles past it.\<close>

lemma timeout_exceeds_max:
  assumes "l_rto p = 60"
  shows "l_rto (snd (lib_rtt_timeout p)) = 120"
  using assms fround_exact [of 120 24 "-149" 0] by (simp add: lib_rtt_timeout_def f32_def pow2_def Let_def)

end
