(* ===== verification/Thread_Pool.thy ===== *)
theory Thread_Pool
  imports Machine "HOL-Library.Multiset"
begin

text \<open>
  The server with a pool of threads of \<open>src/unpv13e/server/serv08.c\<close> and \<open>pthread08.c\<close>: the main
  thread accepts connections and puts them into a ring of \<open>MAXNCLI\<close> descriptors, the threads of
  the pool take them from there under a mutex and sleep on a condition variable while the ring
  is empty.  A critical section is one step; the service of a connection, \<open>web_child\<close>, is a
  second step of its thread.  Which sleeping thread a signal wakes is a choice of the system, and
  the system may wake a thread without a signal.
\<close>

section \<open>The ring and the threads\<close>

abbreviation MAXNCLI :: nat where "MAXNCLI \<equiv> 32"

text \<open>\<open>Ready\<close>: the thread is going to lock the mutex, at the head of its loop or after a wait.\<close>

datatype tstate = Ready | Asleep | Serving int

record Thread =
  thread_count :: int
  thread_state :: tstate

record tpool =
  clifd :: "int list"
  iget :: nat
  iput :: nat
  tptr :: "Thread list"
  t_accepted :: "int list"
  t_taken :: "int list"
  t_closed :: "int list"

definition thread_make :: Thread where
  "thread_make = \<lparr>thread_count = 0, thread_state = Ready\<rparr>"

definition tpool_start :: "nat \<Rightarrow> tpool" where
  "tpool_start nthreads = \<lparr>clifd = replicate MAXNCLI 0, iget = 0, iput = 0, tptr = replicate nthreads thread_make,
     t_accepted = [], t_taken = [], t_closed = []\<rparr>"

definition set_thread :: "nat \<Rightarrow> tstate \<Rightarrow> Thread list \<Rightarrow> Thread list" where
  "set_thread i x ts = ts[i := (ts ! i)\<lparr>thread_state := x\<rparr>]"

text \<open>\<open>w\<close> is the thread that the system prefers; a signal without a sleeping thread is lost.\<close>

definition cond_signal :: "nat \<Rightarrow> Thread list \<Rightarrow> Thread list" where
  "cond_signal w ts =
     (let j = (if w < length ts \<and> thread_state (ts ! w) = Asleep then w else first_idx (\<lambda>c. thread_state c = Asleep) ts)
      in if j < length ts then set_thread j Ready ts else ts)"

text \<open>The turn of the main thread after \<open>Accept\<close>; \<open>None\<close> is the exit when the ring is full.\<close>

definition main_put :: "int \<Rightarrow> nat \<Rightarrow> tpool \<Rightarrow> tpool option" where
  "main_put connfd w s =
     (let s1 = s\<lparr>clifd := (clifd s)[iput s := connfd], iput := iput s + 1, t_accepted := t_accepted s @ [connfd]\<rparr>;
          s2 = (if iput s1 = MAXNCLI then s1\<lparr>iput := 0\<rparr> else s1)
      in if iput s2 = iget s2 then None else Some (s2\<lparr>tptr := cond_signal w (tptr s2)\<rparr>))"

text \<open>The critical section of thread \<open>i\<close>, which ends in \<open>Pthread_cond_wait\<close> or with a descriptor.\<close>

definition thread_take :: "nat \<Rightarrow> tpool \<Rightarrow> tpool" where
  "thread_take i s =
     (if \<not> (i < length (tptr s) \<and> thread_state (tptr s ! i) = Ready) then s
      else if iget s = iput s then s\<lparr>tptr := set_thread i Asleep (tptr s)\<rparr>
      else let connfd = clifd s ! iget s;
               s1 = s\<lparr>iget := iget s + 1, t_taken := t_taken s @ [connfd]\<rparr>;
               s2 = (if iget s1 = MAXNCLI then s1\<lparr>iget := 0\<rparr> else s1)
           in s2\<lparr>tptr := (tptr s2)[i := \<lparr>thread_count = thread_count (tptr s2 ! i) + 1, thread_state = Serving connfd\<rparr>]\<rparr>)"

definition thread_close :: "nat \<Rightarrow> tpool \<Rightarrow> tpool" where
  "thread_close i s =
     (if i < length (tptr s) then
        (case thread_state (tptr s ! i) of
           Serving connfd \<Rightarrow> s\<lparr>tptr := set_thread i Ready (tptr s), t_closed := t_closed s @ [connfd]\<rparr>
         | _ \<Rightarrow> s)
      else s)"

text \<open>A wake-up without a signal.\<close>

definition thread_wakes :: "nat \<Rightarrow> tpool \<Rightarrow> tpool" where
  "thread_wakes i s =
     (if i < length (tptr s) \<and> thread_state (tptr s ! i) = Asleep then s\<lparr>tptr := set_thread i Ready (tptr s)\<rparr> else s)"

datatype tpool_op = Accepts int nat | Takes nat | Closes nat | Wakes nat

fun tpool_step :: "tpool_op \<Rightarrow> tpool \<Rightarrow> tpool option" where
  "tpool_step (Accepts connfd w) s = main_put connfd w s"
| "tpool_step (Takes i) s = Some (thread_take i s)"
| "tpool_step (Closes i) s = Some (thread_close i s)"
| "tpool_step (Wakes i) s = Some (thread_wakes i s)"

definition tpool_report :: "tpool \<Rightarrow> (nat \<times> int) list" where
  "tpool_report s = map (\<lambda>i. (i, thread_count (tptr s ! i))) [0..<length (tptr s)]"

section \<open>The ring is a queue\<close>

definition queued :: "nat \<Rightarrow> nat \<Rightarrow> nat" where
  "queued g p = (if g \<le> p then p - g else p + MAXNCLI - g)"

definition ring_of :: "int list \<Rightarrow> nat \<Rightarrow> nat \<Rightarrow> int list" where
  "ring_of cl g p = map (\<lambda>k. cl ! ((g + k) mod MAXNCLI)) [0..<queued g p]"

abbreviation ring :: "tpool \<Rightarrow> int list" where
  "ring s \<equiv> ring_of (clifd s) (iget s) (iput s)"

abbreviation bump :: "nat \<Rightarrow> nat" where
  "bump i \<equiv> if i + 1 = MAXNCLI then 0 else i + 1"

lemma ring_length [simp]: "length (ring_of cl g p) = queued g p"
  by (simp add: ring_of_def)

lemma queued_bounds: "g < MAXNCLI \<Longrightarrow> p < MAXNCLI \<Longrightarrow> queued g p < MAXNCLI"
  by (auto simp: queued_def)

lemma queued_zero: "g < MAXNCLI \<Longrightarrow> p < MAXNCLI \<Longrightarrow> queued g p = 0 \<longleftrightarrow> g = p"
  by (auto simp: queued_def)

lemma queued_full: "g < MAXNCLI \<Longrightarrow> p < MAXNCLI \<Longrightarrow> bump p = g \<longleftrightarrow> queued g p = 31"
  by (auto simp: queued_def)

lemma queued_put: "g < MAXNCLI \<Longrightarrow> p < MAXNCLI \<Longrightarrow> bump p \<noteq> g \<Longrightarrow> queued g (bump p) = Suc (queued g p)"
  by (auto simp: queued_def)

lemma queued_take: "g < MAXNCLI \<Longrightarrow> p < MAXNCLI \<Longrightarrow> g \<noteq> p \<Longrightarrow> queued g p = Suc (queued (bump g) p)"
  by (auto simp: queued_def)

lemma wrap_once: "x < 2 * MAXNCLI \<Longrightarrow> x mod MAXNCLI = (if x < MAXNCLI then x else x - MAXNCLI)"
  by (simp add: le_mod_geq)

lemma queued_slot:
  assumes "g < MAXNCLI" and "p < MAXNCLI"
  shows "(g + queued g p) mod MAXNCLI = p" and "k < queued g p \<Longrightarrow> p \<noteq> (g + k) mod MAXNCLI"
proof -
  show "(g + queued g p) mod MAXNCLI = p"
    using assms by (auto simp: queued_def)
  assume k: "k < queued g p"
  then have "g + k < 2 * MAXNCLI"
    using queued_bounds [OF assms] assms(1) by linarith
  from wrap_once [OF this] show "p \<noteq> (g + k) mod MAXNCLI"
    using k assms by (auto simp: queued_def split: if_splits)
qed

lemma ring_put:
  assumes "length cl = MAXNCLI" and "g < MAXNCLI" and "p < MAXNCLI" and "bump p \<noteq> g"
  shows "ring_of (cl[p := x]) g (bump p) = ring_of cl g p @ [x]"
  unfolding ring_of_def queued_put [OF assms(2-4)] upt_Suc
  using queued_slot [OF assms(2,3)] assms(1,3) by simp

lemma ring_take:
  assumes "g < MAXNCLI" and "p < MAXNCLI" and "g \<noteq> p"
  shows "ring_of cl g p = cl ! g # ring_of cl (bump g) p"
proof -
  have "(g + Suc k) mod MAXNCLI = (bump g + k) mod MAXNCLI" for k
    using assms(1) by (auto simp: mod_simps)
  then show ?thesis
    unfolding ring_of_def queued_take [OF assms] upt_conv_Cons [OF zero_less_Suc] map_Suc_upt [symmetric]
    using assms(1) by (simp add: comp_def)
qed

section \<open>The threads\<close>

abbreviation in_state :: "tstate \<Rightarrow> Thread list \<Rightarrow> nat" where
  "in_state x ts \<equiv> length (filter (\<lambda>c. thread_state c = x) ts)"

definition serving :: "Thread \<Rightarrow> int multiset" where
  "serving c = (case thread_state c of Serving f \<Rightarrow> {#f#} | _ \<Rightarrow> {#})"

definition tpool_inv :: "nat \<Rightarrow> tpool \<Rightarrow> bool" where
  "tpool_inv n s \<longleftrightarrow> length (clifd s) = MAXNCLI \<and> iget s < MAXNCLI \<and> iput s < MAXNCLI \<and> length (tptr s) = n \<and>
     t_accepted s = t_taken s @ ring s \<and> sum_list (map thread_count (tptr s)) = int (length (t_taken s)) \<and>
     mset (t_taken s) = mset (t_closed s) + sum_list (map serving (tptr s)) \<and>
     (0 < in_state Asleep (tptr s) \<longrightarrow> queued (iget s) (iput s) \<le> in_state Ready (tptr s))"

lemma set_thread_simps:
  assumes "i < length ts"
  shows "length (set_thread i x ts) = length ts" "sum_list (map thread_count (set_thread i x ts)) = sum_list (map thread_count ts)"
    and "in_state y (set_thread i x ts) + (if thread_state (ts ! i) = y then 1 else 0) = in_state y ts + (if x = y then 1 else 0)"
    and "sum_list (map serving (set_thread i x ts)) + serving (ts ! i) = sum_list (map serving ts) + serving ((ts ! i)\<lparr>thread_state := x\<rparr>)"
  using sum_list_update_comm [OF assms, of thread_count "(ts ! i)\<lparr>thread_state := x\<rparr>"] filter_length_update [OF assms, of "\<lambda>c. thread_state c = y" "(ts ! i)\<lparr>thread_state := x\<rparr>"]
    sum_list_update_comm [OF assms, of serving "(ts ! i)\<lparr>thread_state := x\<rparr>"]
  by (simp_all add: set_thread_def)

section \<open>Every step keeps the accounts\<close>

lemma serving_simps [simp]:
  "serving (c\<lparr>thread_state := Ready\<rparr>) = {#}" "serving (c\<lparr>thread_state := Asleep\<rparr>) = {#}"
  "thread_state c = Ready \<Longrightarrow> serving c = {#}" "thread_state c = Asleep \<Longrightarrow> serving c = {#}"
  "thread_state c = Serving f \<Longrightarrow> serving c = {#f#}"
  by (simp_all add: serving_def)

text \<open>A signal wakes exactly one thread when one sleeps, and changes nothing else.\<close>

lemma cond_signal_spec:
  "length (cond_signal w ts) = length ts \<and> sum_list (map thread_count (cond_signal w ts)) = sum_list (map thread_count ts) \<and>
   sum_list (map serving (cond_signal w ts)) = sum_list (map serving ts) \<and>
   (if 0 < in_state Asleep ts then in_state Ready (cond_signal w ts) = Suc (in_state Ready ts) else cond_signal w ts = ts)"
proof (cases "0 < in_state Asleep ts")
  case True
  define j where "j = (if w < length ts \<and> thread_state (ts ! w) = Asleep then w else first_idx (\<lambda>c. thread_state c = Asleep) ts)"
  have e: "\<exists>c \<in> set ts. thread_state c = Asleep"
    using True by (auto simp: filter_empty_conv)
  then have j: "j < length ts" and a: "thread_state (ts ! j) = Asleep"
    using first_idx_hit [of "\<lambda>c. thread_state c = Asleep" ts] by (auto simp: j_def first_idx_less_iff)
  have "cond_signal w ts = set_thread j Ready ts"
    using j by (simp add: cond_signal_def j_def Let_def)
  then show ?thesis
    using True a set_thread_simps(1,2,4) [OF j, where x = Ready] set_thread_simps(3) [OF j, where x = Ready and y = Ready] by simp
next
  case False
  then have n: "\<forall>c \<in> set ts. thread_state c \<noteq> Asleep"
    by (auto simp: filter_empty_conv)
  then have "first_idx (\<lambda>c. thread_state c = Asleep) ts = length ts"
    by (simp add: first_idx_full_iff)
  then have "cond_signal w ts = ts"
    using n by (auto simp: cond_signal_def Let_def)
  then show ?thesis
    using False by simp
qed

lemma main_put_eq:
  "main_put f w s = (if bump (iput s) = iget s then None
     else Some (s\<lparr>clifd := (clifd s)[iput s := f], iput := bump (iput s), t_accepted := t_accepted s @ [f], tptr := cond_signal w (tptr s)\<rparr>))"
  by (simp add: main_put_def Let_def)

lemma main_put_inv:
  assumes "tpool_inv n s" and "main_put f w s = Some t"
  shows "tpool_inv n t"
proof -
  have i: "length (clifd s) = MAXNCLI" "iget s < MAXNCLI" "iput s < MAXNCLI"
    using assms(1) by (simp_all add: tpool_inv_def)
  have b: "bump (iput s) \<noteq> iget s"
    and t: "t = s\<lparr>clifd := (clifd s)[iput s := f], iput := bump (iput s), t_accepted := t_accepted s @ [f], tptr := cond_signal w (tptr s)\<rparr>"
    using assms(2) unfolding main_put_eq by (auto split: if_splits)
  have "bump (iput s) < MAXNCLI"
    using i(3) by auto
  moreover have "ring t = ring s @ [f]" and "queued (iget t) (iput t) = Suc (queued (iget s) (iput s))"
    using ring_put [OF i b] queued_put [OF i(2,3) b] unfolding t by simp_all
  ultimately show ?thesis
    using assms(1) cond_signal_spec [of w "tptr s"] unfolding tpool_inv_def t by (auto split: if_splits)
qed

lemma thread_take_inv:
  assumes "tpool_inv n s"
  shows "tpool_inv n (thread_take i s)"
proof (cases "i < length (tptr s) \<and> thread_state (tptr s ! i) = Ready")
  case False
  then show ?thesis
    using assms by (auto simp: thread_take_def)
next
  case True
  then have i: "i < length (tptr s)" and r: "thread_state (tptr s ! i) = Ready"
    by simp_all
  have b: "length (clifd s) = MAXNCLI" "iget s < MAXNCLI" "iput s < MAXNCLI"
    using assms by (simp_all add: tpool_inv_def)
  show ?thesis
  proof (cases "iget s = iput s")
    case empty: True
    then show ?thesis
      using assms r i set_thread_simps(1,2,4) [OF i, where x = Asleep] set_thread_simps(3) [OF i, where x = Asleep and y = Ready] by (simp add: thread_take_def tpool_inv_def queued_def)
  next
    case False
    let ?f = "clifd s ! iget s"
    let ?c = "\<lparr>thread_count = thread_count (tptr s ! i) + 1, thread_state = Serving ?f\<rparr>"
    have t: "thread_take i s = s\<lparr>iget := bump (iget s), t_taken := t_taken s @ [?f], tptr := (tptr s)[i := ?c]\<rparr>"
      using True False by (simp add: thread_take_def Let_def)
    have "bump (iget s) < MAXNCLI"
      using b(2) by auto
    moreover have "ring s = ?f # ring_of (clifd s) (bump (iget s)) (iput s)" and "queued (iget s) (iput s) = Suc (queued (bump (iget s)) (iput s))"
      using ring_take [OF b(2,3) False] queued_take [OF b(2,3) False] by simp_all
    moreover have "in_state Ready (tptr s) = Suc (in_state Ready ((tptr s)[i := ?c]))" and "in_state Asleep ((tptr s)[i := ?c]) = in_state Asleep (tptr s)"
      using filter_length_update [OF i, of "\<lambda>c. thread_state c = Ready" ?c] filter_length_update [OF i, of "\<lambda>c. thread_state c = Asleep" ?c] r by simp_all
    moreover have "sum_list (map serving ((tptr s)[i := ?c])) = sum_list (map serving (tptr s)) + {#?f#}"
      and "sum_list (map thread_count ((tptr s)[i := ?c])) = sum_list (map thread_count (tptr s)) + 1"
      using sum_list_update_comm [OF i, of serving ?c] sum_list_update_comm [OF i, of thread_count ?c] r by simp_all
    ultimately show ?thesis
      using assms unfolding tpool_inv_def t by simp
  qed
qed

lemma thread_close_inv:
  assumes "tpool_inv n s"
  shows "tpool_inv n (thread_close i s)"
proof (cases "i < length (tptr s)")
  case True
  show ?thesis
  proof (cases "thread_state (tptr s ! i)")
    case (Serving f)
    then show ?thesis
      using assms True set_thread_simps(1,2,4) [OF True, where x = Ready] set_thread_simps(3) [OF True, where x = Ready and y = Ready] set_thread_simps(3) [OF True, where x = Ready and y = Asleep]
      by (auto simp: thread_close_def tpool_inv_def)
  qed (use assms in \<open>simp_all add: thread_close_def\<close>)
qed (use assms in \<open>simp add: thread_close_def\<close>)

lemma thread_wakes_inv:
  assumes "tpool_inv n s"
  shows "tpool_inv n (thread_wakes i s)"
proof (cases "i < length (tptr s) \<and> thread_state (tptr s ! i) = Asleep")
  case True
  then show ?thesis
    using assms set_thread_simps(1,2,4) [of i "tptr s" Ready] set_thread_simps(3) [where i = i and ts = "tptr s" and x = Ready and y = Ready]
      set_thread_simps(3) [where i = i and ts = "tptr s" and x = Ready and y = Asleep]
    by (auto simp: thread_wakes_def tpool_inv_def)
qed (use assms in \<open>auto simp: thread_wakes_def\<close>)

lemma sum_list_empties: "sum_list (replicate n {#}) = {#}"
  by (induction n) simp_all

lemma tpool_start_inv: "tpool_inv n (tpool_start n)"
  by (simp add: tpool_inv_def tpool_start_def thread_make_def ring_of_def queued_def map_replicate_const sum_list_replicate sum_list_empties serving_def)

interpretation thread_pool: guarded_machine tpool_step "\<lambda>_. True" "tpool_inv n" for n
proof
  fix s a t
  assume "tpool_inv n s" and "tpool_step a s = Some t"
  then show "tpool_inv n t"
    by (cases a) (auto intro: main_put_inv thread_take_inv thread_close_inv thread_wakes_inv)
qed

text \<open>
  C26: The pool of threads.  In every interleaving of the main thread and the threads of the pool,
  whichever thread a signal wakes: the connections are taken in the order in which they were
  accepted, and those not yet taken are in the ring; each one taken is with exactly one
  thread or closed; the counts of the threads add up to them; while a thread sleeps there is an
  awake one for each waiting connection, so no wake-up is lost; and accepting ends the server
  exactly when 31 connections wait.
\<close>

theorem thread_pool_serves_in_order:
  assumes "orun tpool_step ops (tpool_start n) = Some s"
  shows "t_accepted s = t_taken s @ ring s \<and> length (ring s) < MAXNCLI \<and>
    mset (t_taken s) = mset (t_closed s) + sum_list (map serving (tptr s)) \<and>
    sum_list (map thread_count (tptr s)) = int (length (t_taken s)) \<and>
    (in_state Asleep (tptr s) = 0 \<or> length (ring s) \<le> in_state Ready (tptr s)) \<and>
    (main_put f w s = None \<longleftrightarrow> length (ring s) = 31)"
proof -
  have i: "tpool_inv n s"
    using thread_pool.run_inv [OF tpool_start_inv _ assms] by simp
  then show ?thesis
    using queued_bounds [of "iget s" "iput s"] queued_full [of "iget s" "iput s"] unfolding tpool_inv_def main_put_eq by auto
qed

definition tpool_demo :: "tpool_op list" where
  "tpool_demo = [Takes 0, Takes 1, Accepts 7 1, Accepts 8 1, Takes 1, Takes 0, Accepts 9 0, Closes 1]"

lemma tpool_demo_result:
  "map_option (\<lambda>s. (t_taken s, t_accepted s, t_closed s)) (orun tpool_step tpool_demo (tpool_start 2)) = Some ([7, 8], [7, 8, 9], [7])"
  by code_simp

theorem thread_pool_serves_in_order_witness:
  "\<exists>s. orun tpool_step tpool_demo (tpool_start 2) = Some s \<and> t_taken s = [7, 8] \<and> t_accepted s = [7, 8, 9] \<and> ring s = [9]"
proof -
  obtain s where s: "orun tpool_step tpool_demo (tpool_start 2) = Some s" and t: "t_taken s = [7, 8]" "t_accepted s = [7, 8, 9]"
    using tpool_demo_result by auto
  have "t_accepted s = t_taken s @ ring s"
    using thread_pool_serves_in_order [OF s] by blast
  then show ?thesis
    using s t by simp
qed

end
