(* ===== verification/Net_Setup.thy ===== *)
theory Net_Setup
  imports Gai
begin

text \<open>
  The functions of \<open>src/unpv13e/lib\<close> that open sockets by name: \<open>tcp_connect\<close>, \<open>tcp_listen\<close>,
  \<open>udp_client\<close>, \<open>udp_connect\<close>, \<open>udp_server\<close> and \<open>host_serv\<close> on top of \<open>getaddrinfo\<close>, and the two
  ways to bound the time of a connection, \<open>connect_nonb\<close> and \<open>connect_timeo\<close>.  What the system answers
  is a parameter: \<open>k_socket\<close> gives the descriptor of each attempt, \<open>k_ok\<close> says whether its \<open>connect\<close> or
  \<open>bind\<close> succeeds.  The state is the table of open descriptors and the heap; \<open>None\<close> is the exit
  of \<open>err_quit\<close> and \<open>err_sys\<close>.
\<close>

section \<open>Sockets\<close>

datatype sock = Unbound | ConnectedTo "sockaddr option" | BoundTo "sockaddr option" bool | ListensAt "sockaddr option" bool

type_synonym socks = "int \<Rightarrow> sock option"

record kernel =
  k_socket :: "nat \<Rightarrow> int option"
  k_ok :: "nat \<Rightarrow> bool"

text \<open>
  The loop over the addresses: open a socket, connect or bind it (which makes it \<open>use ai\<close>), close it
  when that fails.  The result is the descriptor with its address, or \<open>None\<close> at the end of the list.
\<close>

fun try_each :: "kernel \<Rightarrow> (addrinfo \<Rightarrow> sock) \<Rightarrow> nat \<Rightarrow> addrinfo list \<Rightarrow> socks \<Rightarrow> (int \<times> addrinfo) option \<times> socks" where
  "try_each k use i [] m = (None, m)"
| "try_each k use i (ai # ais) m =
     (case k_socket k i of
        None \<Rightarrow> try_each k use (Suc i) ais m
      | Some sockfd \<Rightarrow>
          (let m1 = m(sockfd \<mapsto> Unbound)
           in if k_ok k i then (Some (sockfd, ai), m1(sockfd \<mapsto> use ai))
              else try_each k use (Suc i) ais (m1(sockfd := None))))"

text \<open>The loop of \<open>udp_client\<close> ends at the first socket.\<close>

fun first_socket :: "kernel \<Rightarrow> nat \<Rightarrow> addrinfo list \<Rightarrow> socks \<Rightarrow> (int \<times> addrinfo) option \<times> socks" where
  "first_socket k i [] m = (None, m)"
| "first_socket k i (ai # ais) m =
     (case k_socket k i of
        None \<Rightarrow> first_socket k (Suc i) ais m
      | Some sockfd \<Rightarrow> (Some (sockfd, ai), m(sockfd \<mapsto> Unbound)))"

definition setup_hints :: "cint \<Rightarrow> int \<Rightarrow> addrinfo" where
  "setup_hints flags socktype = zero_hints\<lparr>ai_flags := flags, ai_family := AF_UNSPEC, ai_socktype := socktype\<rparr>"

definition tcp_connect :: "resolver \<Rightarrow> kernel \<Rightarrow> string option \<Rightarrow> string option \<Rightarrow> socks \<times> heap \<Rightarrow> (int \<times> socks \<times> heap) option" where
  "tcp_connect env k hn sv s =
     (case getaddrinfo env hn sv (Some (setup_hints 0 SOCK_STREAM)) (snd s) of
        Some (Inr res, h1) \<Rightarrow>
          (case try_each k (\<lambda>ai. ConnectedTo (ai_addr ai)) 0 res (fst s) of
             (Some (sockfd, ai), m1) \<Rightarrow> Some (sockfd, m1, freeaddrinfo res h1)
           | (None, m1) \<Rightarrow> None)
      | _ \<Rightarrow> None)"

definition tcp_listen :: "resolver \<Rightarrow> kernel \<Rightarrow> string option \<Rightarrow> string option \<Rightarrow> socks \<times> heap \<Rightarrow> (int \<times> nat \<times> socks \<times> heap) option" where
  "tcp_listen env k hn sv s =
     (case getaddrinfo env hn sv (Some (setup_hints AI_PASSIVE SOCK_STREAM)) (snd s) of
        Some (Inr res, h1) \<Rightarrow>
          (case try_each k (\<lambda>ai. BoundTo (ai_addr ai) True) 0 res (fst s) of
             (Some (listenfd, ai), m1) \<Rightarrow>
               Some (listenfd, ai_addrlen ai, m1(listenfd \<mapsto> ListensAt (ai_addr ai) True), freeaddrinfo res h1)
           | (None, m1) \<Rightarrow> None)
      | _ \<Rightarrow> None)"

definition udp_client ::
  "resolver \<Rightarrow> kernel \<Rightarrow> string option \<Rightarrow> string option \<Rightarrow> socks \<times> heap \<Rightarrow> (int \<times> sockaddr option \<times> nat \<times> socks \<times> heap) option" where
  "udp_client env k hn sv s =
     (case getaddrinfo env hn sv (Some (setup_hints 0 SOCK_DGRAM)) (snd s) of
        Some (Inr res, h1) \<Rightarrow>
          (case first_socket k 0 res (fst s) of
             (Some (sockfd, ai), m1) \<Rightarrow>
               (case alloc h1 of
                  None \<Rightarrow> None
                | Some h2 \<Rightarrow> Some (sockfd, ai_addr ai, ai_addrlen ai, m1, freeaddrinfo res h2))
           | (None, m1) \<Rightarrow> None)
      | _ \<Rightarrow> None)"

definition udp_connect :: "resolver \<Rightarrow> kernel \<Rightarrow> string option \<Rightarrow> string option \<Rightarrow> socks \<times> heap \<Rightarrow> (int \<times> socks \<times> heap) option" where
  "udp_connect env k hn sv s =
     (case getaddrinfo env hn sv (Some (setup_hints 0 SOCK_DGRAM)) (snd s) of
        Some (Inr res, h1) \<Rightarrow>
          (case try_each k (\<lambda>ai. ConnectedTo (ai_addr ai)) 0 res (fst s) of
             (Some (sockfd, ai), m1) \<Rightarrow> Some (sockfd, m1, freeaddrinfo res h1)
           | (None, m1) \<Rightarrow> None)
      | _ \<Rightarrow> None)"

definition udp_server :: "resolver \<Rightarrow> kernel \<Rightarrow> string option \<Rightarrow> string option \<Rightarrow> socks \<times> heap \<Rightarrow> (int \<times> nat \<times> socks \<times> heap) option" where
  "udp_server env k hn sv s =
     (case getaddrinfo env hn sv (Some (setup_hints AI_PASSIVE SOCK_DGRAM)) (snd s) of
        Some (Inr res, h1) \<Rightarrow>
          (case try_each k (\<lambda>ai. BoundTo (ai_addr ai) False) 0 res (fst s) of
             (Some (sockfd, ai), m1) \<Rightarrow> Some (sockfd, ai_addrlen ai, m1, freeaddrinfo res h1)
           | (None, m1) \<Rightarrow> None)
      | _ \<Rightarrow> None)"

text \<open>\<open>host_serv\<close> returns the list or the null pointer; \<open>Host_serv\<close> exits instead.\<close>

definition host_serv :: "resolver \<Rightarrow> string option \<Rightarrow> string option \<Rightarrow> nat \<Rightarrow> int \<Rightarrow> heap \<Rightarrow> (addrinfo list option \<times> heap) option" where
  "host_serv env hn sv fam socktype h =
     (case getaddrinfo env hn sv (Some (zero_hints\<lparr>ai_flags := AI_CANONNAME, ai_family := fam, ai_socktype := socktype\<rparr>)) h of
        None \<Rightarrow> None
      | Some (Inl e, h1) \<Rightarrow> Some (None, h1)
      | Some (Inr res, h1) \<Rightarrow> Some (Some res, h1))"

definition Host_serv :: "resolver \<Rightarrow> string option \<Rightarrow> string option \<Rightarrow> nat \<Rightarrow> int \<Rightarrow> heap \<Rightarrow> (addrinfo list \<times> heap) option" where
  "Host_serv env hn sv fam socktype h =
     (case getaddrinfo env hn sv (Some (zero_hints\<lparr>ai_flags := AI_CANONNAME, ai_family := fam, ai_socktype := socktype\<rparr>)) h of
        Some (Inr res, h1) \<Rightarrow> Some (res, h1)
      | _ \<Rightarrow> None)"

section \<open>Connections with a limit on the time\<close>

text \<open>
  The answers of the system to \<open>connect\<close> on a nonblocking socket, to \<open>select\<close> and to \<open>getsockopt\<close>,
  where \<open>Inr e\<close> is the pending error, 0 for none; \<open>close\<close> leaves \<open>errno\<close> alone.
\<close>

datatype errno = EINTR | EINPROGRESS | ETIMEDOUT | Errno nat

datatype conn_answer = ConnDone | ConnError errno

datatype sel_answer = SelTimeout | SelReady bool bool

record conn_fd =
  c_flags :: cint
  c_open :: bool
  c_errno :: errno

abbreviation O_NONBLOCK :: cint where "O_NONBLOCK \<equiv> 128"

text \<open>From the label \<open>done\<close>.\<close>

definition conn_finish :: "cint \<Rightarrow> nat \<Rightarrow> conn_fd \<Rightarrow> int \<times> conn_fd" where
  "conn_finish flags error s =
     (let s1 = s\<lparr>c_flags := flags\<rparr>
      in if error \<noteq> 0 then (-1, s1\<lparr>c_open := False, c_errno := Errno error\<rparr>) else (0, s1))"

text \<open>\<open>None\<close> is \<open>err_quit\<close>, or, with \<open>nsec\<close> 0, a \<open>select\<close> that waits for ever.\<close>

definition connect_nonb :: "conn_answer \<Rightarrow> sel_answer \<Rightarrow> errno + nat \<Rightarrow> nat \<Rightarrow> conn_fd \<Rightarrow> (int \<times> conn_fd) option" where
  "connect_nonb ca sa ga nsec s =
     (let flags = c_flags s; s1 = s\<lparr>c_flags := or flags O_NONBLOCK\<rparr> in
      case ca of
        ConnDone \<Rightarrow> Some (conn_finish flags 0 s1)
      | ConnError e \<Rightarrow>
          let s2 = s1\<lparr>c_errno := e\<rparr> in
          if e \<noteq> EINPROGRESS then Some (-1, s2)
          else (case sa of
                  SelTimeout \<Rightarrow> if nsec = 0 then None else Some (-1, s2\<lparr>c_open := False, c_errno := ETIMEDOUT\<rparr>)
                | SelReady r w \<Rightarrow>
                    if r \<or> w then
                      (case ga of
                         Inl e1 \<Rightarrow> Some (-1, s2\<lparr>c_errno := e1\<rparr>)
                       | Inr error \<Rightarrow> Some (conn_finish flags error s2))
                    else None))"

text \<open>The state of the process that \<open>connect_timeo\<close> uses: the handler of \<open>SIGALRM\<close>, the alarm, \<open>errno\<close>.\<close>

record conn_proc =
  p_handler :: string
  p_alarm :: nat
  p_errno :: errno
  p_open :: bool

definition connect_timeo :: "conn_answer \<Rightarrow> nat \<Rightarrow> conn_proc \<Rightarrow> int \<times> conn_proc" where
  "connect_timeo ca nsec s =
     (let sigfunc = p_handler s;
          s1 = s\<lparr>p_handler := ''connect_alarm'', p_alarm := nsec\<rparr>;
          (n, s2) = (case ca of
              ConnDone \<Rightarrow> (0, s1)
            | ConnError e \<Rightarrow> (-1, s1\<lparr>p_open := False, p_errno := (if e = EINTR then ETIMEDOUT else e)\<rparr>))
      in (n, s2\<lparr>p_alarm := 0, p_handler := sigfunc\<rparr>))"

section \<open>The first address that works\<close>

definition good :: "kernel \<Rightarrow> nat \<Rightarrow> bool" where
  "good k i \<longleftrightarrow> k_socket k i \<noteq> None \<and> k_ok k i"

text \<open>The system gives out descriptors that are not in use.\<close>

definition unused :: "kernel \<Rightarrow> socks \<Rightarrow> bool" where
  "unused k m \<longleftrightarrow> (\<forall>i fd. k_socket k i = Some fd \<longrightarrow> m fd = None)"

lemma try_each_spec:
  assumes "unused k m"
  shows "try_each k use i ais m =
    (let j = first_idx (good k) [i..<i + length ais] in
     if j = length ais then (None, m)
     else (Some (the (k_socket k (i + j)), ais ! j), m(the (k_socket k (i + j)) \<mapsto> use (ais ! j))))"
proof (induction ais arbitrary: i)
  case Nil
  then show ?case by simp
next
  case (Cons ai ais)
  have u: "[i..<i + length (ai # ais)] = i # [Suc i..<Suc i + length ais]"
    by (subst upt_conv_Cons) simp_all
  show ?case
  proof (cases "good k i")
    case True
    then show ?thesis
      unfolding u by (auto simp: good_def Let_def)
  next
    case False
    have "try_each k use i (ai # ais) m = try_each k use (Suc i) ais m"
    proof (cases "k_socket k i")
      case (Some fd)
      then have "m(fd := None) = m"
        using assms by (simp add: unused_def fun_upd_idem)
      then show ?thesis
        using Some False by (simp add: good_def Let_def)
    qed simp
    then show ?thesis
      using Cons.IH [of "Suc i"] False unfolding u by (simp add: Let_def)
  qed
qed

lemma getaddrinfo_freed:
  assumes "getaddrinfo env (Some hn) sv hintsp h = Some (Inr ais, h1)" and "inet_only env" and "hn \<noteq> ''/local''" and "hn \<noteq> ''/unix''"
  shows "h_live (freeaddrinfo ais h1) = h_live h"
proof -
  let ?hints = "case hintsp of None \<Rightarrow> zero_hints | Some hi \<Rightarrow> hi"
  have "ga_inet env (Some hn) sv ?hints h = Some (Inr ais, h1)"
    using assms(1,3,4) by (auto simp: getaddrinfo_def bad_def Let_def split: option.splits)
  from ga_inet_owned [OF assms(2) this] show ?thesis
    by (simp add: freeaddrinfo_live)
qed

text \<open>Where the addresses of a host are: one structure for each, when the service has one socket type.\<close>

lemma setup_addresses:
  assumes "hn \<noteq> []" and "hn \<noteq> ''/local''" and "hn \<noteq> ''/unix''" and "sn \<noteq> []" and "sized_hosts env" and "inet_only env"
    and "fas = addrs_of env \<lparr>host = hn, family = AF_INET6\<rparr> @ addrs_of env \<lparr>host = hn, family = AF_INET\<rparr>" and "4 * length fas \<le> h_left h"
    and "ga_calls env (setup_hints 0 st) sn = [(st, port)]" and "fas \<noteq> []"
  shows "\<exists>ais h1. getaddrinfo env (Some hn) (Some sn) (Some (setup_hints 0 st)) h = Some (Inr ais, h1) \<and>
    map ai_addr ais = map (\<lambda>fa. Some (sock_of fa port)) fas \<and> h_live (freeaddrinfo ais h1) = h_live h"
proof -
  have z: "ai_family (setup_hints 0 st) = AF_UNSPEC" "ai_flags (setup_hints 0 st) = 0"
    by (simp_all add: setup_hints_def)
  obtain ais h1 where g: "getaddrinfo env (Some hn) (Some sn) (Some (setup_hints 0 st)) h = Some (Inr ais, h1)"
    and v: "map view ais = pairs fas [(st, port)]"
    using gai_pairs [OF assms(1-5) z assms(7,8)] assms(9,10) by auto
  have "map ai_addr ais = map snd (map view ais)"
    by (simp add: view_def comp_def)
  also have "\<dots> = map (\<lambda>fa. Some (sock_of fa port)) fas"
    unfolding v pairs_def by (induction fas) simp_all
  finally show ?thesis
    using g getaddrinfo_freed [OF g assms(6,2,3)] by blast
qed

text \<open>
  C27: \<open>tcp_connect\<close> from the name to the connection.  The addresses of the host are tried in the
  order of \<open>getaddrinfo\<close>, the IPv6 ones first, each with the port of the service; the result is the
  descriptor of the first attempt whose socket can be had and whose \<open>connect\<close> succeeds, connected to
  that address.  The sockets of the other attempts are closed and the list is freed: neither a
  descriptor nor a block of memory is lost.  The process ends when no attempt succeeds.
\<close>

theorem tcp_connect_first_address:
  assumes "hn \<noteq> []" and "hn \<noteq> ''/local''" and "hn \<noteq> ''/unix''" and "sn \<noteq> []" and "sized_hosts env" and "inet_only env"
    and "fas = addrs_of env \<lparr>host = hn, family = AF_INET6\<rparr> @ addrs_of env \<lparr>host = hn, family = AF_INET\<rparr>" and "4 * length fas \<le> h_left h"
    and "ga_calls env (setup_hints 0 SOCK_STREAM) sn = [(SOCK_STREAM, port)]" and "fas \<noteq> []" and "unused k m"
  shows "if \<exists>i < length fas. good k i
    then \<exists>fd h1. tcp_connect env k (Some hn) (Some sn) (m, h) =
        Some (fd, m(fd \<mapsto> ConnectedTo (Some (sock_of (fas ! first_idx (good k) [0..<length fas]) port))), h1) \<and>
      k_socket k (first_idx (good k) [0..<length fas]) = Some fd \<and> h_live h1 = h_live h
    else tcp_connect env k (Some hn) (Some sn) (m, h) = None"
proof -
  obtain ais h1 where g: "getaddrinfo env (Some hn) (Some sn) (Some (setup_hints 0 SOCK_STREAM)) h = Some (Inr ais, h1)"
    and a: "map ai_addr ais = map (\<lambda>fa. Some (sock_of fa port)) fas" and h: "h_live (freeaddrinfo ais h1) = h_live h"
    using setup_addresses [OF assms(1-10)] by blast
  have l: "length ais = length fas"
    using a by (metis length_map)
  let ?j = "first_idx (good k) [0..<length fas]"
  have e: "(?j < length fas) = (\<exists>i < length fas. good k i)"
    using first_idx_less_iff [of "good k" "[0..<length fas]"] by auto
  show ?thesis
  proof (cases "\<exists>i < length fas. good k i")
    case True
    then have j: "?j < length fas" and "good k ([0..<length fas] ! ?j)"
      using e first_idx_hit [of "good k" "[0..<length fas]"] by auto
    then have "good k ?j"
      by simp
    moreover have "ai_addr (ais ! ?j) = Some (sock_of (fas ! ?j) port)"
      using j l a by (metis (mono_tags, lifting) nth_map)
    ultimately show ?thesis
      using True j g h l by (auto simp: tcp_connect_def try_each_spec [OF assms(11)] Let_def good_def)
  next
    case False
    then have "?j = length fas"
      using first_idx_full_iff [of "good k" "[0..<length fas]"] by simp
    then show ?thesis
      using False g l by (simp add: tcp_connect_def try_each_spec [OF assms(11)] Let_def)
  qed
qed

text \<open>
  The socket of a server is bound to the first address that can be had, with \<open>SO_REUSEADDR\<close> set
  before, and listens there; the others are closed.
\<close>

lemma tcp_listen_first_address:
  assumes "getaddrinfo env hn sv (Some (setup_hints AI_PASSIVE SOCK_STREAM)) h = Some (Inr ais, h1)" and "unused k m"
    and "i < length ais" and "good k i" and "\<forall>j < i. \<not> good k j"
  shows "\<exists>fd. k_socket k i = Some fd \<and> tcp_listen env k hn sv (m, h) =
    Some (fd, ai_addrlen (ais ! i), m(fd \<mapsto> ListensAt (ai_addr (ais ! i)) True), freeaddrinfo ais h1)"
proof -
  have "first_idx (good k) [0..<length ais] = i"
    using assms(3-5) by (intro first_idx_eqI) simp_all
  then show ?thesis
    using assms by (auto simp: tcp_listen_def try_each_spec good_def Let_def)
qed

section \<open>Connections with a limit on the time\<close>

text \<open>
  \<open>connect_nonb\<close> reports success exactly when the connection is made, at once or with no error
  pending after the wait; then the socket is open and has its flags back.
\<close>

lemma connect_nonb_result:
  assumes "connect_nonb ca sa ga nsec s = Some (n, t)" and "c_open s"
  shows "n = 0 \<or> n = -1" and "n = 0 \<longleftrightarrow> ca = ConnDone \<or> ca = ConnError EINPROGRESS \<and> (\<exists>r w. sa = SelReady r w \<and> (r \<or> w)) \<and> ga = Inr 0"
    and "n = 0 \<Longrightarrow> c_flags t = c_flags s \<and> c_open t"
  using assms by (auto simp: connect_nonb_def conn_finish_def Let_def split: conn_answer.splits sel_answer.splits sum.splits if_splits)

text \<open>A failure that is reported at once, or by \<open>getsockopt\<close> itself, leaves the socket open and nonblocking.\<close>

lemma connect_nonb_keeps_nonblocking:
  shows "e \<noteq> EINPROGRESS \<Longrightarrow> connect_nonb (ConnError e) sa ga nsec s = Some (-1, s\<lparr>c_flags := or (c_flags s) O_NONBLOCK, c_errno := e\<rparr>)"
    and "connect_nonb (ConnError EINPROGRESS) (SelReady True w) (Inl e) nsec s = Some (-1, s\<lparr>c_flags := or (c_flags s) O_NONBLOCK, c_errno := e\<rparr>)"
  by (simp_all add: connect_nonb_def Let_def)

text \<open>\<open>connect_timeo\<close> leaves no alarm and the handler as it was, and reports an interruption as a timeout.\<close>

lemma connect_timeo_result:
  assumes "connect_timeo ca nsec s = (n, t)"
  shows "p_alarm t = 0 \<and> p_handler t = p_handler s \<and> (n = 0 \<longleftrightarrow> ca = ConnDone) \<and>
    (ca = ConnError EINTR \<longrightarrow> n = -1 \<and> p_errno t = ETIMEDOUT \<and> \<not> p_open t)"
  using assms by (auto simp: connect_timeo_def Let_def split: conn_answer.splits)

section \<open>A host with two addresses, the first of them unreachable\<close>

definition second_works :: kernel where
  "second_works = \<lparr>k_socket = (\<lambda>i. if i < 10 then Some (3 + int i) else None), k_ok = (\<lambda>i. i = 1)\<rparr>"

theorem tcp_connect_first_address_witness:
  "\<exists>h1. tcp_connect demo_env second_works (Some ''minix'') (Some ''daytime'') (Map.empty, heap_of 8) =
     Some (4, [4 \<mapsto> ConnectedTo (Some (SIn \<lparr>sin_family = AF_INET, sin_port = 3328, sin_addr = (130, 245, 1, 3)\<rparr>))], h1) \<and> h_live h1 = 0"
proof -
  have l: "literal ''minix'' = None"
    by code_simp
  let ?fas = "[(AF_INET, [130, 245, 1, 2 :: u8]), (AF_INET, [130, 245, 1, 3])]"
  have a: "?fas = addrs_of demo_env \<lparr>host = ''minix'', family = AF_INET6\<rparr> @ addrs_of demo_env \<lparr>host = ''minix'', family = AF_INET\<rparr>"
    by (simp add: addrs_of_def l) (simp add: demo_env_def)
  have c: "ga_calls demo_env (setup_hints 0 SOCK_STREAM) ''daytime'' = [(SOCK_STREAM, 3328)]"
    by (simp add: ga_calls_def setup_hints_def demo_env_def is_digit_def)
  have g: "good second_works i \<longleftrightarrow> i = 1" for i
    by (auto simp: good_def second_works_def)
  have u: "[0..<length ?fas] = [0, 1]"
    by (simp add: upt_rec)
  have f: "first_idx (good second_works) [0..<length ?fas] = 1" and e: "\<exists>i < length ?fas. good second_works i"
    unfolding u by (simp_all add: g)
  have "unused second_works Map.empty" and "4 * length ?fas \<le> h_left (heap_of 8)"
    by (simp_all add: unused_def heap_of_def)
  from tcp_connect_first_address [OF _ _ _ _ resolver_demo_ok(2,1) a this(2) c _ this(1)] e f show ?thesis
    by (auto simp: second_works_def sock_of_def heap_of_def)
qed

end
