(* ===== verification/Spec2Isabelle.thy ===== *)
theory Spec2Isabelle
  imports Rdt_System Odr_App Tour_Props Echo_Clients Kd_Apps Lib_Io Gai Nonblock Mux_Servers Prefork Dg_Rtt Thread_Pool
    Net_Setup
begin

text \<open>
  A verification library for the network programs under \<open>src/\<close>: an echo and time service over
  TCP (\<open>src/Assignment1\<close>), a reliable file transfer over UDP (\<open>src/hw2\<close>), an on-demand router over
  link-layer frames with a time service on top of it (\<open>src/hw3\<close>), address resolution and a tour of
  hosts with pings over raw sockets (\<open>src/hw4\<close>), and the functions of the textbook library
  (\<open>src/unpv13e\<close>) that they are built on.

  \<^bold>\<open>Conventions.\<close>  A C \<open>int\<close> and a \<open>uint32_t\<close> are 32-bit words, read with \<open>sint\<close> or \<open>unat\<close> where the
  source compares or indexes.  A structure is a record, an enumeration a datatype, a character
  array a list of all its characters, read as a C string through \<open>cstr\<close>.  A function that can
  leave an array, follow a null pointer or end the process returns an \<open>option\<close>; \<open>None\<close> is that
  case, or a call that never returns where the text of the definition says so.  Sockets, files, the
  clock, the random numbers, the data base of hosts and uninitialised memory are parameters:
  what a process meets is a list of events, what it sends is part of its state.  Threads are
  interleaved steps on one state.

  \<^bold>\<open>Foundations.\<close>  \<open>Prelude\<close> holds the types, arrays with bounds, strings, numerals and tables that
  the components share.  \<open>Machine\<close> holds the interfaces: \<open>op_machine\<close>, \<open>guarded_machine\<close> and
  \<open>safe_machine\<close> for components that keep an invariant, \<open>merge_table\<close> for tables that refine a
  map, \<open>ranked_machine\<close> for changes that happen only so often.  \<open>Readline\<close> adds \<open>line_reader\<close>, the
  contract of a source of lines.  Each is interpreted on the definitions of the programs.
  \<open>Cfloat\<close> is C floating point as rationals with IEEE rounding.

  \<^bold>\<open>File transfer.\<close>  \<open>Rtt\<close> is the timer of \<open>src/hw2/rtt.c\<close>; \<open>Udp\<close> the packets and address tests of
  \<open>src/hw2/common.c\<close>; \<open>Ifi\<close> the interface list of \<open>src/hw2/get_ifi_info_plus.c\<close>, its printing
  program and the address table; \<open>Rdt_Client\<close> and \<open>Rdt_Server\<close> are \<open>src/hw2/client.c\<close> and
  \<open>src/hw2/server.c\<close>; \<open>Rdt_System\<close> puts the two together.  Shown: the timeout stays in its bounds;
  packets survive the trip through bytes; the receiver prints the words of the file in order over
  a network that loses, repeats, reorders and delays; when the sender finishes, the receiver has every
  word; a late alarm of the sender jumps into a frame that is gone; the interface list is complete.

  \<^bold>\<open>Router.\<close>  \<open>Hw_Addrs\<close> is \<open>src/hw3/get_hw_addrs.c\<close> and what is built on it; \<open>Odr_Table\<close> the frames
  and the routing table of \<open>src/hw3/common.c\<close>; \<open>Odr\<close> the process of \<open>src/hw3/odr.c\<close>; \<open>Odr_App\<close> the
  time client and server \<open>src/hw3/client.c\<close> and \<open>src/hw3/server.c\<close>; \<open>Odr_Routes\<close> holds the
  properties.  Shown: the table stays well-formed and refines a map from addresses to routes; a
  node repeats the requests of a host only so often; replies travel back along the requests; a
  request between two neighbours is answered; and which frame makes a node read before its table.
  \<open>Kd_Apps\<close> is the exercise under \<open>src/hw3/kdhw3\<close>, whose messages never arrive.

  \<^bold>\<open>Address resolution and tour.\<close>  \<open>Arp\<close> is \<open>src/hw4/arp.c\<close> with the client side \<open>areq\<close> of
  \<open>src/hw4/common.c\<close>; \<open>Arp_Resolve\<close> its properties: resolution from end to end, the cache as a map,
  and how a waiting client loses its answer.  \<open>Tour\<close> is \<open>src/hw4/tour.c\<close> with \<open>in_cksum\<close>, \<open>tv_sub\<close> and
  \<open>sock_ntop\<close> of the library; \<open>Tour_Props\<close> its properties: a tour visits its hosts in order, the
  checksum is the ones-complement sum, pings carry valid checksums and are reported with their
  times, and the ping thread reads only elements of the shared list that are filled unless it runs
  while one is being added, which nothing in the program prevents.  The length of the array of
  pointers, which the source leaves out, is a parameter.  The directory
  \<open>src/hw4/submit_files\<close> holds the same programs again.

  \<^bold>\<open>Echo and time service.\<close>  \<open>Readline\<close> models both versions of \<open>readline\<close>; \<open>Echo_Server\<close> is
  \<open>src/Assignment1/code/tcpechotimesrv.c\<close>, and \<open>Echo_Clients\<close> are the clients and the menu beside it.
  Shown: \<open>readline\<close> returns the next line however the network cuts it; a connection whose thread has
  got its own descriptor is echoed byte by byte and comes to its end; a session shows each
  line and each time in order; and where the shared variable of the threads, the shared buffer
  of \<open>readline\<close> and the exit on errors break the service.

  \<^bold>\<open>Address text.\<close>  \<open>Inet_Text\<close> models the conversions between addresses and text under
  \<open>src/unpv13e/libfree\<close>.  Shown: \<open>inet_pton4\<close> accepts exactly the dotted quads; what is printed for
  an IPv6 address is read back as that address, and the usual array has room for it; \<open>inet_aton\<close>
  agrees on the dotted quads but takes more texts; and a superfluous double colon clears bytes.

  \<^bold>\<open>Names and addresses.\<close>  \<open>Gai\<close> models \<open>getaddrinfo\<close>, \<open>freeaddrinfo\<close> and \<open>getnameinfo\<close> of
  \<open>src/unpv13e/libgai\<close> over data bases that are a parameter, with each allocation that can fail.
  Shown: the result has one structure per address and socket type, in order; an address
  survives the trip through its numeric name; outside the names for local sockets nothing is lost on
  errors but a canonical name.
  \<open>Net_Setup\<close> models the functions of \<open>src/unpv13e/lib\<close> that open sockets by name on top of it.  Shown:
  \<open>tcp_connect\<close> ends with the first address that works and loses neither descriptors nor memory;
  \<open>connect_nonb\<close> reports success exactly on a connection that is made.

  \<^bold>\<open>Library input and output.\<close>  \<open>Lib_Io\<close> models \<open>readn\<close>, \<open>writen\<close>, \<open>str_echo\<close>, \<open>str_cli\<close> and the functions
  on socket addresses under \<open>src/unpv13e/lib\<close>.  Shown: bytes written by \<open>writen\<close> are read by \<open>readn\<close>
  however the kernel cuts and interrupts the calls; the echo server sends back what it gets, and
  the echo client shows each answer in order.

  \<^bold>\<open>Servers and clients of the textbook.\<close>  \<open>Nonblock\<close> is the echo client with nonblocking descriptors of
  \<open>src/unpv13e/nonblock/strclinonb.c\<close>; \<open>Mux_Servers\<close> the echo servers over \<open>select\<close> and over \<open>poll\<close> of
  \<open>src/unpv13e/tcpcliserv\<close>, with the locales \<open>multiplexer\<close> and \<open>slot_table\<close> for what they share;
  \<open>Prefork\<close> the server of \<open>src/unpv13e/server/serv05.c\<close> whose parent passes connections to its
  children.  Shown: the client neither loses nor reorders what it sends, and sends its FIN once,
  when all is sent, but may end with data it has not shown; both servers echo each connection and
  agree with each other; every accepted connection is with exactly one child or served.
  \<open>Dg_Rtt\<close> is the datagram exchange with retransmission of \<open>src/unpv13e/rtt\<close> on the timer of
  \<open>src/unpv13e/lib/rtt.c\<close>.  Shown: a call returns only the answer of its own request and gives up
  after four transmissions; the client shows its lines in order over a network that loses, delays
  and repeats; and it never waits without an alarm of two seconds to eight minutes.
  \<open>Thread_Pool\<close> is the server of \<open>src/unpv13e/server/serv08.c\<close> whose threads take connections from a
  ring.  Shown: the ring is a queue, each connection is taken once and in order, no wake-up is
  lost, and 31 waiting connections end the server.

  \<^bold>\<open>Bounds and fuel.\<close>  The loops over arrays and lists are structural; the loop of \<open>str_echo\<close>
  decreases what its descriptor still delivers.  The loop that sizes the buffer for the interface list takes fuel, and a kernel with \<open>n\<close> entries is served within \<open>n\<close>
  plus a few rounds, which the completeness theorem states.  Loops that wait for the network
  consume a list of events, so a run is finite and every property is about all finite runs.

  \<^bold>\<open>Not modelled.\<close>  The wrappers of \<open>src/unpv13e/lib\<close> that call the operating system and exit on
  failure are part of the models of their callers; the remaining programs of
  \<open>src/unpv13e\<close> are short examples of the textbook around one call of the operating system each, or
  variants of the ones modelled, and are not used by the programs above.  Messages for the operator are
  left out where they do not carry data.  \<open>Makefile\<close>s, shell scripts and binaries are not code
  of the programs.  Scheduling within a critical section, signals other than those
  named in the models, memory orders weaker than the interleaving of steps, and the contents of memory after an access outside an array are beyond
  what the models describe; such an access is \<open>None\<close>.
\<close>

end
